(* ===== verification/Ldms_Prelude.thy ===== *)
theory Ldms_Prelude
  imports Main "HOL-Library.Word"
begin

text \<open>
  Shared vocabulary of the development: the machine integer types of the Rust sources, the
  checked, saturating and narrowing operations of the Rust core library that the sources use, the
  fallible state-passing functions that stand for Rust's \<open>fn f(&mut self) -> Result<T, E>\<close>, the
  big-endian byte order of CBOR, and the list facts the components share.

  Unsigned and signed machine integers are both \<open>'n word\<close> values of their width; a signed value is
  read with \<open>sint\<close>. \<open>usize\<close> is \<open>nat\<close> and its 64-bit bound is written out
  wherever the code checks it.
\<close>

unbundle bit_operations_syntax

named_theorems run_simps \<open>equations that run the fallible state-passing combinators\<close>
named_theorems be_simps \<open>big-endian byte strings\<close>

type_synonym u8 = "8 word"
type_synonym u16 = "16 word"
type_synonym u32 = "32 word"
type_synonym u64 = "64 word"
type_synonym u128 = "128 word"
type_synonym i8 = "8 word"
type_synonym i16 = "16 word"
type_synonym i32 = "32 word"
type_synonym i64 = "64 word"
type_synonym i128 = "128 word"
type_synonym f32 = "32 word"
type_synonym f64 = "64 word"
type_synonym usize = nat
type_synonym bytes = "u8 list"

section \<open>Checked and saturating arithmetic\<close>

definition usize_bound :: nat where
  "usize_bound = 2 ^ 64"

definition checked_add :: "usize \<Rightarrow> usize \<Rightarrow> usize option" where
  "checked_add a b = (if a + b < usize_bound then Some (a + b) else None)"

definition sat_add :: "u64 \<Rightarrow> u64 \<Rightarrow> u64" where
  "sat_add x y = (if unat x + unat y < 2 ^ 64 then x + y else - 1)"

definition sat_mul :: "u64 \<Rightarrow> u64 \<Rightarrow> u64" where
  "sat_mul x y = (if unat x * unat y < 2 ^ 64 then x * y else - 1)"

definition sat_sub :: "u64 \<Rightarrow> u64 \<Rightarrow> u64" where
  "sat_sub x y = (if y \<le> x then x - y else 0)"

text \<open>\<open>TryFrom\<close> between unsigned widths, and from an unsigned value to a signed type.\<close>

definition try_unsigned :: "'a::len word \<Rightarrow> 'b::len word option" where
  "try_unsigned x = (if unat x < 2 ^ LENGTH('b) then Some (ucast x) else None)"

definition try_signed :: "'a::len word \<Rightarrow> 'b::len word option" where
  "try_signed x = (if unat x < 2 ^ (LENGTH('b) - 1) then Some (ucast x) else None)"

text \<open>\<open>TryFrom\<close> between signed widths.\<close>

definition try_signed_signed :: "'a::len word \<Rightarrow> 'b::len word option" where
  "try_signed_signed x =
     (if - (2 ^ (LENGTH('b) - 1)) \<le> sint x \<and> sint x < 2 ^ (LENGTH('b) - 1)
      then Some (word_of_int (sint x)) else None)"

lemma unat_lt: "unat (x :: 'a::len word) < 2 ^ LENGTH('a)"
  by (rule unsigned_less)

lemma sat_add_exact: "unat x + unat y < 2 ^ 64 \<Longrightarrow> unat (sat_add x y) = unat x + unat y"
  by (simp add: sat_add_def unat_word_ariths)

lemma sat_sub_exact: "unat (sat_sub x y) = unat x - unat y"
  by (auto simp: sat_sub_def unat_sub word_le_nat_alt)

lemma sat_mul_exact: "unat x * unat y < 2 ^ 64 \<Longrightarrow> unat (sat_mul x y) = unat x * unat y"
  by (simp add: sat_mul_def unat_word_ariths)

lemma checked_add_Some [simp]: "a + b < usize_bound \<Longrightarrow> checked_add a b = Some (a + b)"
  by (simp add: checked_add_def)

lemma checked_add_SomeD: "checked_add a b = Some c \<Longrightarrow> c = a + b \<and> a + b < usize_bound"
  by (auto simp: checked_add_def split: if_splits)

section \<open>Fallible state-passing functions\<close>

text \<open>
  A Rust method taking \<open>&mut self\<close> and returning \<open>Result<T, E>\<close> maps a state to a result and the
  state it leaves behind, also when it fails. \<open>bind_m\<close> is the question mark operator.
\<close>

type_synonym ('s, 'e, 'a) fallible = "'s \<Rightarrow> ('e + 'a) \<times> 's"

definition ret_m :: "'a \<Rightarrow> ('s, 'e, 'a) fallible" where
  "ret_m x = (\<lambda>s. (Inr x, s))"

definition fail_m :: "'e \<Rightarrow> ('s, 'e, 'a) fallible" where
  "fail_m e = (\<lambda>s. (Inl e, s))"

definition bind_m ::
  "('s, 'e, 'a) fallible \<Rightarrow> ('a \<Rightarrow> ('s, 'e, 'b) fallible) \<Rightarrow> ('s, 'e, 'b) fallible" where
  "bind_m m f = (\<lambda>s. case m s of (Inl e, t) \<Rightarrow> (Inl e, t) | (Inr x, t) \<Rightarrow> f x t)"

definition seq_m ::
  "('s, 'e, 'a) fallible \<Rightarrow> ('s, 'e, 'b) fallible \<Rightarrow> ('s, 'e, 'b) fallible" where
  "seq_m m k = bind_m m (\<lambda>_. k)"

definition map_m :: "('a \<Rightarrow> 'b) \<Rightarrow> ('s, 'e, 'a) fallible \<Rightarrow> ('s, 'e, 'b) fallible" where
  "map_m f m = bind_m m (\<lambda>x. ret_m (f x))"

definition res_m :: "'e + 'a \<Rightarrow> ('s, 'e, 'a) fallible" where
  "res_m r = (\<lambda>s. (r, s))"

lemma ret_m_run [run_simps]: "ret_m x s = (Inr x, s)"
  by (simp add: ret_m_def)

lemma fail_m_run [run_simps]: "fail_m e s = (Inl e, s)"
  by (simp add: fail_m_def)

lemma res_m_run [run_simps]: "res_m r s = (r, s)"
  by (simp add: res_m_def)

lemma bind_m_run [run_simps]:
  "bind_m m f s = (case m s of (Inl e, t) \<Rightarrow> (Inl e, t) | (Inr x, t) \<Rightarrow> f x t)"
  by (simp add: bind_m_def)

lemma seq_m_run [run_simps]:
  "seq_m m k s = (case m s of (Inl e, t) \<Rightarrow> (Inl e, t) | (Inr x, t) \<Rightarrow> k t)"
  by (simp add: seq_m_def bind_m_def)

lemma map_m_run [run_simps]:
  "map_m f m s = (case m s of (Inl e, t) \<Rightarrow> (Inl e, t) | (Inr x, t) \<Rightarrow> (Inr (f x), t))"
  by (simp add: map_m_def bind_m_def ret_m_def split: sum.splits)

text \<open>Results that carry no state.\<close>

fun bind_r :: "'e + 'a \<Rightarrow> ('a \<Rightarrow> 'e + 'b) \<Rightarrow> 'e + 'b" where
  "bind_r (Inl e) f = Inl e"
| "bind_r (Inr x) f = f x"

fun map_err :: "('e \<Rightarrow> 'f) \<Rightarrow> 'e + 'a \<Rightarrow> 'f + 'a" where
  "map_err h (Inl e) = Inl (h e)"
| "map_err h (Inr x) = Inr x"

definition ok_or :: "'e \<Rightarrow> 'a option \<Rightarrow> 'e + 'a" where
  "ok_or e r = (case r of None \<Rightarrow> Inl e | Some x \<Rightarrow> Inr x)"

lemma ok_or_simps [simp]: "ok_or e None = Inl e" "ok_or e (Some x) = Inr x"
  by (simp_all add: ok_or_def)

section \<open>Signed and unsigned readings of a word\<close>

lemma uint_of_sint:
  "uint (x :: 'a::len word) = (if sint x < 0 then sint x + 2 ^ LENGTH('a) else sint x)"
proof -
  have p: "(2::int) ^ LENGTH('a) = 2 * 2 ^ (LENGTH('a) - 1)"
    by (metis One_nat_def len_gt_0 Suc_pred power_Suc)
  have u: "uint x = sint x mod 2 ^ LENGTH('a)"
    by (simp add: uint_sint take_bit_eq_mod)
  have r: "- (2 ^ (LENGTH('a) - 1)) \<le> sint x" "sint x < 2 ^ (LENGTH('a) - 1)"
    by (rule sint_ge, rule sint_lt)
  have "(sint x + 2 ^ LENGTH('a)) mod 2 ^ LENGTH('a) = sint x + 2 ^ LENGTH('a)" if "sint x < 0"
    by (rule mod_pos_pos_trivial) (use that r p in auto)
  moreover have "sint x mod 2 ^ LENGTH('a) = sint x" if "0 \<le> sint x"
    by (rule mod_pos_pos_trivial) (use that r p in auto)
  ultimately show ?thesis using u by auto
qed

lemma uint_complement: "uint (- 1 - x) = 2 ^ LENGTH('a) - 1 - uint (x :: 'a::len word)"
  using uint_lt2p [of x] uint_ge_0 [of x]
  by (auto simp: uint_word_ariths zmod_minus1 zmod_trivial_iff mod_diff_left_eq intro: less_le_trans [of _ 0])

lemma sint_word_of_int:
  "- (2 ^ (LENGTH('a) - 1)) \<le> k \<Longrightarrow> k < 2 ^ (LENGTH('a) - 1) \<Longrightarrow>
     sint (word_of_int k :: 'a::len word) = k"
  by (simp add: signed_of_int signed_take_bit_int_eq_self)

lemma uint_complement_neg: "sint (x :: 'a::len word) < 0 \<Longrightarrow> uint (- 1 - x) = - 1 - sint x"
  using uint_of_sint [of x] by (simp add: uint_complement)

lemma sint_complement: "sint (- 1 - x) = - 1 - sint (x :: 'a::len word)"
proof -
  have "- 1 - x = word_of_int (- 1 - sint x)" by simp
  then show ?thesis
    using sint_ge [of x] sint_lt [of x] by (simp only: sint_word_of_int)
qed

lemma sint_ucast_small:
  "uint (x::'a::len word) < 2 ^ (LENGTH('b) - 1) \<Longrightarrow> sint (ucast x :: 'b::len word) = uint x"
  using sint_word_of_int [of "uint x", where 'a = 'b] uint_ge_0 [of x]
  by (simp add: order_trans [of _ 0])

lemma unat_less_iff_uint: "unat (x :: 'a::len word) < 2 ^ k \<longleftrightarrow> uint x < 2 ^ k"
proof -
  have "unat x < 2 ^ k \<longleftrightarrow> int (unat x) < int (2 ^ k)" by (rule of_nat_less_iff [symmetric])
  then show ?thesis by simp
qed

lemma try_signed_iff:
  "(try_signed x :: 'b::len word option) =
     (if uint x < 2 ^ (LENGTH('b) - 1) then Some (ucast x) else None)"
  by (simp only: try_signed_def unat_less_iff_uint)

lemma try_unsigned_iff:
  "(try_unsigned x :: 'b::len word option) =
     (if uint x < 2 ^ LENGTH('b) then Some (ucast x) else None)"
  by (simp only: try_unsigned_def unat_less_iff_uint)

lemma try_signed_signed_Some:
  "(try_signed_signed x :: 'b::len word option) = Some y \<longleftrightarrow> sint x = sint y"
proof (cases "- (2 ^ (LENGTH('b) - 1)) \<le> sint x \<and> sint x < 2 ^ (LENGTH('b) - 1)")
  case True
  then have "sint (word_of_int (sint x) :: 'b word) = sint x" by (intro sint_word_of_int) auto
  with True show ?thesis by (auto simp: try_signed_signed_def intro: signed_word_eqI)
next
  case False
  then show ?thesis
    using sint_ge [of y] sint_lt [of y] by (auto simp: try_signed_signed_def)
qed

lemma uint_ucast_small:
  "uint (x::'a::len word) < 2 ^ LENGTH('b) \<Longrightarrow> uint (ucast x :: 'b::len word) = uint x"
  by (simp add: unsigned_ucast_eq take_bit_int_eq_self)

lemma try_unsigned_Some:
  "(try_unsigned x :: 'b::len word option) = Some y \<longleftrightarrow> uint x = uint y"
proof (cases "uint x < 2 ^ LENGTH('b)")
  case True
  then show ?thesis
    using uint_ucast_small [of x, where 'b = 'b]
    by (auto simp: try_unsigned_iff word_uint_eq_iff)
next
  case False
  then show ?thesis using uint_lt2p [of y] by (auto simp: try_unsigned_iff)
qed

lemma bind_r_Inr: "bind_r r f = Inr y \<longleftrightarrow> (\<exists>x. r = Inr x \<and> f x = Inr y)"
  by (cases r) auto

lemma ok_or_Inr: "ok_or e r = Inr y \<longleftrightarrow> r = Some y"
  by (cases r) auto

lemma ex_u64: "0 \<le> k \<Longrightarrow> k < 2 ^ 64 \<Longrightarrow> \<exists>x :: u64. uint x = k"
  by (rule exI [of _ "word_of_int k"]) (simp add: unsigned_of_int take_bit_int_eq_self)

lemma ex_i64: "- (2 ^ 63) \<le> k \<Longrightarrow> k < 2 ^ 63 \<Longrightarrow> \<exists>x :: i64. sint x = k"
  using sint_word_of_int [of k, where 'a = 64] by auto

section \<open>Big-endian byte strings\<close>

text \<open>\<open>to_be_bytes\<close> and \<open>from_be_bytes\<close> of the Rust integer types, on their numeric values.\<close>

fun be_of_nat :: "nat \<Rightarrow> nat \<Rightarrow> bytes" where
  "be_of_nat 0 k = []"
| "be_of_nat (Suc n) k = be_of_nat n (k div 256) @ [of_nat k]"

definition nat_of_be :: "bytes \<Rightarrow> nat" where
  "nat_of_be bs = foldl (\<lambda>a b. a * 256 + unat b) 0 bs"

abbreviation to_be16 :: "u16 \<Rightarrow> bytes" where
  "to_be16 x \<equiv> be_of_nat 2 (unat x)"

abbreviation to_be32 :: "u32 \<Rightarrow> bytes" where
  "to_be32 x \<equiv> be_of_nat 4 (unat x)"

abbreviation to_be64 :: "u64 \<Rightarrow> bytes" where
  "to_be64 x \<equiv> be_of_nat 8 (unat x)"

lemma length_be_of_nat [simp]: "length (be_of_nat n k) = n"
  by (induction n arbitrary: k) auto

lemma nat_of_be_simps [simp]:
  "nat_of_be [] = 0"
  "nat_of_be (bs @ [b]) = nat_of_be bs * 256 + unat b"
  by (simp_all add: nat_of_be_def)

lemma nat_of_be_be_of_nat: "nat_of_be (be_of_nat n k) = k mod 256 ^ n"
proof (induction n arbitrary: k)
  case 0
  show ?case by simp
next
  case (Suc n)
  have "nat_of_be (be_of_nat (Suc n) k) = (k div 256 mod 256 ^ n) * 256 + k mod 256"
    by (simp add: Suc unsigned_of_nat take_bit_eq_mod)
  also have "\<dots> = k mod (256 * 256 ^ n)"
    using mod_mult2_eq [of k 256 "256 ^ n"] by simp
  finally show ?case by simp
qed

lemma nat_of_be_bound: "nat_of_be bs < 256 ^ length bs"
proof (induction bs rule: rev_induct)
  case Nil
  show ?case by simp
next
  case (snoc b bs)
  have "unat b < 256" using unat_lt [of b] by simp
  with snoc show ?case by simp
qed

lemma be_of_nat_nat_of_be: "be_of_nat (length bs) (nat_of_be bs) = bs"
proof (induction bs rule: rev_induct)
  case Nil
  show ?case by simp
next
  case (snoc b bs)
  have "unat b < 256" using unat_lt [of b] by simp
  then have "(nat_of_be bs * 256 + unat b) div 256 = nat_of_be bs" by simp
  moreover have "of_nat (nat_of_be bs * 256 + unat b) = b"
  proof -
    have "(256 :: u8) = 0" by simp
    then show ?thesis by (simp only: of_nat_add of_nat_mult of_nat_numeral) simp
  qed
  ultimately show ?case using snoc by simp
qed

lemma from_to_be16 [simp]: "of_nat (nat_of_be (to_be16 x)) = x"
  using unat_lt [of x] by (simp add: nat_of_be_be_of_nat)

lemma from_to_be32 [simp]: "of_nat (nat_of_be (to_be32 x)) = x"
  using unat_lt [of x] by (simp add: nat_of_be_be_of_nat)

lemma from_to_be64 [simp]: "of_nat (nat_of_be (to_be64 x)) = x"
  using unat_lt [of x] by (simp add: nat_of_be_be_of_nat)

lemma be_of_nat_unfold [be_simps]:
  "be_of_nat 2 k = [of_nat (k div 256), of_nat k]"
  "be_of_nat 4 k = [of_nat (k div 256 div 256 div 256), of_nat (k div 256 div 256),
     of_nat (k div 256), of_nat k]"
  "be_of_nat 8 k = [of_nat (k div 256 div 256 div 256 div 256 div 256 div 256 div 256),
     of_nat (k div 256 div 256 div 256 div 256 div 256 div 256),
     of_nat (k div 256 div 256 div 256 div 256 div 256), of_nat (k div 256 div 256 div 256 div 256),
     of_nat (k div 256 div 256 div 256), of_nat (k div 256 div 256), of_nat (k div 256), of_nat k]"
proof -
  have n: "(2::nat) = Suc (Suc 0)" "(4::nat) = Suc (Suc (Suc (Suc 0)))"
    "(8::nat) = Suc (Suc (Suc (Suc (Suc (Suc (Suc (Suc 0)))))))"
    by simp_all
  show "be_of_nat 2 k = [of_nat (k div 256), of_nat k]"
    by (simp only: n be_of_nat.simps append.simps)
  show "be_of_nat 4 k = [of_nat (k div 256 div 256 div 256), of_nat (k div 256 div 256),
     of_nat (k div 256), of_nat k]"
    by (simp only: n be_of_nat.simps append.simps)
  show "be_of_nat 8 k = [of_nat (k div 256 div 256 div 256 div 256 div 256 div 256 div 256),
     of_nat (k div 256 div 256 div 256 div 256 div 256 div 256),
     of_nat (k div 256 div 256 div 256 div 256 div 256), of_nat (k div 256 div 256 div 256 div 256),
     of_nat (k div 256 div 256 div 256), of_nat (k div 256 div 256), of_nat (k div 256), of_nat k]"
    by (simp only: n be_of_nat.simps append.simps)
qed

section \<open>Slices\<close>

text \<open>\<open>buf.get(a .. b)\<close>: the bytes from \<open>a\<close> up to \<open>b\<close>, or nothing when out of range.\<close>

definition slice_get :: "'a list \<Rightarrow> usize \<Rightarrow> usize \<Rightarrow> 'a list option" where
  "slice_get xs a b = (if a \<le> b \<and> b \<le> length xs then Some (take (b - a) (drop a xs)) else None)"

definition index_get :: "'a list \<Rightarrow> usize \<Rightarrow> 'a option" where
  "index_get xs i = (if i < length xs then Some (xs ! i) else None)"

lemma index_get_append [simp]: "index_get (xs @ y # ys) (length xs) = Some y"
  by (simp add: index_get_def)

lemma slice_get_append [simp]:
  "slice_get (xs @ ys @ zs) (length xs) (length xs + length ys) = Some ys"
  by (simp add: slice_get_def)

text \<open>ASCII string literals of the sources as bytes.\<close>

definition str_bytes :: "string \<Rightarrow> bytes" where
  "str_bytes s = map of_char s"

lemma length_str_bytes [simp]: "length (str_bytes s) = length s"
  by (simp add: str_bytes_def)

end
