(* ===== verification/Rust_Core.thy ===== *)
theory Rust_Core
  imports Ldms_Prelude
begin

text \<open>
  The parts of the Rust core library that the sources call: UTF-8 validation
  (\<open>core::str::from_utf8\<close> with its \<open>Utf8Error\<close>), \<open>char::from_u32\<close>, decimal and hexadecimal
  formatting of integers, and the exact widening of an \<open>f32\<close> to an \<open>f64\<close> on bit patterns. A Rust
  string is the list of its UTF-8 bytes.
\<close>

section \<open>UTF-8\<close>

record utf8_error =
  valid_up_to :: nat
  error_len :: "nat option"

definition utf8_cont :: "u8 \<Rightarrow> bool" where
  "utf8_cont b \<longleftrightarrow> 0x80 \<le> b \<and> b \<le> 0xBF"

text \<open>The second byte a three or four byte sequence admits after its first one.\<close>

definition utf8_snd3 :: "u8 \<Rightarrow> u8 \<Rightarrow> bool" where
  "utf8_snd3 a b \<longleftrightarrow>
     (if a = 0xE0 then 0xA0 \<le> b \<and> b \<le> 0xBF
      else if a = 0xED then 0x80 \<le> b \<and> b \<le> 0x9F else utf8_cont b)"

definition utf8_snd4 :: "u8 \<Rightarrow> u8 \<Rightarrow> bool" where
  "utf8_snd4 a b \<longleftrightarrow>
     (if a = 0xF0 then 0x90 \<le> b \<and> b \<le> 0xBF
      else if a = 0xF4 then 0x80 \<le> b \<and> b \<le> 0x8F else utf8_cont b)"

text \<open>One sequence: its width, or the length of the malformed part (none when truncated).\<close>

fun utf8_tail :: "nat \<Rightarrow> (u8 \<Rightarrow> bool) list \<Rightarrow> bytes \<Rightarrow> nat option + nat" where
  "utf8_tail n [] bs = Inr n"
| "utf8_tail n (p # ps) [] = Inl None"
| "utf8_tail n (p # ps) (b # bs) = (if p b then utf8_tail (Suc n) ps bs else Inl (Some n))"

definition utf8_step :: "u8 \<Rightarrow> bytes \<Rightarrow> nat option + nat" where
  "utf8_step a bs =
     (if a < 0x80 then Inr 1
      else if 0xC2 \<le> a \<and> a \<le> 0xDF then utf8_tail 1 [utf8_cont] bs
      else if 0xE0 \<le> a \<and> a \<le> 0xEF then utf8_tail 1 [utf8_snd3 a, utf8_cont] bs
      else if 0xF0 \<le> a \<and> a \<le> 0xF4 then utf8_tail 1 [utf8_snd4 a, utf8_cont, utf8_cont] bs
      else Inl (Some 1))"

fun utf8_from :: "nat \<Rightarrow> bytes \<Rightarrow> utf8_error option" where
  "utf8_from off [] = None"
| "utf8_from off (a # bs) =
     (case utf8_step a bs of
        Inl l \<Rightarrow> Some \<lparr>valid_up_to = off, error_len = l\<rparr>
      | Inr w \<Rightarrow> utf8_from (off + w) (drop (w - 1) bs))"

definition from_utf8 :: "bytes \<Rightarrow> utf8_error + bytes" where
  "from_utf8 bs = (case utf8_from 0 bs of None \<Rightarrow> Inr bs | Some e \<Rightarrow> Inl e)"

definition valid_utf8 :: "bytes \<Rightarrow> bool" where
  "valid_utf8 bs \<longleftrightarrow> utf8_from 0 bs = None"

lemma from_utf8_valid [simp]: "valid_utf8 bs \<Longrightarrow> from_utf8 bs = Inr bs"
  by (simp add: from_utf8_def valid_utf8_def)

lemma from_utf8_InrD: "from_utf8 bs = Inr cs \<Longrightarrow> cs = bs \<and> valid_utf8 bs"
  by (auto simp: from_utf8_def valid_utf8_def split: option.splits)

text \<open>Validity does not depend on the offset, and is decided sequence by sequence.\<close>

lemma utf8_from_None_off: "utf8_from off bs = None \<Longrightarrow> utf8_from off' bs = None"
  by (induction off bs arbitrary: off' rule: utf8_from.induct) (auto split: sum.splits)

lemma utf8_tail_append:
  "utf8_tail n ps bs = Inr w \<Longrightarrow> utf8_tail n ps (bs @ cs) = Inr w \<and> n \<le> w \<and> w \<le> n + length bs"
  by (induction n ps bs rule: utf8_tail.induct) (auto split: if_splits)

lemma utf8_step_append:
  "utf8_step a bs = Inr w \<Longrightarrow>
     utf8_step a (bs @ cs) = Inr w \<and> 1 \<le> w \<and> w \<le> Suc (length bs)"
  by (auto simp: utf8_step_def dest: utf8_tail_append [where cs = cs] split: if_splits)

lemma utf8_from_append:
  "utf8_from off bs = None \<Longrightarrow> utf8_from off (bs @ cs) = utf8_from (off + length bs) cs"
proof (induction off bs rule: utf8_from.induct)
  case (1 off)
  show ?case by simp
next
  case (2 off a bs)
  from "2.prems" obtain w where w: "utf8_step a bs = Inr w"
    and rest: "utf8_from (off + w) (drop (w - 1) bs) = None"
    by (auto split: sum.splits)
  from utf8_step_append [OF w]
  have "utf8_step a (bs @ cs) = Inr w" and len: "1 \<le> w" "w \<le> Suc (length bs)"
    by auto
  then have "utf8_from off ((a # bs) @ cs) = utf8_from (off + w) (drop (w - 1) bs @ cs)"
    by simp
  also have "\<dots> = utf8_from (off + w + length (drop (w - 1) bs)) cs"
    using "2.IH" [OF w rest] .
  also have "off + w + length (drop (w - 1) bs) = off + length (a # bs)"
    using len by simp
  finally show ?case .
qed

lemma valid_utf8_append: "valid_utf8 a \<Longrightarrow> valid_utf8 b \<Longrightarrow> valid_utf8 (a @ b)"
  by (metis utf8_from_None_off utf8_from_append valid_utf8_def)

lemma valid_utf8_ascii: "(\<And>b. b \<in> set bs \<Longrightarrow> b < 0x80) \<Longrightarrow> valid_utf8 bs"
proof -
  assume a: "\<And>b. b \<in> set bs \<Longrightarrow> b < 0x80"
  have "utf8_from off bs = None" for off
    using a by (induction bs arbitrary: off) (simp_all add: utf8_step_def)
  then show ?thesis by (simp add: valid_utf8_def)
qed

section \<open>Characters and number formatting\<close>

definition char_from_u32 :: "u32 \<Rightarrow> u32 option" where
  "char_from_u32 n = (if n < 0xD800 \<or> 0xDFFF < n \<and> n \<le> 0x10FFFF then Some n else None)"

definition digit_char :: "nat \<Rightarrow> char" where
  "digit_char d = ''0123456789abcdef'' ! d"

fun nat_str :: "nat \<Rightarrow> string" where
  "nat_str n = (if n < 10 then [digit_char n] else nat_str (n div 10) @ [digit_char (n mod 10)])"

fun hex_str :: "nat \<Rightarrow> string" where
  "hex_str n = (if n < 16 then [digit_char n] else hex_str (n div 16) @ [digit_char (n mod 16)])"

declare nat_str.simps [simp del] hex_str.simps [simp del]

definition int_str :: "int \<Rightarrow> string" where
  "int_str i = (if i < 0 then CHR ''-'' # nat_str (nat (- i)) else nat_str (nat i))"

definition hex2_str :: "u8 \<Rightarrow> string" where
  "hex2_str b = [digit_char (unat b div 16), digit_char (unat b mod 16)]"

section \<open>Widening a single precision value\<close>

text \<open>
  \<open>f64::from(f32)\<close> on bit patterns: sign, biased exponent and fraction are rebased; a subnormal
  single is normalised; infinities and (quieted) NaNs keep their class.
\<close>

definition f32_sign :: "f32 \<Rightarrow> u64" where
  "f32_sign x = push_bit 63 (ucast (drop_bit 31 x))"

definition f32_exp :: "f32 \<Rightarrow> nat" where
  "f32_exp x = unat (drop_bit 23 x) mod 256"

definition f32_frac :: "f32 \<Rightarrow> nat" where
  "f32_frac x = unat x mod 2 ^ 23"

fun norm_shift :: "nat \<Rightarrow> nat \<Rightarrow> nat" where
  "norm_shift 0 m = 0"
| "norm_shift (Suc k) m = (if 2 ^ 23 \<le> m then 0 else Suc (norm_shift k (2 * m)))"

definition f32_to_f64 :: "f32 \<Rightarrow> f64" where
  "f32_to_f64 x =
     (let e = f32_exp x; m = f32_frac x in
      f32_sign x OR
      (if e = 255 then
         (if m = 0 then push_bit 52 0x7FF
          else push_bit 52 0x7FF OR push_bit 51 1 OR of_nat (m * 2 ^ 29))
       else if e = 0 then
         (if m = 0 then 0
          else let s = norm_shift 23 m in
            push_bit 52 (of_nat (897 - s)) OR of_nat ((m * 2 ^ s - 2 ^ 23) * 2 ^ 29))
       else push_bit 52 (of_nat (e + 896)) OR of_nat (m * 2 ^ 29)))"

end
