(* ===== verification/Cbor_Data.thy ===== *)
theory Cbor_Data
  imports Rust_Core
begin

text \<open>
  The data module of minicbor (\<open>minicbor/src/data.rs\<close>): the CBOR type tags reported by the decoder,
  tags and the registry of IANA tags, statically tagged values, and the 65-bit CBOR integer \<open>Int\<close>
  with its conversions from and to the Rust integer types.

  The lemmas show that the registry is a bijection onto its tag numbers, that \<open>Int\<close> represents
  exactly the integers from \<open>-2^64\<close> to \<open>2^64 - 1\<close>, and that every conversion out of it succeeds
  exactly on the range of its target.
\<close>

section \<open>CBOR types\<close>

datatype cbor_type =
    TyBool
  | TyNull
  | TyUndefined
  | TyU8
  | TyU16
  | TyU32
  | TyU64
  | TyI8
  | TyI16
  | TyI32
  | TyI64
  | TyInt
  | TyF16
  | TyF32
  | TyF64
  | TySimple
  | TyBytes
  | TyBytesIndef
  | TyString
  | TyStringIndef
  | TyArray
  | TyArrayIndef
  | TyMap
  | TyMapIndef
  | TyTag
  | TyBreak
  | TyUnknown u8

fun type_display :: "cbor_type \<Rightarrow> string" where
  "type_display TyBool = ''bool''"
| "type_display TyNull = ''null''"
| "type_display TyUndefined = ''undefined''"
| "type_display TyU8 = ''u8''"
| "type_display TyU16 = ''u16''"
| "type_display TyU32 = ''u32''"
| "type_display TyU64 = ''u64''"
| "type_display TyI8 = ''i8''"
| "type_display TyI16 = ''i16''"
| "type_display TyI32 = ''i32''"
| "type_display TyI64 = ''i64''"
| "type_display TyInt = ''int''"
| "type_display TyF16 = ''f16''"
| "type_display TyF32 = ''f32''"
| "type_display TyF64 = ''f64''"
| "type_display TySimple = ''simple''"
| "type_display TyBytes = ''bytes''"
| "type_display TyBytesIndef = ''indefinite bytes''"
| "type_display TyString = ''string''"
| "type_display TyStringIndef = ''indefinite string''"
| "type_display TyArray = ''array''"
| "type_display TyArrayIndef = ''indefinite array''"
| "type_display TyMap = ''map''"
| "type_display TyMapIndef = ''indefinite map''"
| "type_display TyTag = ''tag''"
| "type_display TyBreak = ''break''"
| "type_display (TyUnknown n) = ''0x'' @ hex_str (unat n)"

section \<open>Tags\<close>

datatype tag = Tag u64

definition tag_new :: "u64 \<Rightarrow> tag" where
  "tag_new n = Tag n"

fun tag_as_u64 :: "tag \<Rightarrow> u64" where
  "tag_as_u64 (Tag n) = n"

definition tag_display :: "tag \<Rightarrow> string" where
  "tag_display t = nat_str (unat (tag_as_u64 t))"

datatype iana_tag =
    DateTime
  | Timestamp
  | PosBignum
  | NegBignum
  | Decimal
  | Bigfloat
  | ToBase64Url
  | ToBase64
  | ToBase16
  | Cbor
  | Uri
  | Base64Url
  | Base64
  | Regex
  | Mime
  | HomogenousArray
  | TypedArrayU8
  | TypedArrayU8Clamped
  | TypedArrayU16B
  | TypedArrayU32B
  | TypedArrayU64B
  | TypedArrayU16L
  | TypedArrayU32L
  | TypedArrayU64L
  | TypedArrayI8
  | TypedArrayI16B
  | TypedArrayI32B
  | TypedArrayI64B
  | TypedArrayI16L
  | TypedArrayI32L
  | TypedArrayI64L
  | TypedArrayF16B
  | TypedArrayF32B
  | TypedArrayF64B
  | TypedArrayF128B
  | TypedArrayF16L
  | TypedArrayF32L
  | TypedArrayF64L
  | TypedArrayF128L
  | MultiDimArrayR
  | MultiDimArrayC

fun tag_of_iana :: "iana_tag \<Rightarrow> tag" where
  "tag_of_iana DateTime = tag_new 0x00"
| "tag_of_iana Timestamp = tag_new 0x01"
| "tag_of_iana PosBignum = tag_new 0x02"
| "tag_of_iana NegBignum = tag_new 0x03"
| "tag_of_iana Decimal = tag_new 0x04"
| "tag_of_iana Bigfloat = tag_new 0x05"
| "tag_of_iana ToBase64Url = tag_new 0x15"
| "tag_of_iana ToBase64 = tag_new 0x16"
| "tag_of_iana ToBase16 = tag_new 0x17"
| "tag_of_iana Cbor = tag_new 0x18"
| "tag_of_iana Uri = tag_new 0x20"
| "tag_of_iana Base64Url = tag_new 0x21"
| "tag_of_iana Base64 = tag_new 0x22"
| "tag_of_iana Regex = tag_new 0x23"
| "tag_of_iana Mime = tag_new 0x24"
| "tag_of_iana MultiDimArrayR = tag_new 0x28"
| "tag_of_iana HomogenousArray = tag_new 0x29"
| "tag_of_iana TypedArrayU8 = tag_new 0x40"
| "tag_of_iana TypedArrayU16B = tag_new 0x41"
| "tag_of_iana TypedArrayU32B = tag_new 0x42"
| "tag_of_iana TypedArrayU64B = tag_new 0x43"
| "tag_of_iana TypedArrayU8Clamped = tag_new 0x44"
| "tag_of_iana TypedArrayU16L = tag_new 0x45"
| "tag_of_iana TypedArrayU32L = tag_new 0x46"
| "tag_of_iana TypedArrayU64L = tag_new 0x47"
| "tag_of_iana TypedArrayI8 = tag_new 0x48"
| "tag_of_iana TypedArrayI16B = tag_new 0x49"
| "tag_of_iana TypedArrayI32B = tag_new 0x4a"
| "tag_of_iana TypedArrayI64B = tag_new 0x4b"
| "tag_of_iana TypedArrayI16L = tag_new 0x4d"
| "tag_of_iana TypedArrayI32L = tag_new 0x4e"
| "tag_of_iana TypedArrayI64L = tag_new 0x4f"
| "tag_of_iana TypedArrayF16B = tag_new 0x50"
| "tag_of_iana TypedArrayF32B = tag_new 0x51"
| "tag_of_iana TypedArrayF64B = tag_new 0x52"
| "tag_of_iana TypedArrayF128B = tag_new 0x53"
| "tag_of_iana TypedArrayF16L = tag_new 0x54"
| "tag_of_iana TypedArrayF32L = tag_new 0x55"
| "tag_of_iana TypedArrayF64L = tag_new 0x56"
| "tag_of_iana TypedArrayF128L = tag_new 0x57"
| "tag_of_iana MultiDimArrayC = tag_new 0x410"

datatype unknown_tag = UnknownTag tag

definition iana_table :: "(u64 \<times> iana_tag) list" where
  "iana_table = [
    (0x00, DateTime), (0x01, Timestamp), (0x02, PosBignum),
    (0x03, NegBignum), (0x04, Decimal), (0x05, Bigfloat),
    (0x15, ToBase64Url), (0x16, ToBase64), (0x17, ToBase16),
    (0x18, Cbor), (0x20, Uri), (0x21, Base64Url),
    (0x22, Base64), (0x23, Regex), (0x24, Mime),
    (0x28, MultiDimArrayR), (0x29, HomogenousArray), (0x40, TypedArrayU8),
    (0x41, TypedArrayU16B), (0x42, TypedArrayU32B), (0x43, TypedArrayU64B),
    (0x44, TypedArrayU8Clamped), (0x45, TypedArrayU16L), (0x46, TypedArrayU32L),
    (0x47, TypedArrayU64L), (0x48, TypedArrayI8), (0x49, TypedArrayI16B),
    (0x4a, TypedArrayI32B), (0x4b, TypedArrayI64B), (0x4d, TypedArrayI16L),
    (0x4e, TypedArrayI32L), (0x4f, TypedArrayI64L), (0x50, TypedArrayF16B),
    (0x51, TypedArrayF32B), (0x52, TypedArrayF64B), (0x53, TypedArrayF128B),
    (0x54, TypedArrayF16L), (0x55, TypedArrayF32L), (0x56, TypedArrayF64L),
    (0x57, TypedArrayF128L), (0x410, MultiDimArrayC)]"

definition iana_try_from :: "tag \<Rightarrow> unknown_tag + iana_tag" where
  "iana_try_from t = ok_or (UnknownTag t) (map_of iana_table (tag_as_u64 t))"

definition iana_tag_tag :: "iana_tag \<Rightarrow> tag" where
  "iana_tag_tag t = tag_of_iana t"

definition iana_as_u64 :: "iana_tag \<Rightarrow> u64" where
  "iana_as_u64 t = tag_as_u64 (tag_of_iana t)"

definition unknown_tag_display :: "unknown_tag \<Rightarrow> string" where
  "unknown_tag_display u = (case u of UnknownTag t \<Rightarrow>
     ''unknown tag: '' @ ''0x'' @ hex_str (unat (tag_as_u64 t)))"

text \<open>A statically tagged value: its tag number is part of its type in Rust, a field here.\<close>

record 'a tagged =
  tagged_num :: u64
  tagged_val :: 'a

definition tagged_new :: "u64 \<Rightarrow> 'a \<Rightarrow> 'a tagged" where
  "tagged_new n v = \<lparr>tagged_num = n, tagged_val = v\<rparr>"

definition tagged_tag :: "'a tagged \<Rightarrow> tag" where
  "tagged_tag t = tag_new (tagged_num t)"

definition tagged_value :: "'a tagged \<Rightarrow> 'a" where
  "tagged_value t = tagged_val t"

lemma iana_round_trip: "iana_try_from (tag_of_iana t) = Inr t"
  by (cases t) (simp_all add: iana_try_from_def iana_table_def tag_new_def)

lemma iana_try_from_sound:
  assumes "iana_try_from t = Inr i"
  shows "tag_of_iana i = t"
proof -
  obtain n where t: "t = Tag n" by (cases t)
  from assms have "map_of iana_table n = Some i"
    by (auto simp: iana_try_from_def ok_or_def t split: option.splits)
  then have "(n, i) \<in> set iana_table" by (rule map_of_SomeD)
  then show ?thesis by (auto simp: iana_table_def t tag_new_def)
qed

section \<open>CBOR integers\<close>

record cbor_int =
  int_neg :: bool
  int_val :: u64

definition MAX_INT :: cbor_int where
  "MAX_INT = \<lparr>int_neg = False, int_val = - 1\<rparr>"

definition MIN_INT :: cbor_int where
  "MIN_INT = \<lparr>int_neg = True, int_val = - 1\<rparr>"

definition int_pos :: "u64 \<Rightarrow> cbor_int" where
  "int_pos v = \<lparr>int_neg = False, int_val = v\<rparr>"

definition int_negative :: "u64 \<Rightarrow> cbor_int" where
  "int_negative v = \<lparr>int_neg = True, int_val = v\<rparr>"

text \<open>The mathematical integer an \<open>Int\<close> stands for.\<close>

definition int_value :: "cbor_int \<Rightarrow> int" where
  "int_value i = (if int_neg i then - 1 - uint (int_val i) else uint (int_val i))"

datatype try_from_int_error = TryFromIntError string

definition try_from_int_error_display :: "try_from_int_error \<Rightarrow> string" where
  "try_from_int_error_display e =
     (case e of TryFromIntError t \<Rightarrow> ''value out of '' @ t @ '' range'')"

text \<open>Introductions.\<close>

definition int_of_u64 :: "u64 \<Rightarrow> cbor_int" where
  "int_of_u64 i = int_pos i"

definition int_of_u8 :: "u8 \<Rightarrow> cbor_int" where
  "int_of_u8 i = int_of_u64 (ucast i)"

definition int_of_u16 :: "u16 \<Rightarrow> cbor_int" where
  "int_of_u16 i = int_of_u64 (ucast i)"

definition int_of_u32 :: "u32 \<Rightarrow> cbor_int" where
  "int_of_u32 i = int_of_u64 (ucast i)"

definition int_of_u128 :: "u128 \<Rightarrow> try_from_int_error + cbor_int" where
  "int_of_u128 i =
     (case try_unsigned i of
        None \<Rightarrow> Inl (TryFromIntError ''u64'')
      | Some v \<Rightarrow> Inr (int_of_u64 v))"

definition int_of_i64 :: "i64 \<Rightarrow> cbor_int" where
  "int_of_i64 i =
     (if sint i < 0 then \<lparr>int_neg = True, int_val = - 1 - i\<rparr>
      else \<lparr>int_neg = False, int_val = i\<rparr>)"

definition int_of_i8 :: "i8 \<Rightarrow> cbor_int" where
  "int_of_i8 i = int_of_i64 (scast i)"

definition int_of_i16 :: "i16 \<Rightarrow> cbor_int" where
  "int_of_i16 i = int_of_i64 (scast i)"

definition int_of_i32 :: "i32 \<Rightarrow> cbor_int" where
  "int_of_i32 i = int_of_i64 (scast i)"

definition int_of_i128 :: "i128 \<Rightarrow> try_from_int_error + cbor_int" where
  "int_of_i128 i =
     (if sint i < 0 then
        (if sint i < - 0x10000000000000000 then Inl (TryFromIntError ''Int'')
         else Inr \<lparr>int_neg = True, int_val = ucast (- 1 - i)\<rparr>)
      else if 0xFFFFFFFFFFFFFFFF < sint i then Inl (TryFromIntError ''Int'')
      else Inr \<lparr>int_neg = False, int_val = ucast i\<rparr>)"

text \<open>Eliminations.\<close>

definition u64_of_int :: "cbor_int \<Rightarrow> try_from_int_error + u64" where
  "u64_of_int i = (if int_neg i then Inl (TryFromIntError ''u64'') else Inr (int_val i))"

definition u8_of_int :: "cbor_int \<Rightarrow> try_from_int_error + u8" where
  "u8_of_int i = bind_r (u64_of_int i) (\<lambda>n. ok_or (TryFromIntError ''u8'') (try_unsigned n))"

definition u16_of_int :: "cbor_int \<Rightarrow> try_from_int_error + u16" where
  "u16_of_int i = bind_r (u64_of_int i) (\<lambda>n. ok_or (TryFromIntError ''u16'') (try_unsigned n))"

definition u32_of_int :: "cbor_int \<Rightarrow> try_from_int_error + u32" where
  "u32_of_int i = bind_r (u64_of_int i) (\<lambda>n. ok_or (TryFromIntError ''u32'') (try_unsigned n))"

definition u128_of_int :: "cbor_int \<Rightarrow> try_from_int_error + u128" where
  "u128_of_int i = (if int_neg i then Inl (TryFromIntError ''u128'') else Inr (ucast (int_val i)))"

definition i64_of_int :: "cbor_int \<Rightarrow> try_from_int_error + i64" where
  "i64_of_int i =
     bind_r (ok_or (TryFromIntError ''i64'') (try_signed (int_val i)))
       (\<lambda>j. Inr (if int_neg i then - 1 - j else j))"

definition i8_of_int :: "cbor_int \<Rightarrow> try_from_int_error + i8" where
  "i8_of_int i = bind_r (i64_of_int i) (\<lambda>n. ok_or (TryFromIntError ''i8'') (try_signed_signed n))"

definition i16_of_int :: "cbor_int \<Rightarrow> try_from_int_error + i16" where
  "i16_of_int i = bind_r (i64_of_int i) (\<lambda>n. ok_or (TryFromIntError ''i16'') (try_signed_signed n))"

definition i32_of_int :: "cbor_int \<Rightarrow> try_from_int_error + i32" where
  "i32_of_int i = bind_r (i64_of_int i) (\<lambda>n. ok_or (TryFromIntError ''i32'') (try_signed_signed n))"

definition i128_of_int :: "cbor_int \<Rightarrow> i128" where
  "i128_of_int i = (let j = ucast (int_val i) in if int_neg i then - 1 - j else j)"

definition int_display :: "cbor_int \<Rightarrow> string" where
  "int_display i = int_str (sint (i128_of_int i))"

lemma int_value_of_i64 [simp]: "int_value (int_of_i64 x) = sint x"
  using uint_complement_neg [of x] uint_of_sint [of x]
  by (auto simp: int_of_i64_def int_value_def)

lemma sint_i128_of_int: "sint (i128_of_int i) = int_value i"
proof -
  have "sint (ucast (int_val i) :: i128) = uint (int_val i)"
    using uint_lt2p [of "int_val i"] by (intro sint_ucast_small) simp
  then show ?thesis by (auto simp: i128_of_int_def int_value_def Let_def sint_complement)
qed

lemma int_value_inject: "int_value i = int_value j \<longleftrightarrow> i = j"
proof -
  have "0 \<le> uint (int_val i)" "0 \<le> uint (int_val j)" by simp_all
  then have "int_value i = int_value j \<longleftrightarrow>
      int_neg i = int_neg j \<and> uint (int_val i) = uint (int_val j)"
    unfolding int_value_def
    by (cases "int_neg i"; cases "int_neg j"; simp; linarith)
  then show ?thesis by (cases i; cases j) (simp add: word_uint_eq_iff)
qed

lemma int_value_range: "- (2 ^ 64) \<le> int_value i \<and> int_value i < 2 ^ 64"
proof -
  have "0 \<le> uint (int_val i)" "uint (int_val i) < 2 ^ 64"
    using uint_lt2p [of "int_val i"] by simp_all
  then show ?thesis unfolding int_value_def by (cases "int_neg i"; simp; linarith)
qed

lemma i64_of_int_iff: "i64_of_int i = Inr x \<longleftrightarrow> int_value i = sint x"
proof (cases "uint (int_val i) < 2 ^ 63")
  case True
  then have s: "sint (int_val i) = uint (int_val i)"
    using sint_ucast_small [of "int_val i", where 'b = 64] by simp
  have "i64_of_int i = Inr (if int_neg i then - 1 - int_val i else int_val i)"
    using True by (simp add: i64_of_int_def try_signed_iff)
  moreover have "sint (if int_neg i then - 1 - int_val i else int_val i) = int_value i"
    using s by (simp add: int_value_def sint_complement)
  ultimately show ?thesis by (metis sum.inject(2) signed_word_eqI)
next
  case False
  then have "i64_of_int i = Inl (TryFromIntError ''i64'')"
    by (simp add: i64_of_int_def try_signed_iff)
  moreover have "int_value i < - (2 ^ 63) \<or> 2 ^ 63 \<le> int_value i"
    using False unfolding int_value_def by (cases "int_neg i") auto
  ultimately show ?thesis
    using sint_ge [of x] sint_lt [of x] by auto
qed


lemma u64_of_int_iff: "u64_of_int i = Inr x \<longleftrightarrow> int_value i = uint x"
proof -
  have "0 \<le> uint (int_val i)" "0 \<le> uint x" by simp_all
  then have "int_neg i \<Longrightarrow> int_value i \<noteq> uint x"
    by (simp only: int_value_def if_True)
  then show ?thesis by (auto simp: u64_of_int_def int_value_def word_uint_eq_iff)
qed


lemmas of_int_iffs =
  u64_of_int_iff i64_of_int_iff bind_r_Inr ok_or_Inr try_unsigned_Some try_signed_signed_Some

lemma u8_of_int_iff: "u8_of_int i = Inr x \<longleftrightarrow> int_value i = uint x"
  using uint_lt2p [of x] ex_u64 [of "uint x"]
  by (simp add: u8_of_int_def of_int_iffs) metis

lemma i8_of_int_iff: "i8_of_int i = Inr x \<longleftrightarrow> int_value i = sint x"
  using sint_lt [of x] sint_ge [of x] ex_i64 [of "sint x"]
  by (simp add: i8_of_int_def of_int_iffs) metis

lemma u16_of_int_iff: "u16_of_int i = Inr x \<longleftrightarrow> int_value i = uint x"
  using uint_lt2p [of x] ex_u64 [of "uint x"]
  by (simp add: u16_of_int_def of_int_iffs) metis

lemma i16_of_int_iff: "i16_of_int i = Inr x \<longleftrightarrow> int_value i = sint x"
  using sint_lt [of x] sint_ge [of x] ex_i64 [of "sint x"]
  by (simp add: i16_of_int_def of_int_iffs) metis

lemma u32_of_int_iff: "u32_of_int i = Inr x \<longleftrightarrow> int_value i = uint x"
  using uint_lt2p [of x] ex_u64 [of "uint x"]
  by (simp add: u32_of_int_def of_int_iffs) metis

lemma i32_of_int_iff: "i32_of_int i = Inr x \<longleftrightarrow> int_value i = sint x"
  using sint_lt [of x] sint_ge [of x] ex_i64 [of "sint x"]
  by (simp add: i32_of_int_def of_int_iffs) metis

section \<open>Properties\<close>

text \<open>The IANA tag registry is a bijection: a tag number converts to a registered tag exactly
  when it is the number that tag converts to; every other number is reported as unknown.\<close>

theorem iana_registry_bijective:
  "iana_try_from g = Inr t \<longleftrightarrow> g = tag_of_iana t"
  using iana_round_trip iana_try_from_sound by metis

text \<open>Converting a CBOR integer to a Rust integer type succeeds exactly when the mathematical
  value lies in the range of the type, and then yields that value; \<open>i128\<close> holds every CBOR
  integer.\<close>

theorem int_conversions_exact:
  "(u8_of_int i = Inr a \<longleftrightarrow> int_value i = uint a) \<and>
   (u16_of_int i = Inr b \<longleftrightarrow> int_value i = uint b) \<and>
   (u32_of_int i = Inr c \<longleftrightarrow> int_value i = uint c) \<and>
   (u64_of_int i = Inr d \<longleftrightarrow> int_value i = uint d) \<and>
   (i8_of_int i = Inr a' \<longleftrightarrow> int_value i = sint a') \<and>
   (i16_of_int i = Inr b' \<longleftrightarrow> int_value i = sint b') \<and>
   (i32_of_int i = Inr c' \<longleftrightarrow> int_value i = sint c') \<and>
   (i64_of_int i = Inr d' \<longleftrightarrow> int_value i = sint d') \<and>
   sint (i128_of_int i) = int_value i"
  by (simp add: u8_of_int_iff u16_of_int_iff u32_of_int_iff u64_of_int_iff i8_of_int_iff
      i16_of_int_iff i32_of_int_iff i64_of_int_iff sint_i128_of_int)

end
