(* ===== verification/Cbor_Error.thy ===== *)
theory Cbor_Error
  imports Cbor_Data
begin

text \<open>
  The error values of minicbor (\<open>minicbor/src/decode/error.rs\<close>, \<open>minicbor/src/encode/error.rs\<close>)
  in the configuration with features \<open>alloc\<close> and \<open>std\<close>: constructors, builders, predicates and
  the text they display. A boxed custom error is represented by its own display text.
\<close>

section \<open>Decoding errors\<close>

datatype error_impl =
    EndOfInput
  | InvalidChar u32
  | Utf8 utf8_error
  | Overflow u64
  | TypeMismatch cbor_type
  | TagMismatch tag
  | UnknownVariant i64
  | MissingValue i64
  | Message
  | Custom string

record decode_error =
  err_impl :: error_impl
  err_pos :: "usize option"
  err_msg :: string

definition err_of :: "error_impl \<Rightarrow> decode_error" where
  "err_of i = \<lparr>err_impl = i, err_pos = None, err_msg = []\<rparr>"

definition end_of_input :: decode_error where
  "end_of_input = err_of EndOfInput"

definition type_mismatch :: "cbor_type \<Rightarrow> decode_error" where
  "type_mismatch ty = err_of (TypeMismatch ty)"

definition tag_mismatch :: "tag \<Rightarrow> decode_error" where
  "tag_mismatch tg = err_of (TagMismatch tg)"

definition err_message :: "string \<Rightarrow> decode_error" where
  "err_message m = (err_of Message)\<lparr>err_msg := m\<rparr>"

definition err_custom :: "string \<Rightarrow> decode_error" where
  "err_custom e = err_of (Custom e)"

definition unknown_variant :: "i64 \<Rightarrow> decode_error" where
  "unknown_variant idx = err_of (UnknownVariant idx)"

definition missing_value :: "i64 \<Rightarrow> decode_error" where
  "missing_value idx = err_of (MissingValue idx)"

definition invalid_char :: "u32 \<Rightarrow> decode_error" where
  "invalid_char n = err_of (InvalidChar n)"

definition err_utf8 :: "utf8_error \<Rightarrow> decode_error" where
  "err_utf8 e = err_of (Utf8 e)"

definition overflow :: "u64 \<Rightarrow> decode_error" where
  "overflow n = err_of (Overflow n)"

definition err_at :: "usize \<Rightarrow> decode_error \<Rightarrow> decode_error" where
  "err_at p e = e\<lparr>err_pos := Some p\<rparr>"

definition with_message :: "string \<Rightarrow> decode_error \<Rightarrow> decode_error" where
  "with_message m e = e\<lparr>err_msg := m\<rparr>"

definition is_end_of_input :: "decode_error \<Rightarrow> bool" where
  "is_end_of_input e \<longleftrightarrow> err_impl e = EndOfInput"

definition is_type_mismatch :: "decode_error \<Rightarrow> bool" where
  "is_type_mismatch e = (case err_impl e of TypeMismatch _ \<Rightarrow> True | _ \<Rightarrow> False)"

definition is_tag_mismatch :: "decode_error \<Rightarrow> bool" where
  "is_tag_mismatch e = (case err_impl e of TagMismatch _ \<Rightarrow> True | _ \<Rightarrow> False)"

definition is_message :: "decode_error \<Rightarrow> bool" where
  "is_message e \<longleftrightarrow> err_impl e = Message"

definition is_custom :: "decode_error \<Rightarrow> bool" where
  "is_custom e = (case err_impl e of Custom _ \<Rightarrow> True | _ \<Rightarrow> False)"

definition is_unknown_variant :: "decode_error \<Rightarrow> bool" where
  "is_unknown_variant e = (case err_impl e of UnknownVariant _ \<Rightarrow> True | _ \<Rightarrow> False)"

definition is_missing_value :: "decode_error \<Rightarrow> bool" where
  "is_missing_value e = (case err_impl e of MissingValue _ \<Rightarrow> True | _ \<Rightarrow> False)"

definition err_position :: "decode_error \<Rightarrow> usize option" where
  "err_position e = err_pos e"

text \<open>The common shape of the display texts: a base text, a position, a message.\<close>

definition show_at :: "string \<Rightarrow> decode_error \<Rightarrow> string" where
  "show_at base e =
     base
     @ (case err_pos e of None \<Rightarrow> [] | Some p \<Rightarrow> '' at position '' @ nat_str p)
     @ (if err_msg e = [] then [] else '': '' @ err_msg e)"

definition show_missing :: "i64 \<Rightarrow> decode_error \<Rightarrow> string" where
  "show_missing n e =
     ''missing value at index '' @ int_str (sint n)
     @ (if err_msg e = [] then [] else '' ('' @ err_msg e @ '')'')
     @ (case err_pos e of None \<Rightarrow> []
        | Some p \<Rightarrow> '' in map or array starting at position '' @ nat_str p)"

definition decode_error_display :: "decode_error \<Rightarrow> string" where
  "decode_error_display e =
     (case err_impl e of
        EndOfInput \<Rightarrow> show_at ''end of input bytes'' e
      | InvalidChar n \<Rightarrow> show_at (''invalid char 0x'' @ hex_str (unat n)) e
      | Utf8 _ \<Rightarrow> show_at ''invalid utf-8'' e
      | Overflow n \<Rightarrow> show_at (nat_str (unat n) @ '' overflows target type'') e
      | TypeMismatch t \<Rightarrow> show_at (''unexpected type '' @ type_display t) e
      | TagMismatch t \<Rightarrow> show_at (''unexpected tag '' @ tag_display t) e
      | UnknownVariant n \<Rightarrow> show_at (''unknown enum variant '' @ int_str (sint n)) e
      | MissingValue n \<Rightarrow> show_missing n e
      | Message \<Rightarrow>
          (case err_pos e of
             Some p \<Rightarrow> ''decode error at position '' @ nat_str p @ '': '' @ err_msg e
           | None \<Rightarrow> ''decode error: '' @ err_msg e)
      | Custom _ \<Rightarrow> show_at ''decode error'' e)"

definition decode_error_source :: "decode_error \<Rightarrow> (utf8_error + string) option" where
  "decode_error_source e =
     (case err_impl e of Utf8 u \<Rightarrow> Some (Inl u) | Custom c \<Rightarrow> Some (Inr c) | _ \<Rightarrow> None)"

text \<open>Positions and messages never change what kind of error a value is.\<close>

lemma err_impl_builders [simp]:
  "err_impl (err_at p e) = err_impl e"
  "err_impl (with_message m e) = err_impl e"
  "err_impl end_of_input = EndOfInput"
  "err_impl (type_mismatch ty) = TypeMismatch ty"
  "err_impl (overflow n) = Overflow n"
  "err_impl (err_utf8 u) = Utf8 u"
  "err_impl (err_message s) = Message"
  by (simp_all add: err_at_def with_message_def end_of_input_def type_mismatch_def overflow_def
      err_utf8_def err_message_def err_of_def)

section \<open>Encoding errors\<close>

datatype 'e enc_error_impl =
    EncWrite 'e
  | EncMessage
  | EncCustom string

record 'e enc_error =
  enc_impl :: "'e enc_error_impl"
  enc_msg :: string

definition enc_error_write :: "'e \<Rightarrow> 'e enc_error" where
  "enc_error_write e = \<lparr>enc_impl = EncWrite e, enc_msg = []\<rparr>"

definition enc_error_message :: "string \<Rightarrow> 'e enc_error" where
  "enc_error_message m = \<lparr>enc_impl = EncMessage, enc_msg = m\<rparr>"

definition enc_error_custom :: "string \<Rightarrow> 'e enc_error" where
  "enc_error_custom c = \<lparr>enc_impl = EncCustom c, enc_msg = []\<rparr>"

definition enc_with_message :: "string \<Rightarrow> 'e enc_error \<Rightarrow> 'e enc_error" where
  "enc_with_message m e = e\<lparr>enc_msg := m\<rparr>"

definition enc_is_message :: "'e enc_error \<Rightarrow> bool" where
  "enc_is_message e = (case enc_impl e of EncMessage \<Rightarrow> True | _ \<Rightarrow> False)"

definition enc_is_write :: "'e enc_error \<Rightarrow> bool" where
  "enc_is_write e = (case enc_impl e of EncWrite _ \<Rightarrow> True | _ \<Rightarrow> False)"

definition enc_is_custom :: "'e enc_error \<Rightarrow> bool" where
  "enc_is_custom e = (case enc_impl e of EncCustom _ \<Rightarrow> True | _ \<Rightarrow> False)"

definition enc_into_write :: "'e enc_error \<Rightarrow> 'e option" where
  "enc_into_write e = (case enc_impl e of EncWrite w \<Rightarrow> Some w | _ \<Rightarrow> None)"

definition enc_error_display :: "'e enc_error \<Rightarrow> string" where
  "enc_error_display e =
     (case enc_impl e of
        EncMessage \<Rightarrow> enc_msg e
      | EncWrite _ \<Rightarrow>
          (if enc_msg e = [] then ''write error'' else ''write error: '' @ enc_msg e)
      | EncCustom _ \<Rightarrow>
          (if enc_msg e = [] then ''encode error'' else ''encode error: '' @ enc_msg e))"

end
