(* ===== verification/Cbor_Write.thy ===== *)
theory Cbor_Write
  imports Cbor_Error
begin

text \<open>
  The sinks the encoder writes to (\<open>minicbor/src/encode/write.rs\<close>): the mutable byte slice the eBPF
  producer uses, the growing vector, and the cursor over a fixed buffer. The interface \<open>Write\<close> is the
  locale \<open>byte_sink\<close>; its client lemmas say what a chain of writes leaves in the sink, and the three
  sinks interpret it.
\<close>

section \<open>The sinks\<close>

type_synonym ('w, 'e) write_all = "bytes \<Rightarrow> ('w, 'e, unit) fallible"

datatype end_of_slice = EndOfSlice
datatype end_of_array = EndOfArray

definition end_of_slice_display :: "end_of_slice \<Rightarrow> string" where
  "end_of_slice_display e = ''end of slice''"

definition end_of_array_display :: "end_of_array \<Rightarrow> string" where
  "end_of_array_display e = ''end of array''"

text \<open>
  A writer on \<open>&mut [u8]\<close> is the part of the buffer it has moved past and the part that is left.
\<close>

record slice_writer =
  sw_done :: bytes
  sw_rest :: bytes

definition slice_writer_new :: "bytes \<Rightarrow> slice_writer" where
  "slice_writer_new buf = \<lparr>sw_done = [], sw_rest = buf\<rparr>"

definition slice_write_all :: "(slice_writer, end_of_slice) write_all" where
  "slice_write_all buf w =
     (if length (sw_rest w) < length buf then (Inl EndOfSlice, w)
      else (Inr (), \<lparr>sw_done = sw_done w @ buf, sw_rest = drop (length buf) (sw_rest w)\<rparr>))"

text \<open>The growing vector never fails; its error type has no value the code can build.\<close>

typedecl infallible

definition vec_write_all :: "(bytes, infallible) write_all" where
  "vec_write_all buf v = (Inr (), v @ buf)"

text \<open>
  A cursor over a fixed buffer. The end of the written range is computed in \<open>usize\<close>: a slice is
  shorter than \<open>2^63\<close> bytes, so an overflowing sum wraps to an end before the start of the range,
  and \<open>get_mut\<close> answers nothing for the reversed range.
\<close>

record cursor =
  cur_wrt :: bytes
  cur_pos :: usize

definition cursor_new :: "bytes \<Rightarrow> cursor" where
  "cursor_new b = \<lparr>cur_wrt = b, cur_pos = 0\<rparr>"

definition cursor_position :: "cursor \<Rightarrow> usize" where
  "cursor_position c = cur_pos c"

definition cursor_set_position :: "usize \<Rightarrow> cursor \<Rightarrow> cursor" where
  "cursor_set_position p c = c\<lparr>cur_pos := p\<rparr>"

definition cursor_into_inner :: "cursor \<Rightarrow> bytes" where
  "cursor_into_inner c = cur_wrt c"

definition cursor_write :: "'e \<Rightarrow> (cursor, 'e) write_all" where
  "cursor_write e buf c =
     (case Option.bind (checked_add (cur_pos c) (length buf)) (slice_get (cur_wrt c) (cur_pos c)) of
        None \<Rightarrow> (Inl e, c)
      | Some _ \<Rightarrow>
          (Inr (), \<lparr>cur_wrt = take (cur_pos c) (cur_wrt c) @ buf
                              @ drop (cur_pos c + length buf) (cur_wrt c),
                    cur_pos = cur_pos c + length buf\<rparr>))"

definition cursor_slice_write_all :: "(cursor, end_of_slice) write_all" where
  "cursor_slice_write_all = cursor_write EndOfSlice"

definition cursor_array_write_all :: "(cursor, end_of_array) write_all" where
  "cursor_array_write_all = cursor_write EndOfArray"

definition cursor_box_write_all :: "(cursor, end_of_slice) write_all" where
  "cursor_box_write_all = cursor_write EndOfSlice"

section \<open>The interface of a sink\<close>

text \<open>
  \<open>written\<close> is what has been written so far, \<open>fits w n\<close> says that \<open>n\<close> more bytes have room. A write
  that fits succeeds and appends; one that does not fit fails and leaves the sink as it was.
\<close>

locale byte_sink =
  fixes write_all :: "('w, 'e) write_all"
    and written :: "'w \<Rightarrow> bytes"
    and fits :: "'w \<Rightarrow> nat \<Rightarrow> bool"
    and sink_ok :: "'w \<Rightarrow> bool"
  assumes write_fits: "sink_ok w \<Longrightarrow> fits w (length b) \<Longrightarrow>
      \<exists>w'. write_all b w = (Inr (), w') \<and> sink_ok w' \<and> written w' = written w @ b \<and>
           (\<forall>n. fits w' n \<longleftrightarrow> fits w (length b + n))"
    and write_full: "sink_ok w \<Longrightarrow> \<not> fits w (length b) \<Longrightarrow> \<exists>e. write_all b w = (Inl e, w)"
    and fits_less: "fits w n \<Longrightarrow> m \<le> n \<Longrightarrow> fits w m"
begin

text \<open>\<open>emits m bs\<close>: run on a sink with room for \<open>bs\<close>, the action \<open>m\<close> succeeds and appends \<open>bs\<close>.\<close>

definition emits :: "('w, 'f, unit) fallible \<Rightarrow> bytes \<Rightarrow> bool" where
  "emits m bs \<longleftrightarrow> (\<forall>w. sink_ok w \<longrightarrow> fits w (length bs) \<longrightarrow>
     (\<exists>w'. m w = (Inr (), w') \<and> sink_ok w' \<and> written w' = written w @ bs \<and>
           (\<forall>n. fits w' n \<longleftrightarrow> fits w (length bs + n))))"

lemma emitsD:
  assumes "emits m bs" "sink_ok w" "fits w (length bs)"
  obtains w' where "m w = (Inr (), w')" "sink_ok w'" "written w' = written w @ bs"
    "\<And>n. fits w' n \<longleftrightarrow> fits w (length bs + n)"
  using assms unfolding emits_def by blast

lemma emits_seq:
  assumes m: "emits m a" and k: "emits k b"
  shows "emits (seq_m m k) (a @ b)"
  unfolding emits_def
proof (intro allI impI)
  fix w assume ok: "sink_ok w" and room: "fits w (length (a @ b))"
  then have "fits w (length a)" by (auto intro: fits_less)
  from emitsD [OF m ok this] obtain w1 where w1: "m w = (Inr (), w1)" "sink_ok w1"
    "written w1 = written w @ a" "\<And>n. fits w1 n \<longleftrightarrow> fits w (length a + n)" by blast
  with room have "fits w1 (length b)" by simp
  from emitsD [OF k w1(2) this] obtain w2 where "k w1 = (Inr (), w2)" "sink_ok w2"
    "written w2 = written w1 @ b" "\<And>n. fits w2 n \<longleftrightarrow> fits w1 (length b + n)" by blast
  with w1 show "\<exists>w'. seq_m m k w = (Inr (), w') \<and> sink_ok w' \<and> written w' = written w @ a @ b \<and>
      (\<forall>n. fits w' n \<longleftrightarrow> fits w (length (a @ b) + n))"
    by (auto simp: run_simps add.assoc)
qed

lemma emits_ret: "emits (ret_m ()) []"
  by (simp add: emits_def run_simps)

end

section \<open>The sinks implement the interface\<close>

definition slice_fits :: "slice_writer \<Rightarrow> nat \<Rightarrow> bool" where
  "slice_fits w n \<longleftrightarrow> n \<le> length (sw_rest w)"

definition cursor_ok :: "cursor \<Rightarrow> bool" where
  "cursor_ok c \<longleftrightarrow> cur_pos c \<le> length (cur_wrt c) \<and> length (cur_wrt c) < usize_bound"

definition cursor_written :: "cursor \<Rightarrow> bytes" where
  "cursor_written c = take (cur_pos c) (cur_wrt c)"

definition cursor_fits :: "cursor \<Rightarrow> nat \<Rightarrow> bool" where
  "cursor_fits c n \<longleftrightarrow> cur_pos c + n \<le> length (cur_wrt c)"

interpretation slice_sink: byte_sink slice_write_all sw_done slice_fits "\<lambda>_. True"
  by unfold_locales (auto simp: slice_write_all_def slice_fits_def)

interpretation vec_sink: byte_sink vec_write_all "\<lambda>v. v" "\<lambda>_ _. True" "\<lambda>_. True"
  by unfold_locales (auto simp: vec_write_all_def)

lemma cursor_write_fits:
  assumes "cursor_ok c" "cursor_fits c (length b)"
  shows "\<exists>c'. cursor_write e b c = (Inr (), c') \<and> cursor_ok c' \<and>
    cursor_written c' = cursor_written c @ b \<and>
    (\<forall>n. cursor_fits c' n \<longleftrightarrow> cursor_fits c (length b + n))"
  using assms
  by (auto simp: cursor_write_def cursor_ok_def cursor_fits_def cursor_written_def slice_get_def)

lemma cursor_write_full:
  assumes "cursor_ok c" "\<not> cursor_fits c (length b)"
  shows "cursor_write e b c = (Inl e, c)"
  using assms
  by (auto simp: cursor_write_def cursor_fits_def slice_get_def checked_add_def split: if_splits)

lemma cursor_fits_less: "cursor_fits c n \<Longrightarrow> m \<le> n \<Longrightarrow> cursor_fits c m"
  by (simp add: cursor_fits_def)

interpretation cursor_slice_sink:
  byte_sink cursor_slice_write_all cursor_written cursor_fits cursor_ok
  by unfold_locales
    (auto simp: cursor_slice_write_all_def cursor_write_fits cursor_write_full
      intro: cursor_fits_less)

interpretation cursor_array_sink:
  byte_sink cursor_array_write_all cursor_written cursor_fits cursor_ok
  by unfold_locales
    (auto simp: cursor_array_write_all_def cursor_write_fits cursor_write_full
      intro: cursor_fits_less)

end
