(* ===== verification/Cbor_Encoder.thy ===== *)
theory Cbor_Encoder
  imports Cbor_Write
begin

text \<open>
  The encoder of minicbor (\<open>minicbor/src/encode/encoder.rs\<close>, with the major types of
  \<open>minicbor/src/lib.rs\<close>). Every operation takes the sink's \<open>write_all\<close> and is a chain of writes that
  stops at the first failing one, leaving in the sink what was written before it.

  \<open>head_bytes\<close> is the specification of a CBOR item head in its shortest form; the lemmas of the
  context \<open>byte_sink\<close> show that each operation emits exactly the head (and payload) it stands for,
  on any sink.
\<close>

section \<open>Major types\<close>

definition UNSIGNED :: u8 where "UNSIGNED = 0x00"
definition SIGNED :: u8 where "SIGNED = 0x20"
definition BYTES :: u8 where "BYTES = 0x40"
definition TEXT :: u8 where "TEXT = 0x60"
definition ARRAY :: u8 where "ARRAY = 0x80"
definition MAP :: u8 where "MAP = 0xa0"
definition TAGGED :: u8 where "TAGGED = 0xc0"
definition SIMPLE :: u8 where "SIMPLE = 0xe0"
definition BREAK :: u8 where "BREAK = 0xff"

lemmas major_defs [simp] =
  UNSIGNED_def SIGNED_def BYTES_def TEXT_def ARRAY_def MAP_def TAGGED_def SIMPLE_def BREAK_def

section \<open>The operations\<close>

type_synonym ('w, 'e) enc = "('w, 'e enc_error, unit) fallible"

definition enc_put :: "('w, 'e) write_all \<Rightarrow> bytes \<Rightarrow> ('w, 'e) enc" where
  "enc_put wr b = (\<lambda>w. case wr b w of
      (Inl e, w') \<Rightarrow> (Inl (enc_error_write e), w')
    | (Inr _, w') \<Rightarrow> (Inr (), w'))"

definition enc_u8 :: "('w, 'e) write_all \<Rightarrow> u8 \<Rightarrow> ('w, 'e) enc" where
  "enc_u8 wr x = (if x \<le> 0x17 then enc_put wr [x] else enc_put wr [24, x])"

definition enc_u16 :: "('w, 'e) write_all \<Rightarrow> u16 \<Rightarrow> ('w, 'e) enc" where
  "enc_u16 wr x =
     (if x \<le> 0x17 then enc_put wr [ucast x]
      else if x \<le> 0xff then enc_put wr [24, ucast x]
      else seq_m (enc_put wr [25]) (enc_put wr (to_be16 x)))"

definition enc_u32 :: "('w, 'e) write_all \<Rightarrow> u32 \<Rightarrow> ('w, 'e) enc" where
  "enc_u32 wr x =
     (if x \<le> 0x17 then enc_put wr [ucast x]
      else if x \<le> 0xff then enc_put wr [24, ucast x]
      else if x \<le> 0xffff then seq_m (enc_put wr [25]) (enc_put wr (to_be16 (ucast x)))
      else seq_m (enc_put wr [26]) (enc_put wr (to_be32 x)))"

definition enc_u64 :: "('w, 'e) write_all \<Rightarrow> u64 \<Rightarrow> ('w, 'e) enc" where
  "enc_u64 wr x =
     (if x \<le> 0x17 then enc_put wr [ucast x]
      else if x \<le> 0xff then enc_put wr [24, ucast x]
      else if x \<le> 0xffff then seq_m (enc_put wr [25]) (enc_put wr (to_be16 (ucast x)))
      else if x \<le> 0xffffffff then seq_m (enc_put wr [26]) (enc_put wr (to_be32 (ucast x)))
      else seq_m (enc_put wr [27]) (enc_put wr (to_be64 x)))"

definition enc_u64_noncanonical :: "('w, 'e) write_all \<Rightarrow> u64 \<Rightarrow> ('w, 'e) enc" where
  "enc_u64_noncanonical wr x = seq_m (enc_put wr [27]) (enc_put wr (to_be64 x))"

definition enc_i8 :: "('w, 'e) write_all \<Rightarrow> i8 \<Rightarrow> ('w, 'e) enc" where
  "enc_i8 wr x =
     (if 0 \<le> sint x then enc_u8 wr x
      else let n = - 1 - x in
        if n \<le> 0x17 then enc_put wr [SIGNED OR n]
        else enc_put wr [SIGNED OR 24, n])"

definition enc_i16 :: "('w, 'e) write_all \<Rightarrow> i16 \<Rightarrow> ('w, 'e) enc" where
  "enc_i16 wr x =
     (if 0 \<le> sint x then enc_u16 wr x
      else let n = - 1 - x in
        if n \<le> 0x17 then enc_put wr [SIGNED OR ucast n]
        else if n \<le> 0xff then enc_put wr [SIGNED OR 24, ucast n]
        else seq_m (enc_put wr [SIGNED OR 25]) (enc_put wr (to_be16 n)))"

definition enc_i32 :: "('w, 'e) write_all \<Rightarrow> i32 \<Rightarrow> ('w, 'e) enc" where
  "enc_i32 wr x =
     (if 0 \<le> sint x then enc_u32 wr x
      else let n = - 1 - x in
        if n \<le> 0x17 then enc_put wr [SIGNED OR ucast n]
        else if n \<le> 0xff then enc_put wr [SIGNED OR 24, ucast n]
        else if n \<le> 0xffff then seq_m (enc_put wr [SIGNED OR 25]) (enc_put wr (to_be16 (ucast n)))
        else seq_m (enc_put wr [SIGNED OR 26]) (enc_put wr (to_be32 n)))"

text \<open>The negative part that \<open>i64\<close> and \<open>int\<close> share, as both functions spell it out.\<close>

definition enc_negative :: "('w, 'e) write_all \<Rightarrow> u64 \<Rightarrow> ('w, 'e) enc" where
  "enc_negative wr n =
     (if n \<le> 0x17 then enc_put wr [SIGNED OR ucast n]
      else if n \<le> 0xff then enc_put wr [SIGNED OR 24, ucast n]
      else if n \<le> 0xffff then seq_m (enc_put wr [SIGNED OR 25]) (enc_put wr (to_be16 (ucast n)))
      else if n \<le> 0xffffffff then seq_m (enc_put wr [SIGNED OR 26]) (enc_put wr (to_be32 (ucast n)))
      else seq_m (enc_put wr [SIGNED OR 27]) (enc_put wr (to_be64 n)))"

definition enc_i64 :: "('w, 'e) write_all \<Rightarrow> i64 \<Rightarrow> ('w, 'e) enc" where
  "enc_i64 wr x = (if 0 \<le> sint x then enc_u64 wr x else enc_negative wr (- 1 - x))"

definition enc_int :: "('w, 'e) write_all \<Rightarrow> cbor_int \<Rightarrow> ('w, 'e) enc" where
  "enc_int wr x =
     (if \<not> int_neg x then enc_u64 wr (int_val x) else enc_negative wr (int_val x))"

definition enc_null :: "('w, 'e) write_all \<Rightarrow> ('w, 'e) enc" where
  "enc_null wr = enc_put wr [SIMPLE OR 22]"

definition enc_undefined :: "('w, 'e) write_all \<Rightarrow> ('w, 'e) enc" where
  "enc_undefined wr = enc_put wr [SIMPLE OR 23]"

definition enc_simple :: "('w, 'e) write_all \<Rightarrow> u8 \<Rightarrow> ('w, 'e) enc" where
  "enc_simple wr x =
     (if x < 0x14 then enc_put wr [SIMPLE OR x] else enc_put wr [SIMPLE OR 24, x])"

text \<open>The conversion of an \<open>f32\<close> to half precision is the \<open>half\<close> crate's, a parameter.\<close>

definition enc_f16 :: "(f32 \<Rightarrow> u16) \<Rightarrow> ('w, 'e) write_all \<Rightarrow> f32 \<Rightarrow> ('w, 'e) enc" where
  "enc_f16 f16_from_f32 wr x =
     seq_m (enc_put wr [SIMPLE OR 25]) (enc_put wr (to_be16 (f16_from_f32 x)))"

definition enc_f32 :: "('w, 'e) write_all \<Rightarrow> f32 \<Rightarrow> ('w, 'e) enc" where
  "enc_f32 wr x = seq_m (enc_put wr [SIMPLE OR 26]) (enc_put wr (to_be32 x))"

definition enc_f64 :: "('w, 'e) write_all \<Rightarrow> f64 \<Rightarrow> ('w, 'e) enc" where
  "enc_f64 wr x = seq_m (enc_put wr [SIMPLE OR 27]) (enc_put wr (to_be64 x))"

definition enc_bool :: "('w, 'e) write_all \<Rightarrow> bool \<Rightarrow> ('w, 'e) enc" where
  "enc_bool wr x = enc_put wr [SIMPLE OR (if x then 0x15 else 0x14)]"

definition enc_char :: "('w, 'e) write_all \<Rightarrow> u32 \<Rightarrow> ('w, 'e) enc" where
  "enc_char wr x = enc_u32 wr x"

definition type_len :: "('w, 'e) write_all \<Rightarrow> u8 \<Rightarrow> u64 \<Rightarrow> ('w, 'e) enc" where
  "type_len wr t x =
     (if x \<le> 0x17 then enc_put wr [t OR ucast x]
      else if x \<le> 0xff then enc_put wr [t OR 24, ucast x]
      else if x \<le> 0xffff then seq_m (enc_put wr [t OR 25]) (enc_put wr (to_be16 (ucast x)))
      else if x \<le> 0xffffffff then seq_m (enc_put wr [t OR 26]) (enc_put wr (to_be32 (ucast x)))
      else seq_m (enc_put wr [t OR 27]) (enc_put wr (to_be64 x)))"

definition type_len_noncanonical :: "('w, 'e) write_all \<Rightarrow> u8 \<Rightarrow> u64 \<Rightarrow> ('w, 'e) enc" where
  "type_len_noncanonical wr t x = seq_m (enc_put wr [t OR 27]) (enc_put wr (to_be64 x))"

definition enc_tag :: "('w, 'e) write_all \<Rightarrow> tag \<Rightarrow> ('w, 'e) enc" where
  "enc_tag wr x = type_len wr TAGGED (tag_as_u64 x)"

definition enc_bytes :: "('w, 'e) write_all \<Rightarrow> bytes \<Rightarrow> ('w, 'e) enc" where
  "enc_bytes wr x = seq_m (type_len wr BYTES (of_nat (length x))) (enc_put wr x)"

definition enc_bytes_len :: "('w, 'e) write_all \<Rightarrow> u64 \<Rightarrow> ('w, 'e) enc" where
  "enc_bytes_len wr len = type_len wr BYTES len"

definition enc_str :: "('w, 'e) write_all \<Rightarrow> bytes \<Rightarrow> ('w, 'e) enc" where
  "enc_str wr x = seq_m (type_len wr TEXT (of_nat (length x))) (enc_put wr x)"

definition enc_str_noncanonical :: "('w, 'e) write_all \<Rightarrow> bytes \<Rightarrow> ('w, 'e) enc" where
  "enc_str_noncanonical wr x =
     seq_m (type_len_noncanonical wr TEXT (of_nat (length x))) (enc_put wr x)"

definition enc_str_len :: "('w, 'e) write_all \<Rightarrow> u64 \<Rightarrow> ('w, 'e) enc" where
  "enc_str_len wr len = type_len wr TEXT len"

definition enc_array :: "('w, 'e) write_all \<Rightarrow> u64 \<Rightarrow> ('w, 'e) enc" where
  "enc_array wr len = type_len wr ARRAY len"

definition enc_map :: "('w, 'e) write_all \<Rightarrow> u64 \<Rightarrow> ('w, 'e) enc" where
  "enc_map wr len = type_len wr MAP len"

definition enc_begin_array :: "('w, 'e) write_all \<Rightarrow> ('w, 'e) enc" where
  "enc_begin_array wr = enc_put wr [0x9f]"

definition enc_begin_bytes :: "('w, 'e) write_all \<Rightarrow> ('w, 'e) enc" where
  "enc_begin_bytes wr = enc_put wr [0x5f]"

definition enc_begin_map :: "('w, 'e) write_all \<Rightarrow> ('w, 'e) enc" where
  "enc_begin_map wr = enc_put wr [0xbf]"

definition enc_begin_str :: "('w, 'e) write_all \<Rightarrow> ('w, 'e) enc" where
  "enc_begin_str wr = enc_put wr [0x7f]"

definition enc_end :: "('w, 'e) write_all \<Rightarrow> ('w, 'e) enc" where
  "enc_end wr = enc_put wr [0xff]"

definition enc_ok :: "('w, 'e) enc" where
  "enc_ok = ret_m ()"

section \<open>Item heads\<close>

text \<open>The head of an item of major type \<open>t\<close> with argument \<open>n\<close>, in its shortest form.\<close>

definition head_bytes :: "u8 \<Rightarrow> nat \<Rightarrow> bytes" where
  "head_bytes t n =
     (if n < 24 then [t OR of_nat n]
      else if n < 2 ^ 8 then (t OR 24) # be_of_nat 1 n
      else if n < 2 ^ 16 then (t OR 25) # be_of_nat 2 n
      else if n < 2 ^ 32 then (t OR 26) # be_of_nat 4 n
      else (t OR 27) # be_of_nat 8 n)"

text \<open>The widest form, which the producer uses to keep the eBPF verifier's state space small.\<close>

definition wide_head_bytes :: "u8 \<Rightarrow> nat \<Rightarrow> bytes" where
  "wide_head_bytes t n = (t OR 27) # be_of_nat 8 n"

text \<open>The head of an integer: major type 0 or 1 by its sign.\<close>

definition int_head :: "int \<Rightarrow> bytes" where
  "int_head k = (if 0 \<le> k then head_bytes UNSIGNED (nat k) else head_bytes SIGNED (nat (- 1 - k)))"

lemma unat_ucast_less:
  "unat (x :: 'a::len word) < 2 ^ LENGTH('b) \<Longrightarrow> unat (ucast x :: 'b::len word) = unat x"
  by (simp add: unsigned_ucast_eq take_bit_nat_eq_self)

lemma be_of_nat_1: "be_of_nat 1 n = [of_nat n]"
  by simp

lemmas head_simps = word_le_nat_alt unat_ucast_less head_bytes_def be_of_nat_1

lemma length_head_bytes: "1 \<le> length (head_bytes t n) \<and> length (head_bytes t n) \<le> 9"
  by (simp add: head_bytes_def)

lemma length_wide_head_bytes [simp]: "length (wide_head_bytes t n) = 9"
  by (simp add: wide_head_bytes_def)

lemma int_head_uint: "int_head (uint (x :: 'a::len word)) = head_bytes 0 (unat x)"
  by (simp add: int_head_def)

lemma int_head_sint_nonneg:
  "0 \<le> sint (x :: 'a::len word) \<Longrightarrow> int_head (sint x) = head_bytes 0 (unat x)"
  using uint_of_sint [of x] int_head_uint [of x] by simp

lemma int_head_sint_neg:
  "sint (x :: 'a::len word) < 0 \<Longrightarrow> int_head (sint x) = head_bytes SIGNED (unat (- 1 - x))"
  using uint_complement_neg [of x] by (simp add: int_head_def flip: nat_uint_eq)

lemma int_head_int_value:
  "int_head (int_value i) = head_bytes (if int_neg i then SIGNED else UNSIGNED) (unat (int_val i))"
proof -
  have "0 \<le> uint (int_val i)" by simp
  then have "\<not> 0 \<le> - 1 - uint (int_val i)" by linarith
  then show ?thesis by (simp add: int_head_def int_value_def)
qed

context byte_sink begin

lemma emits_put: "emits (enc_put write_all b) b"
  unfolding emits_def
proof (intro allI impI)
  fix w assume "sink_ok w" "fits w (length b)"
  from write_fits [OF this] show "\<exists>w'. enc_put write_all b w = (Inr (), w') \<and> sink_ok w' \<and>
      written w' = written w @ b \<and> (\<forall>n. fits w' n \<longleftrightarrow> fits w (length b + n))"
    by (auto simp: enc_put_def)
qed

lemma emits_put2: "emits (seq_m (enc_put write_all [a]) (enc_put write_all b)) (a # b)"
  using emits_seq [OF emits_put emits_put, of "[a]" b] by simp

lemma emits_type_len: "emits (type_len write_all t x) (head_bytes t (unat x))"
  unfolding type_len_def using emits_put emits_put2 unat_lt [of x] by (auto simp: head_simps)

lemma emits_type_len_noncanonical:
  "emits (type_len_noncanonical write_all t x) (wide_head_bytes t (unat x))"
  unfolding type_len_noncanonical_def wide_head_bytes_def by (rule emits_put2)

lemma emits_u8: "emits (enc_u8 write_all x) (head_bytes 0 (unat x))"
  unfolding enc_u8_def using emits_put unat_lt [of x] by (auto simp: head_simps)

lemma emits_u16: "emits (enc_u16 write_all x) (head_bytes 0 (unat x))"
  unfolding enc_u16_def using emits_put emits_put2 unat_lt [of x] by (auto simp: head_simps)

lemma emits_u32: "emits (enc_u32 write_all x) (head_bytes 0 (unat x))"
  unfolding enc_u32_def using emits_put emits_put2 unat_lt [of x] by (auto simp: head_simps)

lemma emits_u64: "emits (enc_u64 write_all x) (head_bytes 0 (unat x))"
  unfolding enc_u64_def using emits_put emits_put2 unat_lt [of x] by (auto simp: head_simps)

lemma emits_u64_noncanonical:
  "emits (enc_u64_noncanonical write_all x) (wide_head_bytes 0 (unat x))"
  unfolding enc_u64_noncanonical_def wide_head_bytes_def using emits_put2 by simp

lemma emits_negative: "emits (enc_negative write_all n) (head_bytes SIGNED (unat n))"
  unfolding enc_negative_def using emits_put emits_put2 unat_lt [of n] by (auto simp: head_simps)

lemma emits_i8: "emits (enc_i8 write_all x) (int_head (sint x))"
proof (cases "0 \<le> sint x")
  case True
  then show ?thesis using emits_u8 by (simp add: enc_i8_def int_head_sint_nonneg)
next
  case False
  then show ?thesis
    unfolding enc_i8_def Let_def using emits_put unat_lt [of "- 1 - x"]
    by (auto simp: int_head_sint_neg head_simps)
qed

lemma emits_i16: "emits (enc_i16 write_all x) (int_head (sint x))"
proof (cases "0 \<le> sint x")
  case True
  then show ?thesis using emits_u16 by (simp add: enc_i16_def int_head_sint_nonneg)
next
  case False
  then show ?thesis
    unfolding enc_i16_def Let_def using emits_put emits_put2 unat_lt [of "- 1 - x"]
    by (auto simp: int_head_sint_neg head_simps)
qed

lemma emits_i32: "emits (enc_i32 write_all x) (int_head (sint x))"
proof (cases "0 \<le> sint x")
  case True
  then show ?thesis using emits_u32 by (simp add: enc_i32_def int_head_sint_nonneg)
next
  case False
  then show ?thesis
    unfolding enc_i32_def Let_def using emits_put emits_put2 unat_lt [of "- 1 - x"]
    by (auto simp: int_head_sint_neg head_simps)
qed

lemma emits_i64: "emits (enc_i64 write_all x) (int_head (sint x))"
  using emits_u64 emits_negative [of "- 1 - x"]
  by (simp add: enc_i64_def int_head_sint_nonneg int_head_sint_neg)

lemma emits_int: "emits (enc_int write_all x) (int_head (int_value x))"
  using emits_u64 emits_negative by (simp add: enc_int_def int_head_int_value)

lemma emits_bytes:
  "emits (enc_bytes write_all x) (head_bytes BYTES (unat (of_nat (length x) :: u64)) @ x)"
  unfolding enc_bytes_def by (rule emits_seq [OF emits_type_len emits_put])

lemma emits_str:
  "emits (enc_str write_all x) (head_bytes TEXT (unat (of_nat (length x) :: u64)) @ x)"
  unfolding enc_str_def by (rule emits_seq [OF emits_type_len emits_put])

lemma emits_str_noncanonical:
  "emits (enc_str_noncanonical write_all x)
     (wide_head_bytes TEXT (unat (of_nat (length x) :: u64)) @ x)"
  unfolding enc_str_noncanonical_def by (rule emits_seq [OF emits_type_len_noncanonical emits_put])

lemma emits_simple:
  "emits (enc_simple write_all x) (if x < 0x14 then [SIMPLE OR x] else [SIMPLE OR 24, x])"
  unfolding enc_simple_def using emits_put by auto

lemma emits_f16:
  "emits (enc_f16 h write_all x) ((SIMPLE OR 25) # to_be16 (h x))"
  unfolding enc_f16_def by (rule emits_put2)

lemma emits_f32: "emits (enc_f32 write_all x) ((SIMPLE OR 26) # to_be32 x)"
  unfolding enc_f32_def by (rule emits_put2)

lemma emits_f64: "emits (enc_f64 write_all x) ((SIMPLE OR 27) # to_be64 x)"
  unfolding enc_f64_def by (rule emits_put2)

lemma emits_bool: "emits (enc_bool write_all x) [SIMPLE OR (if x then 0x15 else 0x14)]"
  unfolding enc_bool_def by (rule emits_put)

lemmas emits_intros =
  emits_put emits_put2 emits_type_len emits_type_len_noncanonical emits_u8 emits_u16 emits_u32
  emits_u64 emits_u64_noncanonical emits_i8 emits_i16 emits_i32 emits_i64 emits_int emits_bytes
  emits_str emits_str_noncanonical emits_simple emits_f16 emits_f32 emits_f64 emits_bool

end

text \<open>On the vector sink, which has room for everything, an emitting action is an append.\<close>

lemma vec_run: "vec_sink.emits m bs \<Longrightarrow> m v = (Inr (), v @ bs)"
  by (auto simp: vec_sink.emits_def)

text \<open>On the slice sink, an emitting action either fits or runs out of room.\<close>

lemma slice_run:
  assumes "slice_sink.emits m bs" "length bs \<le> length (sw_rest w)"
  obtains w' where "m w = (Inr (), w')" "sw_done w' = sw_done w @ bs"
    "length (sw_rest w') = length (sw_rest w) - length bs"
proof -
  obtain w' where w': "m w = (Inr (), w')" "sw_done w' = sw_done w @ bs"
    "\<And>n. slice_fits w' n \<longleftrightarrow> slice_fits w (length bs + n)"
    using slice_sink.emitsD [OF assms(1)] assms(2) by (auto simp: slice_fits_def)
  from w'(3) [of "length (sw_rest w')"] w'(3) [of "length (sw_rest w) - length bs"] assms(2)
  have "length (sw_rest w') = length (sw_rest w) - length bs" by (auto simp: slice_fits_def)
  with w' that show ?thesis by blast
qed

section \<open>Properties\<close>

text \<open>Every integer operation of the encoder writes the shortest CBOR head of the mathematical
  value it is given, whatever the width of the Rust type: major type 0 for a non-negative value,
  major type 1 with argument \<open>-1 - n\<close> for a negative one.\<close>

theorem integer_encodings_shortest:
  "enc_u8 vec_write_all a v = (Inr (), v @ int_head (uint a)) \<and>
   enc_u16 vec_write_all b v = (Inr (), v @ int_head (uint b)) \<and>
   enc_u32 vec_write_all c v = (Inr (), v @ int_head (uint c)) \<and>
   enc_u64 vec_write_all d v = (Inr (), v @ int_head (uint d)) \<and>
   enc_i8 vec_write_all a v = (Inr (), v @ int_head (sint a)) \<and>
   enc_i16 vec_write_all b v = (Inr (), v @ int_head (sint b)) \<and>
   enc_i32 vec_write_all c v = (Inr (), v @ int_head (sint c)) \<and>
   enc_i64 vec_write_all d v = (Inr (), v @ int_head (sint d)) \<and>
   enc_int vec_write_all i v = (Inr (), v @ int_head (int_value i))"
  by (simp add: vec_run vec_sink.emits_u8 vec_sink.emits_u16 vec_sink.emits_u32 vec_sink.emits_u64
      vec_sink.emits_i8 vec_sink.emits_i16 vec_sink.emits_i32 vec_sink.emits_i64 vec_sink.emits_int
      int_head_uint)

end
