(* ===== verification/Cbor_Decoder.thy ===== *)
theory Cbor_Decoder
  imports Cbor_Encoder
begin

text \<open>
  The decoder of minicbor (\<open>minicbor/src/decode/decoder.rs\<close>): a byte slice and a position. Every
  operation is a fallible state-passing function; the position it leaves behind on an error is the
  one the code leaves behind.

  The lemmas on \<open>safe\<close> show that no operation changes the input or moves outside of it and that a
  successful one makes progress; the lemmas on \<open>reads\<close> run the operations on an encoded item that is
  followed by anything, which gives the round trips with the encoder.
\<close>

section \<open>Reading\<close>

record decoder =
  dec_buf :: bytes
  dec_pos :: usize

type_synonym 'a dec = "(decoder, decode_error, 'a) fallible"

definition dec_new :: "bytes \<Rightarrow> decoder" where
  "dec_new bs = \<lparr>dec_buf = bs, dec_pos = 0\<rparr>"

definition dec_position :: "decoder \<Rightarrow> usize" where
  "dec_position d = dec_pos d"

definition dec_set_position :: "usize \<Rightarrow> decoder \<Rightarrow> decoder" where
  "dec_set_position p d = d\<lparr>dec_pos := p\<rparr>"

definition dec_input :: "decoder \<Rightarrow> bytes" where
  "dec_input d = dec_buf d"

definition dec_probe :: "decoder \<Rightarrow> decoder" where
  "dec_probe d = d"

text \<open>\<open>let p = self.pos\<close>.\<close>

definition with_pos :: "(usize \<Rightarrow> 'a dec) \<Rightarrow> 'a dec" where
  "with_pos f = (\<lambda>d. f (dec_pos d) d)"

definition dec_current :: "u8 dec" where
  "dec_current = (\<lambda>d. case index_get (dec_buf d) (dec_pos d) of
      Some b \<Rightarrow> (Inr b, d) | None \<Rightarrow> (Inl end_of_input, d))"

definition dec_read :: "u8 dec" where
  "dec_read = (\<lambda>d. case index_get (dec_buf d) (dec_pos d) of
      Some b \<Rightarrow> (Inr b, d\<lparr>dec_pos := dec_pos d + 1\<rparr>) | None \<Rightarrow> (Inl end_of_input, d))"

definition dec_peek :: "u8 dec" where
  "dec_peek = (\<lambda>d. (ok_or end_of_input
      (Option.bind (checked_add (dec_pos d) 1) (index_get (dec_buf d))), d))"

definition read_slice :: "usize \<Rightarrow> bytes dec" where
  "read_slice n = (\<lambda>d.
     case Option.bind (checked_add (dec_pos d) n) (slice_get (dec_buf d) (dec_pos d)) of
       Some b \<Rightarrow> (Inr b, d\<lparr>dec_pos := dec_pos d + n\<rparr>)
     | None \<Rightarrow> (Inl end_of_input, d))"

definition read_array :: "usize \<Rightarrow> bytes dec" where
  "read_array n = read_slice n"

definition read_be :: "usize \<Rightarrow> 'a::len word dec" where
  "read_be n = map_m (\<lambda>a. of_nat (nat_of_be a)) (read_array n)"

definition type_of :: "u8 \<Rightarrow> u8" where
  "type_of b = b AND 0xe0"

definition info_of :: "u8 \<Rightarrow> u8" where
  "info_of b = b AND 0x1f"

definition dec_type_of :: "u8 \<Rightarrow> cbor_type dec" where
  "dec_type_of n =
     (if n \<le> 0x18 then ret_m TyU8
      else if n = 0x19 then ret_m TyU16
      else if n = 0x1a then ret_m TyU32
      else if n = 0x1b then ret_m TyU64
      else if 0x20 \<le> n \<and> n \<le> 0x37 then ret_m TyI8
      else if n = 0x38 then map_m (\<lambda>b. if b < 0x80 then TyI8 else TyI16) dec_peek
      else if n = 0x39 then map_m (\<lambda>b. if b < 0x80 then TyI16 else TyI32) dec_peek
      else if n = 0x3a then map_m (\<lambda>b. if b < 0x80 then TyI32 else TyI64) dec_peek
      else if n = 0x3b then map_m (\<lambda>b. if b < 0x80 then TyI64 else TyInt) dec_peek
      else if 0x40 \<le> n \<and> n \<le> 0x5b then ret_m TyBytes
      else if n = 0x5f then ret_m TyBytesIndef
      else if 0x60 \<le> n \<and> n \<le> 0x7b then ret_m TyString
      else if n = 0x7f then ret_m TyStringIndef
      else if 0x80 \<le> n \<and> n \<le> 0x9b then ret_m TyArray
      else if n = 0x9f then ret_m TyArrayIndef
      else if 0xa0 \<le> n \<and> n \<le> 0xbb then ret_m TyMap
      else if n = 0xbf then ret_m TyMapIndef
      else if 0xc0 \<le> n \<and> n \<le> 0xdb then ret_m TyTag
      else if 0xe0 \<le> n \<and> n \<le> 0xf3 \<or> n = 0xf8 then ret_m TySimple
      else if n = 0xf4 \<or> n = 0xf5 then ret_m TyBool
      else if n = 0xf6 then ret_m TyNull
      else if n = 0xf7 then ret_m TyUndefined
      else if n = 0xf9 then ret_m TyF16
      else if n = 0xfa then ret_m TyF32
      else if n = 0xfb then ret_m TyF64
      else if n = 0xff then ret_m TyBreak
      else ret_m (TyUnknown n))"

text \<open>\<open>Err(Error::type_mismatch(self.type_of(b)?).at(p).with_message(msg))\<close>.\<close>

definition mismatch :: "u8 \<Rightarrow> usize \<Rightarrow> string \<Rightarrow> 'a dec" where
  "mismatch b p msg =
     bind_m (dec_type_of b) (\<lambda>t. fail_m (with_message msg (err_at p (type_mismatch t))))"

definition u64_to_usize :: "u64 \<Rightarrow> usize \<Rightarrow> usize dec" where
  "u64_to_usize n p =
     (if unat n < usize_bound then ret_m (unat n)
      else fail_m (with_message ''when converting u64 to usize'' (err_at p (overflow n))))"

definition try_as ::
  "('a::len word \<Rightarrow> 'b option) \<Rightarrow> 'a word \<Rightarrow> string \<Rightarrow> usize \<Rightarrow> 'b dec" where
  "try_as conv v msg p =
     res_m (ok_or (with_message msg (err_at p (overflow (ucast v)))) (conv v))"

definition dec_unsigned :: "u8 \<Rightarrow> usize \<Rightarrow> u64 dec" where
  "dec_unsigned b p =
     (if b \<le> 0x17 then ret_m (ucast b)
      else if b = 0x18 then map_m ucast dec_read
      else if b = 0x19 then map_m ucast (read_be 2 :: u16 dec)
      else if b = 0x1a then map_m ucast (read_be 4 :: u32 dec)
      else if b = 0x1b then read_be 8
      else mismatch b p ''expected u64'')"

section \<open>Booleans and integers\<close>

definition dec_bool :: "bool dec" where
  "dec_bool = with_pos (\<lambda>p. bind_m dec_read (\<lambda>b.
     if b = 0xf4 then ret_m False
     else if b = 0xf5 then ret_m True
     else mismatch b p ''expected bool''))"

definition dec_u8 :: "u8 dec" where
  "dec_u8 = with_pos (\<lambda>p. bind_m dec_read (\<lambda>b.
     if b \<le> 0x17 then ret_m b
     else if b = 0x18 then dec_read
     else if b = 0x19 then bind_m (read_be 2 :: u16 dec) (\<lambda>n.
       try_as try_unsigned n ''when converting u16 to u8'' p)
     else if b = 0x1a then bind_m (read_be 4 :: u32 dec) (\<lambda>n.
       try_as try_unsigned n ''when converting u32 to u8'' p)
     else if b = 0x1b then bind_m (read_be 8 :: u64 dec) (\<lambda>n.
       try_as try_unsigned n ''when converting u64 to u8'' p)
     else mismatch b p ''expected u8''))"

definition dec_u16 :: "u16 dec" where
  "dec_u16 = with_pos (\<lambda>p. bind_m dec_read (\<lambda>b.
     if b \<le> 0x17 then ret_m (ucast b)
     else if b = 0x18 then map_m ucast dec_read
     else if b = 0x19 then read_be 2
     else if b = 0x1a then bind_m (read_be 4 :: u32 dec) (\<lambda>n.
       try_as try_unsigned n ''when converting u32 to u16'' p)
     else if b = 0x1b then bind_m (read_be 8 :: u64 dec) (\<lambda>n.
       try_as try_unsigned n ''when converting u64 to u16'' p)
     else mismatch b p ''expected u16''))"

definition dec_u32 :: "u32 dec" where
  "dec_u32 = with_pos (\<lambda>p. bind_m dec_read (\<lambda>b.
     if b \<le> 0x17 then ret_m (ucast b)
     else if b = 0x18 then map_m ucast dec_read
     else if b = 0x19 then map_m ucast (read_be 2 :: u16 dec)
     else if b = 0x1a then read_be 4
     else if b = 0x1b then bind_m (read_be 8 :: u64 dec) (\<lambda>n.
       try_as try_unsigned n ''when converting u64 to u32'' p)
     else mismatch b p ''expected u32''))"

definition dec_u64 :: "u64 dec" where
  "dec_u64 = with_pos (\<lambda>p. bind_m dec_read (\<lambda>n. dec_unsigned n p))"

definition dec_i8 :: "i8 dec" where
  "dec_i8 = with_pos (\<lambda>p. bind_m dec_read (\<lambda>b.
     if b \<le> 0x17 then ret_m b
     else if b = 0x18 then bind_m dec_read (\<lambda>n.
       try_as try_signed n ''when converting u8 to i8'' p)
     else if b = 0x19 then bind_m (read_be 2 :: u16 dec) (\<lambda>n.
       try_as try_signed n ''when converting u16 to i8'' p)
     else if b = 0x1a then bind_m (read_be 4 :: u32 dec) (\<lambda>n.
       try_as try_signed n ''when converting u32 to i8'' p)
     else if b = 0x1b then bind_m (read_be 8 :: u64 dec) (\<lambda>n.
       try_as try_signed n ''when converting u64 to i8'' p)
     else if 0x20 \<le> b \<and> b \<le> 0x37 then ret_m (- 1 - (b - 0x20))
     else if b = 0x38 then bind_m dec_read (\<lambda>n.
       map_m (\<lambda>n. - 1 - n) (try_as try_signed n ''when converting u8 to i8'' p))
     else if b = 0x39 then bind_m (read_be 2 :: u16 dec) (\<lambda>n.
       map_m (\<lambda>n. - 1 - n) (try_as try_signed n ''when converting u16 to i8'' p))
     else if b = 0x3a then bind_m (read_be 4 :: u32 dec) (\<lambda>n.
       map_m (\<lambda>n. - 1 - n) (try_as try_signed n ''when converting u32 to i8'' p))
     else if b = 0x3b then bind_m (read_be 8 :: u64 dec) (\<lambda>n.
       map_m (\<lambda>n. - 1 - n) (try_as try_signed n ''when converting u64 to i8'' p))
     else mismatch b p ''expected i8''))"

definition dec_i16 :: "i16 dec" where
  "dec_i16 = with_pos (\<lambda>p. bind_m dec_read (\<lambda>b.
     if b \<le> 0x17 then ret_m (ucast b)
     else if b = 0x18 then map_m ucast dec_read
     else if b = 0x19 then bind_m (read_be 2 :: u16 dec) (\<lambda>n.
       try_as try_signed n ''when converting u16 to i16'' p)
     else if b = 0x1a then bind_m (read_be 4 :: u32 dec) (\<lambda>n.
       try_as try_signed n ''when converting u32 to i16'' p)
     else if b = 0x1b then bind_m (read_be 8 :: u64 dec) (\<lambda>n.
       try_as try_signed n ''when converting u64 to i16'' p)
     else if 0x20 \<le> b \<and> b \<le> 0x37 then ret_m (- 1 - ucast (b - 0x20))
     else if b = 0x38 then map_m (\<lambda>n. - 1 - ucast n) dec_read
     else if b = 0x39 then bind_m (read_be 2 :: u16 dec) (\<lambda>n.
       map_m (\<lambda>n. - 1 - n) (try_as try_signed n ''when converting u16 to i16'' p))
     else if b = 0x3a then bind_m (read_be 4 :: u32 dec) (\<lambda>n.
       map_m (\<lambda>n. - 1 - n) (try_as try_signed n ''when converting u32 to i16'' p))
     else if b = 0x3b then bind_m (read_be 8 :: u64 dec) (\<lambda>n.
       map_m (\<lambda>n. - 1 - n) (try_as try_signed n ''when converting u64 to i16'' p))
     else mismatch b p ''expected i16''))"

definition dec_i32 :: "i32 dec" where
  "dec_i32 = with_pos (\<lambda>p. bind_m dec_read (\<lambda>b.
     if b \<le> 0x17 then ret_m (ucast b)
     else if b = 0x18 then map_m ucast dec_read
     else if b = 0x19 then map_m ucast (read_be 2 :: u16 dec)
     else if b = 0x1a then bind_m (read_be 4 :: u32 dec) (\<lambda>n.
       try_as try_signed n ''when converting u32 to i32'' p)
     else if b = 0x1b then bind_m (read_be 8 :: u64 dec) (\<lambda>n.
       try_as try_signed n ''when converting u64 to i32'' p)
     else if 0x20 \<le> b \<and> b \<le> 0x37 then ret_m (- 1 - ucast (b - 0x20))
     else if b = 0x38 then map_m (\<lambda>n. - 1 - ucast n) dec_read
     else if b = 0x39 then map_m (\<lambda>n. - 1 - ucast n) (read_be 2 :: u16 dec)
     else if b = 0x3a then bind_m (read_be 4 :: u32 dec) (\<lambda>n.
       map_m (\<lambda>n. - 1 - n) (try_as try_signed n ''when converting u32 to i32'' p))
     else if b = 0x3b then bind_m (read_be 8 :: u64 dec) (\<lambda>n.
       map_m (\<lambda>n. - 1 - n) (try_as try_signed n ''when converting u64 to i32'' p))
     else mismatch b p ''expected i32''))"

definition dec_i64 :: "i64 dec" where
  "dec_i64 = with_pos (\<lambda>p. bind_m dec_read (\<lambda>b.
     if b \<le> 0x17 then ret_m (ucast b)
     else if b = 0x18 then map_m ucast dec_read
     else if b = 0x19 then map_m ucast (read_be 2 :: u16 dec)
     else if b = 0x1a then map_m ucast (read_be 4 :: u32 dec)
     else if b = 0x1b then bind_m (read_be 8 :: u64 dec) (\<lambda>n.
       try_as try_signed n ''when converting u64 to i64'' p)
     else if 0x20 \<le> b \<and> b \<le> 0x37 then ret_m (- 1 - ucast (b - 0x20))
     else if b = 0x38 then map_m (\<lambda>n. - 1 - ucast n) dec_read
     else if b = 0x39 then map_m (\<lambda>n. - 1 - ucast n) (read_be 2 :: u16 dec)
     else if b = 0x3a then map_m (\<lambda>n. - 1 - ucast n) (read_be 4 :: u32 dec)
     else if b = 0x3b then bind_m (read_be 8 :: u64 dec) (\<lambda>n.
       map_m (\<lambda>n. - 1 - n) (try_as try_signed n ''when converting u64 to i64'' p))
     else mismatch b p ''expected i64''))"

definition dec_int :: "cbor_int dec" where
  "dec_int = with_pos (\<lambda>p. bind_m dec_read (\<lambda>b.
     if b \<le> 0x17 then ret_m (int_pos (ucast b))
     else if b = 0x18 then map_m (\<lambda>n. int_pos (ucast n)) dec_read
     else if b = 0x19 then map_m (\<lambda>n. int_pos (ucast n)) (read_be 2 :: u16 dec)
     else if b = 0x1a then map_m (\<lambda>n. int_pos (ucast n)) (read_be 4 :: u32 dec)
     else if b = 0x1b then map_m int_pos (read_be 8)
     else if 0x20 \<le> b \<and> b \<le> 0x37 then ret_m (int_negative (ucast (b - 0x20)))
     else if b = 0x38 then map_m (\<lambda>n. int_negative (ucast n)) dec_read
     else if b = 0x39 then map_m (\<lambda>n. int_negative (ucast n)) (read_be 2 :: u16 dec)
     else if b = 0x3a then map_m (\<lambda>n. int_negative (ucast n)) (read_be 4 :: u32 dec)
     else if b = 0x3b then map_m int_negative (read_be 8)
     else mismatch b p ''expected int''))"

section \<open>Floats and characters\<close>

text \<open>The conversion from half precision is the \<open>half\<close> crate's, a parameter.\<close>

definition dec_f16 :: "(u16 \<Rightarrow> f32) \<Rightarrow> f32 dec" where
  "dec_f16 f16_to_f32 = with_pos (\<lambda>p. bind_m dec_read (\<lambda>b.
     if b \<noteq> 0xf9 then mismatch b p ''expected f16''
     else map_m f16_to_f32 (read_be 2)))"

definition dec_f32 :: "(u16 \<Rightarrow> f32) \<Rightarrow> f32 dec" where
  "dec_f32 f16_to_f32 = with_pos (\<lambda>p. bind_m dec_current (\<lambda>b.
     if b = 0xf9 then dec_f16 f16_to_f32
     else if b = 0xfa then seq_m dec_read (read_be 4)
     else mismatch b p ''expected f32''))"

definition dec_f64 :: "(u16 \<Rightarrow> f32) \<Rightarrow> f64 dec" where
  "dec_f64 f16_to_f32 = with_pos (\<lambda>p. bind_m dec_current (\<lambda>b.
     if b = 0xf9 then map_m f32_to_f64 (dec_f16 f16_to_f32)
     else if b = 0xfa then map_m f32_to_f64 (dec_f32 f16_to_f32)
     else if b = 0xfb then seq_m dec_read (read_be 8)
     else mismatch b p ''expected f64''))"

definition dec_char :: "u32 dec" where
  "dec_char = with_pos (\<lambda>p. bind_m dec_u32 (\<lambda>n.
     res_m (ok_or (err_at p (invalid_char n)) (char_from_u32 n))))"

section \<open>Strings, arrays, maps, tags and simple values\<close>

definition dec_bytes :: "bytes dec" where
  "dec_bytes = with_pos (\<lambda>p. bind_m dec_read (\<lambda>b.
     if BYTES \<noteq> type_of b \<or> info_of b = 31
     then mismatch b p ''expected bytes (definite length)''
     else bind_m (dec_unsigned (info_of b) p) (\<lambda>l.
          bind_m (u64_to_usize l p) read_slice)))"

definition dec_str :: "bytes dec" where
  "dec_str = with_pos (\<lambda>p. bind_m dec_read (\<lambda>b.
     if TEXT \<noteq> type_of b \<or> info_of b = 31
     then mismatch b p ''expected text (definite length)''
     else bind_m (dec_unsigned (info_of b) p) (\<lambda>l.
          bind_m (u64_to_usize l p) (\<lambda>n.
          bind_m (read_slice n) (\<lambda>s.
          res_m (map_err (\<lambda>e. err_at p (err_utf8 e)) (from_utf8 s)))))))"

definition dec_array :: "u64 option dec" where
  "dec_array = with_pos (\<lambda>p. bind_m dec_read (\<lambda>b.
     if ARRAY \<noteq> type_of b then mismatch b p ''expected array''
     else if info_of b = 31 then ret_m None
     else map_m Some (dec_unsigned (info_of b) p)))"

definition dec_map :: "u64 option dec" where
  "dec_map = with_pos (\<lambda>p. bind_m dec_read (\<lambda>b.
     if MAP \<noteq> type_of b then mismatch b p ''expected map''
     else if info_of b = 31 then ret_m None
     else map_m Some (dec_unsigned (info_of b) p)))"

definition dec_tag :: "tag dec" where
  "dec_tag = with_pos (\<lambda>p. bind_m dec_read (\<lambda>b.
     if TAGGED \<noteq> type_of b then mismatch b p ''expected tag''
     else map_m tag_new (dec_unsigned (info_of b) p)))"

definition dec_null :: "unit dec" where
  "dec_null = with_pos (\<lambda>p. bind_m dec_read (\<lambda>n.
     if n = 0xf6 then ret_m () else mismatch n p ''expected null''))"

definition dec_undefined :: "unit dec" where
  "dec_undefined = with_pos (\<lambda>p. bind_m dec_read (\<lambda>n.
     if n = 0xf7 then ret_m () else mismatch n p ''expected undefined''))"

definition dec_simple :: "u8 dec" where
  "dec_simple = with_pos (\<lambda>p. bind_m dec_read (\<lambda>n.
     if SIMPLE \<le> n \<and> n \<le> 0xf3 then ret_m (n - SIMPLE)
     else if n = 0xf8 then dec_read
     else mismatch n p ''expected simple value''))"

definition dec_datatype :: "cbor_type dec" where
  "dec_datatype = bind_m dec_current dec_type_of"

section \<open>Safety and progress\<close>

text \<open>
  \<open>safe\<close>: an operation never changes the input and, started inside of it, never leaves it, on
  success and on error. \<open>progress\<close>: a successful operation consumes at least one byte.
\<close>

named_theorems safe_intros \<open>safe operations\<close>

definition safe :: "'a dec \<Rightarrow> bool" where
  "safe m \<longleftrightarrow> (\<forall>d r d'. m d = (r, d') \<longrightarrow> dec_buf d' = dec_buf d \<and> dec_pos d \<le> dec_pos d' \<and>
     (dec_pos d \<le> length (dec_buf d) \<longrightarrow> dec_pos d' \<le> length (dec_buf d)))"

definition progress :: "'a dec \<Rightarrow> bool" where
  "progress m \<longleftrightarrow> (\<forall>d x d'. m d = (Inr x, d') \<longrightarrow> dec_pos d < dec_pos d')"

lemma safeD:
  "safe m \<Longrightarrow> m d = (r, d') \<Longrightarrow> dec_buf d' = dec_buf d \<and> dec_pos d \<le> dec_pos d' \<and>
     (dec_pos d \<le> length (dec_buf d) \<longrightarrow> dec_pos d' \<le> length (dec_buf d))"
  unfolding safe_def by blast

lemma progressD: "progress m \<Longrightarrow> m d = (Inr x, d') \<Longrightarrow> dec_pos d < dec_pos d'"
  unfolding progress_def by blast

lemma safe_bind [safe_intros]:
  assumes m: "safe m" and f: "\<And>x. safe (f x)"
  shows "safe (bind_m m f)"
  unfolding safe_def
proof (intro allI impI)
  fix d r d'
  assume run: "bind_m m f d = (r, d')"
  obtain q e where q: "m d = (q, e)" by (cases "m d")
  show "dec_buf d' = dec_buf d \<and> dec_pos d \<le> dec_pos d' \<and>
      (dec_pos d \<le> length (dec_buf d) \<longrightarrow> dec_pos d' \<le> length (dec_buf d))"
    using run q safeD [OF m q] safeD [OF f] by (cases q) (fastforce simp: run_simps)+
qed

lemma safe_read_slice [safe_intros]: "safe (read_slice n)"
  by (auto simp: safe_def read_slice_def slice_get_def Option.bind_eq_Some_conv
      split: option.splits if_splits dest: checked_add_SomeD)

lemma safe_basic [safe_intros]:
  "safe (ret_m x)" "safe (fail_m e)" "safe (res_m r)" "safe dec_read" "safe dec_current"
  "safe dec_peek"
  by (auto simp: safe_def run_simps dec_read_def dec_current_def dec_peek_def
      index_get_def split: if_splits option.splits)

lemma safe_map [safe_intros]: "safe m \<Longrightarrow> safe (map_m f m)"
  unfolding map_m_def by (intro safe_intros)

lemma safe_seq [safe_intros]: "safe m \<Longrightarrow> safe k \<Longrightarrow> safe (seq_m m k)"
  unfolding seq_m_def by (intro safe_intros)

lemma safe_with_pos [safe_intros]: "(\<And>p. safe (f p)) \<Longrightarrow> safe (with_pos f)"
  unfolding safe_def with_pos_def by blast

lemma safe_if [safe_intros]: "safe m \<Longrightarrow> safe k \<Longrightarrow> safe (if c then m else k)"
  by simp

lemma progress_bind: "progress m \<Longrightarrow> (\<And>x. safe (f x)) \<Longrightarrow> progress (bind_m m f)"
  unfolding progress_def bind_m_run
  by (auto split: prod.splits sum.splits) (meson order_less_le_trans safeD)

lemma progress_with_pos: "(\<And>p. progress (f p)) \<Longrightarrow> progress (with_pos f)"
  unfolding progress_def with_pos_def by blast

lemma progress_read: "progress dec_read"
  by (auto simp: progress_def dec_read_def split: option.splits)

lemma safe_read_be [safe_intros]: "safe (read_be n)"
  unfolding read_be_def read_array_def by (intro safe_intros)

lemma safe_type_of [safe_intros]: "safe (dec_type_of n)"
  unfolding dec_type_of_def by (intro safe_intros)

lemma safe_mismatch [safe_intros]: "safe (mismatch b p m)"
  unfolding mismatch_def by (intro safe_intros)

lemma safe_conversions [safe_intros]: "safe (u64_to_usize n p)" "safe (try_as conv v msg p)"
  unfolding u64_to_usize_def try_as_def by (intro safe_intros)+

lemma safe_unsigned [safe_intros]: "safe (dec_unsigned b p)"
  unfolding dec_unsigned_def by (intro safe_intros)

lemmas dec_op_defs = dec_bool_def dec_u8_def dec_u16_def dec_u32_def dec_u64_def dec_i8_def
  dec_i16_def dec_i32_def dec_i64_def dec_int_def dec_bytes_def dec_str_def dec_array_def
  dec_map_def dec_tag_def dec_null_def dec_undefined_def dec_simple_def

lemma safe_ops [safe_intros]:
  "safe dec_bool" "safe dec_u8" "safe dec_u16" "safe dec_u32" "safe dec_u64" "safe dec_i8"
  "safe dec_i16" "safe dec_i32" "safe dec_i64" "safe dec_int" "safe dec_bytes" "safe dec_str"
  "safe dec_array" "safe dec_map" "safe dec_tag" "safe dec_null" "safe dec_undefined"
  "safe dec_simple"
  unfolding dec_op_defs by (intro safe_intros)+

lemma progress_ops:
  "progress dec_bool" "progress dec_u8" "progress dec_u16" "progress dec_u32" "progress dec_u64" "progress dec_i8"
  "progress dec_i16" "progress dec_i32" "progress dec_i64" "progress dec_int" "progress dec_bytes" "progress dec_str"
  "progress dec_array" "progress dec_map" "progress dec_tag" "progress dec_null" "progress dec_undefined"
  "progress dec_simple"
  unfolding dec_op_defs by (intro progress_with_pos progress_bind progress_read safe_intros)+

lemma safe_floats [safe_intros]:
  "safe (dec_f16 h)" "safe (dec_f32 h)" "safe (dec_f64 h)" "safe dec_char" "safe dec_datatype"
proof -
  show f16: "safe (dec_f16 h)" unfolding dec_f16_def by (intro safe_intros)
  show f32: "safe (dec_f32 h)" unfolding dec_f32_def by (intro safe_intros f16)
  show "safe (dec_f64 h)" unfolding dec_f64_def by (intro safe_intros f16 f32)
  show "safe dec_char" unfolding dec_char_def by (intro safe_intros)
  show "safe dec_datatype" unfolding dec_datatype_def by (intro safe_intros)
qed

section \<open>Reading an item wherever it stands\<close>

text \<open>
  \<open>yields m bs r\<close>: started at \<open>bs\<close> inside any input, \<open>m\<close> consumes exactly \<open>bs\<close> and returns the
  result \<open>r p\<close>, where \<open>p\<close> is the position it started at (which errors carry). The premise on the
  length is the one Rust slices satisfy.
\<close>

named_theorems branch_intros \<open>one branch of a decoder, run on the bytes after the head byte\<close>

definition yields :: "'a dec \<Rightarrow> bytes \<Rightarrow> (usize \<Rightarrow> decode_error + 'a) \<Rightarrow> bool" where
  "yields m bs r \<longleftrightarrow> (\<forall>pre post. length (pre @ bs @ post) < usize_bound \<longrightarrow>
     m \<lparr>dec_buf = pre @ bs @ post, dec_pos = length pre\<rparr> =
       (r (length pre), \<lparr>dec_buf = pre @ bs @ post, dec_pos = length pre + length bs\<rparr>))"

abbreviation reads :: "'a dec \<Rightarrow> bytes \<Rightarrow> 'a \<Rightarrow> bool" where
  "reads m bs x \<equiv> yields m bs (\<lambda>_. Inr x)"

lemma yieldsD:
  "yields m bs r \<Longrightarrow> length (pre @ bs @ post) < usize_bound \<Longrightarrow>
     m \<lparr>dec_buf = pre @ bs @ post, dec_pos = length pre\<rparr> =
       (r (length pre), \<lparr>dec_buf = pre @ bs @ post, dec_pos = length pre + length bs\<rparr>)"
  unfolding yields_def by blast

lemma reads_ret: "reads (ret_m x) [] x"
  by (simp add: yields_def run_simps)

lemma yields_res: "yields (res_m r) [] (\<lambda>_. r)"
  by (simp add: yields_def run_simps)

lemma yields_bind:
  assumes m: "reads m bs x" and f: "yields (f x) cs (\<lambda>_. r)"
  shows "yields (bind_m m f) (bs @ cs) (\<lambda>_. r)"
  unfolding yields_def
proof (intro allI impI)
  fix pre post
  assume "length (pre @ (bs @ cs) @ post) < usize_bound"
  then show "bind_m m f \<lparr>dec_buf = pre @ (bs @ cs) @ post, dec_pos = length pre\<rparr> =
      (r, \<lparr>dec_buf = pre @ (bs @ cs) @ post, dec_pos = length pre + length (bs @ cs)\<rparr>)"
    using yieldsD [OF m, of pre "cs @ post"] yieldsD [OF f, of "pre @ bs" post]
    by (simp add: run_simps add.assoc)
qed

lemma yields_seq: "reads m bs x \<Longrightarrow> yields k cs (\<lambda>_. r) \<Longrightarrow> yields (seq_m m k) (bs @ cs) (\<lambda>_. r)"
  unfolding seq_m_def by (rule yields_bind)

lemma reads_map: "reads m bs x \<Longrightarrow> reads (map_m f m) bs (f x)"
  unfolding map_m_def using yields_bind [OF _ reads_ret] by (metis append_Nil2)

lemma yields_map:
  "yields m bs r \<Longrightarrow> yields (map_m f m) bs (\<lambda>p. case r p of Inl e \<Rightarrow> Inl e | Inr x \<Rightarrow> Inr (f x))"
  by (simp add: yields_def run_simps split: sum.splits)

lemma yields_with_pos: "(\<And>p. yields (f p) bs (\<lambda>_. r p)) \<Longrightarrow> yields (with_pos f) bs r"
  by (simp add: yields_def with_pos_def)

lemma reads_read: "reads dec_read [b] b"
  by (simp add: yields_def dec_read_def)

lemma yields_head:
  "yields (f b) cs (\<lambda>_. r) \<Longrightarrow> yields (bind_m dec_read f) (b # cs) (\<lambda>_. r)"
  using yields_bind [OF reads_read] by fastforce

lemma reads_slice: "reads (read_slice (length bs)) bs bs"
  by (simp add: yields_def read_slice_def)

lemma reads_be: "length bs = n \<Longrightarrow> reads (read_be n) bs (of_nat (nat_of_be bs))"
  unfolding read_be_def read_array_def using reads_map [OF reads_slice] by blast

lemma reads_be_of_nat: "k < 256 ^ n \<Longrightarrow> reads (read_be n) (be_of_nat n k) (of_nat k)"
  using reads_be [of "be_of_nat n k" n] by (simp add: nat_of_be_be_of_nat)

lemma yields_try_as:
  "yields (try_as conv v msg p) []
     (\<lambda>_. ok_or (with_message msg (err_at p (overflow (ucast v)))) (conv v))"
  unfolding try_as_def by (rule yields_res)

text \<open>Byte strings that are a head of an item of major type \<open>t\<close> with argument \<open>n\<close>, in any of
  the forms of the format. \<open>is_arg i n cs\<close>: additional information \<open>i\<close> followed by \<open>cs\<close>.\<close>

inductive is_arg :: "nat \<Rightarrow> nat \<Rightarrow> bytes \<Rightarrow> bool" where
  "n < 24 \<Longrightarrow> is_arg n n []"
| "n < 256 ^ 1 \<Longrightarrow> is_arg 24 n (be_of_nat 1 n)"
| "n < 256 ^ 2 \<Longrightarrow> is_arg 25 n (be_of_nat 2 n)"
| "n < 256 ^ 4 \<Longrightarrow> is_arg 26 n (be_of_nat 4 n)"
| "n < 256 ^ 8 \<Longrightarrow> is_arg 27 n (be_of_nat 8 n)"

inductive is_head :: "u8 \<Rightarrow> nat \<Rightarrow> bytes \<Rightarrow> bool" where
  "is_arg i n cs \<Longrightarrow> is_head t n ((t OR of_nat i) # cs)"

lemma is_arg_bounds: "is_arg i n cs \<Longrightarrow> i < 28 \<and> n < 2 ^ 64"
  by (induction rule: is_arg.induct) auto

lemma is_head_head_bytes: "n < 2 ^ 64 \<Longrightarrow> is_head t n (head_bytes t n)"
  unfolding head_bytes_def
  using is_head.intros [OF is_arg.intros(1), of n t] is_head.intros [OF is_arg.intros(2), of n t]
    is_head.intros [OF is_arg.intros(3), of n t] is_head.intros [OF is_arg.intros(4), of n t]
    is_head.intros [OF is_arg.intros(5), of n t]
  by simp

lemma is_head_wide: "n < 2 ^ 64 \<Longrightarrow> is_head t n (wide_head_bytes t n)"
  unfolding wide_head_bytes_def
  using is_head.intros [OF is_arg.intros(5), of n t] by simp

lemma reads_read_be1: "n < 256 \<Longrightarrow> reads dec_read (be_of_nat 1 n) (of_nat n)"
  using reads_read by simp

lemma ucast_of_nat_small:
  "n < 2 ^ LENGTH('a) \<Longrightarrow> ucast (of_nat n :: 'a::len word) = (of_nat n :: 'b::len word)"
  by (simp add: unsigned_of_nat take_bit_nat_eq_self)

lemma reads_unsigned: "is_arg i n cs \<Longrightarrow> reads (dec_unsigned (of_nat i) p) cs (of_nat n)"
proof (induction rule: is_arg.induct)
  case (1 n)
  then have "(of_nat n :: u8) \<le> 0x17" by (simp add: word_le_nat_alt unsigned_of_nat take_bit_nat_eq_self)
  then show ?case using 1 reads_ret [of "of_nat n :: u64"]
    by (simp add: dec_unsigned_def ucast_of_nat_small)
next
  case (2 n)
  then show ?case using reads_map [OF reads_read_be1, of n ucast]
    by (simp add: dec_unsigned_def ucast_of_nat_small)
next
  case (3 n)
  then show ?case using reads_map [OF reads_be_of_nat, of n 2 "ucast :: u16 \<Rightarrow> u64"]
    by (simp add: dec_unsigned_def ucast_of_nat_small)
next
  case (4 n)
  then show ?case using reads_map [OF reads_be_of_nat, of n 4 "ucast :: u32 \<Rightarrow> u64"]
    by (simp add: dec_unsigned_def ucast_of_nat_small)
next
  case (5 n)
  then show ?case using reads_be_of_nat [of n 8]
    by (simp add: dec_unsigned_def)
qed

definition is_major :: "u8 \<Rightarrow> bool" where
  "is_major t \<longleftrightarrow> t \<in> {UNSIGNED, SIGNED, BYTES, TEXT, ARRAY, MAP, TAGGED, SIMPLE}"

lemma head_byte_parts:
  assumes "is_major t" "i < 32"
  shows "type_of (t OR of_nat i) = t" "info_of (t OR of_nat i) = of_nat i"
proof -
  have "i \<in> set [0..<32]" using assms(2) by simp
  moreover have
    "\<forall>i \<in> set [0..<32]. (of_nat i :: u8) AND 0xe0 = 0 \<and> (of_nat i :: u8) AND 0x1f = of_nat i"
    by code_simp
  ultimately have *: "(of_nat i :: u8) AND 0xe0 = 0" "(of_nat i :: u8) AND 0x1f = of_nat i"
    by blast+
  have "t AND 0xe0 = t" "t AND 0x1f = 0" using assms by (auto simp: is_major_def)
  with * show "type_of (t OR of_nat i) = t" "info_of (t OR of_nat i) = of_nat i"
    by (simp_all add: type_of_def info_of_def bit.conj_disj_distrib2)
qed


text \<open>The outcome of a narrowing read: the value, or an overflow that names the widths.\<close>

definition width_name :: "nat \<Rightarrow> string" where
  "width_name i = (if i = 24 then ''u8'' else if i = 25 then ''u16'' else if i = 26 then ''u32''
     else ''u64'')"

definition narrowed :: "nat \<Rightarrow> nat \<Rightarrow> string \<Rightarrow> nat \<Rightarrow> 'a \<Rightarrow> usize \<Rightarrow> decode_error + 'a" where
  "narrowed i n target bound x p =
     (if n < bound then Inr x
      else Inl (with_message (''when converting '' @ width_name i @ '' to '' @ target)
                 (err_at p (overflow (of_nat n)))))"

lemma small_byte:
  assumes "n < 24"
  shows "(of_nat n :: u8) \<le> 0x17" "0x20 \<le> 0x20 OR (of_nat n :: u8)" "0x20 OR (of_nat n :: u8) \<le> 0x37"
    "(0x20 OR (of_nat n :: u8)) - 0x20 = of_nat n"
proof -
  have "n \<in> set [0..<24]" using assms by simp
  moreover have "\<forall>n \<in> set [0..<24]. (of_nat n :: u8) \<le> 0x17 \<and> 0x20 \<le> 0x20 OR (of_nat n :: u8) \<and>
      0x20 OR (of_nat n :: u8) \<le> 0x37 \<and> (0x20 OR (of_nat n :: u8)) - 0x20 = of_nat n"
    by code_simp
  ultimately show "(of_nat n :: u8) \<le> 0x17" "0x20 \<le> 0x20 OR (of_nat n :: u8)"
    "0x20 OR (of_nat n :: u8) \<le> 0x37" "(0x20 OR (of_nat n :: u8)) - 0x20 = of_nat n"
    by blast+
qed

lemma branch_ret [branch_intros]: "r = Inr x \<Longrightarrow> yields (ret_m x) [] (\<lambda>_. r)"
  by (simp add: reads_ret)

lemma branch_read [branch_intros]:
  "r = Inr b \<Longrightarrow> yields dec_read [b] (\<lambda>_. r)"
  "s = Inr (g b) \<Longrightarrow> yields (map_m g dec_read) [b] (\<lambda>_. s)"
  "yields (f b) [] (\<lambda>_. t) \<Longrightarrow> yields (bind_m dec_read f) [b] (\<lambda>_. t)"
  by (simp_all add: reads_read reads_map yields_head)

lemma branch_be [branch_intros]:
  "n < 256 ^ w \<Longrightarrow> r = Inr (of_nat n) \<Longrightarrow> yields (read_be w) (be_of_nat w n) (\<lambda>_. r)"
  "n < 256 ^ w \<Longrightarrow> s = Inr (g (of_nat n)) \<Longrightarrow> yields (map_m g (read_be w)) (be_of_nat w n) (\<lambda>_. s)"
  "n < 256 ^ w \<Longrightarrow> yields (f (of_nat n)) [] (\<lambda>_. t) \<Longrightarrow>
     yields (bind_m (read_be w) f) (be_of_nat w n) (\<lambda>_. t)"
  using yields_bind [OF reads_be_of_nat, of n w f "[]" t]
  by (simp_all add: reads_be_of_nat reads_map)

lemma branch_try [branch_intros]:
  "r = ok_or (with_message msg (err_at p (overflow (ucast v)))) (conv v) \<Longrightarrow>
     yields (try_as conv v msg p) [] (\<lambda>_. r)"
  "s = ok_or (with_message msg (err_at p (overflow (ucast v)))) (map_option g (conv v)) \<Longrightarrow>
     yields (map_m g (try_as conv v msg p)) [] (\<lambda>_. s)"
  using yields_try_as [of conv v msg p] yields_map [OF yields_try_as, of g conv v msg p]
  by (cases "conv v"; simp)+

lemma try_of_nat:
  assumes "n < 2 ^ LENGTH('a)"
  shows "try_unsigned (of_nat n :: 'a::len word) =
      (if n < 2 ^ LENGTH('b) then Some (of_nat n :: 'b::len word) else None)"
    "try_signed (of_nat n :: 'a word) =
      (if n < 2 ^ (LENGTH('b) - 1) then Some (of_nat n :: 'b::len word) else None)"
  using assms
  by (simp_all add: try_unsigned_def try_signed_def unsigned_of_nat take_bit_nat_eq_self
      ucast_of_nat_small)

lemmas narrow_simps = small_byte narrowed_def width_name_def try_of_nat ucast_of_nat_small

lemma signed_byte:
  assumes "n < 24"
  shows "\<not> 0x20 OR (of_nat n :: u8) \<le> 0x17" "0x20 OR (of_nat n :: u8) \<noteq> 0x18"
    "0x20 OR (of_nat n :: u8) \<noteq> 0x19" "0x20 OR (of_nat n :: u8) \<noteq> 0x1a"
    "0x20 OR (of_nat n :: u8) \<noteq> 0x1b"
proof -
  have "(0x20 :: u8) \<le> 0x20 OR of_nat n" using small_byte(2) [OF assms] .
  then show "\<not> 0x20 OR (of_nat n :: u8) \<le> 0x17" "0x20 OR (of_nat n :: u8) \<noteq> 0x18"
    "0x20 OR (of_nat n :: u8) \<noteq> 0x19" "0x20 OR (of_nat n :: u8) \<noteq> 0x1a"
    "0x20 OR (of_nat n :: u8) \<noteq> 0x1b"
    using order_trans [of "0x20 :: u8" _ "0x17"] by auto
qed

lemma yields_u8:
  assumes "is_arg i n cs"
  shows "yields dec_u8 (of_nat i # cs) (narrowed i n ''u8'' (2 ^ 8) (of_nat n))"
  unfolding dec_u8_def
  by (rule yields_with_pos, rule yields_head, use assms in cases)
    (simp add: small_byte; intro branch_intros; simp add: narrow_simps)+

lemma yields_u16:
  assumes "is_arg i n cs"
  shows "yields dec_u16 (of_nat i # cs) (narrowed i n ''u16'' (2 ^ 16) (of_nat n))"
  unfolding dec_u16_def
  by (rule yields_with_pos, rule yields_head, use assms in cases)
    (simp add: small_byte; intro branch_intros; simp add: narrow_simps)+

lemma yields_u32:
  assumes "is_arg i n cs"
  shows "yields dec_u32 (of_nat i # cs) (narrowed i n ''u32'' (2 ^ 32) (of_nat n))"
  unfolding dec_u32_def
  by (rule yields_with_pos, rule yields_head, use assms in cases)
    (simp add: small_byte; intro branch_intros; simp add: narrow_simps)+

lemma reads_u64:
  assumes "is_arg i n cs"
  shows "reads dec_u64 (of_nat i # cs) (of_nat n)"
  unfolding dec_u64_def by (rule yields_with_pos, rule yields_head, rule reads_unsigned [OF assms])

lemma yields_i8:
  assumes "is_arg i n cs"
  shows "yields dec_i8 (of_nat i # cs) (narrowed i n ''i8'' (2 ^ 7) (of_nat n))"
    "yields dec_i8 ((SIGNED OR of_nat i) # cs) (narrowed i n ''i8'' (2 ^ 7) (- 1 - of_nat n))"
  unfolding dec_i8_def
  by (rule yields_with_pos, rule yields_head, use assms in cases,
      (simp add: small_byte signed_byte; intro branch_intros; simp add: narrow_simps)+)+

lemma yields_i16:
  assumes "is_arg i n cs"
  shows "yields dec_i16 (of_nat i # cs) (narrowed i n ''i16'' (2 ^ 15) (of_nat n))"
    "yields dec_i16 ((SIGNED OR of_nat i) # cs) (narrowed i n ''i16'' (2 ^ 15) (- 1 - of_nat n))"
  unfolding dec_i16_def
  by (rule yields_with_pos, rule yields_head, use assms in cases,
      (simp add: small_byte signed_byte; intro branch_intros; simp add: narrow_simps)+)+

lemma yields_i32:
  assumes "is_arg i n cs"
  shows "yields dec_i32 (of_nat i # cs) (narrowed i n ''i32'' (2 ^ 31) (of_nat n))"
    "yields dec_i32 ((SIGNED OR of_nat i) # cs) (narrowed i n ''i32'' (2 ^ 31) (- 1 - of_nat n))"
  unfolding dec_i32_def
  by (rule yields_with_pos, rule yields_head, use assms in cases,
      (simp add: small_byte signed_byte; intro branch_intros; simp add: narrow_simps)+)+

lemma yields_i64:
  assumes "is_arg i n cs"
  shows "yields dec_i64 (of_nat i # cs) (narrowed i n ''i64'' (2 ^ 63) (of_nat n))"
    "yields dec_i64 ((SIGNED OR of_nat i) # cs) (narrowed i n ''i64'' (2 ^ 63) (- 1 - of_nat n))"
  unfolding dec_i64_def
  by (rule yields_with_pos, rule yields_head, use assms in cases,
      (simp add: small_byte signed_byte; intro branch_intros; simp add: narrow_simps)+)+

lemma reads_int:
  assumes "is_arg i n cs"
  shows "reads dec_int (of_nat i # cs) (int_pos (of_nat n))"
    "reads dec_int ((SIGNED OR of_nat i) # cs) (int_negative (of_nat n))"
  unfolding dec_int_def
  by (rule yields_with_pos, rule yields_head, use assms in cases,
      (simp add: small_byte signed_byte; intro branch_intros; simp add: narrow_simps)+)+

end
