(* ===== verification/Cbor_Roundtrip.thy ===== *)
theory Cbor_Roundtrip
  imports Cbor_Decoder
begin

text \<open>
  What the decoder makes of the encoder's output. The integer decoders accept every head form of the
  format and succeed exactly on the values of their type; each value written by an operation of
  the encoder, anywhere in a buffer, is read back by the decoder's operation of the same name.
\<close>


section \<open>Items of the other types\<close>

lemma head_cases:
  assumes "is_head t n bs"
  obtains i cs where "bs = (t OR of_nat i) # cs" "is_arg i n cs" "i < 28" "n < 2 ^ 64"
  using assms is_arg_bounds by (cases rule: is_head.cases) blast

lemma info_not_indef: "i < 28 \<Longrightarrow> (of_nat i :: u8) \<noteq> 0x1f"
proof -
  assume "i < 28"
  then have "unat (of_nat i :: u8) \<noteq> 31" by (simp add: unsigned_of_nat take_bit_nat_eq_self)
  then show ?thesis by auto
qed

lemma major_of [simp]: "is_major BYTES" "is_major TEXT" "is_major ARRAY" "is_major MAP" "is_major TAGGED"
  by (simp_all add: is_major_def)

lemma reads_u64_to_usize: "reads (u64_to_usize n p) [] (unat n)"
  using unat_lt [of n] by (simp add: u64_to_usize_def usize_bound_def reads_ret)

lemma unat_of_nat_u64: "n < 2 ^ 64 \<Longrightarrow> unat (of_nat n :: u64) = n"
  by (simp add: unsigned_of_nat take_bit_nat_eq_self)

lemmas head_byte_simps = head_byte_parts info_not_indef

lemma reads_bytes:
  assumes "is_head BYTES (length x) bs"
  shows "reads dec_bytes (bs @ x) x"
  using assms
proof (rule head_cases)
  fix i cs assume h: "bs = (BYTES OR of_nat i) # cs" "is_arg i (length x) cs" "i < 28" "length x < 2 ^ 64"
  have "reads (bind_m (u64_to_usize (of_nat (length x)) p) read_slice) ([] @ x) x" for p
    by (rule yields_bind [OF reads_u64_to_usize]) (use h(4) reads_slice in \<open>simp only: unat_of_nat_u64\<close>)
  then have "reads (bind_m (dec_unsigned (of_nat i) p) (\<lambda>l. bind_m (u64_to_usize l p) read_slice)) (cs @ x) x" for p
    by (intro yields_bind [OF reads_unsigned [OF h(2)]]) simp
  then show ?thesis
    unfolding dec_bytes_def h(1) append_Cons
    by (intro yields_with_pos yields_head) (use h(3) in \<open>simp add: head_byte_simps del: major_defs\<close>)
qed

lemma yields_str:
  assumes "is_head TEXT (length x) bs"
  shows "yields dec_str (bs @ x) (\<lambda>p. map_err (\<lambda>e. err_at p (err_utf8 e)) (from_utf8 x))"
  using assms
proof (rule head_cases)
  fix i cs assume h: "bs = (TEXT OR of_nat i) # cs" "is_arg i (length x) cs" "i < 28" "length x < 2 ^ 64"
  let ?r = "\<lambda>p. map_err (\<lambda>e. err_at p (err_utf8 e)) (from_utf8 x)"
  let ?k = "\<lambda>p n. bind_m (read_slice n) (\<lambda>s. res_m (map_err (\<lambda>e. err_at p (err_utf8 e)) (from_utf8 s)))"
  have "yields (?k p (length x)) (x @ []) (\<lambda>_. ?r p)" for p
    by (rule yields_bind [OF reads_slice yields_res])
  then have "yields (bind_m (u64_to_usize (of_nat (length x)) p) (?k p)) ([] @ x) (\<lambda>_. ?r p)" for p
    by (intro yields_bind [OF reads_u64_to_usize]) (use h(4) in \<open>simp only: unat_of_nat_u64 append_Nil2\<close>)
  then have "yields (bind_m (dec_unsigned (of_nat i) p) (\<lambda>l. bind_m (u64_to_usize l p) (?k p))) (cs @ x) (\<lambda>_. ?r p)" for p
    by (intro yields_bind [OF reads_unsigned [OF h(2)]]) simp
  then show ?thesis
    unfolding dec_str_def h(1) append_Cons
    by (intro yields_with_pos yields_head) (use h(3) in \<open>simp add: head_byte_simps del: major_defs\<close>)
qed

lemma reads_str:
  "is_head TEXT (length x) bs \<Longrightarrow> valid_utf8 x \<Longrightarrow> reads dec_str (bs @ x) x"
  using yields_str [of x bs] by (simp add: from_utf8_valid)

lemma reads_array: "is_head ARRAY n bs \<Longrightarrow> reads dec_array bs (Some (of_nat n))"
  by (erule head_cases, simp only:, unfold dec_array_def, intro yields_with_pos yields_head)
    (simp add: head_byte_simps reads_map reads_unsigned del: major_defs)

lemma reads_map_head: "is_head MAP n bs \<Longrightarrow> reads dec_map bs (Some (of_nat n))"
  by (erule head_cases, simp only:, unfold dec_map_def, intro yields_with_pos yields_head)
    (simp add: head_byte_simps reads_map reads_unsigned del: major_defs)

lemma reads_tag: "is_head TAGGED n bs \<Longrightarrow> reads dec_tag bs (tag_new (of_nat n))"
  by (erule head_cases, simp only:, unfold dec_tag_def, intro yields_with_pos yields_head)
    (simp add: head_byte_simps reads_map reads_unsigned del: major_defs)

lemma reads_indef: "reads dec_array [0x9f] None" "reads dec_map [0xbf] None"
  unfolding dec_array_def dec_map_def
  by (intro yields_with_pos yields_head; simp add: type_of_def info_of_def reads_ret)+

lemma reads_one_byte:
  "reads dec_bool [SIMPLE OR (if b then 0x15 else 0x14)] b" "reads dec_null [SIMPLE OR 22] ()"
  "reads dec_undefined [SIMPLE OR 23] ()"
  unfolding dec_bool_def dec_null_def dec_undefined_def
  by (intro yields_with_pos yields_head; simp add: reads_ret)+

lemma simple_byte:
  assumes "x < (0x14 :: u8)"
  shows "0xe0 \<le> 0xe0 OR x" "0xe0 OR x \<le> 0xf3" "(0xe0 OR x) - 0xe0 = x"
proof -
  have "unat x \<in> set [0..<20]" using assms by (simp add: word_less_nat_alt)
  moreover have "\<forall>n \<in> set [0..<20]. (0xe0 :: u8) \<le> 0xe0 OR of_nat n \<and>
      0xe0 OR of_nat n \<le> (0xf3 :: u8) \<and> (0xe0 OR of_nat n) - 0xe0 = (of_nat n :: u8)"
    by code_simp
  ultimately show "0xe0 \<le> 0xe0 OR x" "0xe0 OR x \<le> 0xf3" "(0xe0 OR x) - 0xe0 = x"
    by force+
qed

lemma reads_simple:
  "reads dec_simple (if x < 0x14 then [SIMPLE OR x] else [SIMPLE OR 24, x]) x"
  unfolding dec_simple_def
  by (rule yields_with_pos, cases "x < 0x14")
    (simp, rule yields_head, simp add: simple_byte reads_ret reads_read)+

lemma dec_current_run: "dec_current \<lparr>dec_buf = pre @ b # post, dec_pos = length pre\<rparr> =
    (Inr b, \<lparr>dec_buf = pre @ b # post, dec_pos = length pre\<rparr>)"
  by (simp add: dec_current_def)

lemma yields_current:
  "yields (f b) (b # cs) (\<lambda>_. r) \<Longrightarrow> yields (bind_m dec_current f) (b # cs) (\<lambda>_. r)"
  by (simp add: yields_def bind_m_run dec_current_run)

lemma reads_floats:
  "reads (dec_f16 h) (0xf9 # to_be16 a) (h a)"
  "reads (dec_f32 h) (0xfa # to_be32 x) x"
  "reads (dec_f64 h) (0xfb # to_be64 y) y"
proof -
  have be: "reads (read_be 2) (to_be16 a) a" "reads (read_be 4) (to_be32 x) x"
    "reads (read_be 8) (to_be64 y) y"
    using reads_be [where 'a = 16, of "to_be16 a" 2] reads_be [where 'a = 32, of "to_be32 x" 4]
      reads_be [where 'a = 64, of "to_be64 y" 8] by simp_all
  have sq: "reads (seq_m dec_read (read_be 4)) (0xfa # to_be32 x) x"
    "reads (seq_m dec_read (read_be 8)) (0xfb # to_be64 y) y"
    unfolding seq_m_def by (intro yields_head be)+
  show "reads (dec_f16 h) (0xf9 # to_be16 a) (h a)"
    unfolding dec_f16_def by (intro yields_with_pos yields_head) (simp add: reads_map be)
  show "reads (dec_f32 h) (0xfa # to_be32 x) x" "reads (dec_f64 h) (0xfb # to_be64 y) y"
    unfolding dec_f32_def dec_f64_def
    by (intro yields_with_pos yields_current; simp add: sq)+
qed


section \<open>Properties\<close>

text \<open>An encoding of the integer \<open>k\<close> in any of the head forms of the format.\<close>

definition is_int_head :: "int \<Rightarrow> bytes \<Rightarrow> bool" where
  "is_int_head k bs \<longleftrightarrow>
     (if 0 \<le> k then is_head UNSIGNED (nat k) bs else is_head SIGNED (nat (- 1 - k)) bs)"

text \<open>What a decoder of the range \<open>lo ..< hi\<close> has to do with it.\<close>

definition decodes_range :: "('a::len word) dec \<Rightarrow> int \<Rightarrow> int \<Rightarrow> int \<Rightarrow> bytes \<Rightarrow> bool" where
  "decodes_range m lo hi k bs \<longleftrightarrow>
     (if lo \<le> k \<and> k < hi then reads m bs (word_of_int k)
      else \<exists>msg. yields m bs (\<lambda>p. Inl (with_message msg
             (err_at p (overflow (word_of_int (if 0 \<le> k then k else - 1 - k)))))))"

lemma narrowed_cases:
  "n < bound \<Longrightarrow> narrowed i n target bound x = (\<lambda>_. Inr x)"
  "\<not> n < bound \<Longrightarrow> \<exists>msg. narrowed i n target bound x =
     (\<lambda>p. Inl (with_message msg (err_at p (overflow (of_nat n)))))"
  by (auto simp: narrowed_def fun_eq_iff)

lemma decodes_rangeI:
  assumes "yields m bs (narrowed i n target (2 ^ j) x)"
    and "n < 2 ^ j \<longleftrightarrow> lo \<le> k \<and> k < hi" "x = word_of_int k"
    and "int n = (if 0 \<le> k then k else - 1 - k)"
  shows "decodes_range m lo hi k bs"
proof -
  have "(of_nat n :: u64) = word_of_int (if 0 \<le> k then k else - 1 - k)"
    using assms(4) by (metis of_int_of_nat_eq)
  with assms(1-3) narrowed_cases [of n "2 ^ j" i target x] show ?thesis
    unfolding decodes_range_def by (cases "n < 2 ^ j") metis+
qed

lemma decodes_unsigned:
  assumes y: "\<And>i cs. is_arg i (nat k) cs \<Longrightarrow>
      yields m (of_nat i # cs) (narrowed i (nat k) target (2 ^ j) (of_nat (nat k)))"
    and k: "0 \<le> k" "is_int_head k bs"
  shows "decodes_range m 0 (2 ^ j) k bs"
proof -
  from k obtain i cs where h: "bs = of_nat i # cs" "is_arg i (nat k) cs"
    by (auto simp: is_int_head_def elim: head_cases)
  show ?thesis unfolding h(1)
    by (rule decodes_rangeI [OF y [OF h(2)]]) (use k(1) in \<open>simp_all add: nat_less_iff\<close>)
qed

lemma decodes_signed:
  assumes p: "\<And>i n cs. is_arg i n cs \<Longrightarrow> yields m (of_nat i # cs) (narrowed i n target (2 ^ j) (of_nat n))"
    and s: "\<And>i n cs. is_arg i n cs \<Longrightarrow>
      yields m ((SIGNED OR of_nat i) # cs) (narrowed i n target (2 ^ j) (- 1 - of_nat n))"
    and k: "is_int_head k bs"
  shows "decodes_range m (- (2 ^ j)) (2 ^ j) k bs"
proof (cases "0 \<le> k")
  case True
  with k obtain i cs where h: "bs = of_nat i # cs" "is_arg i (nat k) cs"
    by (auto simp: is_int_head_def elim: head_cases)
  show ?thesis unfolding h(1)
    by (rule decodes_rangeI [OF p [OF h(2)]])
      (use True in \<open>simp_all add: nat_less_iff order_trans [of _ 0]\<close>)
next
  case False
  with k obtain i cs where h: "bs = (SIGNED OR of_nat i) # cs" "is_arg i (nat (- 1 - k)) cs"
    by (auto simp: is_int_head_def elim: head_cases)
  have x: "- 1 - of_nat (nat (- 1 - k)) = (word_of_int k :: 'a word)"
    using False by (simp add: of_nat_nat)
  have "k < 2 ^ j" using False by (smt (verit) zero_le_power)
  then show ?thesis unfolding h(1)
    by (intro decodes_rangeI [OF s [OF h(2)]])
      (use False x in \<open>auto simp: nat_less_iff\<close>)
qed

lemma reads_int_value:
  assumes "is_int_head k bs"
  shows "\<exists>i. reads dec_int bs i \<and> int_value i = k"
proof (cases "0 \<le> k")
  case True
  with assms obtain i cs where h: "bs = of_nat i # cs" "is_arg i (nat k) cs" "nat k < 2 ^ 64"
    by (auto simp: is_int_head_def elim: head_cases)
  obtain n where "k = int n" using True by (metis nat_0_le)
  with h(3) have "int_value (int_pos (of_nat (nat k))) = k"
    by (simp add: int_value_def int_pos_def unsigned_of_nat take_bit_nat_eq_self)
  with reads_int(1) [OF h(2)] show ?thesis unfolding h(1) by blast
next
  case False
  with assms obtain i cs where h: "bs = (SIGNED OR of_nat i) # cs" "is_arg i (nat (- 1 - k)) cs"
    "nat (- 1 - k) < 2 ^ 64"
    by (auto simp: is_int_head_def elim: head_cases)
  obtain n where "- 1 - k = int n" using False zero_le_imp_eq_int [of "- 1 - k"] by auto
  with h(3) have "int_value (int_negative (of_nat (nat (- 1 - k)))) = k"
    by (simp add: int_value_def int_negative_def unsigned_of_nat take_bit_nat_eq_self)
  with reads_int(2) [OF h(2)] show ?thesis unfolding h(1) by blast
qed

text \<open>
  An unsigned operation at a negative item. It has consumed the initial byte when it asks for the
  type of the item, and the type of an item with an argument is found by peeking behind the
  position. So it is the second byte of the argument, or the one behind an argument of a single
  byte, that decides between two types, and at the end of the input there is none.
\<close>

definition signed_type :: "u8 \<Rightarrow> bool \<Rightarrow> cbor_type" where
  "signed_type b small =
     (if b \<le> 0x37 then TyI8
      else if b = 0x38 then if small then TyI8 else TyI16
      else if b = 0x39 then if small then TyI16 else TyI32
      else if b = 0x3a then if small then TyI32 else TyI64
      else if small then TyI64 else TyInt)"

definition negative_error :: "string \<Rightarrow> u8 \<Rightarrow> bytes \<Rightarrow> usize \<Rightarrow> decode_error" where
  "negative_error msg b rest p =
     (if 0x37 < b \<and> length rest < 2 then end_of_input
      else with_message msg (err_at p (type_mismatch (signed_type b (rest ! 1 < 0x80)))))"

definition refuses_negative :: "'a dec \<Rightarrow> string \<Rightarrow> bytes \<Rightarrow> bool" where
  "refuses_negative m msg bs \<longleftrightarrow> (\<forall>pre post. length (pre @ bs @ post) < usize_bound \<longrightarrow>
     m \<lparr>dec_buf = pre @ bs @ post, dec_pos = length pre\<rparr> =
       (Inl (negative_error msg (hd bs) (tl bs @ post) (length pre)),
        \<lparr>dec_buf = pre @ bs @ post, dec_pos = length pre + 1\<rparr>))"

lemma refuses_negativeD:
  "refuses_negative m msg bs \<Longrightarrow> length bs < usize_bound \<Longrightarrow>
   m \<lparr>dec_buf = bs, dec_pos = 0\<rparr> = (Inl (negative_error msg (hd bs) (tl bs) 0), \<lparr>dec_buf = bs, dec_pos = 1\<rparr>)"
  unfolding refuses_negative_def by (drule spec [of _ "[]"], drule spec [of _ "[]"]) simp

lemma mismatch_negative:
  assumes "b \<in> {0x20..0x3b}" "length (pre @ b # rest) < usize_bound"
  shows "mismatch b p msg \<lparr>dec_buf = pre @ b # rest, dec_pos = length pre + 1\<rparr> =
    (Inl (negative_error msg b rest p), \<lparr>dec_buf = pre @ b # rest, dec_pos = length pre + 1\<rparr>)"
proof -
  have lo: "0x20 \<le> b" and hi: "b \<le> 0x3b" using assms(1) by auto
  have n: "\<not> b \<le> 0x18" "b \<noteq> 0x19" "b \<noteq> 0x1a" "b \<noteq> 0x1b"
    using lo order_trans [of "0x20 :: u8" b "0x18"] by auto
  have peek: "dec_peek \<lparr>dec_buf = pre @ c # rest, dec_pos = Suc (length pre)\<rparr> =
      ((if length rest < 2 then Inl end_of_input else Inr (rest ! Suc 0)),
       \<lparr>dec_buf = pre @ c # rest, dec_pos = Suc (length pre)\<rparr>)" for c
    using assms(2) by (auto simp: dec_peek_def checked_add_def index_get_def nth_append Suc_diff_le numeral_2_eq_2)
  show ?thesis
  proof (cases "b \<le> 0x37")
    case True
    then have "negative_error msg b rest p = with_message msg (err_at p (type_mismatch TyI8))"
      by (auto simp: negative_error_def signed_type_def dest: leD)
    with True n lo show ?thesis by (simp add: mismatch_def dec_type_of_def run_simps)
  next
    case False
    have "b = 0x38 \<or> b = 0x39 \<or> b = 0x3a \<or> b = 0x3b"
    proof -
      have "unat b \<in> {0x38..0x3b}" using False hi by (simp add: word_le_nat_alt)
      then have "unat b = 0x38 \<or> unat b = 0x39 \<or> unat b = 0x3a \<or> unat b = 0x3b" by auto
      moreover have "b = of_nat (unat b)" by simp
      ultimately show ?thesis by (elim disjE) simp_all
    qed
    then show ?thesis
      by (elim disjE) (simp_all add: mismatch_def dec_type_of_def run_simps peek negative_error_def signed_type_def)
  qed
qed

lemma refuses_negativeI:
  assumes k: "is_int_head k bs" "k < 0"
    and m: "\<And>b p. b \<in> {0x20..0x3b} \<Longrightarrow> f p b = mismatch b p msg"
    and def_m: "m = with_pos (\<lambda>p. bind_m dec_read (f p))"
  shows "refuses_negative m msg bs"
proof -
  from k obtain i cs where h: "bs = (SIGNED OR of_nat i) # cs" "i < 28"
    by (auto simp: is_int_head_def dest: is_arg_bounds elim!: is_head.cases)
  have "i \<in> set [0..<28]" using h(2) by simp
  moreover have "\<forall>i \<in> set [0..<28]. (0x20 :: u8) \<le> 0x20 OR of_nat i \<and> (0x20 :: u8) OR of_nat i \<le> 0x3b"
    by code_simp
  ultimately have b: "SIGNED OR of_nat i \<in> {0x20 :: u8..0x3b}" by auto
  show ?thesis
    unfolding refuses_negative_def h(1) def_m
  proof (intro allI impI)
    fix pre post assume "length (pre @ ((SIGNED OR of_nat i) # cs) @ post) < usize_bound"
    then have "mismatch (SIGNED OR of_nat i) (length pre) msg
        \<lparr>dec_buf = pre @ (SIGNED OR of_nat i) # cs @ post, dec_pos = length pre + 1\<rparr> =
      (Inl (negative_error msg (SIGNED OR of_nat i) (cs @ post) (length pre)),
        \<lparr>dec_buf = pre @ (SIGNED OR of_nat i) # cs @ post, dec_pos = length pre + 1\<rparr>)"
      by (intro mismatch_negative [OF b]) simp
    then show "with_pos (\<lambda>p. bind_m dec_read (f p))
        \<lparr>dec_buf = pre @ ((SIGNED OR of_nat i) # cs) @ post, dec_pos = length pre\<rparr> =
      (Inl (negative_error msg (hd ((SIGNED OR of_nat i) # cs)) (tl ((SIGNED OR of_nat i) # cs) @ post) (length pre)),
        \<lparr>dec_buf = pre @ ((SIGNED OR of_nat i) # cs) @ post, dec_pos = length pre + 1\<rparr>)"
      by (simp add: with_pos_def run_simps dec_read_def m [OF b] del: major_defs)
  qed
qed

lemma unsigned_refuses_negative:
  assumes "is_int_head k bs" "k < 0"
  shows "refuses_negative dec_u8 ''expected u8'' bs" "refuses_negative dec_u16 ''expected u16'' bs"
    "refuses_negative dec_u32 ''expected u32'' bs" "refuses_negative dec_u64 ''expected u64'' bs"
proof -
  have n: "\<not> b \<le> 0x17" "b \<noteq> 0x18" "b \<noteq> 0x19" "b \<noteq> 0x1a" "b \<noteq> 0x1b" if "b \<in> {0x20..0x3b}" for b :: u8
    using that order_trans [of "0x20 :: u8" b "0x17"] by auto
  show "refuses_negative dec_u8 ''expected u8'' bs" by (rule refuses_negativeI [OF assms _ dec_u8_def]) (simp add: n)
  show "refuses_negative dec_u16 ''expected u16'' bs" by (rule refuses_negativeI [OF assms _ dec_u16_def]) (simp add: n)
  show "refuses_negative dec_u32 ''expected u32'' bs" by (rule refuses_negativeI [OF assms _ dec_u32_def]) (simp add: n)
  show "refuses_negative dec_u64 ''expected u64'' bs"
    by (rule refuses_negativeI [OF assms _ dec_u64_def]) (simp add: n dec_unsigned_def)
qed




lemma is_int_head_canonical: "- (2 ^ 64) \<le> k \<Longrightarrow> k < 2 ^ 64 \<Longrightarrow> is_int_head k (int_head k)"
  by (simp add: is_int_head_def int_head_def is_head_head_bytes nat_less_iff)

lemma word_of_uint_sint: "word_of_int (uint x) = x" "word_of_int (sint x) = (x :: 'a::len word)"
  by simp_all

lemma canonical_bounds:
  assumes "LENGTH('a::len) \<le> 64"
  shows "is_int_head (uint (x :: 'a word)) (int_head (uint x))"
    "is_int_head (sint x) (int_head (sint x))"
proof -
  have p: "(2::int) ^ LENGTH('a) \<le> 2 ^ 64" "(2::int) ^ (LENGTH('a) - 1) \<le> 2 ^ 64"
    using power_increasing [OF assms, of "2::int"] power_increasing [of "LENGTH('a) - 1" 64 "2::int"] assms
    by simp_all
  have "0 \<le> uint x" by simp
  with p show "is_int_head (uint x) (int_head (uint x))"
    using uint_lt2p [of x] by (intro is_int_head_canonical) linarith+
  show "is_int_head (sint x) (int_head (sint x))"
    using p sint_ge [of x] sint_lt [of x] by (intro is_int_head_canonical) linarith+
qed

lemma reads_int_head:
  "reads dec_u8 (int_head (uint a)) a" "reads dec_u16 (int_head (uint b)) b"
  "reads dec_u32 (int_head (uint c)) c" "reads dec_u64 (int_head (uint d)) d"
  "reads dec_i8 (int_head (sint a)) a" "reads dec_i16 (int_head (sint b)) b"
  "reads dec_i32 (int_head (sint c)) c" "reads dec_i64 (int_head (sint d)) d"
proof -
  show "reads dec_u8 (int_head (uint a)) a" "reads dec_u16 (int_head (uint b)) b"
    "reads dec_u32 (int_head (uint c)) c"
    using decodes_unsigned [OF yields_u8 _ canonical_bounds(1), of a]
      decodes_unsigned [OF yields_u16 _ canonical_bounds(1), of b]
      decodes_unsigned [OF yields_u32 _ canonical_bounds(1), of c]
      uint_lt2p [of a] uint_lt2p [of b] uint_lt2p [of c]
    by (simp_all add: decodes_range_def)
  show "reads dec_u64 (int_head (uint d)) d"
    using is_head_head_bytes [of "unat d" UNSIGNED] unat_lt [of d] reads_u64
    by (auto simp: int_head_uint elim!: head_cases) fastforce
  show "reads dec_i8 (int_head (sint a)) a" "reads dec_i16 (int_head (sint b)) b"
    "reads dec_i32 (int_head (sint c)) c" "reads dec_i64 (int_head (sint d)) d"
    using decodes_signed [OF yields_i8 canonical_bounds(2), of a]
      decodes_signed [OF yields_i16 canonical_bounds(2), of b]
      decodes_signed [OF yields_i32 canonical_bounds(2), of c]
      decodes_signed [OF yields_i64 canonical_bounds(2), of d]
      sint_ge [of a] sint_lt [of a] sint_ge [of b] sint_lt [of b] sint_ge [of c] sint_lt [of c]
      sint_ge [of d] sint_lt [of d]
    by (simp_all add: decodes_range_def)
qed

lemma reads_int_head_int: "reads dec_int (int_head (int_value i)) i"
  using reads_int_value [OF is_int_head_canonical, of "int_value i"] int_value_range [of i]
  by (auto simp: int_value_inject)

text \<open>A vector to which an item was appended, and which goes on after it.\<close>

definition decoded_back :: "'a dec \<Rightarrow> (bytes, infallible) enc \<Rightarrow> 'a \<Rightarrow> bool" where
  "decoded_back m e x \<longleftrightarrow> (\<forall>v post. case e v of
     (Inl _, _) \<Rightarrow> False
   | (Inr _, w) \<Rightarrow> length (w @ post) < usize_bound \<longrightarrow>
       m \<lparr>dec_buf = w @ post, dec_pos = length v\<rparr> =
         (Inr x, \<lparr>dec_buf = w @ post, dec_pos = length w\<rparr>))"

lemma decoded_backI:
  "vec_sink.emits e bs \<Longrightarrow> (length bs < 2 ^ 64 \<Longrightarrow> reads m bs x) \<Longrightarrow> decoded_back m e x"
  unfolding decoded_back_def using vec_run [of e bs] yieldsD [of m bs "\<lambda>_. Inr x"]
  by (auto simp: usize_bound_def add.assoc)

text \<open>An integer written by an encoder operation at the end of any buffer, with anything after
  it, is read back by the decoder operation of its type, which stops right behind it.\<close>

theorem integers_round_trip:
  "decoded_back dec_u8 (enc_u8 vec_write_all a) a \<and>
   decoded_back dec_u16 (enc_u16 vec_write_all b) b \<and>
   decoded_back dec_u32 (enc_u32 vec_write_all c) c \<and>
   decoded_back dec_u64 (enc_u64 vec_write_all d) d \<and>
   decoded_back dec_u64 (enc_u64_noncanonical vec_write_all d) d \<and>
   decoded_back dec_i8 (enc_i8 vec_write_all a) a \<and>
   decoded_back dec_i16 (enc_i16 vec_write_all b) b \<and>
   decoded_back dec_i32 (enc_i32 vec_write_all c) c \<and>
   decoded_back dec_i64 (enc_i64 vec_write_all d) d \<and>
   decoded_back dec_int (enc_int vec_write_all i) i"
proof -
  have wide: "reads dec_u64 (wide_head_bytes 0 (unat d)) d"
    using reads_u64 [OF is_arg.intros(5), of "unat d"] unat_lt [of d]
    by (simp add: wide_head_bytes_def)
  show ?thesis
    by (intro conjI vec_sink.emits_intros [THEN decoded_backI])
      (simp_all add: reads_int_head reads_int_head_int wide reads_int_head(1-4) [unfolded int_head_uint])
qed

text \<open>The same for booleans, null, undefined, simple values, floats, byte strings, tags and
  the heads of arrays and maps, of definite and of indefinite length.\<close>

theorem values_round_trip:
  "decoded_back dec_bool (enc_bool vec_write_all b) b \<and>
   decoded_back dec_null (enc_null vec_write_all) () \<and>
   decoded_back dec_undefined (enc_undefined vec_write_all) () \<and>
   decoded_back dec_simple (enc_simple vec_write_all s) s \<and>
   decoded_back (dec_f16 to_f32) (enc_f16 to_f16 vec_write_all f) (to_f32 (to_f16 f)) \<and>
   decoded_back (dec_f32 to_f32) (enc_f32 vec_write_all f) f \<and>
   decoded_back (dec_f64 to_f32) (enc_f64 vec_write_all g) g \<and>
   decoded_back dec_bytes (enc_bytes vec_write_all x) x \<and>
   decoded_back dec_array (enc_array vec_write_all n) (Some n) \<and>
   decoded_back dec_array (enc_begin_array vec_write_all) None \<and>
   decoded_back dec_map (enc_map vec_write_all n) (Some n) \<and>
   decoded_back dec_map (enc_begin_map vec_write_all) None \<and>
   decoded_back dec_tag (enc_tag vec_write_all t) t"
  unfolding enc_null_def enc_undefined_def enc_tag_def enc_array_def enc_map_def
    enc_begin_array_def enc_begin_map_def
proof (intro conjI vec_sink.emits_intros [THEN decoded_backI] reads_one_byte reads_simple reads_indef)
  show "reads (dec_f16 to_f32) ((SIMPLE OR 25) # to_be16 (to_f16 f)) (to_f32 (to_f16 f))"
    "reads (dec_f32 to_f32) ((SIMPLE OR 26) # to_be32 f) f"
    "reads (dec_f64 to_f32) ((SIMPLE OR 27) # to_be64 g) g"
    using reads_floats by simp_all
  show "reads dec_bytes (head_bytes BYTES (unat (of_nat (length x) :: u64)) @ x) x"
    if "length (head_bytes BYTES (unat (of_nat (length x) :: u64)) @ x) < 2 ^ 64"
    using that by (intro reads_bytes) (simp add: unat_of_nat_u64 is_head_head_bytes)
  show "reads dec_array (head_bytes ARRAY (unat n)) (Some n)"
    "reads dec_map (head_bytes MAP (unat n)) (Some n)"
    "reads dec_tag (head_bytes TAGGED (unat (tag_as_u64 t))) t"
    using reads_array [OF is_head_head_bytes, of "unat n"]
      reads_map_head [OF is_head_head_bytes, of "unat n"]
      reads_tag [OF is_head_head_bytes, of "unat (tag_as_u64 t)"] unat_lt [of n] unat_lt [of "tag_as_u64 t"]
    by (cases t; simp add: tag_new_def)+
qed

text \<open>The same for text in its canonical and its nine-byte head form, and for characters.\<close>

theorem text_round_trip:
  assumes "valid_utf8 x" "char_from_u32 c = Some c"
  shows "decoded_back dec_str (enc_str vec_write_all x) x \<and>
    decoded_back dec_str (enc_str_noncanonical vec_write_all x) x \<and>
    decoded_back dec_char (enc_char vec_write_all c) c"
  unfolding enc_char_def
proof (intro conjI vec_sink.emits_intros [THEN decoded_backI])
  show "reads dec_str (head_bytes TEXT (unat (of_nat (length x) :: u64)) @ x) x"
    if "length (head_bytes TEXT (unat (of_nat (length x) :: u64)) @ x) < 2 ^ 64"
    using that assms(1) by (intro reads_str) (simp_all add: unat_of_nat_u64 is_head_head_bytes)
  show "reads dec_str (wide_head_bytes TEXT (unat (of_nat (length x) :: u64)) @ x) x"
    if "length (wide_head_bytes TEXT (unat (of_nat (length x) :: u64)) @ x) < 2 ^ 64"
    using that assms(1) by (intro reads_str) (simp_all add: unat_of_nat_u64 is_head_wide)
  have "reads dec_char (head_bytes 0 (unat c) @ []) c"
    unfolding dec_char_def
    by (intro yields_with_pos yields_bind [OF reads_int_head(3) [unfolded int_head_uint]])
      (use assms(2) yields_res in fastforce)
  then show "reads dec_char (head_bytes 0 (unat c)) c" by simp
qed

lemma text_round_trip_witness:
  "decoded_back dec_str (enc_str vec_write_all (str_bytes ''/home'')) (str_bytes ''/home'') \<and>
   decoded_back dec_char (enc_char vec_write_all 0x20AC) 0x20AC"
proof -
  have "valid_utf8 (str_bytes ''/home'')"
    by (rule valid_utf8_ascii) (auto simp: str_bytes_def)
  then show ?thesis
    using text_round_trip [of "str_bytes ''/home''" "0x20AC"] by (simp add: char_from_u32_def)
qed

end
