(* ===== verification/Fslat_Maps.thy ===== *)
theory Fslat_Maps
  imports Cbor_Roundtrip
begin

text \<open>
  The data of the file-system latency producer (\<open>vfslatency-common/src/constants.rs\<close> and
  \<open>maps.rs\<close>): its constants, the records kept in the BPF maps, and the maps themselves as one
  program state. Array maps are lists, hash maps are partial functions. The per-CPU scratch maps
  \<open>PATHBUF\<close> and \<open>PATHBUFTMP\<close> are those of the CPU a handler runs on.

  The kernel, the aya helpers and the modular-arithmetic crate are not part of the repository.
  They are the fields of the record \<open>kernel\<close>, a parameter of every handler, and \<open>kernel_ok\<close> states
  the documented behaviour the code relies on.
\<close>

section \<open>Constants\<close>

definition PATHFRAGLEN :: usize where "PATHFRAGLEN = 32"
definition PATHCOMPLEN :: usize where "PATHCOMPLEN = PATHFRAGLEN"
definition NUM_PATH_PREFIX :: u32 where "NUM_PATH_PREFIX = 8"
definition AGG_INTERVAL :: u64 where "AGG_INTERVAL = 1000 * 1000 * 1000"
definition BUFSIZE :: usize where "BUFSIZE = 1024"
definition NUM_COMP :: u32 where "NUM_COMP = 16"
definition MAX_PARENT :: u32 where "MAX_PARENT = 32"
definition MAX_PARENT_LOOP :: u32 where "MAX_PARENT_LOOP = 64"

lemmas const_defs [simp] = PATHFRAGLEN_def PATHCOMPLEN_def NUM_PATH_PREFIX_def AGG_INTERVAL_def
  BUFSIZE_def NUM_COMP_def MAX_PARENT_def MAX_PARENT_LOOP_def

section \<open>Records\<close>

type_synonym addr = u64
type_synonym path_slice = bytes
type_synonym pid_tgid = "u32 \<times> u32"

record path_component =
  pc_len :: usize
  pathcomp :: bytes

record fs_latency_stats =
  lock :: bool
  pathlen :: u32
  path_prefix :: path_slice
  lat_min :: u64
  lat_max :: u64
  total_lat :: u64
  total_bytes :: u64
  lat_count :: u64
  lastpublish :: u64

record entry_rec =
  timestamp :: u64
  path :: path_slice

record event_fields =
  ev_id :: bytes
  ev_monotonic :: u64
  ev_seq :: u64

record stats_snapshot =
  snap_pathlen :: u32
  snap_prefix :: path_slice
  snap_min :: u64
  snap_max :: u64
  snap_lat :: u64
  snap_bytes :: u64
  snap_count :: u64

record assemble_ctx =
  as_start :: u32
  as_copied :: u32
  as_num :: u32
  as_absolute :: bool

record path_walk_ctx =
  pw_dentry :: addr
  pw_mnt :: addr
  pw_loop_ctr :: u32
  pw_mod_ctr :: u32
  pw_root_dentry :: addr
  pw_root_vfsmount :: addr
  pw_absolute :: bool

text \<open>The instrumented kernel functions; each has its own statistics map.\<close>

datatype vfs_fn = FilpClose | VfsFsyncRange | VfsWrite | VfsWritev | VfsRead | VfsReadv
  | KernelRead | KernelWrite

section \<open>The maps\<close>

record fslat =
  COUNTER :: "u64 list"
  STATS :: "vfs_fn \<Rightarrow> fs_latency_stats list"
  PATHBUF :: "path_slice list"
  PATHBUFTMP :: "path_component list"
  PTRLIST :: "pid_tgid \<rightharpoonup> entry_rec"
  LDMS_SHARED_STREAM :: "bytes list"
  PROF_CTRL :: "u64 list"
  PROF_PATH_RES_HIST :: "u32 \<rightharpoonup> u64"
  PROF_PATH_WALK_HIST :: "u32 \<rightharpoonup> u64"
  PROF_PATH_ASSEMBLY_HIST :: "u32 \<rightharpoonup> u64"
  PROF_EXIT_HIST :: "u32 \<rightharpoonup> u64"
  PROF_WALK_ITERS_HIST :: "u32 \<rightharpoonup> u64"
  PROF_RINGBUF_DROPS :: "u64 list"
  ticks :: nat
  reserves :: nat

text \<open>
  \<open>ticks\<close> counts the reads of the clock and \<open>reserves\<close> the reservations in the ring buffer, so that
  the kernel can answer each of them differently. A handler fails with the code it returns, or runs
  into undefined behaviour where the source unwraps an error without a check.
\<close>

datatype probe_error = Code u32 | Undefined

type_synonym 'a probe = "(fslat, probe_error, 'a) fallible"

section \<open>What the kernel provides\<close>

type_synonym 'c loop_body = "u32 \<Rightarrow> 'c \<times> fslat \<Rightarrow> (u64 \<times> 'c \<times> fslat) option"

record kernel =
  ktime :: "nat \<Rightarrow> u64"
  read_d_parent :: "addr \<Rightarrow> addr option"
  read_d_name :: "addr \<Rightarrow> addr option"
  read_mnt_root :: "addr \<Rightarrow> addr option"
  read_mnt_parent :: "addr \<Rightarrow> addr option"
  read_mnt_mountpoint :: "addr \<Rightarrow> addr option"
  read_str :: "addr \<Rightarrow> bytes \<Rightarrow> (bytes \<times> usize) option"
  walk_loop :: "u32 \<Rightarrow> path_walk_ctx loop_body \<Rightarrow> path_walk_ctx \<times> fslat \<Rightarrow> (path_walk_ctx \<times> fslat) option"
  assemble_loop :: "u32 \<Rightarrow> assemble_ctx loop_body \<Rightarrow> assemble_ctx \<times> fslat \<Rightarrow> (assemble_ctx \<times> fslat) option"
  dynptr_write :: "bytes \<Rightarrow> u32 \<Rightarrow> bytes \<Rightarrow> i64 \<times> bytes"
  check_bounds_signed :: "i64 \<Rightarrow> i64 \<Rightarrow> i64 \<Rightarrow> bool"
  mod_add :: "u32 \<Rightarrow> u32 \<Rightarrow> u32"
  mod_sub :: "u32 \<Rightarrow> u32 \<Rightarrow> u32"
  hash_insert :: "u32 \<Rightarrow> u64 \<Rightarrow> (u32 \<rightharpoonup> u64) \<Rightarrow> (u32 \<rightharpoonup> u64)"
  lru_insert :: "pid_tgid \<Rightarrow> entry_rec \<Rightarrow> (pid_tgid \<rightharpoonup> entry_rec) \<Rightarrow> (pid_tgid \<rightharpoonup> entry_rec)"
  reserve :: "nat \<Rightarrow> bytes option"

text \<open>\<open>bpf_loop\<close> runs its body with the indices from 0 and stops early when it returns 1.\<close>

fun loop_spec :: "nat \<Rightarrow> nat \<Rightarrow> 'c loop_body \<Rightarrow> 'c \<times> fslat \<Rightarrow> ('c \<times> fslat) option" where
  "loop_spec i 0 body c = Some c"
| "loop_spec i (Suc n) body c =
     (case body (of_nat i) c of
        None \<Rightarrow> None
      | Some (r, c') \<Rightarrow> if r = 0 then loop_spec (Suc i) n body c' else Some c')"

definition overwrite :: "bytes \<Rightarrow> usize \<Rightarrow> bytes \<Rightarrow> bytes" where
  "overwrite buf off data = take off buf @ data @ drop (off + length data) buf"

text \<open>
  The documented behaviour: \<open>bpf_dynptr_write\<close> writes inside the memory or fails without writing;
  \<open>ModNumC\<close> computes modulo 16; an insertion into the hash map either stores the pair or changes
  nothing, one into the LRU map stores the pair and may evict others; a reservation returns a slot
  of the requested size.
\<close>

definition helpers_ok :: "kernel \<Rightarrow> bool" where
  "helpers_ok k \<longleftrightarrow>
     (\<forall>n body c. walk_loop k n body c = loop_spec 0 (unat n) body c) \<and>
     (\<forall>n body c. assemble_loop k n body c = loop_spec 0 (unat n) body c) \<and>
     (\<forall>buf off data. unat off + length data \<le> length buf \<longrightarrow>
        dynptr_write k buf off data = (0, overwrite buf (unat off) data)) \<and>
     (\<forall>buf off data. length buf < unat off + length data \<longrightarrow>
        sint (fst (dynptr_write k buf off data)) < 0 \<and> snd (dynptr_write k buf off data) = buf) \<and>
     (\<forall>v lo hi. check_bounds_signed k v lo hi \<longleftrightarrow> sint lo \<le> sint v \<and> sint v \<le> sint hi) \<and>
     (\<forall>a b. mod_add k a b = of_nat ((unat a + unat b) mod 16)) \<and>
     (\<forall>a b. mod_sub k a b = of_int ((uint a - uint b) mod 16))"

definition maps_ok :: "kernel \<Rightarrow> bool" where
  "maps_ok k \<longleftrightarrow>
     (\<forall>b v m. hash_insert k b v m \<in> {m, m(b \<mapsto> v)}) \<and>
     (\<forall>p e m. lru_insert k p e m p = Some e) \<and>
     (\<forall>p e m q. q \<noteq> p \<longrightarrow> lru_insert k p e m q \<in> {None, m q}) \<and>
     (\<forall>n slot. reserve k n = Some slot \<longrightarrow> length slot = BUFSIZE)"

section \<open>Reading the clock\<close>

definition bpf_ktime_get_ns :: "kernel \<Rightarrow> fslat \<Rightarrow> u64 \<times> fslat" where
  "bpf_ktime_get_ns k s = (ktime k (ticks s), s\<lparr>ticks := ticks s + 1\<rparr>)"

end
