(* ===== verification/Fslat_Stats.thy ===== *)
theory Fslat_Stats
  imports Fslat_Maps
begin

text \<open>
  The profiling histograms (\<open>log2_bucket\<close>, \<open>hist_increment\<close>, \<open>check_prof_reset\<close>) and the
  latency statistics (\<open>update_stats_locked\<close>, \<open>clear_stats_locked\<close>) of
  \<open>vfslatency-common/src/lib.rs\<close>.

  The lemmas show which values fall into a bucket, what a reset leaves, and that the statistics
  are the count, sums, minimum and maximum of the samples since the last publication.
\<close>

section \<open>Histograms\<close>

definition leading_zeros :: "u64 \<Rightarrow> u32" where
  "leading_zeros v = of_nat (length (takeWhile (\<lambda>i. \<not> bit v i) (rev [0..<64])))"

definition log2_bucket :: "u64 \<Rightarrow> u32" where
  "log2_bucket val = (if val = 0 then 0 else 64 - leading_zeros val)"

definition hist_increment :: "kernel \<Rightarrow> u32 \<Rightarrow> (u32 \<rightharpoonup> u64) \<Rightarrow> (u32 \<rightharpoonup> u64)" where
  "hist_increment k bucket hist =
     (case hist bucket of
        Some count \<Rightarrow> hist(bucket \<mapsto> count + 1)
      | None \<Rightarrow> hash_insert k bucket 1 hist)"

definition hist_remove :: "u32 \<Rightarrow> (u32 \<rightharpoonup> u64) \<Rightarrow> (u32 \<rightharpoonup> u64)" where
  "hist_remove i hist = hist(i := None)"

definition clear_hists :: "u32 \<Rightarrow> fslat \<Rightarrow> fslat" where
  "clear_hists i s = s\<lparr>
     PROF_PATH_RES_HIST := hist_remove i (PROF_PATH_RES_HIST s),
     PROF_PATH_WALK_HIST := hist_remove i (PROF_PATH_WALK_HIST s),
     PROF_PATH_ASSEMBLY_HIST := hist_remove i (PROF_PATH_ASSEMBLY_HIST s),
     PROF_EXIT_HIST := hist_remove i (PROF_EXIT_HIST s),
     PROF_WALK_ITERS_HIST := hist_remove i (PROF_WALK_ITERS_HIST s)\<rparr>"

definition check_prof_reset :: "kernel \<Rightarrow> fslat \<Rightarrow> fslat" where
  "check_prof_reset k s =
     (case index_get (PROF_CTRL s) 0 of
        None \<Rightarrow> s
      | Some ctrl \<Rightarrow>
          if ctrl = 1 then
            let s = fold clear_hists (map of_nat [0..<64]) s;
                (t, s) = bpf_ktime_get_ns k s
            in s\<lparr>PROF_CTRL := (PROF_CTRL s)[0 := t]\<rparr>
          else s)"

section \<open>Statistics\<close>

definition update_stats_locked :: "u64 \<Rightarrow> u64 \<Rightarrow> fs_latency_stats \<Rightarrow> fs_latency_stats" where
  "update_stats_locked latency bytes fsstat =
     (let fsstat = (if latency < lat_min fsstat \<or> lat_min fsstat = 0
                    then fsstat\<lparr>lat_min := latency\<rparr> else fsstat);
          fsstat = (if latency > lat_max fsstat \<or> lat_max fsstat = 0
                    then fsstat\<lparr>lat_max := latency\<rparr> else fsstat)
      in fsstat\<lparr>lat_count := lat_count fsstat + 1, total_lat := total_lat fsstat + latency,
           total_bytes := total_bytes fsstat + bytes\<rparr>)"

definition clear_stats_locked :: "u64 \<Rightarrow> fs_latency_stats \<Rightarrow> fs_latency_stats" where
  "clear_stats_locked now fsstat = fsstat\<lparr>lastpublish := now, lat_min := - 1, lat_max := 0,
     total_lat := 0, total_bytes := 0, lat_count := 0\<rparr>"

section \<open>Properties\<close>

lemma leading_zeros_bound: "length (takeWhile P (rev [0..<64])) \<le> 64"
  using length_takeWhile_le [of P "rev [0..<64]"] by simp

lemma takeWhile_rev_upt:
  assumes "k \<le> n" "\<And>i. k \<le> i \<Longrightarrow> i < n \<Longrightarrow> P i" "0 < k \<Longrightarrow> \<not> P (k - 1)"
  shows "takeWhile P (rev [0..<n]) = rev [k..<n]"
  using assms(1,2)
proof (induction "n - k" arbitrary: n)
  case 0
  with assms(3) show ?case by (cases k) auto
next
  case (Suc m)
  then obtain n' where n: "n = Suc n'" by (cases n) auto
  with Suc(2,3) have "k \<le> n'" by simp
  with Suc n show ?case by auto
qed

lemma unat_bit_length:
  assumes "v \<noteq> (0 :: u64)"
  obtains b where "0 < b" "b \<le> 64" "bit v (b - 1)" "\<And>i. b \<le> i \<Longrightarrow> \<not> bit v i"
    "2 ^ (b - 1) \<le> unat v" "unat v < 2 ^ b"
proof -
  have odd: "bit v i \<longleftrightarrow> odd (unat v div 2 ^ i)" for i
    by (simp add: bit_unsigned_iff flip: bit_iff_odd)
  define b where "b = (LEAST b. unat v < 2 ^ b)"
  have lt: "unat v < 2 ^ b" and le: "b \<le> 64"
    unfolding b_def using unat_lt [of v] LeastI [of "\<lambda>b. unat v < 2 ^ b" 64]
      Least_le [of "\<lambda>b. unat v < 2 ^ b" 64] by simp_all
  have pos: "0 < b" using lt assms by (cases b) (auto simp: unat_eq_zero)
  then have ge: "2 ^ (b - 1) \<le> unat v"
    using not_less_Least [of "b - 1" "\<lambda>b. unat v < 2 ^ b"] by (simp add: b_def)
  have "unat v div 2 ^ (b - 1) = 1"
    using lt ge pos by (intro div_nat_eqI) (auto simp: power_eq_if mult.commute)
  then have "bit v (b - 1)" by (simp add: odd)
  moreover have "\<not> bit v i" if "b \<le> i" for i
  proof -
    have "unat v < 2 ^ i" using lt that by (meson less_le_trans one_le_numeral power_increasing)
    then show ?thesis by (simp add: odd)
  qed
  ultimately show ?thesis using that pos le lt ge by blast
qed

text \<open>The histogram bucket of a value is its bit length: bucket 0 holds exactly 0, and a
  value of bucket \<open>b > 0\<close> lies between \<open>2 ^ (b - 1)\<close> and \<open>2 ^ b\<close>. The buckets are 0 to 64.\<close>

theorem log2_bucket_spec:
  "unat (log2_bucket v) \<le> 64 \<and>
   (log2_bucket v = 0 \<longleftrightarrow> v = 0) \<and>
   unat v < 2 ^ unat (log2_bucket v) \<and>
   2 ^ unat (log2_bucket v) \<le> 2 * unat v + 1"
proof (cases "v = 0")
  case False
  then obtain b where b: "0 < b" "b \<le> 64" "bit v (b - 1)" "\<And>i. b \<le> i \<Longrightarrow> \<not> bit v i"
    "2 ^ (b - 1) \<le> unat v" "unat v < 2 ^ b"
    by (metis unat_bit_length)
  have "takeWhile (\<lambda>i. \<not> bit v i) (rev [0..<64]) = rev [b..<64]"
    using b by (intro takeWhile_rev_upt) auto
  then have "log2_bucket v = of_nat b"
    using False b(2) by (simp add: log2_bucket_def leading_zeros_def of_nat_diff)
  then have "unat (log2_bucket v) = b"
    using b(2) by (simp add: unsigned_of_nat take_bit_nat_eq_self)
  moreover have "(2::nat) ^ b = 2 * 2 ^ (b - 1)" using b(1) by (simp add: power_eq_if)
  ultimately show ?thesis using False b by (auto simp flip: unat_eq_zero)
qed (simp add: log2_bucket_def)

lemma hist_remove_restrict:
  "hist_remove i m |` (- set is) = m |` (- set (i # is))"
  by (auto simp: hist_remove_def restrict_map_def fun_eq_iff)

lemma fold_clear_hists:
  "fold clear_hists is s = s\<lparr>
     PROF_PATH_RES_HIST := PROF_PATH_RES_HIST s |` (- set is),
     PROF_PATH_WALK_HIST := PROF_PATH_WALK_HIST s |` (- set is),
     PROF_PATH_ASSEMBLY_HIST := PROF_PATH_ASSEMBLY_HIST s |` (- set is),
     PROF_EXIT_HIST := PROF_EXIT_HIST s |` (- set is),
     PROF_WALK_ITERS_HIST := PROF_WALK_ITERS_HIST s |` (- set is)\<rparr>"
proof (induction "is" arbitrary: s)
  case (Cons i "is")
  then show ?case
    by (simp add: clear_hists_def hist_remove_restrict del: set_simps)
qed (simp add: restrict_map_def)

lemma reset_keys: "- set (map of_nat [0..<64]) = {i :: u32. 64 \<le> unat i}"
proof -
  have "i \<in> set (map of_nat [0..<64]) \<longleftrightarrow> unat i < 64" for i :: u32
    by (auto simp: unsigned_of_nat take_bit_nat_eq_self intro!: image_eqI [of _ _ "unat i"])
  then show ?thesis by (simp only: Compl_iff set_eq_iff mem_Collect_eq not_less) simp
qed

text \<open>A handler that finds the control register at 1 removes the buckets 0 to 63 of all five
  histograms and stores the time; every other bucket (64 included), every other map and every
  other value of the register is left alone.\<close>

theorem check_prof_reset_spec:
  "check_prof_reset k s =
     (if index_get (PROF_CTRL s) 0 = Some 1
      then s\<lparr>PROF_PATH_RES_HIST := PROF_PATH_RES_HIST s |` {i. 64 \<le> unat i},
             PROF_PATH_WALK_HIST := PROF_PATH_WALK_HIST s |` {i. 64 \<le> unat i},
             PROF_PATH_ASSEMBLY_HIST := PROF_PATH_ASSEMBLY_HIST s |` {i. 64 \<le> unat i},
             PROF_EXIT_HIST := PROF_EXIT_HIST s |` {i. 64 \<le> unat i},
             PROF_WALK_ITERS_HIST := PROF_WALK_ITERS_HIST s |` {i. 64 \<le> unat i},
             PROF_CTRL := (PROF_CTRL s)[0 := ktime k (ticks s)], ticks := ticks s + 1\<rparr>
      else s)"
proof (cases "index_get (PROF_CTRL s) 0")
  case (Some c)
  then show ?thesis
    unfolding check_prof_reset_def fold_clear_hists reset_keys
    by (simp add: bpf_ktime_get_ns_def)
qed (simp add: check_prof_reset_def)

section \<open>Aggregation\<close>

text \<open>An entry that holds no sample: as the kernel creates it, or after a publication.\<close>

definition stats_fresh :: "fs_latency_stats \<Rightarrow> bool" where
  "stats_fresh s \<longleftrightarrow> lat_min s \<in> {0, - 1} \<and> lat_max s = 0 \<and> total_lat s = 0 \<and>
     total_bytes s = 0 \<and> lat_count s = 0"

definition blank_stats :: fs_latency_stats where
  "blank_stats = \<lparr>lock = False, pathlen = 0, path_prefix = replicate PATHFRAGLEN 0, lat_min = 0,
     lat_max = 0, total_lat = 0, total_bytes = 0, lat_count = 0, lastpublish = 0\<rparr>"

definition add_samples :: "(u64 \<times> u64) list \<Rightarrow> fs_latency_stats \<Rightarrow> fs_latency_stats" where
  "add_samples xs = fold (\<lambda>(latency, bytes). update_stats_locked latency bytes) xs"

text \<open>
  What the entry has to hold after the samples \<open>xs\<close>. Zero marks an empty minimum, so the minimum is that of the samples
  behind the last one of latency zero.
\<close>

definition behind_zero :: "(u64 \<times> u64) list \<Rightarrow> u64 list" where
  "behind_zero xs = takeWhile (\<lambda>l. l \<noteq> 0) (rev (map fst xs))"

definition aggregates :: "(u64 \<times> u64) list \<Rightarrow> fs_latency_stats \<Rightarrow> bool" where
  "aggregates xs s \<longleftrightarrow>
     lat_count s = of_nat (length xs) \<and>
     total_lat s = sum_list (map fst xs) \<and>
     total_bytes s = sum_list (map snd xs) \<and>
     lat_min s = (if behind_zero xs = [] then 0 else Min (set (behind_zero xs))) \<and>
     lat_max s = Max (set (map fst xs))"

lemma behind_zero_snoc: "behind_zero (xs @ [(l, b)]) = (if l = 0 then [] else l # behind_zero xs)"
  by (simp add: behind_zero_def)

lemma behind_zero_all: "0 \<notin> fst ` set xs \<Longrightarrow> behind_zero xs = rev (map fst xs)"
  by (auto simp: behind_zero_def takeWhile_eq_all_conv)

lemma blank_is_fresh: "stats_fresh blank_stats"
  by (simp add: stats_fresh_def blank_stats_def)

lemma clear_is_fresh: "stats_fresh (clear_stats_locked now s)"
  by (simp add: stats_fresh_def clear_stats_locked_def)

lemma update_fresh: "stats_fresh s \<Longrightarrow> aggregates [(l, b)] (update_stats_locked l b s)"
  by (auto simp: stats_fresh_def aggregates_def behind_zero_def update_stats_locked_def Let_def word_greater_zero_iff
      not_less intro: antisym)

lemma update_fields:
  "lat_min (update_stats_locked l b s) = (if lat_min s = 0 then l else min l (lat_min s))"
  "lat_max (update_stats_locked l b s) = max l (lat_max s)"
  "lat_count (update_stats_locked l b s) = lat_count s + 1"
  "total_lat (update_stats_locked l b s) = total_lat s + l"
  "total_bytes (update_stats_locked l b s) = total_bytes s + b"
  by (auto simp: update_stats_locked_def Let_def min_def max_def word_greater_zero_iff)

lemma min_behind_zero:
  assumes "behind_zero xs \<noteq> []" shows "Min (set (behind_zero xs)) \<noteq> 0"
proof -
  have "Min (set (behind_zero xs)) \<in> set (behind_zero xs)" using assms by (intro Min_in) simp_all
  then show ?thesis unfolding behind_zero_def by (auto dest: set_takeWhileD)
qed

lemma update_aggregates:
  assumes "aggregates xs s" "xs \<noteq> []"
  shows "aggregates (xs @ [(l, b)]) (update_stats_locked l b s)"
proof -
  have fin: "finite (fst ` set xs)" "fst ` set xs \<noteq> {}" using assms(2) by auto
  show ?thesis
    using assms(1) Max_insert [OF fin, of l] min_behind_zero [of xs]
    by (auto simp: aggregates_def update_fields behind_zero_snoc Min_insert)
qed

lemma add_samples_snoc:
  "add_samples (xs @ [(l, b)]) s = update_stats_locked l b (add_samples xs s)"
  by (simp add: add_samples_def)

text \<open>C5: after a publication (or on an entry as the kernel creates it), recording any samples leaves
  their number, their summed latencies and bytes (all modulo \<open>2 ^ 64\<close>), their maximum, and as the minimum that
  of the samples behind the last one of latency zero: the minimum of all of them when none has latency zero.\<close>

theorem samples_aggregated:
  assumes "stats_fresh s" "xs \<noteq> []"
  shows "aggregates xs (add_samples xs s) \<and>
    (0 \<notin> fst ` set xs \<longrightarrow> lat_min (add_samples xs s) = Min (set (map fst xs)))"
proof -
  have "aggregates xs (add_samples xs s)"
    using assms(2)
  proof (induction xs rule: rev_nonempty_induct)
    case (single x)
    then show ?case using update_fresh [OF assms(1)] by (cases x) (simp add: add_samples_def)
  next
    case (snoc x xs)
    then show ?case
      using update_aggregates [of xs "add_samples xs s"] by (cases x) (simp add: add_samples_snoc)
  qed
  then show ?thesis using assms(2) by (simp add: aggregates_def behind_zero_all)
qed

lemma samples_aggregated_witness:
  "aggregates [(0, 5), (7, 100), (3, 50), (9, 0)] (add_samples [(0, 5), (7, 100), (3, 50), (9, 0)] blank_stats) \<and>
   lat_min (add_samples [(7, 100), (3, 50), (9, 0)] blank_stats) = 3"
  using samples_aggregated [OF blank_is_fresh, of "[(0, 5), (7, 100), (3, 50), (9, 0)]"]
    samples_aggregated [OF blank_is_fresh, of "[(7, 100), (3, 50), (9, 0)]"] by simp

text \<open>Zero doubles as the mark of an empty minimum, so a sample of latency zero is forgotten by
  the next one: after the latencies 0 and 5 the minimum is 5.\<close>

theorem zero_minimum_lost:
  "lat_min (add_samples [(0, b), (5, c)] (clear_stats_locked now s)) = 5"
  by (simp add: add_samples_def update_stats_locked_def clear_stats_locked_def Let_def)

end
