(* ===== verification/Fslat_Path.thy ===== *)
theory Fslat_Path
  imports Fslat_Stats "HOL-Library.Monad_Syntax"
begin

text \<open>
  Path resolution of the producer (\<open>vfslatency-common/src/lib.rs\<close>): \<open>partial_d_path\<close> follows the
  dentries of a file up to the root, keeping the last sixteen names in a ring, and assembles the
  first 32 bytes of the path from it; \<open>starts_with\<close> matches a configured prefix.

  \<open>resolves\<close> is the specification, the path the kernel's own \<open>prepend_path\<close> would print; the
  main theorem states that the fragment is the beginning of that path although the ring holds
  only sixteen names and each of them is cut at 31 bytes.
\<close>

section \<open>Matching a prefix\<close>

text \<open>\<open>None\<close> is the panic of an index out of range.\<close>

fun starts_with_loop :: "nat list \<Rightarrow> bytes \<Rightarrow> bytes \<Rightarrow> bool option" where
  "starts_with_loop [] needle haystack = Some True"
| "starts_with_loop (i # is) needle haystack =
     do { h \<leftarrow> index_get haystack i;
          n \<leftarrow> index_get needle i;
          if h \<noteq> n then Some False else starts_with_loop is needle haystack }"

definition starts_with :: "bytes \<Rightarrow> bytes \<Rightarrow> usize \<Rightarrow> bool option" where
  "starts_with needle haystack len =
     (if len = 0 \<or> len > length haystack then Some False
      else starts_with_loop [0..<max 1 (min len PATHFRAGLEN)] needle haystack)"

section \<open>Walking up\<close>

text \<open>\<open>offset_of!(vmlinux::mount, mnt)\<close>: a hash list node and two pointers come before it.\<close>

definition MOUNT_MNT :: addr where
  "MOUNT_MNT = 32"

text \<open>The body of the first loop; \<open>None\<close> is an unchecked unwrap of a failed kernel read.\<close>

definition path_walk_step :: "kernel \<Rightarrow> path_walk_ctx loop_body" where
  "path_walk_step k _ = (\<lambda>(c, s). do {
     let dentry = pw_dentry c;
     let mnt = pw_mnt c;
     parent \<leftarrow> read_d_parent k dentry;
     let vfsmount = mnt + MOUNT_MNT;
     mnt_root \<leftarrow> read_mnt_root k vfsmount;
     if dentry = pw_root_dentry c \<and> vfsmount = pw_root_vfsmount c
     then Some (1, c\<lparr>pw_absolute := True\<rparr>, s)
     else do {
       crossed \<leftarrow> (if dentry = mnt_root
         then do {
           parent_mnt \<leftarrow> read_mnt_parent k mnt;
           if mnt \<noteq> parent_mnt
           then do { mountpoint \<leftarrow> read_mnt_mountpoint k mnt; Some (Some (mountpoint, parent_mnt)) }
           else Some None }
         else Some None);
       case crossed of
         Some (mountpoint, parent_mnt) \<Rightarrow>
           Some (0, c\<lparr>pw_dentry := mountpoint, pw_mnt := parent_mnt\<rparr>, s)
       | None \<Rightarrow>
           if dentry = parent then Some (1, c\<lparr>pw_absolute := True\<rparr>, s)
           else do {
             name_ptr \<leftarrow> read_d_name k dentry;
             case index_get (PATHBUFTMP s) (unat (pw_mod_ctr c)) of
               None \<Rightarrow> Some (1, c, s)
             | Some elem \<Rightarrow> do {
                 (buf, len) \<leftarrow> read_str k name_ptr (pathcomp elem);
                 let s = s\<lparr>PATHBUFTMP := (PATHBUFTMP s)[unat (pw_mod_ctr c) :=
                            elem\<lparr>pathcomp := buf, pc_len := len\<rparr>]\<rparr>;
                 let c = c\<lparr>pw_dentry := parent, pw_loop_ctr := pw_loop_ctr c + 1,
                           pw_mod_ctr := mod_add k (pw_mod_ctr c) 1\<rparr>;
                 Some (if pw_loop_ctr c > MAX_PARENT then 1 else 0, c, s) } } } })"

section \<open>Assembling the fragment\<close>

definition frag_write :: "kernel \<Rightarrow> u32 \<Rightarrow> bytes \<Rightarrow> fslat \<Rightarrow> i64 \<times> fslat" where
  "frag_write k off data s =
     (let (r, buf) = dynptr_write k (PATHBUF s ! 0) off data
      in (r, s\<lparr>PATHBUF := (PATHBUF s)[0 := buf]\<rparr>))"

definition assemble_pathfrag :: "kernel \<Rightarrow> assemble_ctx loop_body" where
  "assemble_pathfrag k index = (\<lambda>(c, s).
     let idx = mod_sub k (as_start c) index in
     case index_get (PATHBUFTMP s) (unat idx) of
       None \<Rightarrow> Some (1, c, s)
     | Some buf_elem \<Rightarrow>
         let len = (if pc_len buf_elem > PATHFRAGLEN then of_nat PATHFRAGLEN
                    else of_nat (pc_len buf_elem)) :: u32;
             copied = as_copied c;
             remaining = of_nat PATHFRAGLEN - copied;
             n = min remaining len
         in
         if \<not> check_bounds_signed k (ucast copied) 0 (of_nat PATHFRAGLEN) then Some (1, c, s)
         else if \<not> check_bounds_signed k (ucast remaining) 0 (of_nat PATHFRAGLEN) then Some (1, c, s)
         else
           let (r, s) = frag_write k copied (take (unat n) (pathcomp buf_elem)) s in
           if sint r < 0 then Some (1, c, s)
           else
             let (c, s) = (if index < as_num c - 1
                  then (c\<lparr>as_copied := copied + n + 1\<rparr>, snd (frag_write k (copied + len) [0x2f] s))
                  else (c\<lparr>as_copied := copied + n\<rparr>, s))
             in Some (0, c, s\<lparr>PATHBUFTMP := (PATHBUFTMP s)[unat idx := buf_elem\<lparr>pc_len := 0\<rparr>]\<rparr>))"

section \<open>Partial paths\<close>

text \<open>What a handler gets from its context: the task, the file's path and the task's root, and
  the value the instrumented function returned.\<close>

record call_ctx =
  cx_pid :: u32
  cx_tgid :: u32
  cx_dentry :: addr
  cx_vfsmount :: addr
  cx_root_dentry :: addr
  cx_root_vfsmount :: addr

record path_times =
  walk_iters :: u32
  walk_ns :: u64
  assembly_ns :: u64

definition partial_d_path :: "kernel \<Rightarrow> call_ctx \<Rightarrow> fslat \<Rightarrow> (i32 \<times> path_times \<times> fslat) option" where
  "partial_d_path k ctx s = do {
     let walk_ctx = \<lparr>pw_dentry = cx_dentry ctx, pw_mnt = cx_vfsmount ctx - MOUNT_MNT, pw_loop_ctr = 0,
       pw_mod_ctr = 0, pw_root_dentry = cx_root_dentry ctx, pw_root_vfsmount = cx_root_vfsmount ctx,
       pw_absolute = False\<rparr>;
     let (walk_start, s) = bpf_ktime_get_ns k s;
     (walk_ctx, s) \<leftarrow> walk_loop k MAX_PARENT_LOOP (path_walk_step k) (walk_ctx, s);
     let (walk_end, s) = bpf_ktime_get_ns k s;
     let assem_ctx = \<lparr>as_start = mod_sub k (pw_mod_ctr walk_ctx) 1, as_copied = 0,
       as_num = min NUM_COMP (pw_loop_ctr walk_ctx), as_absolute = pw_absolute walk_ctx\<rparr>;
     let (assembly_start, s) = bpf_ktime_get_ns k s;
     let (assem_ctx, s) = (if as_absolute assem_ctx
       then (assem_ctx\<lparr>as_copied := 1\<rparr>, snd (frag_write k 0 [0x2f] s))
       else (assem_ctx, s));
     (assem_ctx, s) \<leftarrow> assemble_loop k (min NUM_COMP (as_num assem_ctx)) (assemble_pathfrag k) (assem_ctx, s);
     let (assembly_end, s) = bpf_ktime_get_ns k s;
     Some (as_copied assem_ctx,
       \<lparr>walk_iters = pw_loop_ctr walk_ctx, walk_ns = walk_end - walk_start,
        assembly_ns = assembly_end - assembly_start\<rparr>, s) }"

section \<open>Prefix matching is exact\<close>

lemma starts_with_loop_Some:
  assumes "\<And>i. i \<in> set is \<Longrightarrow> i < length needle \<and> i < length haystack"
  shows "starts_with_loop is needle haystack = Some (\<forall>i \<in> set is. haystack ! i = needle ! i)"
  using assms by (induction "is") (auto simp: index_get_def)

lemma starts_with_exact:
  assumes "length needle = PATHFRAGLEN" "length haystack = PATHFRAGLEN"
  shows "starts_with needle haystack len =
    Some (0 < len \<and> len \<le> PATHFRAGLEN \<and> take len haystack = take len needle)"
proof (cases "0 < len \<and> len \<le> 32")
  case True
  then have "starts_with needle haystack len = Some (\<forall>i < len. haystack ! i = needle ! i)"
    using assms starts_with_loop_Some [of "[0..<len]" needle haystack]
    by (auto simp: starts_with_def max_def min_def)
  moreover have "(\<forall>i < len. haystack ! i = needle ! i) \<longleftrightarrow> take len haystack = take len needle"
    using True assms by (auto simp: list_eq_iff_nth_eq)
  ultimately show ?thesis using True by simp
qed (use assms in \<open>auto simp: starts_with_def\<close>)

text \<open>On the 32-byte buffers of the maps, a prefix of length \<open>len\<close> matches exactly when
  \<open>len\<close> is between 1 and 32 and the first \<open>len\<close> bytes agree; matching never indexes out of range.\<close>

theorem starts_with_spec:
  assumes "length needle = PATHFRAGLEN" "length haystack = PATHFRAGLEN"
  shows "starts_with needle haystack len =
    Some (0 < len \<and> len \<le> PATHFRAGLEN \<and> take len haystack = take len needle)"
  by (rule starts_with_exact [OF assms])

lemma starts_with_spec_witness:
  "starts_with (str_bytes ''/data'' @ replicate 27 0) (str_bytes ''/data/log'' @ replicate 23 0) 5 = Some True \<and>
   starts_with (str_bytes ''/data'' @ replicate 27 0) (str_bytes ''/date'' @ replicate 27 0) 5 = Some False"
  using starts_with_spec [of "str_bytes ''/data'' @ replicate 27 0" "str_bytes ''/data/log'' @ replicate 23 0" 5]
    starts_with_spec [of "str_bytes ''/data'' @ replicate 27 0" "str_bytes ''/date'' @ replicate 27 0" 5]
  by (simp add: str_bytes_def)

section \<open>The path of a file\<close>

text \<open>The string at a kernel address, as \<open>bpf_probe_read_kernel_str\<close> reads it into a 32-byte buffer:
  at most 31 bytes and a terminator.\<close>

definition str_at :: "kernel \<Rightarrow> addr \<Rightarrow> bytes \<Rightarrow> bool" where
  "str_at k a name \<longleftrightarrow> (\<forall>buf. length buf = PATHCOMPLEN \<longrightarrow>
     (\<exists>buf'. read_str k a buf = Some (buf', min 31 (length name)) \<and> length buf' = PATHCOMPLEN \<and>
        take (min 31 (length name)) buf' = take 31 name))"

inductive resolves :: "kernel \<Rightarrow> addr \<Rightarrow> addr \<Rightarrow> addr \<Rightarrow> addr \<Rightarrow> bytes list \<Rightarrow> nat \<Rightarrow> bool"
  for k rd rv where
  at_root: "read_d_parent k d = Some p \<Longrightarrow> read_mnt_root k (m + MOUNT_MNT) = Some mr \<Longrightarrow>
     d = rd \<Longrightarrow> m + MOUNT_MNT = rv \<Longrightarrow> resolves k rd rv d m [] 0"
| at_global_root: "read_d_parent k d = Some p \<Longrightarrow> read_mnt_root k (m + MOUNT_MNT) = Some mr \<Longrightarrow>
     \<not> (d = rd \<and> m + MOUNT_MNT = rv) \<Longrightarrow> (d = mr \<Longrightarrow> read_mnt_parent k m = Some m) \<Longrightarrow>
     d = p \<Longrightarrow> resolves k rd rv d m [] 0"
| crossing: "read_d_parent k d = Some p \<Longrightarrow> read_mnt_root k (m + MOUNT_MNT) = Some d \<Longrightarrow>
     \<not> (d = rd \<and> m + MOUNT_MNT = rv) \<Longrightarrow> read_mnt_parent k m = Some pm \<Longrightarrow> pm \<noteq> m \<Longrightarrow>
     read_mnt_mountpoint k m = Some mp \<Longrightarrow> resolves k rd rv mp pm ns n \<Longrightarrow>
     resolves k rd rv d m ns (Suc n)"
| component: "read_d_parent k d = Some p \<Longrightarrow> read_mnt_root k (m + MOUNT_MNT) = Some mr \<Longrightarrow>
     \<not> (d = rd \<and> m + MOUNT_MNT = rv) \<Longrightarrow> (d = mr \<Longrightarrow> read_mnt_parent k m = Some m) \<Longrightarrow>
     d \<noteq> p \<Longrightarrow> read_d_name k d = Some a \<Longrightarrow> str_at k a name \<Longrightarrow> resolves k rd rv p m ns n \<Longrightarrow>
     resolves k rd rv d m (name # ns) (Suc n)"

text \<open>The ring after the names \<open>ws\<close> were written into it, the most recent sixteen of them.\<close>

definition slot_holds :: "path_component \<Rightarrow> bytes \<Rightarrow> bool" where
  "slot_holds e name \<longleftrightarrow> pc_len e = min 31 (length name) \<and> take (pc_len e) (pathcomp e) = take 31 name"

definition ring_shape :: "path_component list \<Rightarrow> bool" where
  "ring_shape ring \<longleftrightarrow> length ring = 16 \<and> (\<forall>e \<in> set ring. length (pathcomp e) = PATHCOMPLEN)"

definition ring_holds :: "path_component list \<Rightarrow> bytes list \<Rightarrow> bool" where
  "ring_holds ring ws \<longleftrightarrow> ring_shape ring \<and>
     (\<forall>j < length ws. length ws \<le> j + 16 \<longrightarrow> slot_holds (ring ! (j mod 16)) (ws ! j))"

lemma ring_shape_update:
  "ring_shape ring \<Longrightarrow> length (pathcomp e) = PATHCOMPLEN \<Longrightarrow> ring_shape (ring[i := e])"
  unfolding ring_shape_def using set_update_subset_insert [of ring i e] by auto

lemma mod16_distinct:
  assumes "j < l" "l < j + 16"
  shows "j mod 16 \<noteq> l mod (16 :: nat)"
proof
  assume "j mod 16 = l mod 16"
  then have "16 dvd l - j" using mod_eq_dvd_iff_nat [of j l 16] assms(1) by simp
  with assms show False using dvd_imp_le [of 16 "l - j"] by linarith
qed

lemma ring_holds_write:
  assumes "ring_holds ring ws" "slot_holds e name" "length (pathcomp e) = PATHCOMPLEN"
  shows "ring_holds (ring[length ws mod 16 := e]) (ws @ [name])"
  unfolding ring_holds_def
proof (intro conjI allI impI)
  show "ring_shape (ring[length ws mod 16 := e])"
    using assms ring_shape_update by (simp add: ring_holds_def)
  fix j assume j: "j < length (ws @ [name])" "length (ws @ [name]) \<le> j + 16"
  have len: "length ring = 16" using assms(1) by (simp add: ring_holds_def ring_shape_def)
  show "slot_holds (ring[length ws mod 16 := e] ! (j mod 16)) ((ws @ [name]) ! j)"
  proof (cases "j = length ws")
    case True
    then show ?thesis using assms(2) len by simp
  next
    case False
    then have "j < length ws" "length ws < j + 16" using j by auto
    then have "j mod 16 \<noteq> length ws mod 16" by (rule mod16_distinct)
    then show ?thesis
      using assms(1) \<open>j < length ws\<close> j by (simp add: ring_holds_def nth_append)
  qed
qed

text \<open>The walk context after the names \<open>ws\<close>.\<close>

definition walked :: "path_walk_ctx \<Rightarrow> fslat \<Rightarrow> bytes list \<Rightarrow> bool" where
  "walked c s ws \<longleftrightarrow> pw_loop_ctr c = of_nat (length ws) \<and> pw_mod_ctr c = of_nat (length ws mod 16) \<and>
     ring_holds (PATHBUFTMP s) ws"

lemma walk_component:
  assumes "helpers_ok k" "walked c s ws" "str_at k a name" "length ws < 33"
    and "read_d_parent k (pw_dentry c) = Some p" "read_mnt_root k (pw_mnt c + MOUNT_MNT) = Some mr"
    "\<not> (pw_dentry c = pw_root_dentry c \<and> pw_mnt c + MOUNT_MNT = pw_root_vfsmount c)"
    "pw_dentry c = mr \<Longrightarrow> read_mnt_parent k (pw_mnt c) = Some (pw_mnt c)"
    "pw_dentry c \<noteq> p" "read_d_name k (pw_dentry c) = Some a"
  obtains c' ring where
    "path_walk_step k i (c, s) = Some (if length ws = 32 then 1 else 0, c', s\<lparr>PATHBUFTMP := ring\<rparr>)"
    "walked c' (s\<lparr>PATHBUFTMP := ring\<rparr>) (ws @ [name])"
    "pw_dentry c' = p" "pw_mnt c' = pw_mnt c" "pw_root_dentry c' = pw_root_dentry c"
    "pw_root_vfsmount c' = pw_root_vfsmount c" "pw_absolute c' = pw_absolute c"
proof -
  let ?j = "length ws mod 16"
  have j: "unat (pw_mod_ctr c) = ?j" "?j < 16"
    using assms(2) by (simp_all add: walked_def unsigned_of_nat take_bit_nat_eq_self)
  have ring: "ring_holds (PATHBUFTMP s) ws" "length (PATHBUFTMP s) = 16"
    using assms(2) by (simp_all add: walked_def ring_holds_def ring_shape_def)
  define e where "e = PATHBUFTMP s ! ?j"
  have "e \<in> set (PATHBUFTMP s)" using ring(2) j(2) by (simp add: e_def)
  then have "length (pathcomp e) = PATHCOMPLEN"
    using ring(1) by (simp add: ring_holds_def ring_shape_def)
  then obtain buf where buf: "read_str k a (pathcomp e) = Some (buf, min 31 (length name))"
    "length buf = PATHCOMPLEN" "take (min 31 (length name)) buf = take 31 name"
    using assms(3) by (auto simp: str_at_def)
  define e' where "e' = e\<lparr>pathcomp := buf, pc_len := min 31 (length name)\<rparr>"
  define c' where "c' = c\<lparr>pw_dentry := p, pw_loop_ctr := pw_loop_ctr c + 1,
      pw_mod_ctr := mod_add k (pw_mod_ctr c) 1\<rparr>"
  have w: "ring_holds ((PATHBUFTMP s)[?j := e']) (ws @ [name])"
    using ring_holds_write [OF ring(1)] buf by (simp add: e'_def slot_holds_def)
  have ctr: "mod_add k (pw_mod_ctr c) 1 = of_nat (length (ws @ [name]) mod 16)"
    using assms(1) j by (simp add: helpers_ok_def mod_Suc_eq)
  have "walked c' (s\<lparr>PATHBUFTMP := (PATHBUFTMP s)[?j := e']\<rparr>) (ws @ [name])"
    using assms(2) w ctr by (simp add: walked_def c'_def)
  moreover have "pw_loop_ctr c + 1 > MAX_PARENT \<longleftrightarrow> length ws = 32"
  proof -
    have "unat (pw_loop_ctr c + 1) = Suc (length ws)"
      using assms(2,4)
      by (simp add: walked_def unsigned_of_nat take_bit_nat_eq_self add.commute [of _ 1] flip: of_nat_Suc)
    then show ?thesis using assms(4) by (auto simp: word_less_nat_alt)
  qed
  then have "path_walk_step k i (c, s) =
      Some (if length ws = 32 then 1 else 0, c', s\<lparr>PATHBUFTMP := (PATHBUFTMP s)[?j := e']\<rparr>)"
    using assms(5-) buf(1) j ring(2)
    by (auto simp: path_walk_step_def Let_def index_get_def c'_def e'_def simp flip: e_def)
  ultimately show ?thesis using that by (simp add: c'_def)
qed


lemma walk_stop:
  assumes "path_walk_step k (of_nat i) (c, s) = Some (1, c\<lparr>pw_absolute := True\<rparr>, s)" "walked c s ws" "0 < N"
  shows "\<exists>c' ring. loop_spec i N (path_walk_step k) (c, s) = Some (c', s\<lparr>PATHBUFTMP := ring\<rparr>) \<and>
     walked c' (s\<lparr>PATHBUFTMP := ring\<rparr>) ws \<and> pw_absolute c'"
  using assms
  by (cases N) (auto simp: walked_def intro!: exI [of _ "c\<lparr>pw_absolute := True\<rparr>"] exI [of _ "PATHBUFTMP s"])

lemma walk_resolves:
  assumes "resolves k rd rv d m ns n" "helpers_ok k"
    and "pw_dentry c = d" "pw_mnt c = m" "pw_root_dentry c = rd" "pw_root_vfsmount c = rv"
    and "walked c s ws" "length ws + length ns \<le> 32" "n < N"
  shows "\<exists>c' ring. loop_spec i N (path_walk_step k) (c, s) = Some (c', s\<lparr>PATHBUFTMP := ring\<rparr>) \<and>
     walked c' (s\<lparr>PATHBUFTMP := ring\<rparr>) (ws @ ns) \<and> pw_absolute c'"
  using assms(1,3-)
proof (induction arbitrary: c s ws i N rule: resolves.induct)
  case (at_root d p m mr)
  then have "path_walk_step k (of_nat i) (c, s) = Some (1, c\<lparr>pw_absolute := True\<rparr>, s)"
    by (auto simp: path_walk_step_def)
  then show ?case using walk_stop at_root by simp
next
  case (at_global_root d p m mr)
  then have "path_walk_step k (of_nat i) (c, s) = Some (1, c\<lparr>pw_absolute := True\<rparr>, s)"
    by (auto simp: path_walk_step_def Let_def)
  then show ?case using walk_stop at_global_root by simp
next
  case (crossing d p m pm mp ns n)
  then obtain N' where N: "N = Suc N'" "n < N'" by (cases N) auto
  let ?c = "c\<lparr>pw_dentry := mp, pw_mnt := pm\<rparr>"
  have step: "path_walk_step k (of_nat i) (c, s) = Some (0, ?c, s)"
    using crossing by (auto simp: path_walk_step_def Let_def)
  have "walked ?c s ws" using crossing.prems by (simp add: walked_def)
  with crossing.IH [of ?c s ws N' "Suc i"] crossing.prems N step show ?case by simp
next
  case (component d p m mr a name ns n)
  then obtain N' where N: "N = Suc N'" "n < N'" by (cases N) auto
  have h: "walked c s ws" "str_at k a name" "length ws < 33"
    "read_d_parent k (pw_dentry c) = Some p" "read_mnt_root k (pw_mnt c + MOUNT_MNT) = Some mr"
    "\<not> (pw_dentry c = pw_root_dentry c \<and> pw_mnt c + MOUNT_MNT = pw_root_vfsmount c)"
    "pw_dentry c = mr \<Longrightarrow> read_mnt_parent k (pw_mnt c) = Some (pw_mnt c)"
    "pw_dentry c \<noteq> p" "read_d_name k (pw_dentry c) = Some a"
    using component by auto
  obtain c' ring where c':
    "path_walk_step k (of_nat i) (c, s) =
       Some (if length ws = 32 then 1 else 0, c', s\<lparr>PATHBUFTMP := ring\<rparr>)"
    "walked c' (s\<lparr>PATHBUFTMP := ring\<rparr>) (ws @ [name])"
    "pw_dentry c' = p" "pw_mnt c' = pw_mnt c" "pw_root_dentry c' = pw_root_dentry c"
    "pw_root_vfsmount c' = pw_root_vfsmount c" "pw_absolute c' = pw_absolute c"
    by (rule walk_component [OF assms(2) h])
  with component.IH [of c' "s\<lparr>PATHBUFTMP := ring\<rparr>" "ws @ [name]" N' "Suc i"] component.prems N
  show ?case by auto
qed

section \<open>The assembled fragment\<close>

fun join_path :: "bytes list \<Rightarrow> bytes" where
  "join_path [] = []"
| "join_path [c] = c"
| "join_path (c # cs) = c @ 0x2f # join_path cs"

definition abs_path :: "bytes list \<Rightarrow> bytes" where
  "abs_path names = 0x2f # join_path (rev names)"

definition frag_of :: "bytes \<Rightarrow> bytes" where
  "frag_of p = take PATHFRAGLEN (p @ replicate PATHFRAGLEN 0)"

lemma length_frag_of [simp]: "length (frag_of p) = 32"
  by (simp add: frag_of_def)

text \<open>The assembly after the bytes \<open>p\<close>, with the components \<open>cs\<close> to come from index \<open>i\<close>.\<close>

definition assembled :: "assemble_ctx \<Rightarrow> fslat \<Rightarrow> bytes \<Rightarrow> bool" where
  "assembled c s p \<longleftrightarrow> p \<noteq> [] \<and> PATHBUF s \<noteq> [] \<and> PATHBUF s ! 0 = frag_of p \<and>
     as_copied c = (if length p \<le> 32 then of_nat (length p) else 33)"

definition slot_index :: "kernel \<Rightarrow> assemble_ctx \<Rightarrow> nat \<Rightarrow> nat" where
  "slot_index k c i = unat (mod_sub k (as_start c) (of_nat i))"

definition pending :: "kernel \<Rightarrow> assemble_ctx \<Rightarrow> fslat \<Rightarrow> nat \<Rightarrow> bytes list \<Rightarrow> bool" where
  "pending k c s i cs \<longleftrightarrow> ring_shape (PATHBUFTMP s) \<and> as_num c = of_nat (i + length cs) \<and>
     i + length cs \<le> 16 \<and>
     (\<forall>j < length cs. slot_holds (PATHBUFTMP s ! slot_index k c (i + j)) (cs ! j))"

lemma overwrite_frag:
  assumes "length p + length data \<le> 32"
  shows "overwrite (frag_of p) (length p) data = frag_of (p @ data)"
  using assms by (simp add: overwrite_def frag_of_def)

lemma frag_of_full: "32 \<le> length p \<Longrightarrow> frag_of (p @ q) = frag_of p"
  by (simp add: frag_of_def)

lemma frag_of_cut: "length p \<le> 32 \<Longrightarrow> frag_of (p @ take (32 - length p) q) = frag_of (p @ q)"
  by (cases "length q \<le> 32 - length p") (simp_all add: frag_of_def)


lemma unat_u32: "n < 2 ^ 32 \<Longrightarrow> unat (of_nat n :: u32) = n"
  by (simp add: unsigned_of_nat take_bit_nat_eq_self)

lemma unat_le33: "n \<le> 33 \<Longrightarrow> unat (of_nat n :: u32) \<le> 33"
  by (simp add: unat_u32)

lemma sint_small: "unat (x :: i32) \<le> 33 \<Longrightarrow> 0 \<le> sint x"
proof -
  assume "unat x \<le> 33"
  then have "int (unat x) \<le> 33" by linarith
  then show ?thesis using uint_of_sint [of x] sint_ge [of x] by (simp split: if_splits)
qed

lemma slot_index_eq:
  assumes "helpers_ok k" "i \<le> 16"
  shows "slot_index k c i = nat ((uint (as_start c) - int i) mod 16)"
proof -
  have "uint (of_nat i :: u32) = int i" using assms(2) by (simp add: unsigned_of_nat take_bit_nat_eq_self)
  moreover have "unat (of_int (m mod 16) :: u32) = nat (m mod 16)" for m :: int
  proof -
    have "of_int (m mod 16) = (of_nat (nat (m mod 16)) :: u32)" by simp
    moreover have "nat (m mod 16) < 2 ^ 32" by (simp add: nat_less_iff less_le_trans [OF pos_mod_bound])
    ultimately show ?thesis by (simp only: unat_u32)
  qed
  ultimately show ?thesis using assms(1) by (simp add: slot_index_def helpers_ok_def)
qed

lemma slot_index_less: "helpers_ok k \<Longrightarrow> i \<le> 16 \<Longrightarrow> slot_index k c i < 16"
  by (simp add: slot_index_eq nat_less_iff)

lemma slot_index_distinct:
  assumes "helpers_ok k" "i < j" "j < i + 16" "j \<le> 16"
  shows "slot_index k c i \<noteq> slot_index k c j"
proof
  assume "slot_index k c i = slot_index k c j"
  then have "(uint (as_start c) - int i) mod 16 = (uint (as_start c) - int j) mod 16"
    using assms by (simp add: slot_index_eq)
  then have "16 dvd (int j - int i)" by (simp add: mod_eq_dvd_iff)
  then show False using assms zdvd_imp_le [of 16 "int j - int i"] by linarith
qed

lemma pending_step:
  assumes "helpers_ok k" "pending k c s i (x # cs)" "as_num c' = as_num c" "as_start c' = as_start c"
    "PATHBUFTMP s' = (PATHBUFTMP s)[slot_index k c i := (PATHBUFTMP s ! slot_index k c i)\<lparr>pc_len := 0\<rparr>]"
  shows "pending k c' s' (Suc i) cs"
proof -
  have b: "i + length cs < 16" "length (PATHBUFTMP s) = 16"
    using assms(2) by (simp_all add: pending_def ring_shape_def)
  have "slot_holds (PATHBUFTMP s' ! slot_index k c' (Suc i + j)) (cs ! j)" if "j < length cs" for j
  proof -
    have "slot_index k c' (Suc i + j) = slot_index k c (Suc i + j)"
      using assms(4) by (simp add: slot_index_def)
    moreover have "slot_index k c i \<noteq> slot_index k c (Suc i + j)"
      using assms(1) that b by (intro slot_index_distinct) auto
    moreover have "slot_holds (PATHBUFTMP s ! slot_index k c (i + Suc j)) ((x # cs) ! Suc j)"
      using assms(2) that unfolding pending_def by (metis Suc_less_eq length_Cons)
    ultimately show ?thesis using assms(5) by simp
  qed
  moreover have "ring_shape (PATHBUFTMP s')"
  proof -
    have "PATHBUFTMP s ! slot_index k c i \<in> set (PATHBUFTMP s)"
      using slot_index_less [OF assms(1)] b by simp
    then have "length (pathcomp (PATHBUFTMP s ! slot_index k c i)) = PATHCOMPLEN"
      using assms(2) by (simp add: pending_def ring_shape_def)
    then show ?thesis
      using assms(2) unfolding assms(5) by (intro ring_shape_update) (simp_all add: pending_def)
  qed
  ultimately show ?thesis using assms(2,3) by (simp add: pending_def)
qed


lemma frag_write_ring [simp]: "PATHBUFTMP (snd (frag_write k off data s)) = PATHBUFTMP s"
  by (simp add: frag_write_def split_beta)

lemma dynptr_write_inside:
  "helpers_ok k \<Longrightarrow> PATHBUF s \<noteq> [] \<Longrightarrow> PATHBUF s ! 0 = frag_of p \<Longrightarrow> length p + length data \<le> 32 \<Longrightarrow>
     frag_write k (of_nat (length p)) data s = (0, s\<lparr>PATHBUF := (PATHBUF s)[0 := frag_of (p @ data)]\<rparr>)"
  by (simp add: frag_write_def helpers_ok_def unat_u32 overwrite_frag)

lemma dynptr_write_outside:
  assumes "helpers_ok k" "PATHBUF s ! 0 = frag_of p" "32 \<le> off" "off < 100"
  shows "snd (frag_write k (of_nat off) [b] s) = s"
proof -
  have "length (PATHBUF s ! 0) < unat (of_nat off :: u32) + length [b]"
    using assms by (simp add: unat_u32)
  then have "snd (dynptr_write k (PATHBUF s ! 0) (of_nat off) [b]) = PATHBUF s ! 0"
    using assms(1) unfolding helpers_ok_def by blast
  then show ?thesis by (simp add: frag_write_def split_beta)
qed

lemma check_copied:
  assumes "helpers_ok k" "n < 100"
  shows "check_bounds_signed k (ucast (of_nat n :: u32)) 0 (of_nat PATHFRAGLEN) \<longleftrightarrow> n \<le> 32"
proof -
  have "sint (ucast (of_nat n :: u32) :: i64) = int n"
    using assms(2) sint_ucast_small [of "of_nat n :: u32", where 'b = 64]
    by (simp only: unsigned_of_nat) (simp add: take_bit_nat_eq_self)
  moreover have "sint (of_nat PATHFRAGLEN :: i64) = 32" by simp
  ultimately show ?thesis using assms(1) by (simp add: helpers_ok_def)
qed

lemma separator_write:
  assumes "helpers_ok k" "PATHBUF s \<noteq> []" "p \<noteq> []" "length p \<le> 32"
  shows "snd (frag_write k (of_nat (length p) + of_nat (min 31 (length x))) [0x2f]
           (s\<lparr>PATHBUF := (PATHBUF s)[0 := frag_of (p @ x)]\<rparr>)) =
         s\<lparr>PATHBUF := (PATHBUF s)[0 := frag_of (p @ x @ [0x2f])]\<rparr>"
proof (cases "length p + min 31 (length x) < 32")
  case True
  moreover have "1 \<le> length p" using assms(3) by (simp add: Suc_le_eq)
  ultimately have "min 31 (length x) = length x" by (auto simp: min_def)
  with True show ?thesis
    using dynptr_write_inside [OF assms(1), of "s\<lparr>PATHBUF := (PATHBUF s)[0 := frag_of (p @ x)]\<rparr>" "p @ x" "[0x2f]"]
      assms(2) by simp
next
  case False
  let ?s = "s\<lparr>PATHBUF := (PATHBUF s)[0 := frag_of (p @ x)]\<rparr>"
  from False have "32 \<le> length (p @ x)" by auto
  then have "frag_of (p @ x @ [0x2f]) = frag_of (p @ x)"
    using frag_of_full [of "p @ x" "[0x2f]"] by simp
  moreover have "snd (frag_write k (of_nat (length p + min 31 (length x))) [0x2f] ?s) = ?s"
    using False assms by (intro dynptr_write_outside [where p = "p @ x"]) auto
  ultimately show ?thesis by simp
qed

lemma component_data:
  assumes "take (min 31 (length x)) q = take 31 x" "p \<noteq> []"
  shows "take (min (32 - length p) (min 31 (length x))) q = take (32 - length p) x"
proof -
  have "1 \<le> length p" using assms(2) by (simp add: Suc_le_eq)
  have "take (min (32 - length p) (min 31 (length x))) q =
      take (32 - length p) (take (min 31 (length x)) q)"
    by (simp add: min.commute)
  also have "\<dots> = take (32 - length p) x"
    unfolding assms(1) using \<open>1 \<le> length p\<close> by (auto simp: min_def)
  finally show ?thesis .
qed

lemma component_write:
  assumes "helpers_ok k" "PATHBUF s \<noteq> []" "PATHBUF s ! 0 = frag_of p" "length p \<le> 32"
  shows "frag_write k (of_nat (length p)) (take (32 - length p) x) s =
    (0, s\<lparr>PATHBUF := (PATHBUF s)[0 := frag_of (p @ x)]\<rparr>)"
  using dynptr_write_inside [OF assms(1-3), of "take (32 - length p) x"] frag_of_cut [OF assms(4), of x] assms(4)
  by simp

lemma copied_words:
  assumes "length p \<le> 32"
  shows "(of_nat PATHFRAGLEN - of_nat (length p) :: u32) = of_nat (32 - length p)"
    "min (of_nat (32 - length p)) (of_nat (min 31 (length x)) :: u32) =
       of_nat (min (32 - length p) (min 31 (length x)))"
    "unat (of_nat (min (32 - length p) (min 31 (length x))) :: u32) = min (32 - length p) (min 31 (length x))"
proof -
  have m: "min (of_nat a) (of_nat b :: u32) = of_nat (min a b)" if "a < 100" "b < 100" for a b
    using that by (simp add: min_def word_le_nat_alt unat_u32)
  show "(of_nat PATHFRAGLEN - of_nat (length p) :: u32) = of_nat (32 - length p)"
    using assms by (simp add: of_nat_diff)
  show "min (of_nat (32 - length p)) (of_nat (min 31 (length x)) :: u32) =
       of_nat (min (32 - length p) (min 31 (length x)))"
    by (rule m) auto
  show "unat (of_nat (min (32 - length p) (min 31 (length x))) :: u32) = min (32 - length p) (min 31 (length x))"
    by (rule unat_u32) (simp add: min_def)
qed

lemma assemble_run:
  assumes k: "helpers_ok k" and p: "pending k c s i (x # cs)" and a: "assembled c s p" "length p \<le> 32"
  shows "assemble_pathfrag k (of_nat i) (c, s) = Some (0,
     c\<lparr>as_copied := of_nat (length p) + of_nat (min (32 - length p) (min 31 (length x))) +
         (if cs = [] then 0 else 1)\<rparr>,
     s\<lparr>PATHBUF := (PATHBUF s)[0 := frag_of (p @ x @ (if cs = [] then [] else [0x2f]))],
       PATHBUFTMP := (PATHBUFTMP s)[slot_index k c i := (PATHBUFTMP s ! slot_index k c i)\<lparr>pc_len := 0\<rparr>]\<rparr>)"
proof -
  define e where "e = PATHBUFTMP s ! slot_index k c i"
  have i: "i + length cs < 16" using p by (simp add: pending_def)
  have get: "index_get (PATHBUFTMP s) (slot_index k c i) = Some e"
    using slot_index_less [OF k, of i c] p i by (simp add: index_get_def e_def pending_def ring_shape_def)
  have e: "pc_len e = min 31 (length x)" "take (min 31 (length x)) (pathcomp e) = take 31 x"
    using p unfolding pending_def slot_holds_def e_def by force+
  have n: "p \<noteq> []" "as_copied c = of_nat (length p)" "PATHBUF s \<noteq> []" "PATHBUF s ! 0 = frag_of p"
    using a by (simp_all add: assembled_def)
  have len: "(if pc_len e > PATHFRAGLEN then of_nat PATHFRAGLEN else of_nat (pc_len e) :: u32) =
      of_nat (min 31 (length x))"
    using e(1) by simp
  have last: "(of_nat i :: u32) < as_num c - 1 \<longleftrightarrow> cs \<noteq> []"
    using p i by (simp add: pending_def word_less_nat_alt unat_u32 flip: of_nat_add)
  have checks: "check_bounds_signed k (ucast (of_nat (length p) :: u32)) 0 (of_nat PATHFRAGLEN)"
    "check_bounds_signed k (ucast (of_nat (32 - length p) :: u32)) 0 (of_nat PATHFRAGLEN)"
    using a(2) check_copied [OF k, of "length p"] check_copied [OF k, of "32 - length p"] by auto
  show ?thesis
    unfolding assemble_pathfrag_def Let_def split_beta prod.sel slot_index_def [symmetric] get option.case
      len n(2) copied_words [OF a(2)] component_data [OF e(2) n(1)] component_write [OF k n(3,4) a(2)] last
    using checks separator_write [OF k n(3,1) a(2), of x] by (auto simp flip: e_def)
qed

lemma assemble_step:
  assumes k: "helpers_ok k" and p: "pending k c s i (x # cs)" and a: "assembled c s p" "length p \<le> 32"
  obtains c' s' where "assemble_pathfrag k (of_nat i) (c, s) = Some (0, c', s')"
    "s' = s\<lparr>PATHBUF := (PATHBUF s)[0 := frag_of (p @ x @ (if cs = [] then [] else [0x2f]))],
       PATHBUFTMP := PATHBUFTMP s'\<rparr>"
    "pending k c' s' (Suc i) cs" "unat (as_copied c') \<le> 33"
    "cs \<noteq> [] \<Longrightarrow> assembled c' s' (p @ x @ [0x2f])"
proof -
  define c' where "c' = c\<lparr>as_copied := of_nat (length p) +
      of_nat (min (32 - length p) (min 31 (length x))) + (if cs = [] then 0 else 1)\<rparr>"
  define s' where "s' = s\<lparr>PATHBUF := (PATHBUF s)[0 := frag_of (p @ x @ (if cs = [] then [] else [0x2f]))],
       PATHBUFTMP := (PATHBUFTMP s)[slot_index k c i := (PATHBUFTMP s ! slot_index k c i)\<lparr>pc_len := 0\<rparr>]\<rparr>"
  let ?n = "length p + min (32 - length p) (min 31 (length x)) + (if cs = [] then 0 else 1)"
  have copied: "as_copied c' = of_nat ?n" "?n \<le> 33" using a(2) by (auto simp: c'_def)
  have "p \<noteq> []" "PATHBUF s \<noteq> []" using a by (simp_all add: assembled_def)
  moreover have "?n = (if length (p @ x @ [0x2f]) \<le> 32 then length (p @ x @ [0x2f]) else 33)" if "cs \<noteq> []"
    using that \<open>p \<noteq> []\<close> a(2) by (cases p) (auto simp: min_def)
  ultimately have "cs \<noteq> [] \<Longrightarrow> assembled c' s' (p @ x @ [0x2f])"
    unfolding assembled_def copied(1) s'_def by simp
  moreover have "pending k c' s' (Suc i) cs"
    by (rule pending_step [OF k p]) (simp_all add: c'_def s'_def)
  moreover have "unat (as_copied c') \<le> 33" unfolding copied(1) by (rule unat_le33 [OF copied(2)])
  ultimately show ?thesis
    using that [of c' s'] assemble_run [OF assms] by (simp add: c'_def s'_def)
qed


lemma assemble_full:
  assumes k: "helpers_ok k" and p: "pending k c s i (x # cs)" and a: "assembled c s p" "32 < length p"
  shows "assemble_pathfrag k (of_nat i) (c, s) = Some (1, c, s)"
proof -
  have "index_get (PATHBUFTMP s) (slot_index k c i) \<noteq> None"
    using slot_index_less [OF k, of i c] p by (simp add: index_get_def pending_def ring_shape_def)
  moreover have "\<not> check_bounds_signed k (ucast (as_copied c)) 0 (of_nat PATHFRAGLEN)"
    using check_copied [OF k, of 33] a by (simp add: assembled_def)
  ultimately show ?thesis
    unfolding assemble_pathfrag_def Let_def split_beta prod.sel slot_index_def [symmetric]
    by (auto split: option.splits)
qed

text \<open>The outcome of the second loop.\<close>

definition fragment_written :: "fslat \<Rightarrow> assemble_ctx \<times> fslat \<Rightarrow> bytes \<Rightarrow> bool" where
  "fragment_written s r p \<longleftrightarrow> unat (as_copied (fst r)) \<le> 33 \<and> ring_shape (PATHBUFTMP (snd r)) \<and>
     snd r = s\<lparr>PATHBUF := (PATHBUF s)[0 := frag_of p], PATHBUFTMP := PATHBUFTMP (snd r)\<rparr>"

lemma fragment_written_after:
  "s' = s\<lparr>PATHBUF := (PATHBUF s)[0 := f], PATHBUFTMP := t\<rparr> \<Longrightarrow> fragment_written s' r p \<Longrightarrow>
     fragment_written s r p"
  by (simp add: fragment_written_def)

lemma join_path_Cons: "cs \<noteq> [] \<Longrightarrow> join_path (c # cs) = c @ 0x2f # join_path cs"
  by (cases cs) auto

lemma assemble_all:
  assumes k: "helpers_ok k"
  shows "pending k c s i cs \<Longrightarrow> cs \<noteq> [] \<Longrightarrow> assembled c s p \<Longrightarrow>
    \<exists>r. loop_spec i (length cs) (assemble_pathfrag k) (c, s) = Some r \<and>
        fragment_written s r (p @ join_path cs)"
proof (induction cs arbitrary: c s i p)
  case (Cons x cs)
  show ?case
  proof (cases "length p \<le> 32")
    case False
    have "PATHBUF s ! 0 = frag_of (p @ join_path (x # cs))"
      using Cons.prems(3) False by (simp add: assembled_def frag_of_full)
    moreover have "unat (as_copied c) \<le> 33" using Cons.prems(3) False by (simp add: assembled_def)
    ultimately have "fragment_written s (c, s) (p @ join_path (x # cs))"
      using Cons.prems(1) list_update_id [of "PATHBUF s" 0]
      by (simp add: fragment_written_def pending_def)
    then show ?thesis using assemble_full [OF k Cons.prems(1,3)] False by simp
  next
    case True
    from assemble_step [OF k Cons.prems(1,3) True] obtain c' s' where
      run: "assemble_pathfrag k (of_nat i) (c, s) = Some (0, c', s')"
      and s': "s' = s\<lparr>PATHBUF := (PATHBUF s)[0 := frag_of (p @ x @ (if cs = [] then [] else [0x2f]))],
         PATHBUFTMP := PATHBUFTMP s'\<rparr>"
      and next_c: "pending k c' s' (Suc i) cs" "unat (as_copied c') \<le> 33"
        "cs \<noteq> [] \<Longrightarrow> assembled c' s' (p @ x @ [0x2f])"
      by blast
    show ?thesis
    proof (cases "cs = []")
      case True
      then have "fragment_written s (c', s') (p @ join_path (x # cs))"
        using s' next_c by (simp add: fragment_written_def pending_def)
      then show ?thesis using run True by simp
    next
      case False
      from Cons.IH [OF next_c(1) False next_c(3) [OF False]] obtain r where
        r: "loop_spec (Suc i) (length cs) (assemble_pathfrag k) (c', s') = Some r"
        "fragment_written s' r ((p @ x @ [0x2f]) @ join_path cs)"
        by blast
      have "fragment_written s r (p @ join_path (x # cs))"
        using fragment_written_after [OF s' r(2)] False by (simp add: join_path_Cons)
      with r(1) run show ?thesis by auto
    qed
  qed
qed simp


lemma join_path_split:
  "0 < n \<Longrightarrow> n < length xs \<Longrightarrow> join_path xs = join_path (take n xs) @ 0x2f # join_path (drop n xs)"
proof (induction xs arbitrary: n)
  case (Cons x xs)
  then have ne: "xs \<noteq> []" by auto
  show ?case
  proof (cases "n = 1")
    case True
    then show ?thesis using ne by (simp add: join_path_Cons)
  next
    case False
    then obtain m where m: "n = Suc m" "0 < m" "m < length xs" using Cons.prems by (cases n) auto
    then have "take m xs \<noteq> []" by auto
    with m ne Cons.IH [OF m(2,3)] show ?thesis by (simp add: join_path_Cons)
  qed
qed simp

lemma join_path_length: "[] \<notin> set xs \<Longrightarrow> xs \<noteq> [] \<Longrightarrow> 2 * length xs \<le> Suc (length (join_path xs))"
proof (induction xs rule: join_path.induct)
  case (2 c)
  then show ?case by (cases c) auto
next
  case (3 c d cs)
  then show ?case by (cases c) auto
qed simp

lemma frag_of_sixteen:
  assumes "[] \<notin> set xs"
  shows "frag_of (0x2f # join_path (take 16 xs)) = frag_of (0x2f # join_path xs)"
proof (cases "length xs \<le> 16")
  case False
  then have "join_path xs = join_path (take 16 xs) @ 0x2f # join_path (drop 16 xs)"
    by (intro join_path_split) auto
  moreover have "32 \<le> length (0x2f # join_path (take 16 xs))"
  proof -
    have "[] \<notin> set (take 16 xs)" "take 16 xs \<noteq> []" using assms False by (auto dest: in_set_takeD)
    then show ?thesis using join_path_length [of "take 16 xs"] False by simp
  qed
  ultimately show ?thesis
    using frag_of_full [of "0x2f # join_path (take 16 xs)" "0x2f # join_path (drop 16 xs)"] by simp
qed simp

definition scratch_ok :: "fslat \<Rightarrow> bool" where
  "scratch_ok s \<longleftrightarrow> PATHBUF s = [replicate PATHFRAGLEN 0] \<and> ring_shape (PATHBUFTMP s)"

lemma start_index:
  assumes "helpers_ok k" "j < 16" "j < l" "as_start c = mod_sub k (of_nat (l mod 16)) 1"
  shows "slot_index k c j = (l - 1 - j) mod 16"
proof -
  have "uint (of_nat (l mod 16) :: u32) = int (l mod 16)"
    by (simp add: unsigned_of_nat take_bit_nat_eq_self)
  moreover have "uint (of_int (m mod 16) :: u32) = m mod 16" for m :: int
    by (simp add: unsigned_of_int take_bit_int_eq_self less_le_trans [OF pos_mod_bound])
  ultimately have "uint (as_start c) = (int l - 1) mod 16"
    using assms(1,4) by (simp add: helpers_ok_def zmod_int mod_diff_left_eq)
  then have "slot_index k c j = nat ((int l - 1 - int j) mod 16)"
    using assms(1,2) by (simp add: slot_index_eq mod_diff_left_eq)
  also have "int l - 1 - int j = int (l - 1 - j)" using assms(3) by simp
  finally show ?thesis by (simp add: nat_mod_distrib)
qed

lemma pending_start:
  assumes "helpers_ok k" "ring_holds (PATHBUFTMP s) names" "length names \<le> 32"
    "as_start c = mod_sub k (of_nat (length names mod 16)) 1" "as_num c = of_nat (min 16 (length names))"
  shows "pending k c s 0 (take 16 (rev names))"
proof -
  let ?l = "length names"
  have "slot_holds (PATHBUFTMP s ! slot_index k c j) (take 16 (rev names) ! j)" if "j < min 16 ?l" for j
  proof -
    have "slot_index k c j = (?l - 1 - j) mod 16"
      using that assms(1,4) by (intro start_index) auto
    moreover have "take 16 (rev names) ! j = names ! (?l - 1 - j)"
      using that by (simp add: rev_nth)
    moreover have "?l - 1 - j < ?l" "?l \<le> ?l - 1 - j + 16" using that by auto
    ultimately show ?thesis using assms(2) unfolding ring_holds_def by metis
  qed
  then show ?thesis using assms(2,5) by (simp add: pending_def ring_holds_def min.commute)
qed


lemma assemble_from_slash:
  assumes "helpers_ok k" "pending k c s 0 cs" "assembled c s p"
  shows "\<exists>r. loop_spec 0 (length cs) (assemble_pathfrag k) (c, s) = Some r \<and>
    fragment_written s r (p @ join_path cs)"
proof (cases "cs = []")
  case True
  have "unat (as_copied c) \<le> 33" using assms(3) by (simp add: assembled_def unat_u32)
  moreover have "(PATHBUF s)[0 := frag_of p] = PATHBUF s"
    using assms(3) by (simp add: assembled_def list_update_same_conv)
  ultimately have "fragment_written s (c, s) p"
    using assms(2) by (simp add: fragment_written_def pending_def)
  with True show ?thesis by simp
qed (rule assemble_all [OF assms(1,2) _ assms(3)])

lemma partial_d_path_run:
  assumes k: "helpers_ok k"
    and walk: "loop_spec 0 64 (path_walk_step k)
      (\<lparr>pw_dentry = cx_dentry ctx, pw_mnt = cx_vfsmount ctx - MOUNT_MNT, pw_loop_ctr = 0, pw_mod_ctr = 0,
        pw_root_dentry = cx_root_dentry ctx, pw_root_vfsmount = cx_root_vfsmount ctx, pw_absolute = False\<rparr>,
       s\<lparr>ticks := Suc (ticks s)\<rparr>) = Some (c1, s\<lparr>ticks := Suc (ticks s), PATHBUFTMP := ring\<rparr>)"
    and c1: "pw_absolute c1" "min 16 (pw_loop_ctr c1) = of_nat n" "n \<le> 16"
    and slash: "snd (frag_write k 0 [0x2f] (s\<lparr>PATHBUFTMP := ring, ticks := Suc (Suc (Suc (ticks s)))\<rparr>)) = s2"
    and assemble: "loop_spec 0 n (assemble_pathfrag k) (\<lparr>as_start = mod_sub k (pw_mod_ctr c1) 1,
      as_copied = 1, as_num = of_nat n, as_absolute = True\<rparr>, s2) = Some r"
  shows "\<exists>times. partial_d_path k ctx s = Some (as_copied (fst r), times,
      (snd r)\<lparr>ticks := Suc (ticks (snd r))\<rparr>) \<and> walk_iters times = pw_loop_ctr c1"
proof -
  have "min 16 (of_nat n :: u32) = of_nat n" using c1(3) by (simp add: min_def word_le_nat_alt unat_u32)
  moreover have "unat (of_nat n :: u32) = n" using c1(3) by (intro unat_u32) simp
  moreover have loops: "walk_loop k n' body c = loop_spec 0 (unat n') body c"
    "assemble_loop k n' body' c' = loop_spec 0 (unat n') body' c'" for n' body c body' c'
    using k unfolding helpers_ok_def by blast+
  ultimately show ?thesis
    using walk c1 slash assemble
    by (cases r) (simp add: partial_d_path_def bpf_ktime_get_ns_def)
qed

lemma walk_to_root:
  assumes "helpers_ok k" "scratch_ok s" "length names \<le> 32" "n < 64"
    and "resolves k (cx_root_dentry ctx) (cx_root_vfsmount ctx) (cx_dentry ctx)
      (cx_vfsmount ctx - MOUNT_MNT) names n"
  obtains c1 ring where "loop_spec 0 64 (path_walk_step k)
      (\<lparr>pw_dentry = cx_dentry ctx, pw_mnt = cx_vfsmount ctx - MOUNT_MNT, pw_loop_ctr = 0, pw_mod_ctr = 0,
        pw_root_dentry = cx_root_dentry ctx, pw_root_vfsmount = cx_root_vfsmount ctx, pw_absolute = False\<rparr>,
       s\<lparr>ticks := Suc (ticks s)\<rparr>) = Some (c1, s\<lparr>ticks := Suc (ticks s), PATHBUFTMP := ring\<rparr>)"
    "pw_absolute c1" "pw_loop_ctr c1 = of_nat (length names)" "pw_mod_ctr c1 = of_nat (length names mod 16)"
    "ring_holds ring names"
proof -
  define c0 where "c0 = \<lparr>pw_dentry = cx_dentry ctx, pw_mnt = cx_vfsmount ctx - MOUNT_MNT, pw_loop_ctr = 0,
     pw_mod_ctr = 0, pw_root_dentry = cx_root_dentry ctx, pw_root_vfsmount = cx_root_vfsmount ctx,
     pw_absolute = False\<rparr>"
  let ?s1 = "s\<lparr>ticks := Suc (ticks s)\<rparr>"
  have "walked c0 ?s1 []" using assms(2) by (simp add: walked_def c0_def ring_holds_def scratch_ok_def)
  then obtain c1 ring where "loop_spec 0 64 (path_walk_step k) (c0, ?s1) = Some (c1, ?s1\<lparr>PATHBUFTMP := ring\<rparr>)"
    "walked c1 (?s1\<lparr>PATHBUFTMP := ring\<rparr>) names" "pw_absolute c1"
    using walk_resolves [OF assms(5,1), of c0 ?s1 "[]" 64 0] assms(3,4) by (auto simp: c0_def)
  then show ?thesis using that by (simp add: walked_def c0_def)
qed

lemma partial_d_path_fragment:
  assumes k: "helpers_ok k"
    and res: "resolves k (cx_root_dentry ctx) (cx_root_vfsmount ctx) (cx_dentry ctx)
      (cx_vfsmount ctx - MOUNT_MNT) names n"
    and len: "length names \<le> 32" "n < 64" "[] \<notin> set names"
    and s: "scratch_ok s"
  shows "\<exists>ret times ring. partial_d_path k ctx s = Some (ret, times,
      s\<lparr>PATHBUF := [frag_of (abs_path names)], PATHBUFTMP := ring, ticks := ticks s + 4\<rparr>) \<and>
    0 \<le> sint ret \<and> walk_iters times = of_nat (length names) \<and> ring_shape ring"
proof -
  obtain c1 ring where w: "loop_spec 0 64 (path_walk_step k)
      (\<lparr>pw_dentry = cx_dentry ctx, pw_mnt = cx_vfsmount ctx - MOUNT_MNT, pw_loop_ctr = 0, pw_mod_ctr = 0,
        pw_root_dentry = cx_root_dentry ctx, pw_root_vfsmount = cx_root_vfsmount ctx, pw_absolute = False\<rparr>,
       s\<lparr>ticks := Suc (ticks s)\<rparr>) = Some (c1, s\<lparr>ticks := Suc (ticks s), PATHBUFTMP := ring\<rparr>)"
    "pw_absolute c1" "pw_loop_ctr c1 = of_nat (length names)" "pw_mod_ctr c1 = of_nat (length names mod 16)"
    "ring_holds ring names"
    by (rule walk_to_root [OF k s len(1,2) res])
  let ?cs = "take 16 (rev names)" and ?T = "Suc (Suc (Suc (ticks s)))"
  have num: "min 16 (pw_loop_ctr c1) = of_nat (length ?cs)"
    unfolding w(3) using len(1) by (simp add: min_def word_le_nat_alt unat_u32)
  let ?c2 = "\<lparr>as_start = mod_sub k (pw_mod_ctr c1) 1, as_copied = 1, as_num = of_nat (length ?cs),
     as_absolute = True\<rparr>" and ?s2 = "s\<lparr>PATHBUF := [frag_of [0x2f]], PATHBUFTMP := ring, ticks := ?T\<rparr>"
  have slash: "snd (frag_write k 0 [0x2f] (s\<lparr>PATHBUFTMP := ring, ticks := ?T\<rparr>)) = ?s2"
    using dynptr_write_inside [OF k, of "s\<lparr>PATHBUFTMP := ring, ticks := ?T\<rparr>" "[]" "[0x2f]"] s
    by (simp add: scratch_ok_def frag_of_def)
  have pend: "pending k ?c2 ?s2 0 ?cs"
    using w len(1) by (intro pending_start [OF k]) (simp_all add: min.commute)
  have asm: "assembled ?c2 ?s2 [0x2f]" by (simp add: assembled_def)
  obtain r where r: "loop_spec 0 (length ?cs) (assemble_pathfrag k) (?c2, ?s2) = Some r"
    "fragment_written ?s2 r ([0x2f] @ join_path ?cs)"
    using assemble_from_slash [OF k pend asm] by blast
  obtain times where run: "partial_d_path k ctx s = Some (as_copied (fst r), times,
      (snd r)\<lparr>ticks := Suc (ticks (snd r))\<rparr>)" "walk_iters times = pw_loop_ctr c1"
    using partial_d_path_run [OF k w(1,2) num _ slash r(1)] by auto
  have "frag_of ([0x2f] @ join_path ?cs) = frag_of (abs_path names)"
    using frag_of_sixteen [of "rev names"] len(3) by (simp add: abs_path_def)
  then obtain t where t: "snd r = ?s2\<lparr>PATHBUF := [frag_of (abs_path names)], PATHBUFTMP := t\<rparr>" "ring_shape t"
    using r(2) that [of "PATHBUFTMP (snd r)"] unfolding fragment_written_def by simp
  have "(snd r)\<lparr>ticks := Suc (ticks (snd r))\<rparr> =
      s\<lparr>PATHBUF := [frag_of (abs_path names)], PATHBUFTMP := t, ticks := ticks s + 4\<rparr>"
    unfolding t(1) by simp
  moreover have "0 \<le> sint (as_copied (fst r))"
    using r(2) by (intro sint_small) (simp add: fragment_written_def)
  ultimately show ?thesis using run w(3) t(2) by auto
qed


text \<open>C1: when the file's dentries lead to the root through at most 32 names, none of them empty, and fewer
  than 64 steps, the fragment that \<open>partial_d_path\<close> leaves is the first 32 bytes of the absolute
  path, padded with zeros, although it only keeps sixteen names of 31 bytes; the call succeeds and
  changes nothing but the scratch buffers and the clock.\<close>

theorem partial_d_path_spec:
  assumes k: "helpers_ok k"
    and res: "resolves k (cx_root_dentry ctx) (cx_root_vfsmount ctx) (cx_dentry ctx)
      (cx_vfsmount ctx - MOUNT_MNT) names n"
    and len: "length names \<le> 32" "n < 64" "[] \<notin> set names"
    and s: "scratch_ok s"
  shows "\<exists>ret times ring. partial_d_path k ctx s = Some (ret, times,
      s\<lparr>PATHBUF := [frag_of (abs_path names)], PATHBUFTMP := ring, ticks := ticks s + 4\<rparr>) \<and>
    0 \<le> sint ret \<and> walk_iters times = of_nat (length names) \<and> ring_shape ring"
  by (rule partial_d_path_fragment [OF assms])

text \<open>A kernel for the examples: every helper behaves as documented, and the file system has a
  mounted directory with one file: \<open>/data\<close> is a mount point (mount 2 on mount 1) and the file is
  \<open>/data/log\<close>.\<close>

definition demo_name :: "addr \<Rightarrow> bytes" where
  "demo_name a = (if a = 111 then str_bytes ''log'' else if a = 113 then str_bytes ''data'' else [])"

definition demo_kernel :: kernel where
  "demo_kernel = \<lparr>ktime = (\<lambda>n. of_nat (100 * n)),
     read_d_parent = map_of [(11, 12), (12, 12), (13, 14), (14, 14)],
     read_d_name = map_of [(11, 111), (13, 113)],
     read_mnt_root = map_of [(1000 + MOUNT_MNT, 14), (2000 + MOUNT_MNT, 12)],
     read_mnt_parent = map_of [(1000, 1000), (2000, 1000)],
     read_mnt_mountpoint = map_of [(2000, 13)],
     read_str = (\<lambda>a buf. let n = take 31 (demo_name a) in
        Some (n @ 0 # drop (Suc (length n)) buf, length n)),
     walk_loop = (\<lambda>n. loop_spec 0 (unat n)), assemble_loop = (\<lambda>n. loop_spec 0 (unat n)),
     dynptr_write = (\<lambda>buf off data. if unat off + length data \<le> length buf
        then (0, overwrite buf (unat off) data) else (- 7, buf)),
     check_bounds_signed = (\<lambda>v lo hi. sint lo \<le> sint v \<and> sint v \<le> sint hi),
     mod_add = (\<lambda>a b. of_nat ((unat a + unat b) mod 16)),
     mod_sub = (\<lambda>a b. of_int ((uint a - uint b) mod 16)),
     hash_insert = (\<lambda>b v m. m(b \<mapsto> v)), lru_insert = (\<lambda>p e m. m(p \<mapsto> e)),
     reserve = (\<lambda>n. Some (replicate BUFSIZE 0xaa))\<rparr>"

lemma demo_kernel_ok: "helpers_ok demo_kernel" "maps_ok demo_kernel"
  by (simp_all add: demo_kernel_def helpers_ok_def maps_ok_def)

definition demo_ctx :: call_ctx where
  "demo_ctx = \<lparr>cx_pid = 7, cx_tgid = 7, cx_dentry = 11, cx_vfsmount = 2000 + MOUNT_MNT,
     cx_root_dentry = 14, cx_root_vfsmount = 1000 + MOUNT_MNT\<rparr>"

lemma demo_resolves:
  "resolves demo_kernel 14 (1000 + MOUNT_MNT) 11 2000 [str_bytes ''log'', str_bytes ''data''] 3"
proof -
  have str: "str_at demo_kernel 111 (str_bytes ''log'')" "str_at demo_kernel 113 (str_bytes ''data'')"
    by (simp_all add: str_at_def demo_kernel_def demo_name_def str_bytes_def)
  have r: "resolves demo_kernel 14 (1000 + MOUNT_MNT) 14 1000 [] 0"
    by (rule resolves.at_root) (simp_all add: demo_kernel_def MOUNT_MNT_def)
  have data: "resolves demo_kernel 14 (1000 + MOUNT_MNT) 13 1000 [str_bytes ''data''] (Suc 0)"
    by (rule resolves.component [OF _ _ _ _ _ _ str(2) r]) (simp_all add: demo_kernel_def MOUNT_MNT_def)
  have mnt: "resolves demo_kernel 14 (1000 + MOUNT_MNT) 12 2000 [str_bytes ''data''] (Suc (Suc 0))"
    by (rule resolves.crossing [OF _ _ _ _ _ _ data]) (simp_all add: demo_kernel_def MOUNT_MNT_def)
  have "resolves demo_kernel 14 (1000 + MOUNT_MNT) 11 2000 [str_bytes ''log'', str_bytes ''data''] (Suc (Suc (Suc 0)))"
    by (rule resolves.component [where mr = 12, OF _ _ _ _ _ _ str(1) mnt])
      (simp_all add: demo_kernel_def MOUNT_MNT_def)
  then show ?thesis by (simp add: numeral_3_eq_3)
qed

definition demo_state :: fslat where
  "demo_state = \<lparr>COUNTER = [0], STATS = (\<lambda>_. replicate 8 blank_stats), PATHBUF = [replicate PATHFRAGLEN 0],
     PATHBUFTMP = replicate 16 \<lparr>pc_len = 0, pathcomp = replicate PATHCOMPLEN 0\<rparr>, PTRLIST = Map.empty,
     LDMS_SHARED_STREAM = [], PROF_CTRL = [0], PROF_PATH_RES_HIST = Map.empty,
     PROF_PATH_WALK_HIST = Map.empty, PROF_PATH_ASSEMBLY_HIST = Map.empty, PROF_EXIT_HIST = Map.empty,
     PROF_WALK_ITERS_HIST = Map.empty, PROF_RINGBUF_DROPS = [0], ticks = 0, reserves = 0\<rparr>"

lemma demo_scratch: "scratch_ok demo_state"
  by (simp add: demo_state_def scratch_ok_def ring_shape_def)

lemma partial_d_path_spec_witness:
  "\<exists>ret times ring. partial_d_path demo_kernel demo_ctx demo_state = Some (ret, times,
      demo_state\<lparr>PATHBUF := [frag_of (str_bytes ''/data/log'')], PATHBUFTMP := ring, ticks := 4\<rparr>)"
  using partial_d_path_spec [OF demo_kernel_ok(1), of demo_ctx "[str_bytes ''log'', str_bytes ''data'']" 3 demo_state]
    demo_resolves demo_scratch
  by (simp add: demo_ctx_def demo_state_def abs_path_def str_bytes_def) blast

end
