(* ===== verification/Cbor_Item.thy ===== *)
theory Cbor_Item
  imports Cbor_Roundtrip
begin

text \<open>
  The data model of CBOR and its wire format, as the specification the components are measured
  against: \<open>encodes v bs\<close> holds when \<open>bs\<close> is a well-formed encoding of \<open>v\<close>, in any head width and with
  definite or indefinite lengths. It is independent of the encoder and the decoder.
\<close>

datatype cbor =
    CUInt nat
  | CNInt nat
  | CBytes bytes
  | CText bytes
  | CArray "cbor list"
  | CMap "(cbor \<times> cbor) list"
  | CTag nat cbor
  | CSimple u8
  | CHalf u16
  | CSingle u32
  | CDouble u64

fun flatten :: "(cbor \<times> cbor) list \<Rightarrow> cbor list" where
  "flatten [] = []"
| "flatten ((k, v) # kvs) = k # v # flatten kvs"

inductive encodes :: "cbor \<Rightarrow> bytes \<Rightarrow> bool" and encodes_seq :: "cbor list \<Rightarrow> bytes \<Rightarrow> bool" where
  enc_unsigned: "is_head UNSIGNED n bs \<Longrightarrow> encodes (CUInt n) bs"
| enc_negint: "is_head SIGNED n bs \<Longrightarrow> encodes (CNInt n) bs"
| enc_bytestring: "is_head BYTES (length x) bs \<Longrightarrow> encodes (CBytes x) (bs @ x)"
| enc_bytestring_indef:
    "list_all2 (\<lambda>x bs. is_head BYTES (length x) bs) xs bss \<Longrightarrow>
     encodes (CBytes (concat xs)) ([0x5f] @ concat (map2 (@) bss xs) @ [0xff])"
| enc_text: "is_head TEXT (length x) bs \<Longrightarrow> valid_utf8 x \<Longrightarrow> encodes (CText x) (bs @ x)"
| enc_text_indef:
    "list_all2 (\<lambda>x bs. is_head TEXT (length x) bs) xs bss \<Longrightarrow> list_all valid_utf8 xs \<Longrightarrow>
     encodes (CText (concat xs)) ([0x7f] @ concat (map2 (@) bss xs) @ [0xff])"
| enc_list: "is_head ARRAY (length xs) bs \<Longrightarrow> encodes_seq xs cs \<Longrightarrow> encodes (CArray xs) (bs @ cs)"
| enc_list_indef: "encodes_seq xs cs \<Longrightarrow> encodes (CArray xs) ([0x9f] @ cs @ [0xff])"
| enc_dict: "is_head MAP (length kvs) bs \<Longrightarrow> encodes_seq (flatten kvs) cs \<Longrightarrow>
     encodes (CMap kvs) (bs @ cs)"
| enc_dict_indef: "encodes_seq (flatten kvs) cs \<Longrightarrow> encodes (CMap kvs) ([0xbf] @ cs @ [0xff])"
| enc_tagged: "is_head TAGGED n bs \<Longrightarrow> encodes v cs \<Longrightarrow> encodes (CTag n v) (bs @ cs)"
| enc_simple_short: "x < 24 \<Longrightarrow> encodes (CSimple x) [SIMPLE OR x]"
| enc_simple_long: "0x20 \<le> x \<Longrightarrow> encodes (CSimple x) [SIMPLE OR 24, x]"
| enc_half: "encodes (CHalf h) ((SIMPLE OR 25) # to_be16 h)"
| enc_single: "encodes (CSingle x) ((SIMPLE OR 26) # to_be32 x)"
| enc_double: "encodes (CDouble y) ((SIMPLE OR 27) # to_be64 y)"
| enc_seq_nil: "encodes_seq [] []"
| enc_seq_cons: "encodes v bs \<Longrightarrow> encodes_seq vs cs \<Longrightarrow> encodes_seq (v # vs) (bs @ cs)"

lemma enc_seq_list: "list_all2 encodes vs bss \<Longrightarrow> encodes_seq vs (concat bss)"
  by (induction vs bss rule: list_all2_induct) (auto intro: encodes_encodes_seq.intros)

lemma head_nonempty: "is_head t n bs \<Longrightarrow> bs \<noteq> []"
  by (cases rule: is_head.cases) auto

text \<open>Strings and numbers in the nine-byte head form the producer uses.\<close>

definition wide_text :: "bytes \<Rightarrow> bytes" where
  "wide_text x = wide_head_bytes TEXT (unat (of_nat (length x) :: u64)) @ x"

definition wide_uint :: "u64 \<Rightarrow> bytes" where
  "wide_uint x = wide_head_bytes UNSIGNED (unat x)"

lemma length_wide [simp]: "length (wide_text x) = 9 + length x" "length (wide_uint n) = 9"
  by (simp_all add: wide_text_def wide_uint_def)

lemma encodes_wide_text: "length x < 2 ^ 64 \<Longrightarrow> valid_utf8 x \<Longrightarrow> encodes (CText x) (wide_text x)"
  unfolding wide_text_def using is_head_wide [of "length x" TEXT]
  by (intro enc_text) (simp_all only: unat_of_nat_u64)

lemma encodes_wide_uint: "encodes (CUInt (unat n)) (wide_uint n)"
  unfolding wide_uint_def using unat_lt [of n] by (intro enc_unsigned is_head_wide) simp

end
