(* ===== verification/Fslat_Message.thy ===== *)
theory Fslat_Message
  imports Fslat_Path Cbor_Item
begin

text \<open>
  The message of the producer (\<open>ringbuf_put\<close> of \<open>vfslatency-common/src/lib.rs\<close>): a slot of the ring
  buffer is reserved, the message is encoded into it with the encoder's fixed-width operations, every
  result unwrapped without a check, and the slot is submitted.

  The lemmas show that no write can fail, so that the unchecked unwraps are sound, and that the
  slot begins with a well-formed encoding of the event.
\<close>

section \<open>Encoding a message\<close>

text \<open>\<open>unwrap_unchecked\<close>: an error is undefined behaviour.\<close>

definition unwrap_unchecked :: "('w, 'e, 'a) fallible \<Rightarrow> ('w, probe_error, 'a) fallible" where
  "unwrap_unchecked m = (\<lambda>w. case m w of (Inl _, w') \<Rightarrow> (Inl Undefined, w') | (Inr x, w') \<Rightarrow> (Inr x, w'))"

definition put_str :: "('w, 'e) write_all \<Rightarrow> bytes \<Rightarrow> ('w, probe_error, unit) fallible" where
  "put_str wr x = unwrap_unchecked (enc_str_noncanonical wr x)"

definition put_u64 :: "('w, 'e) write_all \<Rightarrow> u64 \<Rightarrow> ('w, probe_error, unit) fallible" where
  "put_u64 wr x = unwrap_unchecked (enc_u64_noncanonical wr x)"

fun seq_all :: "('w, 'e, unit) fallible list \<Rightarrow> ('w, 'e, unit) fallible" where
  "seq_all [] = ret_m ()"
| "seq_all (m # ms) = seq_m m (seq_all ms)"

definition encode_message ::
  "('w, 'e) write_all \<Rightarrow> event_fields \<Rightarrow> stats_snapshot \<Rightarrow> bytes \<Rightarrow> bytes \<Rightarrow>
     ('w, probe_error, unit) fallible" where
  "encode_message wr eventf snapshot filpop unit' = seq_all [
     unwrap_unchecked (enc_begin_map wr),
     put_str wr (str_bytes ''id''), put_str wr (ev_id eventf),
     put_str wr (str_bytes ''timestamp_monotonic''), put_u64 wr (ev_monotonic eventf),
     put_str wr (str_bytes ''opname''), put_str wr filpop,
     put_str wr (str_bytes ''sequence''), put_u64 wr (ev_seq eventf),
     put_str wr (str_bytes ''unit''), put_str wr unit',
     put_str wr (str_bytes ''metrics''),
     unwrap_unchecked (enc_begin_map wr),
     put_str wr (str_bytes ''min_latency''), put_u64 wr (snap_min snapshot),
     put_str wr (str_bytes ''max_latency''), put_u64 wr (snap_max snapshot),
     put_str wr (str_bytes ''total_latency''), put_u64 wr (snap_lat snapshot),
     put_str wr (str_bytes ''total_bytes''), put_u64 wr (snap_bytes snapshot),
     put_str wr (str_bytes ''count_samples''), put_u64 wr (snap_count snapshot),
     put_str wr (str_bytes ''aggregation_time''), put_u64 wr AGG_INTERVAL,
     unwrap_unchecked (enc_end wr),
     put_str wr (str_bytes ''path_prefix''),
     put_str wr (take (min (unat (snap_pathlen snapshot)) PATHFRAGLEN) (snap_prefix snapshot)),
     unwrap_unchecked (enc_end wr)]"

text \<open>The reserved slot is submitted as a whole: the encoded message and what was in the slot
  behind it.\<close>

definition ringbuf_put :: "kernel \<Rightarrow> event_fields \<Rightarrow> stats_snapshot \<Rightarrow> bytes \<Rightarrow> bytes \<Rightarrow> u32 probe" where
  "ringbuf_put k eventf snapshot filpop unit' = (\<lambda>s.
     let s' = s\<lparr>reserves := reserves s + 1\<rparr> in
     case reserve k (reserves s) of
       None \<Rightarrow> (Inl (Code 1), s')
     | Some dataent \<Rightarrow>
         (case encode_message slice_write_all eventf snapshot filpop unit' \<lparr>sw_done = [], sw_rest = dataent\<rparr> of
            (Inl e, _) \<Rightarrow> (Inl e, s')
          | (Inr _, w) \<Rightarrow> (Inr 0,
              s'\<lparr>LDMS_SHARED_STREAM := LDMS_SHARED_STREAM s @ [sw_done w @ sw_rest w]\<rparr>)))"

section \<open>The bytes of a message\<close>

definition message_bytes :: "event_fields \<Rightarrow> stats_snapshot \<Rightarrow> bytes \<Rightarrow> bytes \<Rightarrow> bytes" where
  "message_bytes ev sn filpop unit' = concat [
     [0xbf],
     wide_text (str_bytes ''id''), wide_text (ev_id ev),
     wide_text (str_bytes ''timestamp_monotonic''), wide_uint (ev_monotonic ev),
     wide_text (str_bytes ''opname''), wide_text filpop,
     wide_text (str_bytes ''sequence''), wide_uint (ev_seq ev),
     wide_text (str_bytes ''unit''), wide_text unit',
     wide_text (str_bytes ''metrics''),
     [0xbf],
     wide_text (str_bytes ''min_latency''), wide_uint (snap_min sn),
     wide_text (str_bytes ''max_latency''), wide_uint (snap_max sn),
     wide_text (str_bytes ''total_latency''), wide_uint (snap_lat sn),
     wide_text (str_bytes ''total_bytes''), wide_uint (snap_bytes sn),
     wide_text (str_bytes ''count_samples''), wide_uint (snap_count sn),
     wide_text (str_bytes ''aggregation_time''), wide_uint AGG_INTERVAL,
     [0xff],
     wide_text (str_bytes ''path_prefix''),
     wide_text (take (min (unat (snap_pathlen sn)) PATHFRAGLEN) (snap_prefix sn)),
     [0xff]]"

lemma length_message_bytes:
  "length (message_bytes ev sn filpop unit') = 361 + length (ev_id ev) + length filpop + length unit' +
     length (take (min (unat (snap_pathlen sn)) PATHFRAGLEN) (snap_prefix sn))"
  by (simp add: message_bytes_def)

context byte_sink begin

lemma emits_unwrap: "emits m bs \<Longrightarrow> emits (unwrap_unchecked m) bs"
  unfolding emits_def unwrap_unchecked_def by fastforce

lemma emits_seq_all: "list_all2 emits ms bss \<Longrightarrow> emits (seq_all ms) (concat bss)"
  by (induction ms bss rule: list_all2_induct) (auto intro: emits_ret emits_seq)

lemma emits_put_str: "emits (put_str write_all x) (wide_text x)"
  unfolding put_str_def wide_text_def by (intro emits_unwrap emits_str_noncanonical)

lemma emits_put_u64: "emits (put_u64 write_all x) (wide_uint x)"
  unfolding put_u64_def wide_uint_def
  using emits_unwrap [OF emits_u64_noncanonical, of x] by simp

lemma emits_message:
  "emits (encode_message write_all ev sn filpop unit') (message_bytes ev sn filpop unit')"
proof -
  have b: "emits (unwrap_unchecked (enc_begin_map write_all)) [0xbf]"
    "emits (unwrap_unchecked (enc_end write_all)) [0xff]"
    unfolding enc_begin_map_def enc_end_def by (intro emits_unwrap emits_put)+
  show ?thesis
    unfolding encode_message_def message_bytes_def
    by (rule emits_seq_all) (simp add: b emits_put_str emits_put_u64)
qed

end

section \<open>The value of a message\<close>

abbreviation ctext :: "string \<Rightarrow> cbor" where
  "ctext s \<equiv> CText (str_bytes s)"

definition metrics_value :: "stats_snapshot \<Rightarrow> cbor" where
  "metrics_value sn = CMap [
     (ctext ''min_latency'', CUInt (unat (snap_min sn))),
     (ctext ''max_latency'', CUInt (unat (snap_max sn))),
     (ctext ''total_latency'', CUInt (unat (snap_lat sn))),
     (ctext ''total_bytes'', CUInt (unat (snap_bytes sn))),
     (ctext ''count_samples'', CUInt (unat (snap_count sn))),
     (ctext ''aggregation_time'', CUInt (unat AGG_INTERVAL))]"

definition message_value :: "event_fields \<Rightarrow> stats_snapshot \<Rightarrow> bytes \<Rightarrow> bytes \<Rightarrow> cbor" where
  "message_value ev sn filpop unit' = CMap [
     (ctext ''id'', CText (ev_id ev)),
     (ctext ''timestamp_monotonic'', CUInt (unat (ev_monotonic ev))),
     (ctext ''opname'', CText filpop),
     (ctext ''sequence'', CUInt (unat (ev_seq ev))),
     (ctext ''unit'', CText unit'),
     (ctext ''metrics'', metrics_value sn),
     (ctext ''path_prefix'', CText (take (min (unat (snap_pathlen sn)) PATHFRAGLEN) (snap_prefix sn)))]"

lemma encodes_key: "list_all (\<lambda>c. of_char c < (0x80 :: u8)) s \<Longrightarrow> length s < 2 ^ 64 \<Longrightarrow>
    encodes (ctext s) (wide_text (str_bytes s))"
  by (intro encodes_wide_text valid_utf8_ascii) (auto simp: str_bytes_def list_all_iff)

lemma encodes_metrics:
  "encodes (metrics_value sn) ([0xbf] @ concat [
     wide_text (str_bytes ''min_latency''), wide_uint (snap_min sn),
     wide_text (str_bytes ''max_latency''), wide_uint (snap_max sn),
     wide_text (str_bytes ''total_latency''), wide_uint (snap_lat sn),
     wide_text (str_bytes ''total_bytes''), wide_uint (snap_bytes sn),
     wide_text (str_bytes ''count_samples''), wide_uint (snap_count sn),
     wide_text (str_bytes ''aggregation_time''), wide_uint AGG_INTERVAL] @ [0xff])"
  unfolding metrics_value_def
  by (intro enc_dict_indef enc_seq_list) (simp only: flatten.simps list.rel_inject list.rel_intros,
      simp add: encodes_key encodes_wide_uint del: const_defs)

lemma encodes_message:
  assumes "valid_utf8 (ev_id ev)" "valid_utf8 filpop" "valid_utf8 unit'"
    "valid_utf8 (take (min (unat (snap_pathlen sn)) PATHFRAGLEN) (snap_prefix sn))"
    and "length (ev_id ev) < 2 ^ 64" "length filpop < 2 ^ 64" "length unit' < 2 ^ 64"
  shows "encodes (message_value ev sn filpop unit') (message_bytes ev sn filpop unit')"
proof -
  let ?m = "[0xbf] @ concat [
     wide_text (str_bytes ''min_latency''), wide_uint (snap_min sn),
     wide_text (str_bytes ''max_latency''), wide_uint (snap_max sn),
     wide_text (str_bytes ''total_latency''), wide_uint (snap_lat sn),
     wide_text (str_bytes ''total_bytes''), wide_uint (snap_bytes sn),
     wide_text (str_bytes ''count_samples''), wide_uint (snap_count sn),
     wide_text (str_bytes ''aggregation_time''), wide_uint AGG_INTERVAL] @ [0xff]"
  let ?p = "take (min (unat (snap_pathlen sn)) PATHFRAGLEN) (snap_prefix sn)"
  have p: "length ?p < 2 ^ 64" by simp
  have "encodes (message_value ev sn filpop unit') ([0xbf] @ concat [
     wide_text (str_bytes ''id''), wide_text (ev_id ev),
     wide_text (str_bytes ''timestamp_monotonic''), wide_uint (ev_monotonic ev),
     wide_text (str_bytes ''opname''), wide_text filpop,
     wide_text (str_bytes ''sequence''), wide_uint (ev_seq ev),
     wide_text (str_bytes ''unit''), wide_text unit',
     wide_text (str_bytes ''metrics''), ?m,
     wide_text (str_bytes ''path_prefix''), wide_text ?p] @ [0xff])"
    unfolding message_value_def
    by (intro enc_dict_indef enc_seq_list)
      (simp only: flatten.simps list.rel_inject list.rel_intros encodes_metrics
        encodes_wide_text [OF p assms(4)] encodes_wide_text [OF assms(5,1)]
        encodes_wide_text [OF assms(6,2)] encodes_wide_text [OF assms(7,3)],
       simp add: encodes_key encodes_wide_uint del: const_defs)
  then show ?thesis by (simp add: message_bytes_def del: const_defs)
qed

lemma ringbuf_put_run:
  assumes k: "maps_ok k"
    and fits: "length (ev_id ev) + length filpop + length unit' \<le> 600"
    and utf8: "valid_utf8 (ev_id ev)" "valid_utf8 filpop" "valid_utf8 unit'"
      "valid_utf8 (take (min (unat (snap_pathlen sn)) PATHFRAGLEN) (snap_prefix sn))"
  shows "case reserve k (reserves s) of
      None \<Rightarrow> ringbuf_put k ev sn filpop unit' s = (Inl (Code 1), s\<lparr>reserves := reserves s + 1\<rparr>)
    | Some slot \<Rightarrow> \<exists>msg tail. encodes (message_value ev sn filpop unit') msg \<and>
        length (msg @ tail) = BUFSIZE \<and>
        ringbuf_put k ev sn filpop unit' s = (Inr 0, s\<lparr>reserves := reserves s + 1,
          LDMS_SHARED_STREAM := LDMS_SHARED_STREAM s @ [msg @ tail]\<rparr>)"
proof (cases "reserve k (reserves s)")
  case None
  then show ?thesis by (simp add: ringbuf_put_def)
next
  case (Some slot)
  let ?msg = "message_bytes ev sn filpop unit'" and ?w = "\<lparr>sw_done = [], sw_rest = slot\<rparr>"
  have slot: "length slot = 1024" using k Some by (auto simp: maps_ok_def)
  have len: "length ?msg \<le> length (sw_rest ?w)"
    using fits slot unfolding length_message_bytes by simp
  obtain w where w: "encode_message slice_write_all ev sn filpop unit' ?w = (Inr (), w)"
    "sw_done w = ?msg" "length (sw_rest w) = length slot - length ?msg"
    using slice_run [OF slice_sink.emits_message len] by auto
  have "encodes (message_value ev sn filpop unit') ?msg"
    using fits utf8 by (intro encodes_message) auto
  moreover have "length (?msg @ sw_rest w) = BUFSIZE" using w(3) len slot by simp
  moreover have "ringbuf_put k ev sn filpop unit' s = (Inr 0, s\<lparr>reserves := reserves s + 1,
      LDMS_SHARED_STREAM := LDMS_SHARED_STREAM s @ [?msg @ sw_rest w]\<rparr>)"
    using Some w by (simp add: ringbuf_put_def Let_def)
  ultimately show ?thesis using Some by auto
qed

text \<open>C2: for texts that leave room in the slot (the eight probes do, with at most 27 bytes), putting
  an event never runs into an unchecked error. Without a slot it fails with code 1 and publishes
  nothing; with one it submits exactly one entry of 1024 bytes, which begins with a well-formed
  CBOR encoding of the event: the map of its identification, time, function, sequence number and
  unit, the map of its metrics, and the configured prefix.\<close>

theorem ringbuf_put_spec:
  assumes k: "maps_ok k"
    and fits: "length (ev_id ev) + length filpop + length unit' \<le> 600"
    and utf8: "valid_utf8 (ev_id ev)" "valid_utf8 filpop" "valid_utf8 unit'"
      "valid_utf8 (take (min (unat (snap_pathlen sn)) PATHFRAGLEN) (snap_prefix sn))"
  shows "case reserve k (reserves s) of
      None \<Rightarrow> ringbuf_put k ev sn filpop unit' s = (Inl (Code 1), s\<lparr>reserves := reserves s + 1\<rparr>)
    | Some slot \<Rightarrow> \<exists>msg tail. encodes (message_value ev sn filpop unit') msg \<and>
        length (msg @ tail) = BUFSIZE \<and>
        ringbuf_put k ev sn filpop unit' s = (Inr 0, s\<lparr>reserves := reserves s + 1,
          LDMS_SHARED_STREAM := LDMS_SHARED_STREAM s @ [msg @ tail]\<rparr>)"
  by (rule ringbuf_put_run [OF assms])

lemma ascii_utf8: "list_all (\<lambda>c. of_char c < (0x80 :: u8)) s \<Longrightarrow> valid_utf8 (str_bytes s)"
  by (intro valid_utf8_ascii) (auto simp: str_bytes_def list_all_iff)

definition demo_snapshot :: stats_snapshot where
  "demo_snapshot = \<lparr>snap_pathlen = 5, snap_prefix = str_bytes ''/data'' @ replicate 27 0, snap_min = 3,
     snap_max = 9, snap_lat = 12, snap_bytes = 4096, snap_count = 2\<rparr>"

lemma ringbuf_put_spec_witness:
  "\<exists>msg tail. encodes (message_value \<lparr>ev_id = str_bytes ''fslat/v2'', ev_monotonic = 5, ev_seq = 0\<rparr>
       demo_snapshot (str_bytes ''vfs_read'') (str_bytes ''ns'')) msg \<and>
     LDMS_SHARED_STREAM (snd (ringbuf_put demo_kernel
       \<lparr>ev_id = str_bytes ''fslat/v2'', ev_monotonic = 5, ev_seq = 0\<rparr> demo_snapshot
       (str_bytes ''vfs_read'') (str_bytes ''ns'') demo_state)) = [msg @ tail]"
proof -
  have "valid_utf8 (take (min (unat (snap_pathlen demo_snapshot)) PATHFRAGLEN) (snap_prefix demo_snapshot))"
    using ascii_utf8 [of "''/data''"] by (simp add: demo_snapshot_def str_bytes_def)
  then show ?thesis
    using ringbuf_put_spec [OF demo_kernel_ok(2), of "\<lparr>ev_id = str_bytes ''fslat/v2'', ev_monotonic = 5, ev_seq = 0\<rparr>"
      "str_bytes ''vfs_read''" "str_bytes ''ns''" demo_snapshot demo_state]
    by (auto simp: demo_kernel_def demo_state_def ascii_utf8)
qed

end
