(* ===== verification/Fslat_Probe.thy ===== *)
theory Fslat_Probe
  imports Fslat_Message
begin

text \<open>
  The entry and exit handlers of the producer (\<open>try_fslat_entry\<close>, \<open>try_fslat_exit\<close> of
  \<open>vfslatency-common/src/lib.rs\<close>), the eight probe pairs of \<open>vfslatency-ebpf/src/main.rs\<close> and the
  attachment loop of \<open>vfslatency/src/main.rs\<close>.
\<close>

section \<open>Entry\<close>

definition count_path_times :: "kernel \<Rightarrow> u64 \<Rightarrow> path_times \<Rightarrow> fslat \<Rightarrow> fslat" where
  "count_path_times k resolution t s = s\<lparr>
     PROF_PATH_RES_HIST := hist_increment k (log2_bucket resolution) (PROF_PATH_RES_HIST s),
     PROF_PATH_WALK_HIST := hist_increment k (log2_bucket (walk_ns t)) (PROF_PATH_WALK_HIST s),
     PROF_PATH_ASSEMBLY_HIST := hist_increment k (log2_bucket (assembly_ns t)) (PROF_PATH_ASSEMBLY_HIST s),
     PROF_WALK_ITERS_HIST := hist_increment k (walk_iters t) (PROF_WALK_ITERS_HIST s)\<rparr>"

definition try_fslat_entry :: "kernel \<Rightarrow> call_ctx \<Rightarrow> u32 probe" where
  "try_fslat_entry k ctx = (\<lambda>s.
     let s = check_prof_reset k s in
     case index_get (PATHBUF s) 0 of
       None \<Rightarrow> (Inl (Code 1), s)
     | Some _ \<Rightarrow>
         let (t_start, s) = bpf_ktime_get_ns k s in
         case partial_d_path k ctx s of
           None \<Rightarrow> (Inl Undefined, s)
         | Some (ret, tm, s) \<Rightarrow>
             let (t_end, s) = bpf_ktime_get_ns k s;
                 s = count_path_times k (t_end - t_start) tm s
             in
             if sint ret < 0 then (Inl (Code 1), s)
             else
               let entryrec = \<lparr>timestamp = t_start, path = PATHBUF s ! 0\<rparr>;
                   s = s\<lparr>PTRLIST := lru_insert k (cx_pid ctx, cx_tgid ctx) entryrec (PTRLIST s)\<rparr>;
                   s = s\<lparr>PATHBUF := (PATHBUF s)[0 := replicate PATHFRAGLEN 0]\<rparr>
               in (Inr 0, s))"

section \<open>Exit\<close>

definition snapshot_of :: "fs_latency_stats \<Rightarrow> stats_snapshot" where
  "snapshot_of f = \<lparr>snap_pathlen = pathlen f, snap_prefix = path_prefix f, snap_min = lat_min f,
     snap_max = lat_max f, snap_lat = total_lat f, snap_bytes = total_bytes f, snap_count = lat_count f\<rparr>"

definition set_stat :: "vfs_fn \<Rightarrow> nat \<Rightarrow> fs_latency_stats \<Rightarrow> fslat \<Rightarrow> fslat" where
  "set_stat fn idx f s = s\<lparr>STATS := (STATS s)(fn := (STATS s fn)[idx := f])\<rparr>"

text \<open>
  One entry of the statistics map: record the sample, and publish when the interval is over. The
  statistics are read, updated and cleared with the entry's lock held; the lock is free before
  the message is put. The result says whether the loop over the entries goes on.
\<close>

definition exit_entry ::
  "kernel \<Rightarrow> vfs_fn \<Rightarrow> bytes \<Rightarrow> u64 \<Rightarrow> u64 \<Rightarrow> entry_rec \<Rightarrow> nat \<Rightarrow> fs_latency_stats \<Rightarrow> bool probe" where
  "exit_entry k fn filpop ret now entryrec idx fsstat = (\<lambda>s.
     if now - lastpublish fsstat > AGG_INTERVAL then
       let fsstat = fsstat\<lparr>lock := True\<rparr>;
           fsstat = update_stats_locked (now - timestamp entryrec) ret fsstat;
           snapshot = snapshot_of fsstat;
           fsstat = clear_stats_locked now fsstat;
           eventf = \<lparr>ev_id = str_bytes ''fslat/v2'', ev_monotonic = now, ev_seq = COUNTER s ! 0\<rparr>;
           fsstat = fsstat\<lparr>lock := False\<rparr>;
           s = set_stat fn idx fsstat s
       in
       case ringbuf_put k eventf snapshot filpop (str_bytes ''ns'') s of
         (Inl Undefined, s) \<Rightarrow> (Inl Undefined, s)
       | (Inl (Code _), s) \<Rightarrow>
           (case index_get (PROF_RINGBUF_DROPS s) 0 of
              None \<Rightarrow> (Inr False, s)
            | Some drops \<Rightarrow> (Inr False, s\<lparr>PROF_RINGBUF_DROPS := (PROF_RINGBUF_DROPS s)[0 := drops + 1]\<rparr>))
       | (Inr _, s) \<Rightarrow> (Inr True, s\<lparr>COUNTER := (COUNTER s)[0 := COUNTER s ! 0 + 1]\<rparr>)
     else
       let fsstat = fsstat\<lparr>lock := True\<rparr>;
           fsstat = update_stats_locked (now - timestamp entryrec) ret fsstat;
           fsstat = fsstat\<lparr>lock := False\<rparr>
       in (Inr True, set_stat fn idx fsstat s))"

fun exit_loop ::
  "kernel \<Rightarrow> vfs_fn \<Rightarrow> bytes \<Rightarrow> u64 \<Rightarrow> u64 \<Rightarrow> entry_rec \<Rightarrow> nat list \<Rightarrow> unit probe" where
  "exit_loop k fn filpop ret now entryrec [] s = (Inr (), s)"
| "exit_loop k fn filpop ret now entryrec (idx # idxs) s =
     (case index_get (STATS s fn) idx of
        None \<Rightarrow> (Inr (), s)
      | Some fsstat \<Rightarrow>
          (case starts_with (path_prefix fsstat) (path entryrec) (unat (pathlen fsstat)) of
             None \<Rightarrow> (Inl Undefined, s)
           | Some False \<Rightarrow> exit_loop k fn filpop ret now entryrec idxs s
           | Some True \<Rightarrow>
               (case exit_entry k fn filpop ret now entryrec idx fsstat s of
                  (Inl e, s) \<Rightarrow> (Inl e, s)
                | (Inr False, s) \<Rightarrow> (Inr (), s)
                | (Inr True, s) \<Rightarrow> exit_loop k fn filpop ret now entryrec idxs s)))"

definition try_fslat_exit :: "kernel \<Rightarrow> call_ctx \<Rightarrow> bytes \<Rightarrow> i64 \<Rightarrow> vfs_fn \<Rightarrow> u32 probe" where
  "try_fslat_exit k ctx filpop ret fn = (\<lambda>s.
     let s = check_prof_reset k s in
     case index_get (COUNTER s) 0 of
       None \<Rightarrow> (Inl (Code 1), s)
     | Some _ \<Rightarrow>
         let pid_tgid = (cx_pid ctx, cx_tgid ctx) in
         case PTRLIST s pid_tgid of
           None \<Rightarrow> (Inr 0, s)
         | Some entryrec \<Rightarrow>
             if sint ret < 0 then (Inl (Code 1), s\<lparr>PTRLIST := (PTRLIST s)(pid_tgid := None)\<rparr>)
             else
               let (now, s) = bpf_ktime_get_ns k s in
               case exit_loop k fn filpop ret now entryrec [0..<unat NUM_PATH_PREFIX] s of
                 (Inl e, s) \<Rightarrow> (Inl e, s)
               | (Inr _, s) \<Rightarrow>
                   let (t_end, s) = bpf_ktime_get_ns k s;
                       s = s\<lparr>PROF_EXIT_HIST :=
                              hist_increment k (log2_bucket (t_end - now)) (PROF_EXIT_HIST s)\<rparr>
                   in (Inr 0, s\<lparr>PTRLIST := (PTRLIST s)(pid_tgid := None)\<rparr>))"

section \<open>The probes\<close>

fun fn_name :: "vfs_fn \<Rightarrow> bytes" where
  "fn_name FilpClose = str_bytes ''filp_close''"
| "fn_name VfsFsyncRange = str_bytes ''vfs_fsync_range''"
| "fn_name VfsWrite = str_bytes ''vfs_write''"
| "fn_name VfsWritev = str_bytes ''vfs_writev''"
| "fn_name VfsRead = str_bytes ''vfs_read''"
| "fn_name VfsReadv = str_bytes ''vfs_readv''"
| "fn_name KernelRead = str_bytes ''kernel_read''"
| "fn_name KernelWrite = str_bytes ''kernel_write''"

text \<open>The exit context holds the arguments of the function and its return value behind them.\<close>

fun exit_arg :: "vfs_fn \<Rightarrow> nat" where
  "exit_arg FilpClose = 2"
| "exit_arg VfsFsyncRange = 4"
| "exit_arg VfsWrite = 4"
| "exit_arg VfsWritev = 5"
| "exit_arg VfsRead = 4"
| "exit_arg VfsReadv = 5"
| "exit_arg KernelRead = 4"
| "exit_arg KernelWrite = 4"

definition return_code :: "(probe_error + u32) \<times> fslat \<Rightarrow> (u32 \<times> fslat) option" where
  "return_code r = (case r of
     (Inr c, s) \<Rightarrow> Some (c, s) | (Inl (Code c), s) \<Rightarrow> Some (c, s) | (Inl Undefined, s) \<Rightarrow> None)"

definition fslat_entry :: "kernel \<Rightarrow> vfs_fn \<Rightarrow> call_ctx \<Rightarrow> fslat \<Rightarrow> (u32 \<times> fslat) option" where
  "fslat_entry k fn ctx s = return_code (try_fslat_entry k ctx s)"

definition fslat_exit :: "kernel \<Rightarrow> vfs_fn \<Rightarrow> call_ctx \<Rightarrow> i64 list \<Rightarrow> fslat \<Rightarrow> (u32 \<times> fslat) option" where
  "fslat_exit k fn ctx args s =
     return_code (try_fslat_exit k ctx (fn_name fn) (args ! exit_arg fn) fn s)"


section \<open>Attaching the probes\<close>

definition all_fns :: "vfs_fn list" where
  "all_fns = [FilpClose, VfsFsyncRange, VfsWrite, VfsWritev, VfsRead, VfsReadv, KernelRead, KernelWrite]"

text \<open>The program names the probe macro declares.\<close>

definition entry_prog :: "vfs_fn \<Rightarrow> bytes" where
  "entry_prog fn = fn_name fn @ str_bytes ''_entry''"

definition exit_prog :: "vfs_fn \<Rightarrow> bytes" where
  "exit_prog fn = fn_name fn @ str_bytes ''_exit''"

definition probes :: "(bytes \<times> bytes \<times> bytes) list" where
  "probes = map (\<lambda>(e, x, f). (str_bytes e, str_bytes x, str_bytes f)) [
     (''filp_close_entry'', ''filp_close_exit'', ''filp_close''),
     (''vfs_fsync_range_entry'', ''vfs_fsync_range_exit'', ''vfs_fsync_range''),
     (''vfs_write_entry'', ''vfs_write_exit'', ''vfs_write''),
     (''vfs_writev_entry'', ''vfs_writev_exit'', ''vfs_writev''),
     (''vfs_read_entry'', ''vfs_read_exit'', ''vfs_read''),
     (''vfs_readv_entry'', ''vfs_readv_exit'', ''vfs_readv''),
     (''kernel_read_entry'', ''kernel_read_exit'', ''kernel_read''),
     (''kernel_write_entry'', ''kernel_write_exit'', ''kernel_write'')]"

text \<open>
  Loading and attaching are the aya library's. \<open>find_prog\<close> looks a program up (a missing one is a
  panic), \<open>load_attach\<close> loads it for a kernel function and attaches it or fails. The state is the
  list of attachments made so far.
\<close>

datatype attach_error = Panicked | AttachFailed

type_synonym attached = "(bytes \<times> bytes) list"

definition attach_prog ::
  "(bytes \<Rightarrow> bool) \<Rightarrow> (bytes \<Rightarrow> bytes \<Rightarrow> bool) \<Rightarrow> bytes \<Rightarrow> bytes \<Rightarrow> (attached, attach_error, unit) fallible" where
  "attach_prog find_prog load_attach prog kernel_fn = (\<lambda>st.
     if \<not> find_prog prog then (Inl Panicked, st)
     else if \<not> load_attach prog kernel_fn then (Inl AttachFailed, st)
     else (Inr (), st @ [(prog, kernel_fn)]))"

definition attach_probe_pair ::
  "(bytes \<Rightarrow> bool) \<Rightarrow> (bytes \<Rightarrow> bytes \<Rightarrow> bool) \<Rightarrow> bytes \<Rightarrow> bytes \<Rightarrow> bytes \<Rightarrow>
     (attached, attach_error, unit) fallible" where
  "attach_probe_pair find_prog load_attach entry_name exit_name kernel_fn =
     seq_m (attach_prog find_prog load_attach entry_name kernel_fn)
           (attach_prog find_prog load_attach exit_name kernel_fn)"

fun attach_all ::
  "(bytes \<Rightarrow> bool) \<Rightarrow> (bytes \<Rightarrow> bytes \<Rightarrow> bool) \<Rightarrow> (bytes \<times> bytes \<times> bytes) list \<Rightarrow>
     (attached, attach_error, unit) fallible" where
  "attach_all find_prog load_attach [] = ret_m ()"
| "attach_all find_prog load_attach ((e, x, f) # ps) =
     seq_m (attach_probe_pair find_prog load_attach e x f) (attach_all find_prog load_attach ps)"

datatype loader_error = NoRingBuffer | NoBtf | LoadFailed | Attach attach_error

definition loader_main ::
  "bool \<Rightarrow> bool \<Rightarrow> bool \<Rightarrow> (bytes \<Rightarrow> bool) \<Rightarrow> (bytes \<Rightarrow> bytes \<Rightarrow> bool) \<Rightarrow> (loader_error + unit) \<times> attached" where
  "loader_main ring_exists btf_ok load_ok find_prog load_attach =
     (if \<not> ring_exists then (Inl NoRingBuffer, [])
      else if \<not> btf_ok then (Inl NoBtf, [])
      else if \<not> load_ok then (Inl LoadFailed, [])
      else case attach_all find_prog load_attach probes [] of
             (Inl e, st) \<Rightarrow> (Inl (Attach e), st)
           | (Inr _, st) \<Rightarrow> (Inr (), st))"

lemma probes_match: "probes = map (\<lambda>fn. (entry_prog fn, exit_prog fn, fn_name fn)) all_fns"
  by (simp add: probes_def all_fns_def entry_prog_def exit_prog_def str_bytes_def)

lemma attach_pair_iff:
  "attach_probe_pair find_prog load_attach e x f st = (Inr (), st') \<longleftrightarrow>
     find_prog e \<and> find_prog x \<and> load_attach e f \<and> load_attach x f \<and> st' = st @ [(e, f), (x, f)]"
  by (auto simp: run_simps attach_probe_pair_def attach_prog_def)

lemma attach_all_iff:
  "attach_all find_prog load_attach ps st = (Inr (), st') \<longleftrightarrow>
     (\<forall>(e, x, f) \<in> set ps. find_prog e \<and> find_prog x \<and> load_attach e f \<and> load_attach x f) \<and>
     st' = st @ concat (map (\<lambda>(e, x, f). [(e, f), (x, f)]) ps)"
proof (induction ps arbitrary: st)
  case (Cons p ps)
  obtain e x f where p: "p = (e, x, f)" by (cases p)
  show ?case
  proof (cases "find_prog e \<and> find_prog x \<and> load_attach e f \<and> load_attach x f")
    case True
    then have "attach_probe_pair find_prog load_attach e x f st = (Inr (), st @ [(e, f), (x, f)])"
      by (simp add: attach_pair_iff)
    with True Cons [of "st @ [(e, f), (x, f)]"] show ?thesis by (simp add: p seq_m_run)
  next
    case False
    then obtain err st1 where "attach_probe_pair find_prog load_attach e x f st = (Inl err, st1)"
      using attach_pair_iff [of find_prog load_attach e x f st]
      by (cases "attach_probe_pair find_prog load_attach e x f st"; cases "fst (attach_probe_pair find_prog load_attach e x f st)") auto
    with False show ?thesis by (auto simp: p seq_m_run)
  qed
qed (auto simp: run_simps)

lemma all_fns_complete: "set all_fns = UNIV" "distinct all_fns"
proof -
  have "fn \<in> set all_fns" for fn by (cases fn) (simp_all add: all_fns_def)
  then show "set all_fns = UNIV" by blast
qed (simp add: all_fns_def)

text \<open>The loader ends well exactly when the shared ring buffer and the type information exist,
  the programs load, and the entry and the exit program of every instrumented function can be
  attached; it has then attached both of them for each of the eight functions, in order.\<close>

theorem loader_attaches_all:
  "loader_main ring_exists btf_ok load_ok find_prog load_attach = (Inr (), st) \<longleftrightarrow>
     ring_exists \<and> btf_ok \<and> load_ok \<and>
     (\<forall>fn. find_prog (entry_prog fn) \<and> find_prog (exit_prog fn) \<and>
           load_attach (entry_prog fn) (fn_name fn) \<and> load_attach (exit_prog fn) (fn_name fn)) \<and>
     st = concat (map (\<lambda>fn. [(entry_prog fn, fn_name fn), (exit_prog fn, fn_name fn)]) all_fns)"
proof -
  have "(\<forall>(e, x, f) \<in> set probes. find_prog e \<and> find_prog x \<and> load_attach e f \<and> load_attach x f) \<longleftrightarrow>
     (\<forall>fn. find_prog (entry_prog fn) \<and> find_prog (exit_prog fn) \<and>
           load_attach (entry_prog fn) (fn_name fn) \<and> load_attach (exit_prog fn) (fn_name fn))"
    using all_fns_complete(1) by (auto simp: probes_match)
  moreover have "concat (map (\<lambda>(e, x, f). [(e, f), (x, f)]) probes) =
     concat (map (\<lambda>fn. [(entry_prog fn, fn_name fn), (exit_prog fn, fn_name fn)]) all_fns)"
    by (simp add: probes_match comp_def)
  moreover have "loader_main ring_exists btf_ok load_ok find_prog load_attach = (Inr (), st) \<longleftrightarrow>
     ring_exists \<and> btf_ok \<and> load_ok \<and> attach_all find_prog load_attach probes [] = (Inr (), st)"
    by (auto simp: loader_main_def split: prod.splits sum.splits)
  ultimately show ?thesis using attach_all_iff [of find_prog load_attach probes "[]" st] by simp
qed

end
