(* ===== verification/Fslat_Trace.thy ===== *)
theory Fslat_Trace
  imports Fslat_Probe
begin

text \<open>
  The handlers over time: what a run of entry and exit events on any tasks, one handler after the
  other, leaves in the maps.
  Each handler is described by what it does to the table of entered calls, to the statistics
  and to the stream of messages; the invariant of all reachable states says that the messages are
  well formed and numbered consecutively.
\<close>

section \<open>What path resolution leaves alone\<close>

definition core :: "fslat \<Rightarrow> fslat" where
  "core s = s\<lparr>PATHBUF := [], PATHBUFTMP := [], ticks := 0\<rparr>"

lemma core_upd [simp]:
  "core (s\<lparr>ticks := n\<rparr>) = core s" "core (s\<lparr>PATHBUF := p\<rparr>) = core s"
  "core (s\<lparr>PATHBUFTMP := q\<rparr>) = core s"
  by (simp_all add: core_def)

lemma core_eqD:
  "core s = core t \<Longrightarrow> s = t\<lparr>PATHBUF := PATHBUF s, PATHBUFTMP := PATHBUFTMP s, ticks := ticks s\<rparr>"
  by (cases s; cases t) (simp add: core_def)

lemma loop_inv:
  assumes "\<And>i c s r c' s'. body i (c, s) = Some (r, c', s') \<Longrightarrow> P s \<Longrightarrow> P s'"
  shows "loop_spec i n body (c, s) = Some (c', s') \<Longrightarrow> P s \<Longrightarrow> P s'"
proof (induction n arbitrary: i c s)
  case (Suc n)
  then obtain r c1 s1 where "body (of_nat i) (c, s) = Some (r, c1, s1)"
    by (auto split: option.splits)
  with Suc assms [OF this] show ?case by (auto split: if_splits)
qed simp

lemma frag_write_core [simp]: "core (snd (frag_write k off data t)) = core t"
  by (simp add: frag_write_def split_beta)

lemma walk_step_core: "path_walk_step k i (c, s) = Some (r, c', s') \<Longrightarrow> core s' = core s"
  by (simp add: path_walk_step_def Let_def split: if_splits option.splits bind_splits prod.splits)
    (elim exE conjE; (hypsubst | simp)+)+

lemma assemble_core: "assemble_pathfrag k i (c, s) = Some (r, c', s') \<Longrightarrow> core s' = core s"
  by (auto simp: assemble_pathfrag_def Let_def split_beta split: if_splits option.splits)


text \<open>The fragment buffer keeps its 32 bytes.\<close>

definition frag_shape :: "fslat \<Rightarrow> bool" where
  "frag_shape s \<longleftrightarrow> (\<exists>b. PATHBUF s = [b] \<and> length b = PATHFRAGLEN)"

lemma frag_shape_upd [simp]:
  "frag_shape (s\<lparr>ticks := n\<rparr>) = frag_shape s" "frag_shape (s\<lparr>PATHBUFTMP := q\<rparr>) = frag_shape s"
  by (simp_all add: frag_shape_def)

lemma frag_write_shape:
  assumes "helpers_ok k" "frag_shape s"
  shows "frag_shape (snd (frag_write k off data s))"
proof -
  obtain b where b: "PATHBUF s = [b]" "length b = 32" using assms(2) by (auto simp: frag_shape_def)
  have "length (snd (dynptr_write k b off data)) = 32"
  proof (cases "unat off + length data \<le> length b")
    case True
    then have "dynptr_write k b off data = (0, overwrite b (unat off) data)"
      using assms(1) unfolding helpers_ok_def by blast
    then show ?thesis using True b(2) by (simp add: overwrite_def)
  next
    case False
    then have "snd (dynptr_write k b off data) = b"
      using assms(1) unfolding helpers_ok_def by (meson not_le)
    then show ?thesis using b(2) by simp
  qed
  then show ?thesis by (simp add: frag_write_def split_beta b frag_shape_def)
qed

lemma walk_step_shape: "path_walk_step k i (c, s) = Some (r, c', s') \<Longrightarrow> frag_shape s \<Longrightarrow> frag_shape s'"
  by (simp add: path_walk_step_def Let_def split: if_splits option.splits bind_splits prod.splits)
    (elim exE conjE; (hypsubst | simp)+)+

lemma assemble_shape:
  "helpers_ok k \<Longrightarrow> assemble_pathfrag k i (c, s) = Some (r, c', s') \<Longrightarrow> frag_shape s \<Longrightarrow> frag_shape s'"
  by (auto simp: assemble_pathfrag_def Let_def split_beta frag_write_shape
      split: if_splits option.splits)

lemma partial_d_path_frame:
  assumes k: "helpers_ok k" and run: "partial_d_path k ctx s = Some (r, t, s')" and sh: "frag_shape s"
  shows "core s' = core s \<and> frag_shape s'"
proof -
  let ?P = "\<lambda>s'. core s' = core s \<and> frag_shape s'"
  have loops: "walk_loop k n body c = loop_spec 0 (unat n) body c"
    "assemble_loop k n body' c' = loop_spec 0 (unat n) body' c'" for n body c body' c'
    using k unfolding helpers_ok_def by blast+
  have w: "loop_spec i n (path_walk_step k) (c, s1) = Some (c', s2) \<Longrightarrow> ?P s1 \<Longrightarrow> ?P s2" for i n c s1 c' s2
    using loop_inv [of "path_walk_step k" ?P] walk_step_core walk_step_shape by metis
  have a: "loop_spec i n (assemble_pathfrag k) (c, s1) = Some (c', s2) \<Longrightarrow> ?P s1 \<Longrightarrow> ?P s2" for i n c s1 c' s2
    using loop_inv [of "assemble_pathfrag k" ?P] assemble_core assemble_shape [OF k] by metis
  show ?thesis
    using run sh unfolding partial_d_path_def loops
    by (auto simp: bpf_ktime_get_ns_def Option.bind_eq_Some_conv Let_def split_beta frag_write_shape [OF k]
        dest!: w a split: if_splits)
qed

section \<open>The invariant\<close>

definition stats_ok :: "fs_latency_stats \<Rightarrow> bool" where
  "stats_ok f \<longleftrightarrow> \<not> lock f \<and> length (path_prefix f) = PATHFRAGLEN \<and>
     valid_utf8 (take (min (unat (pathlen f)) PATHFRAGLEN) (path_prefix f))"

definition message_ok :: "nat \<Rightarrow> bytes \<Rightarrow> bool" where
  "message_ok i m \<longleftrightarrow> length m = BUFSIZE \<and> (\<exists>ev sn fn msg tail. m = msg @ tail \<and>
     encodes (message_value ev sn (fn_name fn) (str_bytes ''ns'')) msg \<and>
     ev_id ev = str_bytes ''fslat/v2'' \<and> ev_seq ev = of_nat i)"

text \<open>What holds at every moment, and what holds besides when no exit is under way.\<close>

definition shape_ok :: "fslat \<Rightarrow> bool" where
  "shape_ok s \<longleftrightarrow> frag_shape s \<and> (\<forall>fn. list_all stats_ok (STATS s fn)) \<and>
     (\<forall>p e. PTRLIST s p = Some e \<longrightarrow> length (path e) = PATHFRAGLEN)"

definition fslat_ok :: "fslat \<Rightarrow> bool" where
  "fslat_ok s \<longleftrightarrow>
     COUNTER s = [of_nat (length (LDMS_SHARED_STREAM s))] \<and>
     frag_shape s \<and>
     (\<forall>fn. list_all stats_ok (STATS s fn)) \<and>
     (\<forall>p e. PTRLIST s p = Some e \<longrightarrow> length (path e) = PATHFRAGLEN) \<and>
     (\<forall>i < length (LDMS_SHARED_STREAM s). message_ok i (LDMS_SHARED_STREAM s ! i))"

lemma fslat_ok_shape:
  "fslat_ok s \<longleftrightarrow> shape_ok s \<and> COUNTER s = [of_nat (length (LDMS_SHARED_STREAM s))] \<and>
     (\<forall>i < length (LDMS_SHARED_STREAM s). message_ok i (LDMS_SHARED_STREAM s ! i))"
  by (auto simp: fslat_ok_def shape_ok_def)

lemma shape_ok_upd [simp]:
  "shape_ok (s\<lparr>ticks := n\<rparr>) = shape_ok s"
  "shape_ok (s\<lparr>reserves := n\<rparr>) = shape_ok s"
  "shape_ok (s\<lparr>COUNTER := l\<rparr>) = shape_ok s"
  "shape_ok (s\<lparr>LDMS_SHARED_STREAM := ms\<rparr>) = shape_ok s"
  "shape_ok (s\<lparr>PROF_CTRL := c\<rparr>) = shape_ok s"
  "shape_ok (s\<lparr>PROF_RINGBUF_DROPS := d\<rparr>) = shape_ok s"
  "shape_ok (s\<lparr>PROF_PATH_RES_HIST := h\<rparr>) = shape_ok s"
  "shape_ok (s\<lparr>PROF_PATH_WALK_HIST := h\<rparr>) = shape_ok s"
  "shape_ok (s\<lparr>PROF_PATH_ASSEMBLY_HIST := h\<rparr>) = shape_ok s"
  "shape_ok (s\<lparr>PROF_EXIT_HIST := h\<rparr>) = shape_ok s"
  "shape_ok (s\<lparr>PROF_WALK_ITERS_HIST := h\<rparr>) = shape_ok s"
  by (simp_all add: shape_ok_def frag_shape_def)

lemma fslat_ok_upd [simp]:
  "fslat_ok (s\<lparr>ticks := n\<rparr>) = fslat_ok s"
  "fslat_ok (s\<lparr>reserves := n\<rparr>) = fslat_ok s"
  "fslat_ok (s\<lparr>PROF_CTRL := c\<rparr>) = fslat_ok s"
  "fslat_ok (s\<lparr>PROF_RINGBUF_DROPS := d\<rparr>) = fslat_ok s"
  "fslat_ok (s\<lparr>PROF_PATH_RES_HIST := h\<rparr>) = fslat_ok s"
  "fslat_ok (s\<lparr>PROF_PATH_WALK_HIST := h\<rparr>) = fslat_ok s"
  "fslat_ok (s\<lparr>PROF_PATH_ASSEMBLY_HIST := h\<rparr>) = fslat_ok s"
  "fslat_ok (s\<lparr>PROF_EXIT_HIST := h\<rparr>) = fslat_ok s"
  "fslat_ok (s\<lparr>PROF_WALK_ITERS_HIST := h\<rparr>) = fslat_ok s"
  by (simp_all add: fslat_ok_def frag_shape_def)

lemma check_prof_reset_ok: "fslat_ok (check_prof_reset k s) = fslat_ok s"
  "shape_ok (check_prof_reset k s) = shape_ok s"
  by (simp_all add: check_prof_reset_def fold_clear_hists bpf_ktime_get_ns_def Let_def split: option.splits)

lemma reset_frame [simp]:
  "PTRLIST (check_prof_reset k s) = PTRLIST s" "STATS (check_prof_reset k s) = STATS s"
  "LDMS_SHARED_STREAM (check_prof_reset k s) = LDMS_SHARED_STREAM s"
  "COUNTER (check_prof_reset k s) = COUNTER s" "PATHBUF (check_prof_reset k s) = PATHBUF s"
  "PATHBUFTMP (check_prof_reset k s) = PATHBUFTMP s" "reserves (check_prof_reset k s) = reserves s"
  by (simp_all add: check_prof_reset_def fold_clear_hists bpf_ktime_get_ns_def Let_def split: option.splits)

lemma core_frame:
  "core s' = core s \<Longrightarrow> PTRLIST s' = PTRLIST s \<and> STATS s' = STATS s \<and> COUNTER s' = COUNTER s \<and>
     LDMS_SHARED_STREAM s' = LDMS_SHARED_STREAM s"
  by (cases s; cases s') (simp add: core_def)

lemma lru_insert_laws:
  assumes "maps_ok k"
  shows "lru_insert k p e m p = Some e" "q \<noteq> p \<Longrightarrow> lru_insert k p e m q \<in> {None, m q}"
  using assms unfolding maps_ok_def by blast+

lemma shape_ok_insert:
  assumes "maps_ok k" "shape_ok s" "length (path e) = PATHFRAGLEN"
  shows "shape_ok (s\<lparr>PTRLIST := lru_insert k p e (PTRLIST s), PATHBUF := [replicate PATHFRAGLEN 0]\<rparr>)"
proof -
  have "length (path e') = PATHFRAGLEN" if "lru_insert k p e (PTRLIST s) q = Some e'" for q e'
  proof (cases "q = p")
    case True
    then show ?thesis using that assms(3) lru_insert_laws(1) [OF assms(1), of p e "PTRLIST s"] by simp
  next
    case False
    then have "PTRLIST s q = Some e'"
      using that lru_insert_laws(2) [OF assms(1), of q p e "PTRLIST s"] by auto
    then show ?thesis using assms(2) unfolding shape_ok_def by blast
  qed
  then show ?thesis using assms(2) by (simp add: shape_ok_def frag_shape_def)
qed

text \<open>The state in which an entry resolves its path, and the one in which it has counted the times.\<close>

definition entry_start :: "kernel \<Rightarrow> fslat \<Rightarrow> fslat" where
  "entry_start k s = (check_prof_reset k s)\<lparr>ticks := Suc (ticks (check_prof_reset k s))\<rparr>"

definition entry_counted :: "kernel \<Rightarrow> fslat \<Rightarrow> path_times \<Rightarrow> fslat \<Rightarrow> fslat" where
  "entry_counted k s tm s1 = count_path_times k
     (ktime k (ticks s1) - ktime k (ticks (check_prof_reset k s))) tm (s1\<lparr>ticks := Suc (ticks s1)\<rparr>)"

lemma entry_run:
  assumes "PATHBUF s = [b]"
  shows "try_fslat_entry k ctx s = (case partial_d_path k ctx (entry_start k s) of
      None \<Rightarrow> (Inl Undefined, entry_start k s)
    | Some (ret, tm, s1) \<Rightarrow>
        if sint ret < 0 then (Inl (Code 1), entry_counted k s tm s1)
        else (Inr 0, (entry_counted k s tm s1)\<lparr>
          PTRLIST := lru_insert k (cx_pid ctx, cx_tgid ctx)
            \<lparr>timestamp = ktime k (ticks (check_prof_reset k s)), path = PATHBUF s1 ! 0\<rparr> (PTRLIST s1),
          PATHBUF := (PATHBUF s1)[0 := replicate PATHFRAGLEN 0]\<rparr>))"
  using assms
  by (simp add: try_fslat_entry_def index_get_def bpf_ktime_get_ns_def Let_def entry_start_def
      entry_counted_def count_path_times_def split: option.splits)

lemma entry_start_frame:
  "shape_ok (entry_start k s) = shape_ok s" "PTRLIST (entry_start k s) = PTRLIST s"
  "STATS (entry_start k s) = STATS s" "LDMS_SHARED_STREAM (entry_start k s) = LDMS_SHARED_STREAM s"
  "COUNTER (entry_start k s) = COUNTER s" "PATHBUF (entry_start k s) = PATHBUF s" "PATHBUFTMP (entry_start k s) = PATHBUFTMP s"
  by (simp_all add: entry_start_def check_prof_reset_ok)

lemma entry_counted_frame:
  "shape_ok (entry_counted k s tm s1) = shape_ok s1" "PTRLIST (entry_counted k s tm s1) = PTRLIST s1"
  "STATS (entry_counted k s tm s1) = STATS s1" "COUNTER (entry_counted k s tm s1) = COUNTER s1"
  "LDMS_SHARED_STREAM (entry_counted k s tm s1) = LDMS_SHARED_STREAM s1"
  "PATHBUF (entry_counted k s tm s1) = PATHBUF s1" "PATHBUFTMP (entry_counted k s tm s1) = PATHBUFTMP s1"
  by (simp_all add: entry_counted_def count_path_times_def)

text \<open>An entry leaves statistics, counter and stream alone and records at most its own call.\<close>

lemma entry_shape:
  assumes k: "helpers_ok k" "maps_ok k" and ok: "shape_ok s" and run: "try_fslat_entry k ctx s = (r, s')"
  shows "shape_ok s' \<and> COUNTER s' = COUNTER s \<and> STATS s' = STATS s \<and> LDMS_SHARED_STREAM s' = LDMS_SHARED_STREAM s \<and>
    (\<forall>p. p \<noteq> (cx_pid ctx, cx_tgid ctx) \<longrightarrow> PTRLIST s' p \<in> {None, PTRLIST s p})"
proof -
  obtain b where b: "PATHBUF s = [b]" using ok by (auto simp: shape_ok_def frag_shape_def)
  show ?thesis
  proof (cases "partial_d_path k ctx (entry_start k s)")
    case None
    then show ?thesis using run ok by (auto simp: entry_run [OF b] entry_start_frame)
  next
    case (Some a)
    then obtain ret tm s1 where s1: "partial_d_path k ctx (entry_start k s) = Some (ret, tm, s1)"
      by (cases a) auto
    have f: "core s1 = core (entry_start k s)" "frag_shape s1"
      using partial_d_path_frame [OF k(1) s1] ok by (auto simp: shape_ok_def entry_start_frame frag_shape_def)
    note c = core_frame [OF f(1), unfolded entry_start_frame]
    have ok1: "shape_ok (entry_counted k s tm s1)"
      unfolding entry_counted_frame using ok c f(2) by (simp add: shape_ok_def entry_start_frame)
    obtain frag where frag: "PATHBUF s1 = [frag]" "length frag = PATHFRAGLEN"
      using f(2) by (auto simp: frag_shape_def)
    let ?p = "(cx_pid ctx, cx_tgid ctx)"
      and ?e = "\<lparr>timestamp = ktime k (ticks (check_prof_reset k s)), path = frag\<rparr>"
    have ins: "shape_ok ((entry_counted k s tm s1)\<lparr>PTRLIST := lru_insert k ?p ?e (PTRLIST s1),
        PATHBUF := [replicate PATHFRAGLEN 0]\<rparr>)"
      using shape_ok_insert [OF k(2) ok1, of ?e ?p] frag(2) by (simp add: entry_counted_frame)
    have others: "\<forall>q. q \<noteq> ?p \<longrightarrow> lru_insert k ?p ?e (PTRLIST s) q \<in> {None, PTRLIST s q}"
      using lru_insert_laws(2) [OF k(2)] by blast
    show ?thesis
    proof (cases "sint ret < 0")
      case True
      then have "s' = entry_counted k s tm s1" using run s1 by (simp add: entry_run [OF b])
      then show ?thesis using ok1 c by (simp add: entry_counted_frame)
    next
      case False
      then have "s' = (entry_counted k s tm s1)\<lparr>PTRLIST := lru_insert k ?p ?e (PTRLIST s1),
          PATHBUF := [replicate PATHFRAGLEN 0]\<rparr>"
        using run s1 frag(1) by (simp add: entry_run [OF b])
      then show ?thesis using ins c others
        by (simp add: entry_counted_frame del: split_paired_All const_defs)
    qed
  qed
qed

lemma entry_effect:
  assumes "helpers_ok k" "maps_ok k" "fslat_ok s" "try_fslat_entry k ctx s = (r, s')"
  shows "fslat_ok s' \<and> STATS s' = STATS s \<and> LDMS_SHARED_STREAM s' = LDMS_SHARED_STREAM s \<and>
    (\<forall>p. p \<noteq> (cx_pid ctx, cx_tgid ctx) \<longrightarrow> PTRLIST s' p \<in> {None, PTRLIST s p})"
  using entry_shape [OF assms(1,2) _ assms(4)] assms(3) unfolding fslat_ok_shape by metis

section \<open>Exits\<close>

lemma update_stats_frame [simp]:
  "pathlen (update_stats_locked l b f) = pathlen f" "path_prefix (update_stats_locked l b f) = path_prefix f"
  "lock (update_stats_locked l b f) = lock f" "lastpublish (update_stats_locked l b f) = lastpublish f"
  by (simp_all add: update_stats_locked_def Let_def)

lemma clear_stats_frame [simp]:
  "pathlen (clear_stats_locked t f) = pathlen f" "path_prefix (clear_stats_locked t f) = path_prefix f"
  "lock (clear_stats_locked t f) = lock f"
  by (simp_all add: clear_stats_locked_def)

lemma lock_commute [simp]:
  "(update_stats_locked l b (f\<lparr>lock := x\<rparr>)) = (update_stats_locked l b f)\<lparr>lock := x\<rparr>"
  "(clear_stats_locked t (f\<lparr>lock := x\<rparr>)) = (clear_stats_locked t f)\<lparr>lock := x\<rparr>"
  "snapshot_of (f\<lparr>lock := x\<rparr>) = snapshot_of f"
  by (simp_all add: update_stats_locked_def clear_stats_locked_def snapshot_of_def Let_def)

lemma unlocked: "\<not> lock f \<Longrightarrow> f\<lparr>lock := False\<rparr> = f"
  by (cases f) simp

text \<open>What an exit does to one entry of the statistics map.\<close>

definition matches :: "entry_rec \<Rightarrow> fs_latency_stats \<Rightarrow> bool" where
  "matches e f \<longleftrightarrow> 0 < unat (pathlen f) \<and> unat (pathlen f) \<le> PATHFRAGLEN \<and>
     take (unat (pathlen f)) (path e) = take (unat (pathlen f)) (path_prefix f)"

definition due :: "u64 \<Rightarrow> fs_latency_stats \<Rightarrow> bool" where
  "due now f \<longleftrightarrow> now - lastpublish f > AGG_INTERVAL"

definition stat_after :: "u64 \<Rightarrow> u64 \<Rightarrow> entry_rec \<Rightarrow> fs_latency_stats \<Rightarrow> fs_latency_stats" where
  "stat_after now ret e f =
     (if \<not> matches e f then f
      else let g = update_stats_locked (now - timestamp e) ret f
           in if due now f then clear_stats_locked now g else g)"

lemma stat_after_ok: "stats_ok f \<Longrightarrow> stats_ok (stat_after now ret e f)"
  by (simp add: stat_after_def stats_ok_def Let_def)

lemma set_stat_ok:
  assumes "fslat_ok s" "stats_ok f"
  shows "fslat_ok (set_stat fn idx f s)"
proof -
  have "list_all stats_ok ((STATS s fn)[idx := f])"
    using assms set_update_subset_insert [of "STATS s fn" idx f] by (auto simp: fslat_ok_def list_all_iff)
  then show ?thesis using assms(1) by (simp add: fslat_ok_def set_stat_def frag_shape_def)
qed

lemma fn_name_utf8: "valid_utf8 (fn_name fn)" "length (fn_name fn) \<le> 15"
  by (cases fn; simp add: ascii_utf8)+

lemma publish_ok:
  assumes "fslat_ok s" "message_ok (length (LDMS_SHARED_STREAM s)) m"
  shows "fslat_ok (s\<lparr>reserves := n, LDMS_SHARED_STREAM := LDMS_SHARED_STREAM s @ [m],
    COUNTER := (COUNTER s)[0 := COUNTER s ! 0 + 1]\<rparr>)"
  using assms by (auto simp: fslat_ok_def frag_shape_def nth_append less_Suc_eq)

text \<open>The message an exit publishes for an entry that is due.\<close>

definition event_of :: "u64 \<Rightarrow> fslat \<Rightarrow> event_fields" where
  "event_of now s = \<lparr>ev_id = str_bytes ''fslat/v2'', ev_monotonic = now, ev_seq = COUNTER s ! 0\<rparr>"

definition exit_message :: "vfs_fn \<Rightarrow> u64 \<Rightarrow> u64 \<Rightarrow> entry_rec \<Rightarrow> fs_latency_stats \<Rightarrow> fslat \<Rightarrow> cbor" where
  "exit_message fn now ret e f s = message_value (event_of now s)
     (snapshot_of (update_stats_locked (now - timestamp e) ret f)) (fn_name fn) (str_bytes ''ns'')"

lemma exit_entry_run:
  assumes k: "maps_ok k" and f: "stats_ok f" "matches e f"
  shows "if \<not> due now f then
      exit_entry k fn (fn_name fn) ret now e idx f s = (Inr True, set_stat fn idx (stat_after now ret e f) s)
    else case reserve k (reserves s) of
      None \<Rightarrow> \<exists>drops. exit_entry k fn (fn_name fn) ret now e idx f s =
        (Inr False, (set_stat fn idx (stat_after now ret e f) s)\<lparr>reserves := reserves s + 1, PROF_RINGBUF_DROPS := drops\<rparr>)
    | Some slot \<Rightarrow> \<exists>msg tail. encodes (exit_message fn now ret e f s) msg \<and> length (msg @ tail) = BUFSIZE \<and>
        exit_entry k fn (fn_name fn) ret now e idx f s =
          (Inr True, (set_stat fn idx (stat_after now ret e f) s)\<lparr>reserves := reserves s + 1,
             LDMS_SHARED_STREAM := LDMS_SHARED_STREAM s @ [msg @ tail],
             COUNTER := (COUNTER s)[0 := COUNTER s ! 0 + 1]\<rparr>)"
proof (cases "due now f")
  case False
  then show ?thesis using f
    by (simp add: exit_entry_def due_def stat_after_def Let_def unlocked stats_ok_def)
next
  case True
  let ?s = "set_stat fn idx (stat_after now ret e f) s"
  let ?put = "ringbuf_put k (event_of now s) (snapshot_of (update_stats_locked (now - timestamp e) ret f))
     (fn_name fn) (str_bytes ''ns'') ?s"
  have st: "stat_after now ret e f = (clear_stats_locked now (update_stats_locked (now - timestamp e) ret f))"
    using True f(2) by (simp add: stat_after_def Let_def)
  have res: "reserves ?s = reserves s" "LDMS_SHARED_STREAM ?s = LDMS_SHARED_STREAM s" "COUNTER ?s = COUNTER s"
    by (simp_all add: set_stat_def)
  have run: "exit_entry k fn (fn_name fn) ret now e idx f s = (case ?put of
         (Inl Undefined, s) \<Rightarrow> (Inl Undefined, s)
       | (Inl (Code _), s) \<Rightarrow>
           (case index_get (PROF_RINGBUF_DROPS s) 0 of
              None \<Rightarrow> (Inr False, s)
            | Some drops \<Rightarrow> (Inr False, s\<lparr>PROF_RINGBUF_DROPS := (PROF_RINGBUF_DROPS s)[0 := drops + 1]\<rparr>))
       | (Inr _, s) \<Rightarrow> (Inr True, s\<lparr>COUNTER := (COUNTER s)[0 := COUNTER s ! 0 + 1]\<rparr>))"
    using True f unfolding st
    by (simp add: exit_entry_def due_def Let_def unlocked stats_ok_def event_of_def)
  have put: "case reserve k (reserves ?s) of
      None \<Rightarrow> ?put = (Inl (Code 1), ?s\<lparr>reserves := reserves ?s + 1\<rparr>)
    | Some slot \<Rightarrow> \<exists>msg tail. encodes (exit_message fn now ret e f s) msg \<and> length (msg @ tail) = BUFSIZE \<and>
        ?put = (Inr 0, ?s\<lparr>reserves := reserves ?s + 1, LDMS_SHARED_STREAM := LDMS_SHARED_STREAM ?s @ [msg @ tail]\<rparr>)"
    unfolding exit_message_def using k f(1) fn_name_utf8 [of fn]
    by (intro ringbuf_put_run) (simp_all add: event_of_def ascii_utf8 snapshot_of_def stats_ok_def)
  show ?thesis
  proof (cases "reserve k (reserves s)")
    case None
    then show ?thesis using True put unfolding run res
      by (auto simp: res split: option.splits intro: exI [of _ "PROF_RINGBUF_DROPS ?s"])
  next
    case (Some slot)
    then obtain msg tail where m: "encodes (exit_message fn now ret e f s) msg" "length (msg @ tail) = BUFSIZE"
      "?put = (Inr 0, ?s\<lparr>reserves := reserves s + 1, LDMS_SHARED_STREAM := LDMS_SHARED_STREAM s @ [msg @ tail]\<rparr>)"
      using put unfolding res by auto
    have "exit_entry k fn (fn_name fn) ret now e idx f s = (Inr True, ?s\<lparr>reserves := reserves s + 1,
        LDMS_SHARED_STREAM := LDMS_SHARED_STREAM s @ [msg @ tail],
        COUNTER := (COUNTER s)[0 := COUNTER s ! 0 + 1]\<rparr>)"
      unfolding run m(3) by (simp add: res)
    with True Some m(1,2) show ?thesis by auto
  qed
qed

lemma exit_message_ok:
  assumes "fslat_ok s" "encodes (exit_message fn now ret e f s) msg" "length (msg @ tail) = BUFSIZE"
  shows "message_ok (length (LDMS_SHARED_STREAM s)) (msg @ tail)"
proof -
  have "ev_seq (event_of now s) = of_nat (length (LDMS_SHARED_STREAM s))"
    using assms(1) by (simp add: fslat_ok_def event_of_def)
  then show ?thesis
    using assms(2,3) unfolding message_ok_def exit_message_def
    by (intro conjI exI [of _ "event_of now s"] exI) (auto simp: event_of_def)
qed

lemma exit_entry_ok:
  assumes k: "maps_ok k" and s: "fslat_ok s" and f: "stats_ok f" "matches e f"
  obtains b s' where "exit_entry k fn (fn_name fn) ret now e idx f s = (Inr b, s')" "fslat_ok s'"
    "PTRLIST s' = PTRLIST s" "STATS s' = (STATS s)(fn := (STATS s fn)[idx := stat_after now ret e f])"
    "b \<longleftrightarrow> due now f \<longrightarrow> reserve k (reserves s) \<noteq> None"
    "reserves s' = (if due now f then Suc (reserves s) else reserves s)"
proof -
  let ?s = "set_stat fn idx (stat_after now ret e f) s"
  have ok: "fslat_ok ?s" by (rule set_stat_ok [OF s stat_after_ok [OF f(1)]])
  have fr: "PTRLIST ?s = PTRLIST s" "STATS ?s = (STATS s)(fn := (STATS s fn)[idx := stat_after now ret e f])"
    "LDMS_SHARED_STREAM ?s = LDMS_SHARED_STREAM s" "COUNTER ?s = COUNTER s" "reserves ?s = reserves s"
    by (simp_all add: set_stat_def)
  note run = exit_entry_run [OF k f, of now fn ret idx s]
  show ?thesis
  proof (cases "due now f")
    case False
    then show ?thesis using run ok fr that [of True ?s] by simp
  next
    case True
    show ?thesis
    proof (cases "reserve k (reserves s)")
      case None
      with True run obtain drops where "exit_entry k fn (fn_name fn) ret now e idx f s =
          (Inr False, ?s\<lparr>reserves := reserves s + 1, PROF_RINGBUF_DROPS := drops\<rparr>)" by auto
      then show ?thesis
        using ok fr None True that [of False "?s\<lparr>reserves := reserves s + 1, PROF_RINGBUF_DROPS := drops\<rparr>"] by simp
    next
      case (Some slot)
      with True run obtain msg tail where m: "encodes (exit_message fn now ret e f s) msg"
        "length (msg @ tail) = BUFSIZE" "exit_entry k fn (fn_name fn) ret now e idx f s = (Inr True, ?s\<lparr>
           reserves := reserves s + 1, LDMS_SHARED_STREAM := LDMS_SHARED_STREAM s @ [msg @ tail],
           COUNTER := (COUNTER s)[0 := COUNTER s ! 0 + 1]\<rparr>)" by auto
      have "fslat_ok (?s\<lparr>reserves := reserves s + 1, LDMS_SHARED_STREAM := LDMS_SHARED_STREAM s @ [msg @ tail],
           COUNTER := (COUNTER s)[0 := COUNTER s ! 0 + 1]\<rparr>)"
        using publish_ok [OF ok, of "msg @ tail" "reserves s + 1"] exit_message_ok [OF s m(1,2)] by (simp add: fr)
      then show ?thesis using m(3) fr True Some that [of True "?s\<lparr>reserves := reserves s + 1,
         LDMS_SHARED_STREAM := LDMS_SHARED_STREAM s @ [msg @ tail],
         COUNTER := (COUNTER s)[0 := COUNTER s ! 0 + 1]\<rparr>"] by simp
    qed
  qed
qed


lemma exit_loop_ok:
  assumes k: "maps_ok k" and e: "length (path e) = PATHFRAGLEN"
  shows "fslat_ok s \<Longrightarrow> \<exists>s'. exit_loop k fn (fn_name fn) ret now e idxs s = (Inr (), s') \<and> fslat_ok s' \<and>
    PTRLIST s' = PTRLIST s \<and> (\<forall>g. g \<noteq> fn \<longrightarrow> STATS s' g = STATS s g)"
proof (induction idxs arbitrary: s)
  case (Cons idx idxs)
  show ?case
  proof (cases "index_get (STATS s fn) idx")
    case None
    then show ?thesis using Cons.prems by simp
  next
    case (Some f)
    then have f: "stats_ok f"
      using Cons.prems by (auto simp: fslat_ok_def list_all_length index_get_def split: if_splits)
    then have sw: "starts_with (path_prefix f) (path e) (unat (pathlen f)) = Some (matches e f)"
      using starts_with_exact e by (simp add: stats_ok_def matches_def)
    show ?thesis
    proof (cases "matches e f")
      case False
      then show ?thesis using Cons.IH [OF Cons.prems] Some sw by simp
    next
      case True
      obtain b s1 where s1: "exit_entry k fn (fn_name fn) ret now e idx f s = (Inr b, s1)" "fslat_ok s1"
        "PTRLIST s1 = PTRLIST s" "STATS s1 = (STATS s)(fn := (STATS s fn)[idx := stat_after now ret e f])"
        by (rule exit_entry_ok [OF k Cons.prems f True])
      then show ?thesis using Cons.IH [OF s1(2)] Some sw True by (cases b) auto
    qed
  qed
qed simp

text \<open>
  How many of the entries the loop reaches: all of them, unless no slot can be reserved for one
  that is due. That entry is the last one.
\<close>

fun reached :: "kernel \<Rightarrow> nat \<Rightarrow> (fs_latency_stats \<Rightarrow> bool) \<Rightarrow> fs_latency_stats list \<Rightarrow> nat" where
  "reached k r p [] = 0"
| "reached k r p (f # fs) =
     (if \<not> p f then Suc (reached k r p fs)
      else case reserve k r of None \<Rightarrow> 1 | Some _ \<Rightarrow> Suc (reached k (Suc r) p fs))"

lemma reached_le: "reached k r p fs \<le> length fs"
  by (induction k r p fs rule: reached.induct) (auto split: option.splits)

lemma reached_all: "\<forall>n. reserve k n \<noteq> None \<Longrightarrow> reached k r p fs = length fs"
proof (induction fs arbitrary: r)
  case (Cons f fs)
  then obtain slot where "reserve k r = Some slot" by (meson not_None_eq)
  with Cons show ?case by simp
qed simp

lemma reached_pos: "fs \<noteq> [] \<Longrightarrow> 0 < reached k r p fs"
  by (cases fs) (auto split: option.splits)

lemma reached_stops:
  "reached k r p fs < length fs \<Longrightarrow> \<exists>n. reserve k n = None \<and> p (fs ! (reached k r p fs - 1))"
proof (induction fs arbitrary: r)
  case (Cons f fs)
  show ?case
  proof (cases "p f \<and> reserve k r = None")
    case False
    obtain r' where r': "reached k r p (f # fs) = Suc (reached k r' p fs)"
    proof (cases "p f")
      case True
      with False show ?thesis using that [of "Suc r"] by auto
    qed (use that [of r] in simp)
    with Cons.prems have "reached k r' p fs < length fs" by simp
    moreover from this have "fs \<noteq> []" by auto
    ultimately show ?thesis using Cons.IH [of r'] r' reached_pos [of fs k r' p] by (auto simp: nth_Cons')
  qed auto
qed simp

lemma exit_loop_stats:
  assumes k: "maps_ok k" and e: "length (path e) = PATHFRAGLEN"
  shows "fslat_ok s \<Longrightarrow> STATS s fn = ds @ fs \<Longrightarrow>
    \<exists>s'. exit_loop k fn (fn_name fn) ret now e [length ds..<length ds + length fs] s = (Inr (), s') \<and>
      (let j = reached k (reserves s) (\<lambda>f. matches e f \<and> due now f) fs in
       STATS s' fn = ds @ map (stat_after now ret e) (take j fs) @ drop j fs)"
proof (induction fs arbitrary: s ds)
  case (Cons f fs)
  have idx: "index_get (STATS s fn) (length ds) = Some f" using Cons.prems(2) by (simp add: index_get_def)
  have "list_all stats_ok (STATS s fn)" using Cons.prems(1) unfolding fslat_ok_def by blast
  then have f: "stats_ok f" unfolding Cons.prems(2) by simp
  then have sw: "starts_with (path_prefix f) (path e) (unat (pathlen f)) = Some (matches e f)"
    using starts_with_exact e by (simp add: stats_ok_def matches_def)
  have up: "[length ds..<Suc (length ds + length fs)] =
      length ds # [Suc (length ds)..<Suc (length ds + length fs)]"
    by (simp add: upt_conv_Cons del: upt_Suc)
  show ?case
  proof (cases "matches e f")
    case False
    then have "stat_after now ret e f = f" by (simp add: stat_after_def)
    then show ?thesis using Cons.IH [OF Cons.prems(1), of "ds @ [f]"] Cons.prems(2) idx sw False
      by (simp add: up Let_def del: upt_Suc)
  next
    case True
    obtain b s1 where s1: "exit_entry k fn (fn_name fn) ret now e (length ds) f s = (Inr b, s1)" "fslat_ok s1"
      "PTRLIST s1 = PTRLIST s" "STATS s1 = (STATS s)(fn := (STATS s fn)[length ds := stat_after now ret e f])"
      "b \<longleftrightarrow> due now f \<longrightarrow> reserve k (reserves s) \<noteq> None"
      "reserves s1 = (if due now f then Suc (reserves s) else reserves s)"
      by (rule exit_entry_ok [OF k Cons.prems(1) f True])
    have st: "STATS s1 fn = (ds @ [stat_after now ret e f]) @ fs" using s1(4) Cons.prems(2) by simp
    show ?thesis
    proof (cases b)
      case True
      then show ?thesis using Cons.IH [OF s1(2) st] idx sw \<open>matches e f\<close> s1
        by (auto simp: up Let_def simp del: upt_Suc split: option.splits)
    next
      case False
      then show ?thesis using idx sw \<open>matches e f\<close> s1 st
        by (auto simp: up Let_def simp del: upt_Suc split: option.splits)
    qed
  qed
qed simp

section \<open>Runs\<close>

text \<open>
  An exit handler as a whole. \<open>exit_run\<close> gives its four outcomes.
\<close>

lemma exit_run:
  assumes "COUNTER s \<noteq> []"
  shows "try_fslat_exit k ctx filpop ret fn s = (
     let s0 = check_prof_reset k s; p = (cx_pid ctx, cx_tgid ctx) in
     case PTRLIST s p of
       None \<Rightarrow> (Inr 0, s0)
     | Some e \<Rightarrow>
         if sint ret < 0 then (Inl (Code 1), s0\<lparr>PTRLIST := (PTRLIST s)(p := None)\<rparr>)
         else case exit_loop k fn filpop ret (ktime k (ticks s0)) e [0..<8] (s0\<lparr>ticks := Suc (ticks s0)\<rparr>) of
             (Inl x, s1) \<Rightarrow> (Inl x, s1)
           | (Inr _, s1) \<Rightarrow> (Inr 0, s1\<lparr>ticks := Suc (ticks s1), PROF_EXIT_HIST := hist_increment k
                (log2_bucket (ktime k (ticks s1) - ktime k (ticks s0))) (PROF_EXIT_HIST s1),
                PTRLIST := (PTRLIST s1)(p := None)\<rparr>))"
  using assms
  by (simp add: try_fslat_exit_def Let_def index_get_def bpf_ktime_get_ns_def split: option.splits sum.splits prod.splits)

lemma fslat_ok_remove: "fslat_ok s \<Longrightarrow> fslat_ok (s\<lparr>PTRLIST := (PTRLIST s)(p := None)\<rparr>)"
  by (auto simp: fslat_ok_def frag_shape_def split: if_splits)

lemma exit_effect:
  assumes k: "maps_ok k" and ok: "fslat_ok s"
  obtains r s' where "try_fslat_exit k ctx (fn_name fn) ret fn s = (r, s')" "r \<noteq> Inl Undefined" "fslat_ok s'"
    "PTRLIST s' = (PTRLIST s)((cx_pid ctx, cx_tgid ctx) := None)"
    "\<forall>g. g \<noteq> fn \<longrightarrow> STATS s' g = STATS s g"
proof -
  let ?p = "(cx_pid ctx, cx_tgid ctx)" and ?s0 = "check_prof_reset k s"
  let ?s1 = "?s0\<lparr>ticks := Suc (ticks ?s0)\<rparr>"
  have c: "COUNTER s \<noteq> []" using ok by (simp add: fslat_ok_def)
  note run = exit_run [OF c, of k ctx "fn_name fn" ret fn, unfolded Let_def]
  show ?thesis
  proof (cases "PTRLIST s ?p")
    case None
    then have "PTRLIST s = (PTRLIST s)(?p := None)" by auto
    with None show ?thesis using that run ok by (simp add: check_prof_reset_ok)
  next
    case (Some e)
    then have e: "length (path e) = PATHFRAGLEN" using ok unfolding fslat_ok_def by blast
    have ok1: "fslat_ok ?s1" using ok by (simp add: check_prof_reset_ok)
    obtain s2 where s2: "exit_loop k fn (fn_name fn) ret (ktime k (ticks ?s0)) e [0..<8] ?s1 = (Inr (), s2)"
      "fslat_ok s2" "PTRLIST s2 = PTRLIST s" "\<forall>g. g \<noteq> fn \<longrightarrow> STATS s2 g = STATS s g"
      using exit_loop_ok [OF k e ok1, of fn ret "ktime k (ticks ?s0)" "[0..<8]"] by auto
    show ?thesis
    proof (cases "sint ret < 0")
      case True
      have "fslat_ok (?s0\<lparr>PTRLIST := (PTRLIST s)(?p := None)\<rparr>)"
        using fslat_ok_remove [of ?s0 ?p] ok by (simp add: check_prof_reset_ok)
      with True Some show ?thesis using that run by simp
    next
      case False
      let ?s3 = "s2\<lparr>ticks := Suc (ticks s2), PROF_EXIT_HIST := hist_increment k
                (log2_bucket (ktime k (ticks s2) - ktime k (ticks ?s0))) (PROF_EXIT_HIST s2)\<rparr>"
      have "fslat_ok (?s3\<lparr>PTRLIST := (PTRLIST s2)(?p := None)\<rparr>)"
        using fslat_ok_remove [of ?s3 ?p] s2(2) by simp
      then show ?thesis
        using that [of "Inr 0" "?s3\<lparr>PTRLIST := (PTRLIST s2)(?p := None)\<rparr>"] run Some False s2 by simp
    qed
  qed
qed


text \<open>
  The events the producer reacts to: a call of an instrumented function is entered or left by a task,
  and the operator asks for a reset of the histograms.
\<close>

datatype event = Enter vfs_fn call_ctx | Leave vfs_fn call_ctx "i64 list" | ResetSignal

fun event_task :: "event \<Rightarrow> pid_tgid option" where
  "event_task (Enter fn ctx) = Some (cx_pid ctx, cx_tgid ctx)"
| "event_task (Leave fn ctx args) = Some (cx_pid ctx, cx_tgid ctx)"
| "event_task ResetSignal = None"

inductive probe_step :: "kernel \<Rightarrow> fslat \<Rightarrow> event \<Rightarrow> fslat \<Rightarrow> bool" for k where
  entering: "fslat_entry k fn ctx s = Some (c, s') \<Longrightarrow> probe_step k s (Enter fn ctx) s'"
| leaving: "fslat_exit k fn ctx args s = Some (c, s') \<Longrightarrow> probe_step k s (Leave fn ctx args) s'"
| resetting: "probe_step k s ResetSignal (s\<lparr>PROF_CTRL := [1]\<rparr>)"

inductive_cases step_enterE: "probe_step k s (Enter fn ctx) s'"
inductive_cases step_leaveE: "probe_step k s (Leave fn ctx args) s'"
inductive_cases step_resetE: "probe_step k s ResetSignal s'"

inductive probe_run :: "kernel \<Rightarrow> fslat \<Rightarrow> event list \<Rightarrow> fslat \<Rightarrow> bool" for k where
  run_nil: "probe_run k s [] s"
| run_cons: "probe_step k s e t \<Longrightarrow> probe_run k t es u \<Longrightarrow> probe_run k s (e # es) u"

inductive_cases run_nilE: "probe_run k s [] t"
inductive_cases run_consE: "probe_run k s (e # es) t"

text \<open>The maps as they are when the probes are attached, with any valid prefixes configured.\<close>

definition attached_state :: "fslat \<Rightarrow> bool" where
  "attached_state s \<longleftrightarrow> COUNTER s = [0] \<and> PATHBUF s = [replicate PATHFRAGLEN 0] \<and>
     PTRLIST s = Map.empty \<and> LDMS_SHARED_STREAM s = [] \<and> (\<forall>fn. list_all stats_ok (STATS s fn))"

lemma attached_ok: "attached_state s \<Longrightarrow> fslat_ok s"
  by (auto simp: attached_state_def fslat_ok_def frag_shape_def)

lemma return_code_Some: "return_code (r, s) = Some (c, s') \<Longrightarrow> s' = s \<and> r \<noteq> Inl Undefined"
  by (auto simp: return_code_def split: sum.splits probe_error.splits)

lemma step_effect:
  assumes k: "helpers_ok k" "maps_ok k" and step: "probe_step k s e t" and ok: "fslat_ok s"
  shows "fslat_ok t \<and> (\<forall>p. event_task e \<noteq> Some p \<longrightarrow> PTRLIST t p \<in> {None, PTRLIST s p})"
  using step
proof cases
  case (entering fn ctx c)
  obtain r s' where "try_fslat_entry k ctx s = (r, s')" by (cases "try_fslat_entry k ctx s")
  then have "t = s'" using entering(2) by (auto simp: fslat_entry_def dest!: return_code_Some)
  with entering(1) entry_effect [OF k ok \<open>try_fslat_entry k ctx s = (r, s')\<close>] show ?thesis
    by (metis event_task.simps(1))
next
  case (leaving fn ctx args c)
  obtain r s' where "try_fslat_exit k ctx (fn_name fn) (args ! exit_arg fn) fn s = (r, s')" "fslat_ok s'"
    "PTRLIST s' = (PTRLIST s)((cx_pid ctx, cx_tgid ctx) := None)"
    by (rule exit_effect [OF k(2) ok])
  with leaving show ?thesis by (auto simp: fslat_exit_def dest!: return_code_Some)
qed (use ok in simp)

lemma run_ok:
  assumes "helpers_ok k" "maps_ok k"
  shows "probe_run k s es t \<Longrightarrow> fslat_ok s \<Longrightarrow> fslat_ok t"
  by (induction rule: probe_run.induct) (use step_effect [OF assms] in blast)+

lemma run_others:
  assumes "helpers_ok k" "maps_ok k"
  shows "probe_run k s es t \<Longrightarrow> fslat_ok s \<Longrightarrow> \<forall>e \<in> set es. event_task e \<noteq> Some p \<Longrightarrow>
    PTRLIST t p \<in> {None, PTRLIST s p}"
proof (induction rule: probe_run.induct)
  case (run_cons s e t es u)
  have t: "fslat_ok t" "\<forall>q. event_task e \<noteq> Some q \<longrightarrow> PTRLIST t q \<in> {None, PTRLIST s q}"
    using step_effect [OF assms run_cons.hyps(1) run_cons.prems(1)] by blast+
  then have "PTRLIST t p \<in> {None, PTRLIST s p}" using run_cons.prems(2) by (metis list.set_intros(1))
  moreover have "PTRLIST u p \<in> {None, PTRLIST t p}" using run_cons.IH [OF t(1)] run_cons.prems(2) by simp
  ultimately show ?case by auto
qed simp

text \<open>Only an entry can evict: without one the record of a task stays as it is.\<close>

lemma step_exits:
  assumes k: "helpers_ok k" "maps_ok k" and step: "probe_step k s e t" and ok: "fslat_ok s"
    and e: "event_task e \<noteq> Some p" "\<forall>fn ctx. e \<noteq> Enter fn ctx"
  shows "PTRLIST t p = PTRLIST s p"
  using step
proof cases
  case (leaving fn ctx args c)
  obtain r s' where "try_fslat_exit k ctx (fn_name fn) (args ! exit_arg fn) fn s = (r, s')" "fslat_ok s'"
    "PTRLIST s' = (PTRLIST s)((cx_pid ctx, cx_tgid ctx) := None)"
    by (rule exit_effect [OF k(2) ok])
  with leaving e(1) show ?thesis by (auto simp: fslat_exit_def dest!: return_code_Some)
qed (use e in simp_all)

lemma run_exits:
  assumes "helpers_ok k" "maps_ok k"
  shows "probe_run k s es t \<Longrightarrow> fslat_ok s \<Longrightarrow> \<forall>e \<in> set es. event_task e \<noteq> Some p \<Longrightarrow>
    \<forall>e \<in> set es. \<forall>fn ctx. e \<noteq> Enter fn ctx \<Longrightarrow> PTRLIST t p = PTRLIST s p"
proof (induction rule: probe_run.induct)
  case (run_cons s e t es u)
  have "PTRLIST t p = PTRLIST s p"
    by (rule step_exits [OF assms run_cons.hyps(1) run_cons.prems(1)]) (use run_cons.prems in simp_all)
  moreover have "fslat_ok t" using step_effect [OF assms run_cons.hyps(1) run_cons.prems(1)] by blast
  ultimately show ?case using run_cons.IH run_cons.prems by simp
qed simp

text \<open>The entry a call records: its start and the beginning of its path.\<close>

lemma entry_records:
  assumes k: "helpers_ok k" "maps_ok k" and ok: "fslat_ok s" and sc: "scratch_ok s"
    and res: "resolves k (cx_root_dentry ctx) (cx_root_vfsmount ctx) (cx_dentry ctx)
      (cx_vfsmount ctx - MOUNT_MNT) names n" "length names \<le> 32" "n < 64" "[] \<notin> set names"
  obtains s' where "try_fslat_entry k ctx s = (Inr 0, s')" "scratch_ok s'" "fslat_ok s'"
    "PTRLIST s' (cx_pid ctx, cx_tgid ctx) =
       Some \<lparr>timestamp = ktime k (ticks (check_prof_reset k s)), path = frag_of (abs_path names)\<rparr>"
proof -
  have b: "PATHBUF s = [replicate PATHFRAGLEN 0]" using sc by (simp add: scratch_ok_def)
  have "scratch_ok (entry_start k s)" using sc by (simp add: scratch_ok_def entry_start_frame)
  from partial_d_path_fragment [OF k(1) res this] obtain ret tm ring where run:
    "partial_d_path k ctx (entry_start k s) = Some (ret, tm, (entry_start k s)\<lparr>
       PATHBUF := [frag_of (abs_path names)], PATHBUFTMP := ring, ticks := ticks (entry_start k s) + 4\<rparr>)"
    "0 \<le> sint ret" "ring_shape ring" by blast
  obtain r s' where e: "try_fslat_entry k ctx s = (r, s')" by (cases "try_fslat_entry k ctx s")
  have "r = Inr 0" "scratch_ok s'" "PTRLIST s' (cx_pid ctx, cx_tgid ctx) =
       Some \<lparr>timestamp = ktime k (ticks (check_prof_reset k s)), path = frag_of (abs_path names)\<rparr>"
    using e run lru_insert_laws(1) [OF k(2)]
    by (auto simp: entry_run [OF b] scratch_ok_def entry_counted_frame)
  then show ?thesis using that e entry_effect [OF k ok e] by blast
qed

section \<open>An example run\<close>

lemma demo_attached: "attached_state demo_state"
proof -
  have "stats_ok blank_stats" using ascii_utf8 [of "[]"] by (simp add: stats_ok_def blank_stats_def str_bytes_def)
  then show ?thesis by (simp add: attached_state_def demo_state_def list_all_iff)
qed

lemma demo_enter:
  assumes "fslat_ok s" "scratch_ok s"
  obtains t where "probe_step demo_kernel s (Enter fn demo_ctx) t" "fslat_ok t" "scratch_ok t"
proof -
  have res: "resolves demo_kernel (cx_root_dentry demo_ctx) (cx_root_vfsmount demo_ctx) (cx_dentry demo_ctx)
      (cx_vfsmount demo_ctx - MOUNT_MNT) [str_bytes ''log'', str_bytes ''data''] 3"
    using demo_resolves by (simp add: demo_ctx_def)
  obtain t where "try_fslat_entry demo_kernel demo_ctx s = (Inr 0, t)" "scratch_ok t" "fslat_ok t"
    by (rule entry_records [OF demo_kernel_ok assms res]) (auto simp: str_bytes_def)
  moreover from this have "probe_step demo_kernel s (Enter fn demo_ctx) t"
    by (intro probe_step.entering [of _ _ _ _ 0]) (simp add: fslat_entry_def return_code_def)
  ultimately show ?thesis using that by blast
qed

lemma leave_exists:
  assumes "maps_ok k" "fslat_ok s"
  obtains t where "probe_step k s (Leave fn ctx args) t" "fslat_ok t"
proof -
  obtain r t where "try_fslat_exit k ctx (fn_name fn) (args ! exit_arg fn) fn s = (r, t)"
    "r \<noteq> Inl Undefined" "fslat_ok t"
    by (rule exit_effect [OF assms])
  then have "\<exists>c. fslat_exit k fn ctx args s = Some (c, t)"
    by (auto simp: fslat_exit_def return_code_def split: sum.splits probe_error.splits)
  then show ?thesis using that \<open>fslat_ok t\<close> by (auto intro: probe_step.leaving)
qed

lemma demo_nested_run:
  "\<exists>t. probe_run demo_kernel demo_state [Enter VfsRead demo_ctx, Enter VfsReadv demo_ctx,
     Leave VfsReadv demo_ctx [0, 0, 0, 0, 0, 64], Leave VfsRead demo_ctx [0, 0, 0, 0, 64]] t"
proof -
  obtain s1 where s1: "probe_step demo_kernel demo_state (Enter VfsRead demo_ctx) s1" "fslat_ok s1" "scratch_ok s1"
    by (rule demo_enter [OF attached_ok [OF demo_attached] demo_scratch])
  obtain s2 where s2: "probe_step demo_kernel s1 (Enter VfsReadv demo_ctx) s2" "fslat_ok s2" "scratch_ok s2"
    by (rule demo_enter [OF s1(2,3)])
  obtain s3 where s3: "probe_step demo_kernel s2 (Leave VfsReadv demo_ctx [0, 0, 0, 0, 0, 64]) s3" "fslat_ok s3"
    by (rule leave_exists [OF demo_kernel_ok(2) s2(2)])
  obtain s4 where "probe_step demo_kernel s3 (Leave VfsRead demo_ctx [0, 0, 0, 0, 64]) s4"
    by (rule leave_exists [OF demo_kernel_ok(2) s3(2)])
  then show ?thesis using s1(1) s2(1) s3(1) by (blast intro: probe_run.intros)
qed

section \<open>Properties\<close>

text \<open>C11: a call whose path resolves is recorded with its start time and the beginning of its path.
  Whatever other tasks do before it is left, its record is either still the same or has been
  evicted, and it is still there when no other call has been entered meanwhile: no other task can
  change it. So an exit measures against its own entry or not at all.\<close>

theorem entry_kept_for_exit:
  assumes "helpers_ok k" "maps_ok k" "fslat_ok s" "scratch_ok s"
    and "resolves k (cx_root_dentry ctx) (cx_root_vfsmount ctx) (cx_dentry ctx)
      (cx_vfsmount ctx - MOUNT_MNT) names n" "length names \<le> 32" "n < 64" "[] \<notin> set names"
    and "probe_step k s (Enter fn ctx) t"
    and "probe_run k t es u" "\<forall>e \<in> set es. event_task e \<noteq> Some (cx_pid ctx, cx_tgid ctx)"
    and "rec = \<lparr>timestamp = ktime k (ticks (check_prof_reset k s)), path = frag_of (abs_path names)\<rparr>"
  shows "PTRLIST t (cx_pid ctx, cx_tgid ctx) = Some rec \<and>
    PTRLIST u (cx_pid ctx, cx_tgid ctx) \<in> {None, Some rec} \<and>
    ((\<forall>e \<in> set es. \<forall>fn' ctx'. e \<noteq> Enter fn' ctx') \<longrightarrow> PTRLIST u (cx_pid ctx, cx_tgid ctx) = Some rec)"
proof -
  obtain s' where s': "try_fslat_entry k ctx s = (Inr 0, s')" "fslat_ok s'"
    "PTRLIST s' (cx_pid ctx, cx_tgid ctx) = Some rec"
    using entry_records [OF assms(1-8)] assms(12) by metis
  have t: "t = s'" using assms(9) s'(1) by (auto simp: fslat_entry_def return_code_def elim!: step_enterE)
  then have "PTRLIST u (cx_pid ctx, cx_tgid ctx) \<in> {None, PTRLIST t (cx_pid ctx, cx_tgid ctx)}"
    using run_others [OF assms(1,2,10) _ assms(11)] s'(2) by simp
  then show ?thesis using run_exits [OF assms(1,2,10) _ assms(11)] t s'(2,3) by auto
qed

lemma entry_kept_for_exit_witness:
  "\<exists>t. probe_step demo_kernel demo_state (Enter VfsRead demo_ctx) t \<and>
     PTRLIST (t\<lparr>PROF_CTRL := [1]\<rparr>) (7, 7) = Some \<lparr>timestamp = 0, path = frag_of (str_bytes ''/data/log'')\<rparr>"
proof -
  obtain t where t: "probe_step demo_kernel demo_state (Enter VfsRead demo_ctx) t"
    by (rule demo_enter [OF attached_ok [OF demo_attached] demo_scratch])
  have run: "probe_run demo_kernel t [ResetSignal] (t\<lparr>PROF_CTRL := [1]\<rparr>)"
    by (rule probe_run.run_cons [OF probe_step.resetting probe_run.run_nil])
  have res: "resolves demo_kernel (cx_root_dentry demo_ctx) (cx_root_vfsmount demo_ctx) (cx_dentry demo_ctx)
      (cx_vfsmount demo_ctx - MOUNT_MNT) [str_bytes ''log'', str_bytes ''data''] 3"
    using demo_resolves by (simp add: demo_ctx_def)
  have "(\<forall>e \<in> set [ResetSignal]. \<forall>fn' ctx'. e \<noteq> Enter fn' ctx') \<longrightarrow>
    PTRLIST (t\<lparr>PROF_CTRL := [1]\<rparr>) (cx_pid demo_ctx, cx_tgid demo_ctx) =
      Some \<lparr>timestamp = ktime demo_kernel (ticks (check_prof_reset demo_kernel demo_state)),
        path = frag_of (abs_path [str_bytes ''log'', str_bytes ''data''])\<rparr>"
    by (rule entry_kept_for_exit [OF demo_kernel_ok attached_ok [OF demo_attached] demo_scratch res _ _ _ t run _ refl,
        THEN conjunct2, THEN conjunct2]) (auto simp: str_bytes_def)
  moreover have "ktime demo_kernel (ticks (check_prof_reset demo_kernel demo_state)) = 0"
    by (simp add: demo_kernel_def demo_state_def check_prof_reset_def index_get_def)
  ultimately have "PTRLIST (t\<lparr>PROF_CTRL := [1]\<rparr>) (7, 7) =
      Some \<lparr>timestamp = 0, path = frag_of (str_bytes ''/data/log'')\<rparr>"
    by (simp add: demo_ctx_def abs_path_def str_bytes_def)
  with t show ?thesis by blast
qed

text \<open>C4: leaving a call successfully updates exactly the entries of the function's own map whose
  prefix the recorded path begins with, among the entries the loop reaches: each gets the sample
  (the time since the entry and the returned value), and is cleared with the time of publication
  when its interval is over. All entries are reached when a slot can be reserved for each message;
  otherwise the loop ends behind the first entry that is due and for which none can be reserved.
  The record of the call is removed either way.\<close>

theorem exit_updates_matching:
  assumes "maps_ok k" "fslat_ok s" "length (STATS s fn) = 8"
    and "PTRLIST s (cx_pid ctx, cx_tgid ctx) = Some e" "0 \<le> sint ret"
    and "now = ktime k (ticks (check_prof_reset k s))"
    and "j = reached k (reserves s) (\<lambda>f. matches e f \<and> due now f) (STATS s fn)"
  shows "\<exists>s'. try_fslat_exit k ctx (fn_name fn) ret fn s = (Inr 0, s') \<and>
    STATS s' fn = map (stat_after now ret e) (take j (STATS s fn)) @ drop j (STATS s fn) \<and>
    PTRLIST s' (cx_pid ctx, cx_tgid ctx) = None \<and>
    ((\<forall>n. reserve k n \<noteq> None) \<longrightarrow> STATS s' fn = map (stat_after now ret e) (STATS s fn)) \<and>
    (j < 8 \<longrightarrow> (\<exists>n. reserve k n = None) \<and> matches e (STATS s fn ! (j - 1)) \<and> due now (STATS s fn ! (j - 1)))"
proof -
  let ?s0 = "check_prof_reset k s"
  let ?s1 = "?s0\<lparr>ticks := Suc (ticks ?s0)\<rparr>"
  have c: "COUNTER s \<noteq> []" "length (path e) = PATHFRAGLEN"
    using assms(2,4) unfolding fslat_ok_def by auto
  have ok: "fslat_ok ?s1" using assms(2) by (simp add: check_prof_reset_ok)
  obtain s2 where s2: "exit_loop k fn (fn_name fn) ret now e [0..<8] ?s1 = (Inr (), s2)"
    "STATS s2 fn = map (stat_after now ret e) (take j (STATS s fn)) @ drop j (STATS s fn)"
    using exit_loop_stats [OF assms(1) c(2) ok, of fn "[]" "STATS s fn" ret now] assms(3,7)
    by (auto simp: Let_def)
  have "(\<forall>n. reserve k n \<noteq> None) \<longrightarrow> j = length (STATS s fn)" using assms(7) reached_all by blast
  moreover have "j < 8 \<longrightarrow> (\<exists>n. reserve k n = None \<and> matches e (STATS s fn ! (j - 1)) \<and> due now (STATS s fn ! (j - 1)))"
    using reached_stops [of k "reserves s" "\<lambda>f. matches e f \<and> due now f" "STATS s fn"] assms(3,7) by simp
  ultimately show ?thesis
    using exit_run [OF c(1), of k ctx "fn_name fn" ret fn] assms(4-6) s2 by (auto simp: Let_def)
qed

lemma exit_updates_matching_witness:
  "\<exists>s'. try_fslat_exit demo_kernel demo_ctx (fn_name VfsRead) 64 VfsRead
     (demo_state\<lparr>PTRLIST := [(7, 7) \<mapsto> \<lparr>timestamp = 0, path = frag_of (str_bytes ''/data/log'')\<rparr>]\<rparr>) = (Inr 0, s') \<and>
   STATS s' VfsRead = map (stat_after 0 64 \<lparr>timestamp = 0, path = frag_of (str_bytes ''/data/log'')\<rparr>)
     (STATS demo_state VfsRead)"
proof -
  let ?e = "\<lparr>timestamp = 0, path = frag_of (str_bytes ''/data/log'')\<rparr>"
  have "fslat_ok (demo_state\<lparr>PTRLIST := [(7, 7) \<mapsto> ?e]\<rparr>)"
    using attached_ok [OF demo_attached] by (auto simp: fslat_ok_def frag_shape_def split: if_splits)
  moreover have "\<forall>n. reserve demo_kernel n \<noteq> None" by (simp add: demo_kernel_def)
  moreover have "ktime demo_kernel (ticks (check_prof_reset demo_kernel (demo_state\<lparr>PTRLIST := [(7, 7) \<mapsto> ?e]\<rparr>))) = 0"
    by (simp add: demo_kernel_def demo_state_def check_prof_reset_def index_get_def)
  ultimately show ?thesis
    using exit_updates_matching [OF demo_kernel_ok(2), of "demo_state\<lparr>PTRLIST := [(7, 7) \<mapsto> ?e]\<rparr>" VfsRead demo_ctx ?e 64 _ _, OF _ _ _ _ refl refl]
    by (auto simp: demo_ctx_def demo_state_def)
qed

text \<open>C21: the table has one record per task. When a task enters a second instrumented call before it
  leaves the first (a file system stacked on another), the inner exit removes the only record, and
  the outer exit changes neither statistics nor stream: the outer call is not measured.\<close>

theorem nested_call_unmeasured:
  assumes "helpers_ok k" "maps_ok k" "fslat_ok s" "cx_pid ctx' = cx_pid ctx" "cx_tgid ctx' = cx_tgid ctx"
    and "probe_run k s [Enter fn ctx, Enter fn' ctx', Leave fn' ctx' args', Leave fn ctx args] t"
  shows "\<exists>u. probe_run k s [Enter fn ctx, Enter fn' ctx', Leave fn' ctx' args'] u \<and>
    STATS t = STATS u \<and> LDMS_SHARED_STREAM t = LDMS_SHARED_STREAM u"
proof -
  from assms(6) obtain s1 s2 u where steps: "probe_step k s (Enter fn ctx) s1"
    "probe_step k s1 (Enter fn' ctx') s2" "probe_step k s2 (Leave fn' ctx' args') u"
    "probe_step k u (Leave fn ctx args) t"
    by (elim run_consE run_nilE) simp
  have ok2: "fslat_ok s2"
    using step_effect [OF assms(1,2) steps(1) assms(3)] step_effect [OF assms(1,2) steps(2)] by blast
  obtain r s3 where "try_fslat_exit k ctx' (fn_name fn') (args' ! exit_arg fn') fn' s2 = (r, s3)" "fslat_ok s3"
    "PTRLIST s3 = (PTRLIST s2)((cx_pid ctx', cx_tgid ctx') := None)"
    by (rule exit_effect [OF assms(2) ok2])
  then have u: "fslat_ok u" "PTRLIST u (cx_pid ctx, cx_tgid ctx) = None"
    using steps(3) assms(4,5) by (auto simp: fslat_exit_def elim!: step_leaveE dest!: return_code_Some)
  have "COUNTER u \<noteq> []" using u(1) by (simp add: fslat_ok_def)
  then have "t = check_prof_reset k u"
    using steps(4) u(2) exit_run [of u k ctx "fn_name fn" "args ! exit_arg fn" fn]
    by (auto simp: fslat_exit_def return_code_def elim!: step_leaveE)
  then show ?thesis using steps(1-3) by (auto intro!: exI [of _ u] probe_run.intros)
qed

lemma nested_call_unmeasured_witness:
  "\<exists>t u. probe_run demo_kernel demo_state [Enter VfsRead demo_ctx, Enter VfsReadv demo_ctx,
     Leave VfsReadv demo_ctx [0, 0, 0, 0, 0, 64], Leave VfsRead demo_ctx [0, 0, 0, 0, 64]] t \<and>
     probe_run demo_kernel demo_state [Enter VfsRead demo_ctx, Enter VfsReadv demo_ctx,
       Leave VfsReadv demo_ctx [0, 0, 0, 0, 0, 64]] u \<and> STATS t = STATS u"
  using demo_nested_run nested_call_unmeasured [OF demo_kernel_ok attached_ok [OF demo_attached] refl refl] by blast

end
