(* ===== verification/Fslat_Race.thy ===== *)
theory Fslat_Race
  imports Fslat_Trace
begin

text \<open>
  Exits that overlap. The counter of messages is an array that all CPUs share: an exit reads it
  while it holds the lock of a statistics entry, puts its message after releasing the lock, and
  then reads the counter again and writes it back. Here \<open>try_fslat_exit\<close> is split into these steps,
  so that any number of exits can be under way at once. A run of \<open>Fslat_Trace\<close>, in which one
  handler follows another, is a run of this theory; of the others the lemmas say what is
  left of the numbering, and \<open>duplicate_numbers\<close> shows a reachable state with two messages of the
  same number. An entry, which touches only the scratch buffers of its own CPU and adds one
  record to the table of calls, remains one step, and so does a section under the lock.
\<close>

section \<open>One exit in steps\<close>

record exit_job =
  job_fn :: vfs_fn
  job_task :: pid_tgid
  job_ret :: u64
  job_now :: u64
  job_entry :: entry_rec

datatype phase =
    Idle
  | Scan exit_job "nat list"
  | Checked exit_job nat "nat list" bool
  | Sampled exit_job "nat list" event_fields stats_snapshot
  | Published exit_job "nat list"
  | Loaded exit_job "nat list" u64

text \<open>From the start of the handler to its loop.\<close>

definition exit_begin :: "kernel \<Rightarrow> vfs_fn \<Rightarrow> call_ctx \<Rightarrow> i64 \<Rightarrow> phase probe" where
  "exit_begin k fn ctx ret = (\<lambda>s.
     let s = check_prof_reset k s in
     case index_get (COUNTER s) 0 of
       None \<Rightarrow> (Inl (Code 1), s)
     | Some _ \<Rightarrow>
         let pid_tgid = (cx_pid ctx, cx_tgid ctx) in
         case PTRLIST s pid_tgid of
           None \<Rightarrow> (Inr Idle, s)
         | Some entryrec \<Rightarrow>
             if sint ret < 0 then (Inl (Code 1), s\<lparr>PTRLIST := (PTRLIST s)(pid_tgid := None)\<rparr>)
             else
               let (now, s) = bpf_ktime_get_ns k s in
               (Inr (Scan \<lparr>job_fn = fn, job_task = pid_tgid, job_ret = ret, job_now = now,
                  job_entry = entryrec\<rparr> [0..<unat NUM_PATH_PREFIX]), s))"

text \<open>The locked section of an entry that is due, and of one that is not.\<close>

definition locked_publish :: "exit_job \<Rightarrow> nat \<Rightarrow> fslat \<Rightarrow> event_fields \<times> stats_snapshot \<times> fslat" where
  "locked_publish j idx s =
     (let fsstat = (STATS s (job_fn j) ! idx)\<lparr>lock := True\<rparr>;
          fsstat = update_stats_locked (job_now j - timestamp (job_entry j)) (job_ret j) fsstat;
          snapshot = snapshot_of fsstat;
          fsstat = clear_stats_locked (job_now j) fsstat;
          eventf = \<lparr>ev_id = str_bytes ''fslat/v2'', ev_monotonic = job_now j, ev_seq = COUNTER s ! 0\<rparr>;
          fsstat = fsstat\<lparr>lock := False\<rparr>
      in (eventf, snapshot, set_stat (job_fn j) idx fsstat s))"

definition locked_update :: "exit_job \<Rightarrow> nat \<Rightarrow> fslat \<Rightarrow> fslat" where
  "locked_update j idx s =
     (let fsstat = (STATS s (job_fn j) ! idx)\<lparr>lock := True\<rparr>;
          fsstat = update_stats_locked (job_now j - timestamp (job_entry j)) (job_ret j) fsstat
      in set_stat (job_fn j) idx (fsstat\<lparr>lock := False\<rparr>) s)"

fun exit_micro :: "kernel \<Rightarrow> phase \<Rightarrow> phase probe" where
  "exit_micro k Idle s = (Inr Idle, s)"
| "exit_micro k (Scan j []) s =
     (let (t_end, s) = bpf_ktime_get_ns k s;
          s = s\<lparr>PROF_EXIT_HIST := hist_increment k (log2_bucket (t_end - job_now j)) (PROF_EXIT_HIST s)\<rparr>
      in (Inr Idle, s\<lparr>PTRLIST := (PTRLIST s)(job_task j := None)\<rparr>))"
| "exit_micro k (Scan j (idx # idxs)) s =
     (case index_get (STATS s (job_fn j)) idx of
        None \<Rightarrow> (Inr (Scan j []), s)
      | Some fsstat \<Rightarrow>
          (case starts_with (path_prefix fsstat) (path (job_entry j)) (unat (pathlen fsstat)) of
             None \<Rightarrow> (Inl Undefined, s)
           | Some False \<Rightarrow> (Inr (Scan j idxs), s)
           | Some True \<Rightarrow> (Inr (Checked j idx idxs (job_now j - lastpublish fsstat > AGG_INTERVAL)), s)))"
| "exit_micro k (Checked j idx idxs True) s =
     (let (eventf, snapshot, s) = locked_publish j idx s in (Inr (Sampled j idxs eventf snapshot), s))"
| "exit_micro k (Checked j idx idxs False) s = (Inr (Scan j idxs), locked_update j idx s)"
| "exit_micro k (Sampled j idxs eventf snapshot) s =
     (case ringbuf_put k eventf snapshot (fn_name (job_fn j)) (str_bytes ''ns'') s of
        (Inl Undefined, s) \<Rightarrow> (Inl Undefined, s)
      | (Inl (Code _), s) \<Rightarrow>
          (case index_get (PROF_RINGBUF_DROPS s) 0 of
             None \<Rightarrow> (Inr (Scan j []), s)
           | Some drops \<Rightarrow> (Inr (Scan j []), s\<lparr>PROF_RINGBUF_DROPS := (PROF_RINGBUF_DROPS s)[0 := drops + 1]\<rparr>))
      | (Inr _, s) \<Rightarrow> (Inr (Published j idxs), s))"
| "exit_micro k (Published j idxs) s = (Inr (Loaded j idxs (COUNTER s ! 0)), s)"
| "exit_micro k (Loaded j idxs n) s = (Inr (Scan j idxs), s\<lparr>COUNTER := (COUNTER s)[0 := n + 1]\<rparr>)"

text \<open>
  The states: the maps and the phase of each handler that runs. An entry or a reset request can happen at
  any moment, an idle handler can start an exit, and a busy one can take its next step.
\<close>

inductive race_step :: "kernel \<Rightarrow> fslat \<times> (nat \<Rightarrow> phase) \<Rightarrow> fslat \<times> (nat \<Rightarrow> phase) \<Rightarrow> bool" for k where
  others: "probe_step k s e s' \<Longrightarrow> (\<And>fn ctx args. e \<noteq> Leave fn ctx args) \<Longrightarrow> race_step k (s, ph) (s', ph)"
| begins: "ph i = Idle \<Longrightarrow> exit_begin k fn ctx (args ! exit_arg fn) s = (Inr p, s') \<Longrightarrow>
     race_step k (s, ph) (s', ph(i := p))"
| refuses: "ph i = Idle \<Longrightarrow> exit_begin k fn ctx (args ! exit_arg fn) s = (Inl (Code c), s') \<Longrightarrow>
     race_step k (s, ph) (s', ph)"
| advances: "exit_micro k (ph i) s = (Inr p, s') \<Longrightarrow> race_step k (s, ph) (s', ph(i := p))"

abbreviation race_run :: "kernel \<Rightarrow> fslat \<times> (nat \<Rightarrow> phase) \<Rightarrow> fslat \<times> (nat \<Rightarrow> phase) \<Rightarrow> bool" where
  "race_run k \<equiv> (race_step k)\<^sup>*\<^sup>*"

section \<open>Handlers that follow one another\<close>

definition micro :: "kernel \<Rightarrow> phase \<times> fslat \<Rightarrow> phase \<times> fslat \<Rightarrow> bool" where
  "micro k c c' \<longleftrightarrow> (case exit_micro k (fst c) (snd c) of (r, s') \<Rightarrow> r = Inr (fst c') \<and> s' = snd c')"

lemma microI: "exit_micro k p s = (Inr p', s') \<Longrightarrow> micro k (p, s) (p', s')"
  by (simp add: micro_def)

lemma micro_run_race:
  "(micro k)\<^sup>*\<^sup>* (p, s) (p', s') \<Longrightarrow> race_run k (s, ph(i := p)) (s', ph(i := p'))"
proof (induction "(p', s')" arbitrary: p' s' rule: rtranclp_induct)
  case (step c)
  then have "race_step k (snd c, ph(i := fst c)) (s', (ph(i := fst c))(i := p'))"
    by (intro race_step.advances) (auto simp: micro_def split: prod.splits)
  with step show ?case by (cases c) (simp add: rtranclp.rtrancl_into_rtrancl)
qed simp

text \<open>The steps of one entry are what \<open>exit_entry\<close> does in one.\<close>

lemma entry_in_steps:
  assumes "exit_entry k (job_fn j) (fn_name (job_fn j)) (job_ret j) (job_now j) (job_entry j) idx f s = (Inr b, s')"
    and "f = STATS s (job_fn j) ! idx"
  shows "(micro k)\<^sup>*\<^sup>* (Checked j idx idxs (job_now j - lastpublish f > AGG_INTERVAL), s)
    (Scan j (if b then idxs else []), s')"
proof (cases "job_now j - lastpublish f > AGG_INTERVAL")
  case False
  then have "micro k (Checked j idx idxs False, s) (Scan j (if b then idxs else []), s')"
    using assms by (intro microI) (auto simp: exit_entry_def locked_update_def Let_def)
  with False show ?thesis by auto
next
  case True
  obtain ev sn s1 where l: "locked_publish j idx s = (ev, sn, s1)" by (cases "locked_publish j idx s") auto
  have 1: "micro k (Checked j idx idxs True, s) (Sampled j idxs ev sn, s1)"
    by (rule microI) (simp add: l)
  obtain r s2 where put: "ringbuf_put k ev sn (fn_name (job_fn j)) (str_bytes ''ns'') s1 = (r, s2)"
    by (cases "ringbuf_put k ev sn (fn_name (job_fn j)) (str_bytes ''ns'') s1")
  have out: "(case r of Inl Undefined \<Rightarrow> (Inl Undefined, s2)
     | Inl (Code _) \<Rightarrow> (Inr False, case index_get (PROF_RINGBUF_DROPS s2) 0 of None \<Rightarrow> s2
         | Some drops \<Rightarrow> s2\<lparr>PROF_RINGBUF_DROPS := (PROF_RINGBUF_DROPS s2)[0 := drops + 1]\<rparr>)
     | Inr _ \<Rightarrow> (Inr True, s2\<lparr>COUNTER := (COUNTER s2)[0 := COUNTER s2 ! 0 + 1]\<rparr>)) = (Inr b, s')"
    using assms l put True
    by (auto simp: exit_entry_def locked_publish_def Let_def split: sum.splits probe_error.splits option.splits)
  show ?thesis
  proof (cases r)
    case (Inl e)
    with out obtain c where e: "r = Inl (Code c)" "\<not> b" by (cases e) auto
    then have "micro k (Sampled j idxs ev sn, s1) (Scan j [], s')"
      using out by (intro microI) (auto simp: put split: option.splits)
    with 1 True e(2) show ?thesis by (auto intro: converse_rtranclp_into_rtranclp)
  next
    case (Inr x)
    have 2: "micro k (Sampled j idxs ev sn, s1) (Published j idxs, s2)" by (rule microI) (simp add: put Inr)
    have 3: "micro k (Published j idxs, s2) (Loaded j idxs (COUNTER s2 ! 0), s2)" by (rule microI) simp
    have 4: "micro k (Loaded j idxs (COUNTER s2 ! 0), s2) (Scan j idxs, s')" "b"
      using out by (auto simp: Inr intro!: microI)
    from 1 2 3 4(1) have "(micro k)\<^sup>*\<^sup>* (Checked j idx idxs True, s) (Scan j idxs, s')"
      by (meson converse_rtranclp_into_rtranclp rtranclp.rtrancl_refl)
    with True 4(2) show ?thesis by simp
  qed
qed

lemma loop_in_steps:
  "exit_loop k (job_fn j) (fn_name (job_fn j)) (job_ret j) (job_now j) (job_entry j) idxs s = (Inr (), s') \<Longrightarrow>
   (micro k)\<^sup>*\<^sup>* (Scan j idxs, s) (Scan j [], s')"
proof (induction idxs arbitrary: s)
  case (Cons idx idxs)
  show ?case
  proof (cases "index_get (STATS s (job_fn j)) idx")
    case None
    then have "micro k (Scan j (idx # idxs), s) (Scan j [], s')" using Cons.prems by (intro microI) simp
    then show ?thesis by auto
  next
    case (Some f)
    then have f: "f = STATS s (job_fn j) ! idx" by (simp add: index_get_def split: if_splits)
    obtain m where m: "starts_with (path_prefix f) (path (job_entry j)) (unat (pathlen f)) = Some m"
      using Cons.prems Some by (auto split: option.splits)
    show ?thesis
    proof (cases m)
      case False
      then have "micro k (Scan j (idx # idxs), s) (Scan j idxs, s)" using Some m by (intro microI) simp
      moreover have "(micro k)\<^sup>*\<^sup>* (Scan j idxs, s) (Scan j [], s')"
        using Cons False Some m by simp
      ultimately show ?thesis by (rule converse_rtranclp_into_rtranclp)
    next
      case True
      obtain b s1 where e: "exit_entry k (job_fn j) (fn_name (job_fn j)) (job_ret j) (job_now j) (job_entry j) idx f s = (Inr b, s1)"
        "(if b then exit_loop k (job_fn j) (fn_name (job_fn j)) (job_ret j) (job_now j) (job_entry j) idxs s1 else (Inr (), s1)) = (Inr (), s')"
        using Cons.prems Some m True by (auto split: prod.splits sum.splits bool.splits)
      have 1: "micro k (Scan j (idx # idxs), s) (Checked j idx idxs (job_now j - lastpublish f > AGG_INTERVAL), s)"
        using Some m True by (intro microI) simp
      note 2 = entry_in_steps [OF e(1) f, of idxs]
      have "(micro k)\<^sup>*\<^sup>* (Scan j (if b then idxs else []), s1) (Scan j [], s')"
        using e(2) Cons.IH [of s1] by (cases b) auto
      with 1 2 show ?thesis by (meson converse_rtranclp_into_rtranclp rtranclp_trans)
    qed
  qed
qed simp

text \<open>A whole exit, and a run of handlers that follow one another.\<close>

lemma exit_in_steps:
  assumes k: "maps_ok k" and ok: "fslat_ok s" and idle: "ph i = Idle"
    and run: "fslat_exit k fn ctx args s = Some (c, s')"
  shows "race_run k (s, ph) (s', ph)"
proof -
  let ?ret = "args ! exit_arg fn" and ?s0 = "check_prof_reset k s" and ?p = "(cx_pid ctx, cx_tgid ctx)"
  have c: "COUNTER s \<noteq> []" using ok by (simp add: fslat_ok_def)
  then have "COUNTER ?s0 \<noteq> []" by simp
  then have start: "exit_begin k fn ctx ?ret s = (case PTRLIST s ?p of
       None \<Rightarrow> (Inr Idle, ?s0)
     | Some e \<Rightarrow> if sint ?ret < 0 then (Inl (Code 1), ?s0\<lparr>PTRLIST := (PTRLIST s)(?p := None)\<rparr>)
         else (Inr (Scan \<lparr>job_fn = fn, job_task = ?p, job_ret = ?ret, job_now = ktime k (ticks ?s0), job_entry = e\<rparr>
           [0..<8]), ?s0\<lparr>ticks := Suc (ticks ?s0)\<rparr>))"
    by (simp add: exit_begin_def Let_def index_get_def bpf_ktime_get_ns_def split: option.splits)
  have idem: "ph(i := Idle) = ph" using idle by auto
  obtain r where r: "try_fslat_exit k ctx (fn_name fn) ?ret fn s = (r, s')" "r \<noteq> Inl Undefined"
    using run by (cases "try_fslat_exit k ctx (fn_name fn) ?ret fn s")
      (auto simp: fslat_exit_def dest!: return_code_Some)
  note whole = exit_run [OF c, of k ctx "fn_name fn" ?ret fn, unfolded Let_def]
  show ?thesis
  proof (cases "PTRLIST s ?p")
    case None
    with start r whole have "race_step k (s, ph) (s', ph(i := Idle))"
      by (intro race_step.begins [of ph i, OF idle]) auto
    then show ?thesis by (simp add: idem)
  next
    case (Some e)
    show ?thesis
    proof (cases "sint ?ret < 0")
      case True
      with Some start r whole have "race_step k (s, ph) (s', ph)"
        by (intro race_step.refuses [of ph i k fn ctx args s 1, OF idle]) auto
      then show ?thesis by simp
    next
      case False
      let ?j = "\<lparr>job_fn = fn, job_task = ?p, job_ret = ?ret, job_now = ktime k (ticks ?s0), job_entry = e\<rparr>"
        and ?s1 = "?s0\<lparr>ticks := Suc (ticks ?s0)\<rparr>"
      let ?ph = "ph(i := Scan ?j [0..<8])"
      have "length (path e) = PATHFRAGLEN" using ok Some unfolding fslat_ok_def by blast
      moreover have "fslat_ok ?s1" using ok by (simp add: check_prof_reset_ok)
      ultimately obtain s2 where
        l: "exit_loop k fn (fn_name fn) ?ret (ktime k (ticks ?s0)) e [0..<8] ?s1 = (Inr (), s2)"
        using exit_loop_ok [OF k] by blast
      have "race_step k (s, ph) (?s1, ?ph)"
        by (rule race_step.begins [of ph i, OF idle]) (use start Some False in simp)
      moreover have "race_run k (?s1, ?ph) (s2, ph(i := Scan ?j []))"
        using l by (intro micro_run_race loop_in_steps) simp
      moreover have "race_step k (s2, ph(i := Scan ?j [])) (s', (ph(i := Scan ?j []))(i := Idle))"
        by (rule race_step.advances) (use r whole Some False l in \<open>auto simp: bpf_ktime_get_ns_def\<close>)
      ultimately show ?thesis
        by (simp add: idem)
    qed
  qed
qed

lemma sequential_in_steps:
  assumes "helpers_ok k" "maps_ok k"
  shows "probe_run k s es t \<Longrightarrow> fslat_ok s \<Longrightarrow> race_run k (s, \<lambda>_. Idle) (t, \<lambda>_. Idle)"
proof (induction rule: probe_run.induct)
  case (run_cons s e t es u)
  have "race_run k (s, \<lambda>_. Idle) (t, \<lambda>_. Idle)"
  proof (cases "\<exists>fn ctx args. e = Leave fn ctx args")
    case True
    then show ?thesis using run_cons.hyps(1) exit_in_steps [OF assms(2) run_cons.prems, of "\<lambda>_. Idle" 0]
      by (auto elim!: step_leaveE)
  qed (use run_cons.hyps(1) in \<open>blast intro: race_step.others\<close>)
  moreover have "fslat_ok t" using step_effect [OF assms run_cons.hyps(1) run_cons.prems] by blast
  ultimately show ?case using run_cons.IH by (meson rtranclp_trans)
qed simp

section \<open>What overlapping exits keep\<close>

text \<open>
  An exit is between its message and the write of the counter. Every number that is in the counter, or
  was read from it to be increased, leaves room for one message per exit in this region.
\<close>

fun in_flight :: "phase \<Rightarrow> bool" where
  "in_flight (Published j idxs) = True"
| "in_flight (Loaded j idxs n) = True"
| "in_flight _ = False"

definition job_ok :: "exit_job \<Rightarrow> bool" where
  "job_ok j \<longleftrightarrow> length (path (job_entry j)) = PATHFRAGLEN"

fun phase_ok :: "fslat \<Rightarrow> nat \<Rightarrow> phase \<Rightarrow> bool" where
  "phase_ok s busy Idle = True"
| "phase_ok s busy (Scan j idxs) = job_ok j"
| "phase_ok s busy (Checked j idx idxs d) = (job_ok j \<and> idx < length (STATS s (job_fn j)))"
| "phase_ok s busy (Sampled j idxs ev sn) = (job_ok j \<and>
     valid_utf8 (take (min (unat (snap_pathlen sn)) PATHFRAGLEN) (snap_prefix sn)) \<and>
     (\<exists>n \<le> length (LDMS_SHARED_STREAM s).
        ev = \<lparr>ev_id = str_bytes ''fslat/v2'', ev_monotonic = job_now j, ev_seq = of_nat n\<rparr>))"
| "phase_ok s busy (Published j idxs) = job_ok j"
| "phase_ok s busy (Loaded j idxs v) = (job_ok j \<and>
     (\<exists>n. v = of_nat n \<and> n + busy \<le> length (LDMS_SHARED_STREAM s)))"

definition busy_count :: "(nat \<Rightarrow> phase) \<Rightarrow> nat" where
  "busy_count ph = card {i. in_flight (ph i)}"

definition race_ok :: "fslat \<Rightarrow> (nat \<Rightarrow> phase) \<Rightarrow> bool" where
  "race_ok s ph \<longleftrightarrow> shape_ok s \<and> finite {i. in_flight (ph i)} \<and>
     (\<exists>n. COUNTER s = [of_nat n] \<and> n + busy_count ph \<le> length (LDMS_SHARED_STREAM s)) \<and>
     (\<forall>i < length (LDMS_SHARED_STREAM s). \<exists>n \<le> i. message_ok n (LDMS_SHARED_STREAM s ! i)) \<and>
     (\<forall>i. phase_ok s (busy_count ph) (ph i))"

lemma race_okI:
  assumes "shape_ok s" "finite {i. in_flight (ph i)}" "COUNTER s = [of_nat n]"
    "n + busy_count ph \<le> length (LDMS_SHARED_STREAM s)"
    "\<And>i. i < length (LDMS_SHARED_STREAM s) \<Longrightarrow> \<exists>n \<le> i. message_ok n (LDMS_SHARED_STREAM s ! i)"
    "\<And>i. phase_ok s (busy_count ph) (ph i)"
  shows "race_ok s ph"
  using assms unfolding race_ok_def by blast

text \<open>How a change of phase changes the number of exits in the region.\<close>

lemma busy_upd:
  assumes "finite {i. in_flight (ph i)}"
  shows "finite {x. in_flight ((ph(i := p)) x)}"
    "busy_count (ph(i := p)) + of_bool (in_flight (ph i)) = busy_count ph + of_bool (in_flight p)"
proof -
  have eq: "{x. in_flight ((ph(i := p)) x)} = (if in_flight p then insert i {x. in_flight (ph x)} else {x. in_flight (ph x)} - {i})"
    by auto
  show "finite {x. in_flight ((ph(i := p)) x)}" unfolding eq using assms by simp
  show "busy_count (ph(i := p)) + of_bool (in_flight (ph i)) = busy_count ph + of_bool (in_flight p)"
    unfolding busy_count_def eq using assms card_Suc_Diff1 [OF assms, of i]
    by (cases "in_flight p"; cases "in_flight (ph i)") (auto simp: insert_absorb)
qed

text \<open>The phases of the other exits stay well formed while the stream grows as much as the region.\<close>

lemma phase_ok_mono:
  assumes "phase_ok s busy p" "length (LDMS_SHARED_STREAM s) \<le> length (LDMS_SHARED_STREAM s')"
    "busy' + length (LDMS_SHARED_STREAM s) \<le> busy + length (LDMS_SHARED_STREAM s')"
    "\<And>g. length (STATS s' g) = length (STATS s g)"
  shows "phase_ok s' busy' p"
proof (cases p)
  case (Sampled j idxs ev sn)
  then show ?thesis using assms by (auto intro: order_trans)
next
  case (Loaded j idxs v)
  then obtain n where "v = of_nat n" "n + busy \<le> length (LDMS_SHARED_STREAM s)" "job_ok j" using assms(1) by auto
  moreover from this have "n + busy' \<le> length (LDMS_SHARED_STREAM s')" using assms(2,3) by linarith
  ultimately show ?thesis using Loaded by auto
qed (use assms in auto)

lemma race_okD:
  assumes "race_ok s ph"
  shows "shape_ok s" "finite {i. in_flight (ph i)}" "phase_ok s (busy_count ph) (ph i)"
    "i < length (LDMS_SHARED_STREAM s) \<Longrightarrow> \<exists>n \<le> i. message_ok n (LDMS_SHARED_STREAM s ! i)"
    "\<exists>n. COUNTER s = [of_nat n] \<and> n + busy_count ph \<le> length (LDMS_SHARED_STREAM s)"
  using assms unfolding race_ok_def by blast+

lemma race_ok_step:
  assumes ok: "race_ok s ph" and shape: "shape_ok s'"
    and len: "\<And>g. length (STATS s' g) = length (STATS s g)"
    and stream: "LDMS_SHARED_STREAM s' = LDMS_SHARED_STREAM s @ ms"
    and new: "\<And>m. m \<in> set ms \<Longrightarrow> \<exists>n \<le> length (LDMS_SHARED_STREAM s). message_ok n m"
    and flight: "of_bool (in_flight p) \<le> of_bool (in_flight (ph i)) + length ms"
    and counter: "COUNTER s' = COUNTER s \<or> (\<exists>n. COUNTER s' = [of_nat n] \<and>
      n + busy_count (ph(i := p)) \<le> length (LDMS_SHARED_STREAM s'))"
    and phase: "phase_ok s' (busy_count (ph(i := p))) p"
  shows "race_ok s' (ph(i := p))"
proof -
  note b = busy_upd [OF race_okD(2) [OF ok], of i p]
  have grow: "busy_count (ph(i := p)) + length (LDMS_SHARED_STREAM s) \<le> busy_count ph + length (LDMS_SHARED_STREAM s')"
    using b(2) flight stream by (cases "in_flight p"; cases "in_flight (ph i)") auto
  obtain n where n: "COUNTER s = [of_nat n]" "n + busy_count ph \<le> length (LDMS_SHARED_STREAM s)"
    using race_okD(5) [OF ok] by blast
  obtain n' where counter': "COUNTER s' = [of_nat n']" "n' + busy_count (ph(i := p)) \<le> length (LDMS_SHARED_STREAM s')"
  proof -
    have "\<exists>n. COUNTER s' = [of_nat n] \<and> n + busy_count (ph(i := p)) \<le> length (LDMS_SHARED_STREAM s')"
      using counter
    proof
      assume "COUNTER s' = COUNTER s"
      moreover have "n + busy_count (ph(i := p)) \<le> length (LDMS_SHARED_STREAM s')" using grow n(2) by linarith
      ultimately show ?thesis using n(1) by auto
    qed
    then show ?thesis using that by blast
  qed
  have msgs: "\<exists>n \<le> x. message_ok n (LDMS_SHARED_STREAM s' ! x)" if "x < length (LDMS_SHARED_STREAM s')" for x
  proof (cases "x < length (LDMS_SHARED_STREAM s)")
    case True
    then show ?thesis using race_okD(4) [OF ok] by (simp add: stream nth_append)
  next
    case False
    then have "LDMS_SHARED_STREAM s' ! x \<in> set ms" using that by (simp add: stream nth_append)
    with new False show ?thesis by (meson le_trans not_less)
  qed
  have phases: "phase_ok s' (busy_count (ph(i := p))) ((ph(i := p)) x)" for x
  proof (cases "x = i")
    case False
    then show ?thesis using phase_ok_mono [OF race_okD(3) [OF ok, of x] _ grow len] by (simp add: stream)
  qed (simp add: phase)
  show ?thesis by (rule race_okI [OF shape b(1) counter' msgs phases])
qed

lemma set_stat_shape:
  assumes "shape_ok s" "stats_ok f"
  shows "shape_ok (set_stat fn idx f s)"
proof -
  have "list_all stats_ok ((STATS s fn)[idx := f])"
    using assms set_update_subset_insert [of "STATS s fn" idx f] by (auto simp: shape_ok_def list_all_iff)
  then show ?thesis using assms(1) by (simp add: shape_ok_def set_stat_def frag_shape_def)
qed

lemma shape_remove: "shape_ok s \<Longrightarrow> shape_ok (s\<lparr>PTRLIST := (PTRLIST s)(p := None)\<rparr>)"
  by (auto simp: shape_ok_def frag_shape_def split: if_splits)

lemma shape_stat: "shape_ok s \<Longrightarrow> idx < length (STATS s fn) \<Longrightarrow> stats_ok (STATS s fn ! idx)"
  by (auto simp: shape_ok_def list_all_length)

text \<open>The locked sections.\<close>

lemma locked_publish_run:
  assumes "shape_ok s" "idx < length (STATS s (job_fn j))" "COUNTER s = [of_nat n]"
  obtains sn s' where "locked_publish j idx s = (\<lparr>ev_id = str_bytes ''fslat/v2'', ev_monotonic = job_now j, ev_seq = of_nat n\<rparr>, sn, s')"
    "valid_utf8 (take (min (unat (snap_pathlen sn)) PATHFRAGLEN) (snap_prefix sn))"
    "shape_ok s'" "COUNTER s' = COUNTER s" "LDMS_SHARED_STREAM s' = LDMS_SHARED_STREAM s"
    "\<forall>g. length (STATS s' g) = length (STATS s g)" "\<forall>g. g \<noteq> job_fn j \<longrightarrow> STATS s' g = STATS s g"
proof -
  note f = shape_stat [OF assms(1,2)]
  let ?g = "update_stats_locked (job_now j - timestamp (job_entry j)) (job_ret j) (STATS s (job_fn j) ! idx)"
  have "stats_ok (clear_stats_locked (job_now j) ?g)" using f by (simp add: stats_ok_def)
  then have "shape_ok (set_stat (job_fn j) idx (clear_stats_locked (job_now j) ?g) s)"
    by (rule set_stat_shape [OF assms(1)])
  with f show ?thesis using assms(3)
    by (intro that [of "snapshot_of ?g" "set_stat (job_fn j) idx (clear_stats_locked (job_now j) ?g) s"])
      (simp_all add: locked_publish_def Let_def unlocked stats_ok_def snapshot_of_def set_stat_def)
qed

lemma locked_update_shape:
  assumes "shape_ok s" "idx < length (STATS s (job_fn j))"
  shows "shape_ok (locked_update j idx s)" "COUNTER (locked_update j idx s) = COUNTER s"
    "LDMS_SHARED_STREAM (locked_update j idx s) = LDMS_SHARED_STREAM s"
    "length (STATS (locked_update j idx s) g) = length (STATS s g)"
proof -
  have "stats_ok (update_stats_locked (job_now j - timestamp (job_entry j)) (job_ret j) (STATS s (job_fn j) ! idx))"
    using shape_stat [OF assms] by (simp add: stats_ok_def)
  then show "shape_ok (locked_update j idx s)" using set_stat_shape [OF assms(1)] shape_stat [OF assms]
    by (simp add: locked_update_def Let_def unlocked stats_ok_def)
qed (simp_all add: locked_update_def Let_def set_stat_def)

section \<open>Every reachable state\<close>

lemma begin_ok:
  assumes ok: "race_ok s ph" and idle: "ph i = Idle" and run: "exit_begin k fn ctx ret s = (r, s')"
  shows "r \<noteq> Inl Undefined" "race_ok s' (ph(i := (case r of Inl _ \<Rightarrow> Idle | Inr p \<Rightarrow> p)))"
proof -
  let ?p = "(cx_pid ctx, cx_tgid ctx)" and ?s0 = "check_prof_reset k s"
  have shape: "shape_ok ?s0" using race_okD(1) [OF ok] by (simp add: check_prof_reset_ok)
  have path: "PTRLIST s ?p = Some e \<Longrightarrow> length (path e) = PATHFRAGLEN" for e
    using race_okD(1) [OF ok] unfolding shape_ok_def by blast
  obtain n where n: "COUNTER s = [of_nat n]" using race_okD(5) [OF ok] by blast
  let ?j = "\<lambda>e. \<lparr>job_fn = fn, job_task = ?p, job_ret = ret, job_now = ktime k (ticks ?s0), job_entry = e\<rparr>"
  have "index_get (COUNTER ?s0) 0 = Some (of_nat n)" using n by (simp add: index_get_def)
  then have start: "(r, s') = (case PTRLIST s ?p of None \<Rightarrow> (Inr Idle, ?s0)
     | Some e \<Rightarrow> if sint ret < 0 then (Inl (Code 1), ?s0\<lparr>PTRLIST := (PTRLIST s)(?p := None)\<rparr>)
         else (Inr (Scan (?j e) [0..<8]), ?s0\<lparr>ticks := Suc (ticks ?s0)\<rparr>))"
    unfolding run [symmetric] exit_begin_def by (simp add: bpf_ktime_get_ns_def Let_def split: option.split)
  have cases: "(r, s') = (Inr Idle, ?s0) \<or> (r, s') = (Inl (Code 1), ?s0\<lparr>PTRLIST := (PTRLIST s)(?p := None)\<rparr>) \<or>
     (\<exists>j. job_ok j \<and> (r, s') = (Inr (Scan j [0..<8]), ?s0\<lparr>ticks := Suc (ticks ?s0)\<rparr>))"
  proof (cases "PTRLIST s ?p")
    case (Some e)
    moreover have "job_ok (?j e)" using path [OF Some] by (simp add: job_ok_def)
    ultimately show ?thesis unfolding start by (cases "sint ret < 0") auto
  qed (simp add: start)
  show "r \<noteq> Inl Undefined" using cases by auto
  have "shape_ok s' \<and> STATS s' = STATS s \<and> LDMS_SHARED_STREAM s' = LDMS_SHARED_STREAM s \<and> COUNTER s' = COUNTER s"
    using cases shape shape_remove [OF shape, of ?p] by auto
  then show "race_ok s' (ph(i := (case r of Inl _ \<Rightarrow> Idle | Inr p \<Rightarrow> p)))"
    using cases idle by (intro race_ok_step [OF ok, of s' "[]"]) auto
qed

lemma sampled_put:
  assumes k: "maps_ok k" and n: "ev = \<lparr>ev_id = str_bytes ''fslat/v2'', ev_monotonic = job_now j, ev_seq = of_nat n\<rparr>"
    "valid_utf8 (take (min (unat (snap_pathlen sn)) PATHFRAGLEN) (snap_prefix sn))"
  shows "case reserve k (reserves s) of
      None \<Rightarrow> \<exists>d. exit_micro k (Sampled j idxs ev sn) s =
        (Inr (Scan j []), s\<lparr>reserves := reserves s + 1, PROF_RINGBUF_DROPS := d\<rparr>)
    | Some slot \<Rightarrow> \<exists>m. message_ok n m \<and> exit_micro k (Sampled j idxs ev sn) s =
        (Inr (Published j idxs), s\<lparr>reserves := reserves s + 1, LDMS_SHARED_STREAM := LDMS_SHARED_STREAM s @ [m]\<rparr>)"
proof -
  let ?put = "ringbuf_put k ev sn (fn_name (job_fn j)) (str_bytes ''ns'') s"
  have put: "case reserve k (reserves s) of
      None \<Rightarrow> ?put = (Inl (Code 1), s\<lparr>reserves := reserves s + 1\<rparr>)
    | Some slot \<Rightarrow> \<exists>msg tail. encodes (message_value ev sn (fn_name (job_fn j)) (str_bytes ''ns'')) msg \<and>
        length (msg @ tail) = BUFSIZE \<and>
        ?put = (Inr 0, s\<lparr>reserves := reserves s + 1, LDMS_SHARED_STREAM := LDMS_SHARED_STREAM s @ [msg @ tail]\<rparr>)"
    using n(2) fn_name_utf8 [of "job_fn j"]
    by (intro ringbuf_put_run [OF k]) (simp_all add: n(1) ascii_utf8)
  show ?thesis
  proof (cases "reserve k (reserves s)")
    case None
    with put show ?thesis by (auto split: option.splits intro: exI [of _ "PROF_RINGBUF_DROPS s"])
  next
    case (Some slot)
    with put obtain msg tail where m: "encodes (message_value ev sn (fn_name (job_fn j)) (str_bytes ''ns'')) msg"
      "length (msg @ tail) = BUFSIZE"
      "?put = (Inr 0, s\<lparr>reserves := reserves s + 1, LDMS_SHARED_STREAM := LDMS_SHARED_STREAM s @ [msg @ tail]\<rparr>)" by auto
    then have "message_ok n (msg @ tail)"
      unfolding message_ok_def by (intro conjI exI [of _ ev] exI) (auto simp: n(1))
    with m(3) Some show ?thesis by auto
  qed
qed

lemma sampled_published:
  assumes "maps_ok k" "\<forall>n. reserve k n \<noteq> None"
    and "ev = \<lparr>ev_id = str_bytes ''fslat/v2'', ev_monotonic = job_now j, ev_seq = of_nat n\<rparr>"
    "valid_utf8 (take (min (unat (snap_pathlen sn)) PATHFRAGLEN) (snap_prefix sn))"
  obtains m where "message_ok n m" "exit_micro k (Sampled j idxs ev sn) s =
    (Inr (Published j idxs), s\<lparr>reserves := reserves s + 1, LDMS_SHARED_STREAM := LDMS_SHARED_STREAM s @ [m]\<rparr>)"
proof -
  obtain slot where "reserve k (reserves s) = Some slot" using assms(2) by blast
  with sampled_put [OF assms(1,3,4), of idxs s] show ?thesis using that by auto
qed

lemma sampled_ok:
  assumes k: "maps_ok k" and ok: "race_ok s ph" and p: "ph i = Sampled j idxs ev sn"
    and run: "exit_micro k (Sampled j idxs ev sn) s = (r, s')"
  obtains p' where "r = Inr p'" "race_ok s' (ph(i := p'))"
proof -
  obtain n where n: "n \<le> length (LDMS_SHARED_STREAM s)" "job_ok j"
    "ev = \<lparr>ev_id = str_bytes ''fslat/v2'', ev_monotonic = job_now j, ev_seq = of_nat n\<rparr>"
    "valid_utf8 (take (min (unat (snap_pathlen sn)) PATHFRAGLEN) (snap_prefix sn))"
    using race_okD(3) [OF ok, of i] p by auto
  note put = sampled_put [OF k n(3,4), of idxs s]
  have shape: "shape_ok s" by (rule race_okD(1) [OF ok])
  show ?thesis
  proof (cases "reserve k (reserves s)")
    case None
    with put run obtain d where s': "s' = s\<lparr>reserves := reserves s + 1, PROF_RINGBUF_DROPS := d\<rparr>" and
      r: "r = Inr (Scan j [])" by auto
    have "race_ok s' (ph(i := Scan j []))" unfolding s'
      using shape n(2) by (intro race_ok_step [OF ok, of _ "[]"]) auto
    with r show ?thesis by (rule that)
  next
    case (Some slot)
    with put run obtain m where msg: "message_ok n m" and r: "r = Inr (Published j idxs)" and
      s': "s' = s\<lparr>reserves := reserves s + 1, LDMS_SHARED_STREAM := LDMS_SHARED_STREAM s @ [m]\<rparr>" by auto
    have "race_ok s' (ph(i := Published j idxs))" unfolding s'
      using shape n(1,2) msg p by (intro race_ok_step [OF ok, of _ "[m]"]) auto
    with r show ?thesis by (rule that)
  qed
qed

text \<open>The check of an entry.\<close>

lemma scan_step:
  assumes "shape_ok s" "job_ok j" "idx < length (STATS s (job_fn j))"
  shows "exit_micro k (Scan j (idx # idxs)) s = (Inr (if matches (job_entry j) (STATS s (job_fn j) ! idx)
    then Checked j idx idxs (due (job_now j) (STATS s (job_fn j) ! idx)) else Scan j idxs), s)"
proof -
  have "starts_with (path_prefix (STATS s (job_fn j) ! idx)) (path (job_entry j))
      (unat (pathlen (STATS s (job_fn j) ! idx))) = Some (matches (job_entry j) (STATS s (job_fn j) ! idx))"
    using starts_with_exact assms(2) shape_stat [OF assms(1,3)] by (simp add: stats_ok_def matches_def job_ok_def)
  then show ?thesis using assms(3)
    by (cases "matches (job_entry j) (STATS s (job_fn j) ! idx)") (simp_all add: index_get_def due_def)
qed

lemma micro_ok:
  assumes k: "maps_ok k" and ok: "race_ok s ph" and run: "exit_micro k (ph i) s = (r, s')"
  obtains p' where "r = Inr p'" "race_ok s' (ph(i := p'))"
proof (cases "ph i")
  case Idle
  then have "ph(i := Idle) = ph" by auto
  with Idle show ?thesis using that [of Idle] run ok by simp
next
  case (Scan j idxs)
  note shape = race_okD(1) [OF ok]
  have j: "job_ok j" using race_okD(3) [OF ok, of i] Scan by simp
  show ?thesis
  proof (cases idxs)
    case Nil
    let ?s = "s\<lparr>ticks := Suc (ticks s), PROF_EXIT_HIST := hist_increment k (log2_bucket (ktime k (ticks s) - job_now j))
         (PROF_EXIT_HIST s)\<rparr>"
    have "shape_ok (?s\<lparr>PTRLIST := (PTRLIST ?s)(job_task j := None)\<rparr>)" using shape by (intro shape_remove) simp
    moreover have "r = Inr Idle" "s' = ?s\<lparr>PTRLIST := (PTRLIST ?s)(job_task j := None)\<rparr>"
      using run Scan Nil by (auto simp: bpf_ktime_get_ns_def)
    ultimately show ?thesis using Scan
      by (intro that [of Idle] race_ok_step [OF ok, of _ "[]"]) simp_all
  next
    case (Cons idx rest)
    show ?thesis
    proof (cases "index_get (STATS s (job_fn j)) idx")
      case None
      with Scan Cons run j shape show ?thesis by (intro that [of "Scan j []"] race_ok_step [OF ok, of _ "[]"]) auto
    next
      case (Some f)
      then have f: "idx < length (STATS s (job_fn j))" by (auto simp: index_get_def split: if_splits)
      from run have "r = Inr (if matches (job_entry j) (STATS s (job_fn j) ! idx)
         then Checked j idx rest (due (job_now j) (STATS s (job_fn j) ! idx)) else Scan j rest)" and "s' = s"
        unfolding Scan Cons scan_step [OF shape j f] by auto
      then show ?thesis using Scan j shape f by (intro that race_ok_step [OF ok, of _ "[]"]) (auto split: if_splits)
    qed
  qed
next
  case (Checked j idx idxs d)
  note shape = race_okD(1) [OF ok]
  have j: "job_ok j" "idx < length (STATS s (job_fn j))" using race_okD(3) [OF ok, of i] Checked by simp_all
  show ?thesis
  proof (cases d)
    case True
    obtain n where n: "COUNTER s = [of_nat n]" "n + busy_count ph \<le> length (LDMS_SHARED_STREAM s)"
      using race_okD(5) [OF ok] by blast
    obtain sn s1 where l: "locked_publish j idx s = (\<lparr>ev_id = str_bytes ''fslat/v2'', ev_monotonic = job_now j, ev_seq = of_nat n\<rparr>, sn, s1)"
      "valid_utf8 (take (min (unat (snap_pathlen sn)) PATHFRAGLEN) (snap_prefix sn))"
      "shape_ok s1" "COUNTER s1 = COUNTER s" "LDMS_SHARED_STREAM s1 = LDMS_SHARED_STREAM s"
      "\<forall>g. length (STATS s1 g) = length (STATS s g)"
      by (rule locked_publish_run [OF shape j(2) n(1)])
    with Checked True run j n(2) show ?thesis
      by (intro that [of "Sampled j idxs \<lparr>ev_id = str_bytes ''fslat/v2'', ev_monotonic = job_now j, ev_seq = of_nat n\<rparr> sn"]
          race_ok_step [OF ok, of _ "[]"]) (auto intro: exI [of _ n])
  next
    case False
    with Checked run j locked_update_shape [OF shape j(2)] show ?thesis
      by (intro that [of "Scan j idxs"] race_ok_step [OF ok, of _ "[]"]) auto
  qed
next
  case (Sampled j idxs ev sn)
  then show ?thesis using sampled_ok [OF k ok Sampled] run that by metis
next
  case (Published j idxs)
  obtain n where n: "COUNTER s = [of_nat n]" "n + busy_count ph \<le> length (LDMS_SHARED_STREAM s)"
    using race_okD(5) [OF ok] by blast
  have "busy_count (ph(i := Loaded j idxs (of_nat n))) = busy_count ph"
    using busy_upd(2) [OF race_okD(2) [OF ok], of i "Loaded j idxs (of_nat n)"] Published by simp
  moreover have "job_ok j" using race_okD(3) [OF ok, of i] Published by simp
  ultimately show ?thesis using Published run n race_okD(1) [OF ok]
    by (intro that [of "Loaded j idxs (of_nat n)"] race_ok_step [OF ok, of _ "[]"]) auto
next
  case (Loaded j idxs v)
  obtain n where n: "v = of_nat n" "n + busy_count ph \<le> length (LDMS_SHARED_STREAM s)" and j: "job_ok j"
    using race_okD(3) [OF ok, of i] Loaded by auto
  obtain c where c: "COUNTER s = [of_nat c]" using race_okD(5) [OF ok] by blast
  have "Suc (busy_count (ph(i := Scan j idxs))) = busy_count ph"
    using busy_upd(2) [OF race_okD(2) [OF ok], of i "Scan j idxs"] Loaded by simp
  with n have "Suc n + busy_count (ph(i := Scan j idxs)) \<le> length (LDMS_SHARED_STREAM s)" by linarith
  then have "\<exists>m. COUNTER s' = [of_nat m] \<and> m + busy_count (ph(i := Scan j idxs)) \<le> length (LDMS_SHARED_STREAM s)"
    using run Loaded n(1) c by (intro exI [of _ "Suc n"]) auto
  then show ?thesis using Loaded run j race_okD(1) [OF ok]
    by (intro that [of "Scan j idxs"] race_ok_step [OF ok, of _ "[]"]) auto
qed

lemma race_start_ok: "attached_state s \<Longrightarrow> race_ok s (\<lambda>_. Idle)"
  by (auto simp: race_ok_def busy_count_def attached_state_def shape_ok_def frag_shape_def)

lemma race_step_ok:
  assumes k: "helpers_ok k" "maps_ok k" and step: "race_step k (s, ph) (s', ph')" and ok: "race_ok s ph"
  shows "race_ok s' ph'"
  using step
proof cases
  case (others e)
  have "shape_ok s' \<and> COUNTER s' = COUNTER s \<and> STATS s' = STATS s \<and> LDMS_SHARED_STREAM s' = LDMS_SHARED_STREAM s"
    using others(2)
  proof cases
    case (entering fn ctx c)
    obtain r s1 where "try_fslat_entry k ctx s = (r, s1)" by (cases "try_fslat_entry k ctx s")
    with entering entry_shape [OF k race_okD(1) [OF ok] this] show ?thesis
      by (auto simp: fslat_entry_def dest!: return_code_Some)
  qed (use others(3) race_okD(1) [OF ok] in auto)
  moreover have "ph = ph(i := ph i)" for i by simp
  ultimately show ?thesis
    unfolding others(1) using race_ok_step [OF ok, of s' "[]" "ph 0" 0] race_okD(3) [OF ok, of 0]
      phase_ok_mono [OF race_okD(3) [OF ok, of 0], of s' "busy_count ph"] by simp
next
  case (begins i fn ctx args p)
  then show ?thesis using begin_ok [OF ok begins(2,3)] by simp
next
  case (refuses i fn ctx args c)
  then have "ph = ph(i := Idle)" by auto
  with refuses show ?thesis using begin_ok(2) [OF ok refuses(2,3)] by simp
next
  case (advances i p)
  then show ?thesis using micro_ok [OF k(2) ok advances(2)] by (metis Inr_inject)
qed

lemma race_run_ok:
  assumes "helpers_ok k" "maps_ok k" "race_run k (s, ph) (t, ph')" "race_ok s ph"
  shows "race_ok t ph'"
  using assms(3,4)
proof (induction "(t, ph')" arbitrary: t ph' rule: rtranclp_induct)
  case (step c)
  then show ?case using race_step_ok [OF assms(1,2)] by (cases c) auto
qed simp

section \<open>Two messages of the same number\<close>

text \<open>
  Two exits that are about to check an entry each, of different functions, and both entries match and
  are due: when both take their samples before either of them increases the counter, both
  messages get the number in the counter.
\<close>

lemma duplicate_numbers:
  assumes k: "maps_ok k" "\<forall>n. reserve k n \<noteq> None" and ok: "race_ok s ph" and n: "COUNTER s = [of_nat n]"
    and ph: "ph i = Scan j (idx # idxs)" "ph i' = Scan j' (idx' # idxs')" "i \<noteq> i'" "job_fn j \<noteq> job_fn j'"
    and f: "idx < length (STATS s (job_fn j))" "matches (job_entry j) (STATS s (job_fn j) ! idx)"
      "due (job_now j) (STATS s (job_fn j) ! idx)"
    and f': "idx' < length (STATS s (job_fn j'))" "matches (job_entry j') (STATS s (job_fn j') ! idx')"
      "due (job_now j') (STATS s (job_fn j') ! idx')"
  shows "\<exists>t ph' m m'. race_run k (s, ph) (t, ph') \<and> LDMS_SHARED_STREAM t = LDMS_SHARED_STREAM s @ [m, m'] \<and>
    message_ok n m \<and> message_ok n m'"
proof -
  note shape = race_okD(1) [OF ok]
  have j: "job_ok j" "job_ok j'" using race_okD(3) [OF ok, of i] race_okD(3) [OF ok, of i'] ph by simp_all
  note adv = race_step.advances
  let ?ev = "\<lambda>j. \<lparr>ev_id = str_bytes ''fslat/v2'', ev_monotonic = job_now j, ev_seq = of_nat n\<rparr>"
  let ?ph1 = "ph(i := Checked j idx idxs True)"
  let ?ph2 = "?ph1(i' := Checked j' idx' idxs' True)"
  have 1: "race_step k (s, ph) (s, ?ph1)"
    by (rule adv) (use scan_step [OF shape j(1) f(1)] f ph in simp)
  have 2: "race_step k (s, ?ph1) (s, ?ph2)"
    by (rule adv) (use scan_step [OF shape j(2) f'(1)] f' ph in simp)
  obtain sn s1 where l: "locked_publish j idx s = (?ev j, sn, s1)"
    "valid_utf8 (take (min (unat (snap_pathlen sn)) PATHFRAGLEN) (snap_prefix sn))"
    "shape_ok s1" "COUNTER s1 = COUNTER s" "LDMS_SHARED_STREAM s1 = LDMS_SHARED_STREAM s"
    "\<forall>g. length (STATS s1 g) = length (STATS s g)"
    by (rule locked_publish_run [OF shape f(1) n])
  let ?ph3 = "?ph2(i := Sampled j idxs (?ev j) sn)"
  have 3: "race_step k (s, ?ph2) (s1, ?ph3)" by (rule adv) (use l(1) ph in simp)
  have "idx' < length (STATS s1 (job_fn j'))" "COUNTER s1 = [of_nat n]" using f'(1) n l(4,6) by simp_all
  then obtain sn' s2 where l': "locked_publish j' idx' s1 = (?ev j', sn', s2)"
    "valid_utf8 (take (min (unat (snap_pathlen sn')) PATHFRAGLEN) (snap_prefix sn'))"
    "LDMS_SHARED_STREAM s2 = LDMS_SHARED_STREAM s1"
    by (rule locked_publish_run [OF l(3)])
  let ?ph4 = "?ph3(i' := Sampled j' idxs' (?ev j') sn')"
  have 4: "race_step k (s1, ?ph3) (s2, ?ph4)" by (rule adv) (use l'(1) ph in simp)
  obtain m where m: "message_ok n m" "exit_micro k (Sampled j idxs (?ev j) sn) s2 =
      (Inr (Published j idxs), s2\<lparr>reserves := reserves s2 + 1, LDMS_SHARED_STREAM := LDMS_SHARED_STREAM s2 @ [m]\<rparr>)"
    (is "_ = (_, ?s3)")
    by (rule sampled_published [OF k refl l(2)])
  let ?ph5 = "?ph4(i := Published j idxs)"
  have 5: "race_step k (s2, ?ph4) (?s3, ?ph5)" by (rule adv) (use m(2) ph(3) in simp)
  obtain m' where m': "message_ok n m'" "exit_micro k (Sampled j' idxs' (?ev j') sn') ?s3 =
      (Inr (Published j' idxs'), ?s3\<lparr>reserves := reserves ?s3 + 1, LDMS_SHARED_STREAM := LDMS_SHARED_STREAM ?s3 @ [m']\<rparr>)"
    (is "_ = (_, ?s4)")
    by (rule sampled_published [OF k refl l'(2)])
  have 6: "race_step k (?s3, ?ph5) (?s4, ?ph5(i' := Published j' idxs'))" by (rule adv) (use m'(2) ph(3) in simp)
  have "race_run k (s, ph) (?s4, ?ph5(i' := Published j' idxs'))"
    using 1 2 3 4 5 6 by (meson converse_rtranclp_into_rtranclp rtranclp.rtrancl_refl)
  moreover have "LDMS_SHARED_STREAM ?s4 = LDMS_SHARED_STREAM s @ [m, m']" using l(5) l'(3) by simp
  ultimately show ?thesis using m(1) m'(1) by blast
qed

text \<open>
  The states of an exit that has begun: the call is recorded, and the loop starts at the first entry.
\<close>

lemma exit_begins:
  fixes ctx :: call_ctx
  assumes "fslat_ok s" "scratch_ok s" "ph i = Idle" "PTRLIST s task = Some e" "0 \<le> sint ret"
    and "task = (cx_pid ctx, cx_tgid ctx)" "args ! exit_arg fn = ret" "\<And>n. ktime k n = now"
  obtains s' where "race_step k (s, ph) (s', ph(i := Scan \<lparr>job_fn = fn, job_task = task,
      job_ret = ret, job_now = now, job_entry = e\<rparr> [0..<8]))"
    "fslat_ok s'" "scratch_ok s'" "STATS s' = STATS s" "LDMS_SHARED_STREAM s' = LDMS_SHARED_STREAM s"
proof -
  let ?s0 = "check_prof_reset k s"
  have "COUNTER ?s0 \<noteq> []" using assms(1) by (simp add: fslat_ok_def)
  then have "exit_begin k fn ctx (args ! exit_arg fn) s = (Inr (Scan \<lparr>job_fn = fn, job_task = task,
      job_ret = ret, job_now = now, job_entry = e\<rparr> [0..<8]), ?s0\<lparr>ticks := Suc (ticks ?s0)\<rparr>)"
    using assms(4-8) by (simp add: exit_begin_def Let_def index_get_def bpf_ktime_get_ns_def)
  then show ?thesis using assms(1,2) race_step.begins [of ph i k fn ctx args s, OF assms(3)]
    by (intro that [of "?s0\<lparr>ticks := Suc (ticks ?s0)\<rparr>"]) (simp_all add: check_prof_reset_ok scratch_ok_def)
qed

text \<open>Maps in which every entry is configured for all paths, and a clock ten seconds after the start.\<close>

definition race_stats :: fs_latency_stats where
  "race_stats = blank_stats\<lparr>pathlen := 1, path_prefix := 0x2f # replicate 31 0\<rparr>"

definition race_state :: fslat where
  "race_state = demo_state\<lparr>STATS := (\<lambda>_. replicate 8 race_stats)\<rparr>"

definition race_kernel :: kernel where
  "race_kernel = demo_kernel\<lparr>ktime := (\<lambda>_. 10 * AGG_INTERVAL)\<rparr>"

lemma race_kernel_ok: "helpers_ok race_kernel" "maps_ok race_kernel" "\<forall>n. reserve race_kernel n \<noteq> None"
proof -
  have "helpers_ok race_kernel = helpers_ok demo_kernel" "maps_ok race_kernel = maps_ok demo_kernel"
    "reserve race_kernel = reserve demo_kernel"
    unfolding helpers_ok_def maps_ok_def by (simp_all add: race_kernel_def)
  then show "helpers_ok race_kernel" "maps_ok race_kernel" "\<forall>n. reserve race_kernel n \<noteq> None"
    using demo_kernel_ok by (simp_all add: demo_kernel_def)
qed

lemma race_attached: "attached_state race_state"
proof -
  have "valid_utf8 [0x2f]" using ascii_utf8 [of "''/''"] by (simp add: str_bytes_def)
  then have "stats_ok race_stats"
    by (simp add: stats_ok_def race_stats_def blank_stats_def min_def)
  then show ?thesis by (simp add: attached_state_def race_state_def demo_state_def list_all_iff)
qed

lemma race_resolves:
  "resolves race_kernel 14 (1000 + MOUNT_MNT) 11 2000 [str_bytes ''log'', str_bytes ''data''] 3"
proof -
  have "resolves demo_kernel a b c d ns n \<Longrightarrow> resolves race_kernel a b c d ns n" for a b c d ns n
    by (induction rule: resolves.induct) (auto simp: race_kernel_def str_at_def intro: resolves.intros)
  then show ?thesis using demo_resolves by blast
qed

lemma race_enters:
  assumes "fslat_ok s" "scratch_ok s" "cx_root_dentry ctx = 14" "cx_root_vfsmount ctx = 1000 + MOUNT_MNT"
    "cx_dentry ctx = 11" "cx_vfsmount ctx = 2000 + MOUNT_MNT"
  obtains t where "probe_step race_kernel s (Enter fn ctx) t" "fslat_ok t" "scratch_ok t"
    "STATS t = STATS s" "LDMS_SHARED_STREAM t = LDMS_SHARED_STREAM s"
    "PTRLIST t (cx_pid ctx, cx_tgid ctx) =
       Some \<lparr>timestamp = 10 * AGG_INTERVAL, path = frag_of (str_bytes ''/data/log'')\<rparr>"
proof -
  have res: "resolves race_kernel (cx_root_dentry ctx) (cx_root_vfsmount ctx) (cx_dentry ctx)
      (cx_vfsmount ctx - MOUNT_MNT) [str_bytes ''log'', str_bytes ''data''] 3"
    using race_resolves assms(3-6) by simp
  obtain t where t: "try_fslat_entry race_kernel ctx s = (Inr 0, t)" "scratch_ok t" "fslat_ok t"
    "PTRLIST t (cx_pid ctx, cx_tgid ctx) = Some \<lparr>timestamp = ktime race_kernel (ticks (check_prof_reset race_kernel s)),
       path = frag_of (abs_path [str_bytes ''log'', str_bytes ''data''])\<rparr>"
    by (rule entry_records [OF race_kernel_ok(1,2) assms(1,2) res]) (auto simp: str_bytes_def)
  have "probe_step race_kernel s (Enter fn ctx) t"
    using t(1) by (intro probe_step.entering [of _ _ _ _ 0]) (simp add: fslat_entry_def return_code_def)
  moreover have "abs_path [str_bytes ''log'', str_bytes ''data''] = str_bytes ''/data/log''"
    by (simp add: abs_path_def str_bytes_def)
  moreover have "ktime race_kernel (ticks (check_prof_reset race_kernel s)) = 10 * AGG_INTERVAL"
    by (simp add: race_kernel_def)
  ultimately show ?thesis using that t(2-4) entry_effect [OF race_kernel_ok(1,2) assms(1) t(1)] by metis
qed

lemma four_steps:
  "race_step k a b \<Longrightarrow> race_step k b c \<Longrightarrow> race_step k c d \<Longrightarrow> race_step k d e \<Longrightarrow> race_run k a e"
  by (meson converse_rtranclp_into_rtranclp rtranclp.rtrancl_refl)

text \<open>
  Two tasks read and write a file, and their exits overlap: both messages are numbered zero.
\<close>

lemma duplicates_reachable:
  "\<exists>t ph m m'. race_run race_kernel (race_state, \<lambda>_. Idle) (t, ph) \<and> LDMS_SHARED_STREAM t = [m, m'] \<and>
     message_ok 0 m \<and> message_ok 0 m'"
proof -
  let ?k = race_kernel and ?ctx = "demo_ctx\<lparr>cx_pid := 8, cx_tgid := 8\<rparr>"
  let ?e = "\<lparr>timestamp = 10 * AGG_INTERVAL, path = frag_of (str_bytes ''/data/log'')\<rparr>"
  let ?j = "\<lparr>job_fn = VfsRead, job_task = (7, 7), job_ret = 64, job_now = 10 * AGG_INTERVAL, job_entry = ?e\<rparr>"
    and ?j' = "\<lparr>job_fn = VfsWrite, job_task = (8, 8), job_ret = 64, job_now = 10 * AGG_INTERVAL, job_entry = ?e\<rparr>"
  have clock: "ktime ?k n = 10 * AGG_INTERVAL" for n by (simp add: race_kernel_def)
  have ok: "fslat_ok race_state" "scratch_ok race_state"
    using attached_ok [OF race_attached] demo_scratch by (simp_all add: race_state_def scratch_ok_def)
  obtain s1 where s1: "probe_step ?k race_state (Enter VfsRead demo_ctx) s1" "fslat_ok s1" "scratch_ok s1"
    "STATS s1 = STATS race_state" "LDMS_SHARED_STREAM s1 = LDMS_SHARED_STREAM race_state" "PTRLIST s1 (7, 7) = Some ?e"
    using race_enters [OF ok, of demo_ctx VfsRead] by (auto simp: demo_ctx_def)
  obtain s2 where s2: "race_step ?k (s1, \<lambda>_. Idle) (s2, (\<lambda>_. Idle)(0 := Scan ?j [0..<8]))" "fslat_ok s2"
    "STATS s2 = STATS s1" "LDMS_SHARED_STREAM s2 = LDMS_SHARED_STREAM s1" "scratch_ok s2"
    by (rule exit_begins [OF s1(2,3) _ s1(6), of "\<lambda>_. Idle" 0 64 demo_ctx "[0, 0, 0, 0, 64]" VfsRead ?k])
      (simp_all add: clock demo_ctx_def)
  let ?ph = "(\<lambda>_. Idle)(0 := Scan ?j [0..<8])"
  obtain s3 where s3: "probe_step ?k s2 (Enter VfsWrite ?ctx) s3" "fslat_ok s3"
    "STATS s3 = STATS s2" "LDMS_SHARED_STREAM s3 = LDMS_SHARED_STREAM s2" "PTRLIST s3 (8, 8) = Some ?e" "scratch_ok s3"
    using race_enters [OF s2(2,5), of ?ctx VfsWrite] by (auto simp: demo_ctx_def)
  obtain s4 where s4: "race_step ?k (s3, ?ph) (s4, ?ph(1 := Scan ?j' [0..<8]))" "fslat_ok s4"
    "STATS s4 = STATS s3" "LDMS_SHARED_STREAM s4 = LDMS_SHARED_STREAM s3"
    by (rule exit_begins [OF s3(2,6) _ s3(5), of ?ph 1 64 ?ctx "[0, 0, 0, 0, 64]" VfsWrite ?k])
      (simp_all add: clock)
  have st: "STATS s4 fn = replicate 8 race_stats" "LDMS_SHARED_STREAM s4 = []" for fn
    using s1(4,5) s2(3,4) s3(3,4) s4(3,4) by (simp_all add: race_state_def demo_state_def)
  have run: "race_run ?k (race_state, \<lambda>_. Idle) (s4, ?ph(1 := Scan ?j' [0..<8]))"
  proof -
    have "race_step ?k (race_state, \<lambda>_. Idle) (s1, \<lambda>_. Idle)" by (rule race_step.others [OF s1(1)]) simp
    moreover have "race_step ?k (s2, ?ph) (s3, ?ph)" by (rule race_step.others [OF s3(1)]) simp
    ultimately show ?thesis using s2(1) s4(1) by (intro four_steps)
  qed
  have ok4: "race_ok s4 (?ph(1 := Scan ?j' [0..<8]))"
    by (rule race_run_ok [OF race_kernel_ok(1,2) run race_start_ok [OF race_attached]])
  have counter: "COUNTER s4 = [of_nat 0]" using s4(2) st(2) by (simp add: fslat_ok_def)
  have hit: "matches ?e race_stats" "due (10 * AGG_INTERVAL) race_stats"
    by (simp_all add: matches_def race_stats_def blank_stats_def due_def frag_of_def str_bytes_def)
  have first: "[0..<8] = 0 # [1..<8]" by (simp add: upt_rec)
  have "\<exists>t ph m m'. race_run ?k (s4, ?ph(1 := Scan ?j' [0..<8])) (t, ph) \<and>
      LDMS_SHARED_STREAM t = LDMS_SHARED_STREAM s4 @ [m, m'] \<and> message_ok 0 m \<and> message_ok 0 m'"
    by (rule duplicate_numbers [OF race_kernel_ok(2,3) ok4 counter, of 0 ?j 0 "[1..<8]" 1 ?j' 0 "[1..<8]"])
      (simp_all only: first, use hit in \<open>simp_all add: st\<close>)
  then obtain t ph m m' where t: "race_run ?k (s4, ?ph(1 := Scan ?j' [0..<8])) (t, ph)"
    "LDMS_SHARED_STREAM t = LDMS_SHARED_STREAM s4 @ [m, m']" "message_ok 0 m" "message_ok 0 m'" by blast
  have "race_run ?k (race_state, \<lambda>_. Idle) (t, ph)" by (rule rtranclp_trans [OF run t(1)])
  moreover have "LDMS_SHARED_STREAM t = [m, m']" using t(2) st(2) by simp
  ultimately show ?thesis using t(3,4) by blast
qed

section \<open>Property\<close>

text \<open>C3: when the handlers follow one another, whatever calls are entered and left by whatever tasks,
  the ring buffer receives well-formed messages of 1024 bytes that are numbered consecutively from
  zero, the counter is the number of the next one, and no exit handler runs into undefined
  behaviour. When exits overlap, on any number of CPUs, every message is still well formed and no
  exit runs into undefined behaviour, but a number can be given twice (\<open>duplicates_reachable\<close>): it is at
  most the position of the message. In both cases every statistics entry keeps its prefix readable and its lock free.\<close>

theorem messages_numbered:
  assumes "helpers_ok k" "maps_ok k" "attached_state s"
  shows "(\<forall>es t. probe_run k s es t \<longrightarrow>
      COUNTER t = [of_nat (length (LDMS_SHARED_STREAM t))] \<and>
      (\<forall>i < length (LDMS_SHARED_STREAM t). message_ok i (LDMS_SHARED_STREAM t ! i)) \<and>
      (\<forall>fn. list_all stats_ok (STATS t fn)) \<and>
      (\<forall>fn ctx args. fslat_exit k fn ctx args t \<noteq> None)) \<and>
    (\<forall>t ph. race_run k (s, \<lambda>_. Idle) (t, ph) \<longrightarrow>
      (\<forall>i < length (LDMS_SHARED_STREAM t). \<exists>n \<le> i. message_ok n (LDMS_SHARED_STREAM t ! i)) \<and>
      (\<forall>fn. list_all stats_ok (STATS t fn)) \<and>
      (\<forall>i. fst (exit_micro k (ph i) t) \<noteq> Inl Undefined))"
proof (intro conjI allI impI)
  fix es t assume run: "probe_run k s es t"
  have ok: "fslat_ok t" using run_ok [OF assms(1,2) run] attached_ok [OF assms(3)] by blast
  then show "COUNTER t = [of_nat (length (LDMS_SHARED_STREAM t))]"
    and "list_all stats_ok (STATS t fn)" for fn
    unfolding fslat_ok_def by blast+
  show "message_ok i (LDMS_SHARED_STREAM t ! i)" if "i < length (LDMS_SHARED_STREAM t)" for i
    using ok that unfolding fslat_ok_def by blast
  show "fslat_exit k fn ctx args t \<noteq> None" for fn ctx args
  proof -
    obtain r s' where "try_fslat_exit k ctx (fn_name fn) (args ! exit_arg fn) fn t = (r, s')" "r \<noteq> Inl Undefined"
      by (rule exit_effect [OF assms(2) ok])
    then show ?thesis by (auto simp: fslat_exit_def return_code_def split: sum.splits probe_error.splits)
  qed
next
  fix t ph assume run: "race_run k (s, \<lambda>_. Idle) (t, ph)"
  have ok: "race_ok t ph" by (rule race_run_ok [OF assms(1,2) run race_start_ok [OF assms(3)]])
  show "\<exists>n \<le> i. message_ok n (LDMS_SHARED_STREAM t ! i)" if "i < length (LDMS_SHARED_STREAM t)" for i
    using race_okD(4) [OF ok that] .
  show "list_all stats_ok (STATS t fn)" for fn using race_okD(1) [OF ok] by (simp add: shape_ok_def)
  show "fst (exit_micro k (ph i) t) \<noteq> Inl Undefined" for i
    by (rule micro_ok [OF assms(2) ok, of i "fst (exit_micro k (ph i) t)" "snd (exit_micro k (ph i) t)"]) auto
qed

lemma messages_numbered_witness:
  "(\<exists>t. probe_run demo_kernel demo_state [Enter VfsRead demo_ctx, Enter VfsReadv demo_ctx,
     Leave VfsReadv demo_ctx [0, 0, 0, 0, 0, 64], Leave VfsRead demo_ctx [0, 0, 0, 0, 64]] t \<and>
     COUNTER t = [of_nat (length (LDMS_SHARED_STREAM t))]) \<and>
   (\<exists>t ph m m'. race_run race_kernel (race_state, \<lambda>_. Idle) (t, ph) \<and> LDMS_SHARED_STREAM t = [m, m'] \<and>
     list_all stats_ok (STATS t VfsRead))"
proof
  show "\<exists>t. probe_run demo_kernel demo_state [Enter VfsRead demo_ctx, Enter VfsReadv demo_ctx,
     Leave VfsReadv demo_ctx [0, 0, 0, 0, 0, 64], Leave VfsRead demo_ctx [0, 0, 0, 0, 64]] t \<and>
     COUNTER t = [of_nat (length (LDMS_SHARED_STREAM t))]"
    using demo_nested_run messages_numbered [OF demo_kernel_ok demo_attached, THEN conjunct1] by blast
  show "\<exists>t ph m m'. race_run race_kernel (race_state, \<lambda>_. Idle) (t, ph) \<and> LDMS_SHARED_STREAM t = [m, m'] \<and>
     list_all stats_ok (STATS t VfsRead)"
    using duplicates_reachable messages_numbered [OF race_kernel_ok(1,2) race_attached, THEN conjunct2] by blast
qed

end
