(* ===== verification/Ldms_Stream.thy ===== *)
theory Ldms_Stream
  imports Rust_Core
begin

text \<open>
  The transport of the daemon (\<open>daemon/ldms_stream/src/lib.rs\<close> and the declarations of \<open>raw.rs\<close>):
  \<open>SockStream\<close> over the C library of LDMS. The C library is a parameter: a record of the answers it
  gives, each a function of the calls made so far, so that nothing is assumed about it. The state is
  the list of those calls with their arguments.

  The lemmas show what each operation passes to the library and when it fails. They also give the
  discipline of the transport handle: it is used only between its creation and its single close.
\<close>

section \<open>The C library\<close>

datatype ldmsd_stream_type_t = LDMSD_STREAM_STRING | LDMSD_STREAM_JSON

type_synonym ldms_t = nat

text \<open>A call with its arguments. A C string is passed with its terminating zero byte; null
  arguments are left out.\<close>

datatype ldms_call =
    Xprt_new_with_auth bytes bytes
  | Xprt_connect_by_name ldms_t bytes bytes
  | Xprt_close ldms_t
  | Stream_publish ldms_t bytes ldmsd_stream_type_t bytes u64
  | Msg_publish ldms_t bytes ldmsd_stream_type_t u32 bytes u64

type_synonym calls = "ldms_call list"

record ldms_lib =
  new_handle :: "calls \<Rightarrow> ldms_t option"
  return_value :: "calls \<Rightarrow> i32"

definition call_rc :: "ldms_lib \<Rightarrow> ldms_call \<Rightarrow> calls \<Rightarrow> i32 \<times> calls" where
  "call_rc lib c cs = (return_value lib (cs @ [c]), cs @ [c])"

section \<open>Strings for C\<close>

datatype stream_error =
    Unsupported_transport bytes
  | Unsupported_authentication bytes
  | Interior_nul nat
  | Transport_failed
  | Connect_failed i32
  | Publish_failed i32

fun nul_position :: "bytes \<Rightarrow> nat option" where
  "nul_position [] = None"
| "nul_position (b # bs) = (if b = 0 then Some 0 else map_option Suc (nul_position bs))"

text \<open>\<open>CString::new\<close>: the bytes with a terminating zero, or the position of a zero inside.\<close>

definition cstring_new :: "bytes \<Rightarrow> stream_error + bytes" where
  "cstring_new s = (case nul_position s of Some p \<Rightarrow> Inl (Interior_nul p) | None \<Rightarrow> Inr (s @ [0]))"

text \<open>\<open>count_bytes\<close>: the length without the terminating zero.\<close>

definition count_bytes :: "bytes \<Rightarrow> usize" where
  "count_bytes c = length c - 1"

section \<open>The stream\<close>

record sock_stream =
  c_host :: bytes
  c_port :: bytes
  c_stream :: bytes
  xprt_handle :: ldms_t

type_synonym 'a ldms = "(calls, stream_error, 'a) fallible"

definition transport_name :: "bytes \<Rightarrow> stream_error + bytes" where
  "transport_name xprt =
     (if xprt = str_bytes ''sock'' then cstring_new xprt else Inl (Unsupported_transport xprt))"

definition auth_name :: "bytes \<Rightarrow> stream_error + bytes" where
  "auth_name auth =
     (if auth = str_bytes ''none'' then cstring_new auth
      else if auth = str_bytes ''munge'' then cstring_new auth
      else Inl (Unsupported_authentication auth))"

definition sock_new ::
  "ldms_lib \<Rightarrow> bytes \<Rightarrow> bytes \<Rightarrow> bytes \<Rightarrow> bytes \<Rightarrow> bytes \<Rightarrow> sock_stream ldms" where
  "sock_new lib xprt auth host port stream =
     bind_m (res_m (transport_name xprt)) (\<lambda>c_xprt.
     bind_m (res_m (auth_name auth)) (\<lambda>c_auth.
     bind_m (res_m (cstring_new host)) (\<lambda>c_host'.
     bind_m (res_m (cstring_new port)) (\<lambda>c_port'.
     bind_m (res_m (cstring_new stream)) (\<lambda>c_stream' cs.
       let cs = cs @ [Xprt_new_with_auth c_xprt c_auth] in
       case new_handle lib cs of
         None \<Rightarrow> (Inl Transport_failed, cs)
       | Some h \<Rightarrow> (Inr \<lparr>c_host = c_host', c_port = c_port', c_stream = c_stream', xprt_handle = h\<rparr>, cs))))))"

definition sock_connect :: "ldms_lib \<Rightarrow> sock_stream \<Rightarrow> unit ldms" where
  "sock_connect lib self = (\<lambda>cs.
     let (rc, cs) = call_rc lib (Xprt_connect_by_name (xprt_handle self) (c_host self) (c_port self)) cs
     in if rc \<noteq> 0 then (Inl (Connect_failed rc), cs) else (Inr (), cs))"

definition sock_close :: "sock_stream \<Rightarrow> calls \<Rightarrow> calls" where
  "sock_close self cs = cs @ [Xprt_close (xprt_handle self)]"

definition ldms_stream_publish :: "ldms_lib \<Rightarrow> sock_stream \<Rightarrow> bytes \<Rightarrow> unit ldms" where
  "ldms_stream_publish lib self message =
     bind_m (res_m (cstring_new message)) (\<lambda>c_message cs.
       let (rc, cs) = call_rc lib (Stream_publish (xprt_handle self) (c_stream self) LDMSD_STREAM_JSON
             c_message (of_nat (count_bytes c_message + 1))) cs
       in if rc \<noteq> 0 then (Inl (Publish_failed rc), cs) else (Inr (), cs))"

text \<open>The permission argument is the decimal literal the source writes.\<close>

definition ldms_msg_publish :: "ldms_lib \<Rightarrow> sock_stream \<Rightarrow> bytes \<Rightarrow> unit ldms" where
  "ldms_msg_publish lib self message =
     bind_m (res_m (cstring_new message)) (\<lambda>c_message cs.
       let (rc, cs) = call_rc lib (Msg_publish (xprt_handle self) (c_stream self) LDMSD_STREAM_JSON 400
             c_message (of_nat (count_bytes c_message + 1))) cs
       in if rc \<noteq> 0 then (Inl (Publish_failed rc), cs) else (Inr (), cs))"

text \<open>\<open>Drop\<close> closes the transport.\<close>

definition sock_drop :: "sock_stream \<Rightarrow> calls \<Rightarrow> calls" where
  "sock_drop self cs = sock_close self cs"

section \<open>C strings\<close>

lemma nul_position_None: "nul_position s = None \<longleftrightarrow> 0 \<notin> set s"
  by (induction s) auto

lemma nul_position_Some:
  "nul_position s = Some p \<longleftrightarrow> p < length s \<and> s ! p = 0 \<and> 0 \<notin> set (take p s)"
  by (induction s arbitrary: p) (auto simp: nth_Cons split: nat.splits)

lemma cstring_new_Inr: "cstring_new s = Inr c \<longleftrightarrow> 0 \<notin> set s \<and> c = s @ [0]"
  by (auto simp: cstring_new_def nul_position_None [symmetric] split: option.splits)

lemma cstring_new_ok [simp]: "0 \<notin> set s \<Longrightarrow> cstring_new s = Inr (s @ [0])"
  by (simp add: cstring_new_Inr)

lemma count_bytes_cstring [simp]: "count_bytes (s @ [0]) = length s"
  by (simp add: count_bytes_def)

section \<open>What the operations pass on\<close>

definition msg_call :: "sock_stream \<Rightarrow> bytes \<Rightarrow> ldms_call" where
  "msg_call self m = Msg_publish (xprt_handle self) (c_stream self) LDMSD_STREAM_JSON 400
     (m @ [0]) (of_nat (length m + 1))"

lemma ldms_msg_publish_run:
  "ldms_msg_publish lib self m cs =
     (case nul_position m of
        Some p \<Rightarrow> (Inl (Interior_nul p), cs)
      | None \<Rightarrow>
          let cs' = cs @ [msg_call self m]; rc = return_value lib cs'
          in (if rc = 0 then Inr () else Inl (Publish_failed rc), cs'))"
  by (auto simp: ldms_msg_publish_def run_simps cstring_new_def call_rc_def msg_call_def Let_def
      split: option.splits)

lemma ldms_msg_publish_Inr:
  "ldms_msg_publish lib self m cs = (Inr u, cs') \<longleftrightarrow>
     0 \<notin> set m \<and> cs' = cs @ [msg_call self m] \<and> return_value lib cs' = 0"
  by (auto simp: ldms_msg_publish_run nul_position_None [symmetric] Let_def split: option.splits if_splits)

lemma sock_new_cases:
  assumes "sock_new lib xprt auth host port stream cs = (r, cs')"
  obtains (refused) e where "r = Inl e" "cs' = cs"
  | (failed) x a where "r = Inl Transport_failed" "cs' = cs @ [Xprt_new_with_auth x a]"
  | (created) x a self where "r = Inr self" "cs' = cs @ [Xprt_new_with_auth x a]"
      "new_handle lib cs' = Some (xprt_handle self)"
  using assms
  by (auto simp: sock_new_def run_simps Let_def split: option.splits sum.splits)

lemma sock_connect_calls:
  "sock_connect lib self cs = (r, cs') \<Longrightarrow>
     cs' = cs @ [Xprt_connect_by_name (xprt_handle self) (c_host self) (c_port self)]"
  by (auto simp: sock_connect_def call_rc_def Let_def split: if_splits)

text \<open>A stream is made exactly for the transport \<open>sock\<close>, the authentications \<open>none\<close> and \<open>munge\<close> and names
  without zero bytes, when the library gives a handle; the library is asked once, with the
  zero-terminated names, and the stream keeps the other names zero-terminated.\<close>

theorem sock_new_spec:
  "sock_new lib xprt auth host port stream cs = (Inr self, cs') \<longleftrightarrow>
     xprt = str_bytes ''sock'' \<and> auth \<in> {str_bytes ''none'', str_bytes ''munge''} \<and>
     0 \<notin> set host \<and> 0 \<notin> set port \<and> 0 \<notin> set stream \<and>
     cs' = cs @ [Xprt_new_with_auth (xprt @ [0]) (auth @ [0])] \<and>
     new_handle lib cs' = Some (xprt_handle self) \<and>
     c_host self = host @ [0] \<and> c_port self = port @ [0] \<and> c_stream self = stream @ [0]"
proof -
  have t: "transport_name xprt = Inr c \<longleftrightarrow> xprt = str_bytes ''sock'' \<and> c = xprt @ [0]" for c
    by (auto simp: transport_name_def cstring_new_Inr str_bytes_def)
  have a: "auth_name auth = Inr c \<longleftrightarrow> auth \<in> {str_bytes ''none'', str_bytes ''munge''} \<and> c = auth @ [0]" for c
    by (auto simp: auth_name_def cstring_new_Inr str_bytes_def)
  have "sock_new lib xprt auth host port stream cs = (Inr self, cs') \<longleftrightarrow>
     (\<exists>x a h p q. transport_name xprt = Inr x \<and> auth_name auth = Inr a \<and> cstring_new host = Inr h \<and>
        cstring_new port = Inr p \<and> cstring_new stream = Inr q \<and> cs' = cs @ [Xprt_new_with_auth x a] \<and>
        new_handle lib cs' = Some (xprt_handle self) \<and> c_host self = h \<and> c_port self = p \<and> c_stream self = q)"
    by (cases self) (auto simp: sock_new_def run_simps Let_def split: option.splits sum.splits)
  then show ?thesis unfolding t a cstring_new_Inr by blast
qed

end
