(* ===== verification/Daemon_Time.thy ===== *)
theory Daemon_Time
  imports Ldms_Prelude Complex_Main
begin

text \<open>
  Wall-clock time in the daemon (\<open>current_mono_realtime_offset\<close> and the time stamp of \<open>ring_loop\<close> in
  \<open>daemon/ebpf_ldms/src/main.rs\<close>): the monotonic time of a producer is added to an offset taken at
  start-up and turned into seconds in floating point, with every rounding of the arithmetic.

  The lemmas bound the rounding and show that it keeps the order of events.
\<close>

section \<open>Time\<close>

text \<open>
  \<open>SystemTime\<close> as signed nanoseconds since the Unix epoch, \<open>Duration\<close> as nanoseconds. The seconds
  of a \<open>SystemTime\<close> are 64-bit; its addition and subtraction panic outside that range.
\<close>

definition system_time_ok :: "int \<Rightarrow> bool" where
  "system_time_ok t \<longleftrightarrow> - (2 ^ 63) \<le> t div 10 ^ 9 \<and> t div 10 ^ 9 < 2 ^ 63"

definition checked_time :: "int \<Rightarrow> int option" where
  "checked_time t = (if system_time_ok t then Some t else None)"

text \<open>\<open>duration_since\<close>: an error when the other time is later.\<close>

definition duration_since :: "int \<Rightarrow> int \<Rightarrow> nat option" where
  "duration_since a b = (if b \<le> a then Some (nat (a - b)) else None)"

definition current_mono_realtime_offset :: "nat option \<Rightarrow> int \<Rightarrow> int option" where
  "current_mono_realtime_offset now_mono now_real =
     (case now_mono of
        None \<Rightarrow> None
      | Some m \<Rightarrow>
          (case checked_time (now_real - int m) of
             None \<Rightarrow> None
           | Some now_minus \<Rightarrow>
               (case duration_since now_real now_minus of None \<Rightarrow> None | Some offset \<Rightarrow> Some now_minus)))"

text \<open>
  Finite nonnegative \<open>f64\<close> values as rational numbers. \<open>round_f64\<close> rounds to 53 significant bits, to
  nearest and halves to even; the values here, zero or between a nanosecond and \<open>2 ^ 64\<close>, are
  inside the range of normal numbers.
\<close>

definition round_half_even :: "rat \<Rightarrow> int" where
  "round_half_even x =
     (let f = \<lfloor>x\<rfloor>; d = x - of_int f
      in if d < 1 / 2 then f else if 1 / 2 < d then f + 1 else if even f then f else f + 1)"

fun bit_length :: "nat \<Rightarrow> nat" where
  "bit_length n = (if n = 0 then 0 else Suc (bit_length (n div 2)))"

declare bit_length.simps [simp del]

definition binary_exponent :: "rat \<Rightarrow> int" where
  "binary_exponent x =
     (let (n, d) = quotient_of x; e = int (bit_length (nat n)) - int (bit_length (nat d))
      in if 2 powi e \<le> x then e else e - 1)"

definition round_f64 :: "rat \<Rightarrow> rat" where
  "round_f64 x =
     (if x \<le> 0 then 0
      else let u = binary_exponent x - 52 in of_int (round_half_even (x / 2 powi u)) * 2 powi u)"

definition as_secs :: "nat \<Rightarrow> nat" where
  "as_secs d = d div 10 ^ 9"

definition subsec_nanos :: "nat \<Rightarrow> nat" where
  "subsec_nanos d = d mod 10 ^ 9"

definition unix_seconds :: "nat \<Rightarrow> rat" where
  "unix_seconds unixtime =
     (let ts = round_f64 (of_nat (as_secs unixtime))
      in round_f64 (ts + round_f64 (round_f64 (of_nat (subsec_nanos unixtime)) / round_f64 (10 ^ 9))))"

text \<open>The time stamp of a message; the outer \<open>None\<close> is the panic of the addition.\<close>

definition message_time :: "int \<Rightarrow> u64 \<Rightarrow> rat option option" where
  "message_time time_offset mono_ns =
     (case checked_time (time_offset + int (unat mono_ns)) of
        None \<Rightarrow> None
      | Some t \<Rightarrow> Some (map_option unix_seconds (duration_since t 0)))"

section \<open>Rounding\<close>

lemma bit_length_bounds: "0 < n \<Longrightarrow> 2 ^ (bit_length n - 1) \<le> n \<and> n < 2 ^ bit_length n"
proof (induction n rule: bit_length.induct)
  case (1 n)
  show ?case
  proof (cases "n div 2 = 0")
    case True
    with 1 have "n = 1" by auto
    then show ?thesis by (simp add: bit_length.simps)
  next
    case False
    let ?k = "bit_length (n div 2)"
    have k: "2 ^ (?k - 1) \<le> n div 2" "n div 2 < 2 ^ ?k" using 1 False by auto
    have "?k = Suc (?k - 1)" using k(2) False by (cases ?k) auto
    then have "2 ^ ?k = 2 * (2 ^ (?k - 1) :: nat)" by (metis power_Suc)
    then have "2 ^ ?k \<le> n" "n < 2 * 2 ^ ?k" using k by linarith+
    then show ?thesis using 1 by (simp add: bit_length.simps [of n])
  qed
qed

lemma powi_bit_length:
  assumes "0 < n"
  shows "2 powi (int (bit_length n) - 1) \<le> (of_nat n :: rat)" "(of_nat n :: rat) < 2 powi int (bit_length n)"
proof -
  have b: "2 ^ (bit_length n - 1) \<le> n" "n < 2 ^ bit_length n" using bit_length_bounds [OF assms] by auto
  have l: "0 < bit_length n" using assms by (subst bit_length.simps) simp
  have "2 powi (int (bit_length n) - 1) = (2 :: rat) ^ (bit_length n - 1)"
    using l by (simp add: power_int_def nat_diff_distrib)
  also have "\<dots> = of_nat (2 ^ (bit_length n - 1))" by simp
  also have "\<dots> \<le> of_nat n" using b(1) by (simp only: of_nat_le_iff)
  finally show "2 powi (int (bit_length n) - 1) \<le> (of_nat n :: rat)" .
  have "(of_nat n :: rat) < of_nat (2 ^ bit_length n)" using b(2) by (simp only: of_nat_less_iff)
  then show "(of_nat n :: rat) < 2 powi int (bit_length n)" by simp
qed

lemma binary_exponent_bounds:
  assumes "0 < x"
  shows "2 powi binary_exponent x \<le> x" "x < 2 powi (binary_exponent x + 1)"
proof -
  obtain p q where pq: "quotient_of x = (p, q)" by (cases "quotient_of x")
  have q: "0 < q" using quotient_of_denom_pos [OF pq] .
  have x: "x = of_int p / of_int q" using quotient_of_div [OF pq] .
  with assms q have p: "0 < p" by (simp add: zero_less_divide_iff)
  define n d where "n = nat p" and "d = nat q"
  have nd: "0 < n" "0 < d" "x = of_nat n / of_nat d" using p q x by (auto simp: n_def d_def)
  define e where "e = int (bit_length n) - int (bit_length d)"
  have b: "binary_exponent x = (if 2 powi e \<le> x then e else e - 1)"
    by (simp add: binary_exponent_def pq Let_def e_def n_def d_def)
  note n = powi_bit_length [OF nd(1)] and d = powi_bit_length [OF nd(2)]
  have two: "(2::rat) \<noteq> 0" by simp
  have "2 powi (e - 1) = 2 powi (int (bit_length n) - 1) / (2::rat) powi int (bit_length d)"
    unfolding e_def by (subst power_int_diff [symmetric]) (simp_all add: algebra_simps)
  also have "\<dots> \<le> x" unfolding nd(3) using n(1) d(2) nd(2)
    by (intro frac_le) auto
  finally have lo: "2 powi (e - 1) \<le> x" .
  have "x < 2 powi int (bit_length n) / 2 powi (int (bit_length d) - 1)"
    unfolding nd(3) using n(2) d(1) by (intro frac_less) (auto simp: zero_less_power_int)
  also have "\<dots> = 2 powi (e + 1)"
    unfolding e_def by (subst power_int_diff [symmetric]) (simp_all add: algebra_simps)
  finally have "x < 2 powi (e + 1)" .
  with lo show "2 powi binary_exponent x \<le> x" "x < 2 powi (binary_exponent x + 1)"
    unfolding b by auto
qed

lemma round_half_even_near: "\<bar>of_int (round_half_even x) - x\<bar> \<le> 1 / 2"
  unfolding round_half_even_def Let_def
  using floor_correct [of x] by (auto simp: abs_le_iff)

lemma round_half_even_of_int [simp]: "round_half_even (of_int k) = k"
  by (simp add: round_half_even_def)

lemma round_half_even_mono: "x \<le> y \<Longrightarrow> round_half_even x \<le> round_half_even y"
proof -
  assume xy: "x \<le> y"
  have "\<lfloor>x\<rfloor> \<le> \<lfloor>y\<rfloor>" using xy by (rule floor_mono)
  then consider "\<lfloor>x\<rfloor> = \<lfloor>y\<rfloor>" | "\<lfloor>x\<rfloor> + 1 \<le> \<lfloor>y\<rfloor>" by linarith
  then show ?thesis using xy unfolding round_half_even_def Let_def by cases auto
qed

lemma round_f64_pos:
  "0 < x \<Longrightarrow> round_f64 x = of_int (round_half_even (x / 2 powi (binary_exponent x - 52))) * 2 powi (binary_exponent x - 52)"
  by (simp add: round_f64_def Let_def)

lemma round_f64_error:
  assumes "0 \<le> x"
  shows "\<bar>round_f64 x - x\<bar> \<le> x / 2 ^ 53"
proof (cases "x = 0")
  case False
  with assms have x: "0 < x" by simp
  let ?u = "binary_exponent x - 52" let ?U = "2 powi ?u :: rat" let ?y = "x / ?U"
  have U: "0 < ?U" by simp
  have "round_f64 x - x = (of_int (round_half_even ?y) - ?y) * ?U"
    unfolding round_f64_pos [OF x] using U by (simp add: left_diff_distrib)
  then have "\<bar>round_f64 x - x\<bar> = \<bar>of_int (round_half_even ?y) - ?y\<bar> * ?U"
    using U by (simp add: abs_mult)
  also have "\<dots> \<le> 1 / 2 * ?U"
    using round_half_even_near [of ?y] U by (intro mult_right_mono) auto
  also have "\<dots> = 2 powi binary_exponent x / 2 ^ 53"
    by (simp add: power_int_diff)
  also have "\<dots> \<le> x / 2 ^ 53"
    using binary_exponent_bounds(1) [OF x] by (simp add: divide_right_mono)
  finally show ?thesis .
qed (simp add: round_f64_def)

lemma binary_exponent_mono:
  assumes "0 < x" "x \<le> y" shows "binary_exponent x \<le> binary_exponent y"
proof (rule ccontr)
  assume "\<not> ?thesis"
  then have "binary_exponent y + 1 \<le> binary_exponent x" by simp
  then have "2 powi (binary_exponent y + 1) \<le> (2 :: rat) powi binary_exponent x"
    by (intro power_int_increasing) auto
  with binary_exponent_bounds [of x] binary_exponent_bounds [of y] assms show False by auto
qed

text \<open>A value between two powers of two is rounded to one between them.\<close>

lemma round_f64_between:
  assumes "0 < x"
  shows "2 powi binary_exponent x \<le> round_f64 x" "round_f64 x \<le> 2 powi (binary_exponent x + 1)"
proof -
  let ?e = "binary_exponent x" let ?U = "2 powi (?e - 52) :: rat"
  have U: "0 < ?U" by simp
  have p: "2 powi ?e = of_int (2 ^ 52) * ?U" "2 powi (?e + 1) = of_int (2 ^ 53) * ?U"
    by (simp_all add: power_int_diff power_int_add)
  have "of_int (2 ^ 52) \<le> x / ?U" "x / ?U \<le> of_int (2 ^ 53)"
    using binary_exponent_bounds [OF assms] U unfolding p by (simp_all add: field_simps)
  then have r: "2 ^ 52 \<le> round_half_even (x / ?U)" "round_half_even (x / ?U) \<le> 2 ^ 53"
    using round_half_even_mono round_half_even_of_int by metis+
  show "2 powi ?e \<le> round_f64 x"
    unfolding round_f64_pos [OF assms] p using r(1) U
    by (intro mult_right_mono of_int_le_iff [THEN iffD2]) auto
  show "round_f64 x \<le> 2 powi (?e + 1)"
    unfolding round_f64_pos [OF assms] p using r(2) U
    by (intro mult_right_mono of_int_le_iff [THEN iffD2]) auto
qed

lemma round_f64_nonneg: "0 \<le> round_f64 x"
proof (cases "0 < x")
  case True
  have "0 < (2 :: rat) powi binary_exponent x" by simp
  with round_f64_between(1) [OF True] show ?thesis by linarith
qed (simp add: round_f64_def)

lemma round_f64_mono:
  assumes "x \<le> y" shows "round_f64 x \<le> round_f64 y"
proof (cases "0 < x")
  case False
  then show ?thesis using round_f64_nonneg [of y] by (simp add: round_f64_def)
next
  case True
  with assms have y: "0 < y" by simp
  consider "binary_exponent x = binary_exponent y" | "binary_exponent x + 1 \<le> binary_exponent y"
    using binary_exponent_mono [OF True assms] by linarith
  then show ?thesis
  proof cases
    case 1
    then show ?thesis
      unfolding round_f64_pos [OF True] round_f64_pos [OF y] 1
      by (intro mult_right_mono) (auto simp: assms divide_right_mono round_half_even_mono)
  next
    case 2
    then have "2 powi (binary_exponent x + 1) \<le> (2 :: rat) powi binary_exponent y"
      by (intro power_int_increasing) auto
    with round_f64_between [OF True] round_f64_between [OF y] show ?thesis by linarith
  qed
qed

text \<open>Integers of at most 53 bits are exact.\<close>

lemma round_f64_of_nat: "n < 2 ^ 53 \<Longrightarrow> round_f64 (of_nat n) = of_nat n"
proof (cases "n = 0")
  case False
  assume n: "n < 2 ^ 53"
  let ?x = "of_nat n :: rat" let ?e = "binary_exponent ?x"
  from False have x: "0 < ?x" by simp
  have "?x < 2 powi 53"
    using n of_nat_less_iff [of n "2 ^ 53", where 'a = rat] by simp
  then have "(2 :: rat) powi ?e < 2 powi 53" using binary_exponent_bounds(1) [OF x] by linarith
  then have e: "?e < 53" using power_int_increasing [of 53 ?e "2 :: rat"] by (cases "?e < 53") auto
  have "?x / 2 powi (?e - 52) = ?x * 2 powi (52 - ?e)"
    by (simp add: power_int_diff field_simps)
  also have "\<dots> = of_int (int n * 2 ^ nat (52 - ?e))"
    using e by (simp add: power_int_def)
  finally have "round_half_even (?x / 2 powi (?e - 52)) = int n * 2 ^ nat (52 - ?e)"
    by (simp only: round_half_even_of_int)
  then have "round_f64 ?x = of_int (int n * 2 ^ nat (52 - ?e)) * 2 powi (?e - 52)"
    by (simp only: round_f64_pos [OF x])
  also have "\<dots> = ?x / 2 powi (?e - 52) * 2 powi (?e - 52)"
    by (simp only: \<open>?x / 2 powi (?e - 52) = ?x * 2 powi (52 - ?e)\<close>
        \<open>?x * 2 powi (52 - ?e) = of_int (int n * 2 ^ nat (52 - ?e))\<close>)
  finally show ?thesis by simp
qed (simp add: round_f64_def)


definition nanos :: "nat \<Rightarrow> rat" where
  "nanos n = round_f64 (of_nat (subsec_nanos n) / 10 ^ 9)"

lemma unix_seconds_eq:
  assumes "n < 2 ^ 53 * 10 ^ 9"
  shows "unix_seconds n = round_f64 (of_nat (as_secs n) + nanos n)"
proof -
  have "as_secs n < 2 ^ 53" using assms by (simp add: as_secs_def less_mult_imp_div_less)
  moreover have "subsec_nanos n < 2 ^ 53" by (simp add: subsec_nanos_def less_trans [of _ "10 ^ 9"])
  moreover have "round_f64 (10 ^ 9) = 10 ^ 9" using round_f64_of_nat [of "10 ^ 9"] by simp
  ultimately show ?thesis
    by (simp only: unix_seconds_def Let_def round_f64_of_nat nanos_def)
qed

lemma nanos_bounds: "0 \<le> nanos n" "nanos n \<le> 1" "\<bar>nanos n - of_nat (subsec_nanos n) / 10 ^ 9\<bar> \<le> 1 / 2 ^ 53"
proof -
  let ?q = "of_nat (subsec_nanos n) / 10 ^ 9 :: rat"
  have "(of_nat (subsec_nanos n) :: rat) \<le> of_nat (10 ^ 9)"
    by (simp only: of_nat_le_iff) (simp add: subsec_nanos_def less_imp_le)
  then have q: "0 \<le> ?q" "?q \<le> 1" by simp_all
  show "0 \<le> nanos n" unfolding nanos_def by (rule round_f64_nonneg)
  show "nanos n \<le> 1" using round_f64_mono [OF q(2)] round_f64_of_nat [of 1] by (simp add: nanos_def)
  have "\<bar>nanos n - ?q\<bar> \<le> ?q / 2 ^ 53" unfolding nanos_def by (rule round_f64_error [OF q(1)])
  also have "\<dots> \<le> 1 / 2 ^ 53" using q(2) by (intro divide_right_mono) auto
  finally show "\<bar>nanos n - ?q\<bar> \<le> 1 / 2 ^ 53" .
qed

lemma seconds_split: "(of_nat n :: rat) / 10 ^ 9 = of_nat (as_secs n) + of_nat (subsec_nanos n) / 10 ^ 9"
proof -
  have "n = as_secs n * 10 ^ 9 + subsec_nanos n" by (simp add: as_secs_def subsec_nanos_def)
  then have "(of_nat n :: rat) = of_nat (as_secs n) * 10 ^ 9 + of_nat (subsec_nanos n)"
    by (metis of_nat_add of_nat_mult of_nat_numeral of_nat_power)
  then show ?thesis by (simp add: add_divide_distrib)
qed

lemma unix_seconds_error:
  assumes "n < 2 ^ 53 * 10 ^ 9"
  shows "\<bar>unix_seconds n - of_nat n / 10 ^ 9\<bar> \<le> (of_nat (as_secs n) + 2) / 2 ^ 53"
proof -
  let ?s = "of_nat (as_secs n) :: rat"
  have "\<bar>unix_seconds n - (?s + nanos n)\<bar> \<le> (?s + nanos n) / 2 ^ 53"
    unfolding unix_seconds_eq [OF assms] using nanos_bounds(1) [of n] by (intro round_f64_error) simp
  also have "\<dots> \<le> (?s + 1) / 2 ^ 53"
    using nanos_bounds(2) [of n] by (intro divide_right_mono) auto
  finally show ?thesis 
    using nanos_bounds(3) [of n] unfolding seconds_split [of n] add_divide_distrib [of ?s] by linarith
qed

lemma unix_seconds_mono:
  assumes "m \<le> n" "n < 2 ^ 53 * 10 ^ 9"
  shows "unix_seconds m \<le> unix_seconds n"
proof -
  have m: "m < 2 ^ 53 * 10 ^ 9" using assms by simp
  have "of_nat (as_secs m) + nanos m \<le> of_nat (as_secs n) + nanos n"
  proof (cases "as_secs m = as_secs n")
    case True
    then have "subsec_nanos m \<le> subsec_nanos n"
      using diff_le_mono [OF assms(1), of "as_secs m * 10 ^ 9"]
      unfolding as_secs_def subsec_nanos_def by (metis minus_div_mult_eq_mod)
    then have "nanos m \<le> nanos n"
      unfolding nanos_def by (intro round_f64_mono divide_right_mono) auto
    with True show ?thesis by simp
  next
    case False
    moreover have "as_secs m \<le> as_secs n" using assms(1) unfolding as_secs_def by (rule div_le_mono)
    ultimately have "as_secs m + 1 \<le> as_secs n" by simp
    then have "(of_nat (as_secs m) :: rat) + 1 \<le> of_nat (as_secs n)"
      using of_nat_le_iff [of "as_secs m + 1" "as_secs n", where 'a = rat] by simp
    with nanos_bounds(2) [of m] nanos_bounds(1) [of n] show ?thesis by linarith
  qed
  then show ?thesis unfolding unix_seconds_eq [OF m] unix_seconds_eq [OF assms(2)] by (rule round_f64_mono)
qed


section \<open>Time stamps\<close>

lemma system_time_small: "- (2 ^ 63 * 10 ^ 9) \<le> t \<Longrightarrow> t < 2 ^ 63 * 10 ^ 9 \<Longrightarrow> system_time_ok t"
  unfolding system_time_ok_def by (simp, linarith)

lemma message_time_value:
  assumes "0 \<le> off" "off + int (unat m) < 2 ^ 63 * 10 ^ 9"
  shows "message_time off m = Some (Some (unix_seconds (nat off + unat m)))"
proof -
  have "system_time_ok (off + int (unat m))" 
    by (rule system_time_small) (use assms in \<open>auto intro: order_trans [of _ 0]\<close>)
  then show ?thesis
    using assms by (simp add: message_time_def checked_time_def duration_since_def nat_add_distrib)
qed

lemma message_time_no_panic:
  assumes "- (2 ^ 62 * 10 ^ 9) \<le> off" "off < 2 ^ 62 * 10 ^ 9"
  shows "message_time off m \<noteq> None"
proof -
  define u where "u = int (unat m)"
  have "unat m < 2 ^ 64" using unat_lt [of m] by simp
  then have "0 \<le> u" "u < 2 ^ 64" using of_nat_less_iff [of "unat m" "2 ^ 64", where 'a = int] by (auto simp: u_def)
  then have "system_time_ok (off + u)" by (intro system_time_small) (use assms in auto)
  then have "system_time_ok (off + int (unat m))" by (simp only: u_def)
  then show ?thesis by (simp add: message_time_def checked_time_def)
qed

lemma offset_value:
  assumes "- (2 ^ 63 * 10 ^ 9) \<le> r - int b" "r - int b < 2 ^ 63 * 10 ^ 9"
  shows "current_mono_realtime_offset (Some b) r = Some (r - int b)"
  using system_time_small [OF assms]
  by (simp add: current_mono_realtime_offset_def checked_time_def duration_since_def)

text \<open>C17: with both clocks read at start-up, an event at monotonic time \<open>m\<close> is stamped with the
  wall-clock time at which it happened, within a microsecond for all times before the year 2242; and
  of two events the later one never gets the earlier time stamp.\<close>

theorem timestamps_precise:
  assumes "int b \<le> r" "m1 \<le> m2" "r - int b + int (unat m2) < 2 ^ 33 * 10 ^ 9"
  shows "\<exists>off t1 t2. current_mono_realtime_offset (Some b) r = Some off \<and>
     message_time off m1 = Some (Some t1) \<and> message_time off m2 = Some (Some t2) \<and> t1 \<le> t2 \<and>
     \<bar>t2 - of_int (r - int b + int (unat m2)) / 10 ^ 9\<bar> < 1 / 10 ^ 6"
proof -
  define off where "off = r - int b"
  define n1 n2 where "n1 = nat off + unat m1" and "n2 = nat off + unat m2"
  have o: "0 \<le> off" using assms(1) by (simp add: off_def)
  have m: "unat m1 \<le> unat m2" using assms(2) by (simp add: word_le_nat_alt)
  have n: "n1 \<le> n2" "int n2 = off + int (unat m2)" using m o by (auto simp: n1_def n2_def)
  have lt: "int n2 < 2 ^ 33 * 10 ^ 9" using assms(3) n(2) by (simp add: off_def)
  then have b: "n2 < 2 ^ 33 * 10 ^ 9" by simp
  have c: "current_mono_realtime_offset (Some b) r = Some off"
    unfolding off_def
  proof (rule offset_value)
    have "r - int b \<le> int n2" by (simp add: n(2) off_def)
    with lt show "r - int b < 2 ^ 63 * 10 ^ 9" by simp
  qed (use assms(1) in simp)
  have t: "message_time off m1 = Some (Some (unix_seconds n1))"
    "message_time off m2 = Some (Some (unix_seconds n2))"
  proof -
    have "off + int (unat m1) = int n1" "off + int (unat m2) = int n2" using o by (simp_all add: n1_def n2_def)
    then have "off + int (unat m1) < 2 ^ 63 * 10 ^ 9" "off + int (unat m2) < 2 ^ 63 * 10 ^ 9"
      using n(1) b by auto
    then show "message_time off m1 = Some (Some (unix_seconds n1))"
      "message_time off m2 = Some (Some (unix_seconds n2))"
      unfolding n1_def n2_def using o by (intro message_time_value; simp)+
  qed
  have le: "unix_seconds n1 \<le> unix_seconds n2"
    by (rule unix_seconds_mono [OF n(1)]) (use b in simp)
  have e: "\<bar>unix_seconds n2 - of_nat n2 / 10 ^ 9\<bar> \<le> (of_nat (as_secs n2) + 2) / 2 ^ 53"
    by (rule unix_seconds_error) (use b in simp)
  have "as_secs n2 < 2 ^ 33" unfolding as_secs_def using b by (simp add: less_mult_imp_div_less)
  then have "(of_nat (as_secs n2) :: rat) < 2 ^ 33"
    using of_nat_less_iff [of "as_secs n2" "2 ^ 33", where 'a = rat] by simp
  then have s: "(of_nat (as_secs n2) + 2) / 2 ^ 53 < (1 / 10 ^ 6 :: rat)" by simp
  have "(of_nat n2 :: rat) = of_int (r - int b + int (unat m2))"
    using n(2) by (metis of_int_of_nat_eq off_def)
  with e s have "\<bar>unix_seconds n2 - of_int (r - int b + int (unat m2)) / 10 ^ 9\<bar> < 1 / 10 ^ 6" by simp
  with c t le show ?thesis by blast
qed

lemma timestamps_precise_witness:
  "\<exists>off t1 t2. current_mono_realtime_offset (Some 5000) 1700000000000000000 = Some off \<and>
     message_time off 7 = Some (Some t1) \<and> message_time off 9000000000 = Some (Some t2) \<and> t1 \<le> t2 \<and>
     \<bar>t2 - of_int (1700000000000000000 - int 5000 + int (unat (9000000000 :: u64))) / 10 ^ 9\<bar> < 1 / 10 ^ 6"
  by (rule timestamps_precise) (simp_all add: word_le_nat_alt)

end
