(* ===== verification/Daemon.thy ===== *)
theory Daemon
  imports Ldms_Stream Daemon_Time
begin

text \<open>
  The daemon (\<open>daemon/ebpf_ldms/src/main.rs\<close>, \<open>cli.rs\<close>). It takes the entries of the shared ring
  buffer, turns each from CBOR into JSON, adds the host name and a wall-clock time stamp, limits
  the rate of every producer and publishes the text through the transport.

  The packages it calls are parameters: \<open>ciborium\<close> and \<open>serde_json\<close> (with \<open>serde_json::Value\<close> as an
  abstract type of values) and the sliding window limiter of \<open>burster\<close>. What the daemon relies on of
  \<open>serde_json\<close> is the predicate \<open>serde_ok\<close>.
\<close>

section \<open>Command line\<close>

record ebpf_ldms =
  stream_opt :: bytes
  msglimit :: u64
  interval :: u64
  host_opt :: bytes
  port_opt :: bytes
  authentication :: bytes
  hostname :: bytes
  logfile :: bytes

definition cli_defaults :: ebpf_ldms where
  "cli_defaults = \<lparr>stream_opt = str_bytes ''ebpf'', msglimit = 2, interval = 1,
     host_opt = str_bytes ''localhost'', port_opt = str_bytes ''60003'',
     authentication = str_bytes ''none'', hostname = str_bytes ''localhost'',
     logfile = str_bytes ''/var/log/ebpf_ldms.log''\<rparr>"

definition parse_ratelimit :: "ebpf_ldms \<Rightarrow> ebpf_ldms" where
  "parse_ratelimit cli =
     (let (i, j) =
        (if msglimit cli = 0 then (if interval cli = 0 then (1, 1) else (1, interval cli))
         else if interval cli = 0 then (msglimit cli, 1)
         else (msglimit cli, interval cli))
      in cli\<lparr>msglimit := i, interval := j\<rparr>)"

section \<open>JSON values and the limiter\<close>

record ('c, 'v, 'l) packages =
  from_reader :: "bytes \<Rightarrow> 'c option"
  to_value :: "'c \<Rightarrow> 'v option"
  to_string :: "'v \<Rightarrow> bytes option"
  json_null :: 'v
  json_index :: "'v \<Rightarrow> bytes \<Rightarrow> 'v"
  json_as_str :: "'v \<Rightarrow> bytes option"
  json_as_u64 :: "'v \<Rightarrow> u64 option"
  json_is_object :: "'v \<Rightarrow> bool"
  json_insert :: "'v \<Rightarrow> bytes \<Rightarrow> 'v \<Rightarrow> 'v"
  json_remove :: "'v \<Rightarrow> bytes \<Rightarrow> 'v"
  json_string :: "bytes \<Rightarrow> 'v"
  json_f64 :: "rat \<Rightarrow> 'v"
  sliding_window_counter :: "u64 \<Rightarrow> u64 \<Rightarrow> 'l"
  try_consume_one :: "nat \<Rightarrow> 'l \<Rightarrow> bool \<times> 'l"

definition map_insert_key :: "('c, 'v, 'l) packages \<Rightarrow> 'v \<Rightarrow> bytes \<Rightarrow> 'v \<Rightarrow> 'v option" where
  "map_insert_key P obj key value =
     (if json_is_object P obj then Some (json_insert P obj key value) else None)"

definition map_remove_key :: "('c, 'v, 'l) packages \<Rightarrow> 'v \<Rightarrow> bytes \<Rightarrow> 'v option" where
  "map_remove_key P obj key = (if json_is_object P obj then Some (json_remove P obj key) else None)"

section \<open>The ring buffer loop\<close>

datatype skip_reason = Bad_cbor | Bad_json | Missing_fields | Bad_timestamp | Rate_limited

datatype outcome = Skipped skip_reason | Published bytes

datatype loop_error = Loop_panic | Text_failed | Publish_error stream_error | Ring_unavailable

text \<open>The limiters by producer, the calls of the transport, and a count of the readings of the
  limiters' clock.\<close>

record 'l daemon =
  producer_tokens :: "bytes \<Rightarrow> 'l option"
  calls_made :: calls
  clock :: nat

record settings =
  set_msglimit :: u64
  set_interval :: u64
  set_hostname :: bytes
  set_offset :: int
  set_checks :: bool

type_synonym ('l, 'a) loop = "('l daemon, loop_error, 'a) fallible"

text \<open>The length of the window, \<open>interval * 1000\<close>. In a build with overflow checks the product panics
  when it exceeds 64 bits; in one without them it wraps.\<close>

definition window_ms :: "settings \<Rightarrow> u64 option" where
  "window_ms cfg = (if set_checks cfg \<and> 2 ^ 64 \<le> unat (set_interval cfg) * 1000 then None
     else Some (set_interval cfg * 1000))"

text \<open>The limiter of a producer: made when the producer is new, then asked for one token. The
  window is computed for every message. The result is whether the message may pass.\<close>

definition consume_token :: "('c, 'v, 'l) packages \<Rightarrow> settings \<Rightarrow> bytes \<Rightarrow> ('l, bool) loop" where
  "consume_token P cfg id' = (\<lambda>s.
     case window_ms cfg of
       None \<Rightarrow> (Inl Loop_panic, s)
     | Some window \<Rightarrow>
     let tokens = producer_tokens s;
         tokens = (case tokens id' of
             None \<Rightarrow> tokens(id' \<mapsto> sliding_window_counter P (set_msglimit cfg) window)
           | Some _ \<Rightarrow> tokens)
     in case tokens id' of
          None \<Rightarrow> (Inr True, s\<lparr>producer_tokens :=
            tokens(id' \<mapsto> sliding_window_counter P (set_msglimit cfg) window)\<rparr>)
        | Some l \<Rightarrow>
            let (granted, l') = try_consume_one P (clock s) l
            in (Inr granted, s\<lparr>producer_tokens := tokens(id' \<mapsto> l'), clock := clock s + 1\<rparr>))"

definition publish_text :: "('c, 'v, 'l) packages \<Rightarrow> ldms_lib \<Rightarrow> sock_stream \<Rightarrow> 'v \<Rightarrow> ('l, outcome) loop" where
  "publish_text P lib stream v = (\<lambda>s.
     case to_string P v of
       None \<Rightarrow> (Inl Text_failed, s)
     | Some msg \<Rightarrow>
         (case ldms_msg_publish lib stream msg (calls_made s) of
            (Inl e, cs) \<Rightarrow> (Inl (Publish_error e), s\<lparr>calls_made := cs\<rparr>)
          | (Inr _, cs) \<Rightarrow> (Inr (Published msg), s\<lparr>calls_made := cs\<rparr>)))"

text \<open>The message to publish: its producer and value, or why the entry is skipped. The outer
  \<open>None\<close> is a panic.\<close>

definition prepare :: "('c, 'v, 'l) packages \<Rightarrow> settings \<Rightarrow> bytes \<Rightarrow> (skip_reason + bytes \<times> 'v) option" where
  "prepare P cfg item =
     (case from_reader P item of
        None \<Rightarrow> Some (Inl Bad_cbor)
      | Some v \<Rightarrow>
     (case to_value P v of
        None \<Rightarrow> Some (Inl Bad_json)
      | Some serde_v \<Rightarrow>
     let id' = json_index P serde_v (str_bytes ''id'');
         timestamp_monotonic = json_index P serde_v (str_bytes ''timestamp_monotonic'') in
     if id' = json_null P \<or> timestamp_monotonic = json_null P then Some (Inl Missing_fields)
     else
     let id' = (case json_as_str P id' of Some x \<Rightarrow> x | None \<Rightarrow> str_bytes ''invalid id field'');
         mono_ns = (case json_as_u64 P timestamp_monotonic of Some x \<Rightarrow> x | None \<Rightarrow> 0) in
     (case map_insert_key P serde_v (str_bytes ''hostname'') (json_string P (set_hostname cfg)) of
        None \<Rightarrow> None
      | Some serde_v \<Rightarrow>
     (case message_time (set_offset cfg) mono_ns of
        None \<Rightarrow> None
      | Some None \<Rightarrow> Some (Inl Bad_timestamp)
      | Some (Some ts) \<Rightarrow>
     (case map_insert_key P serde_v (str_bytes ''timestamp'') (json_f64 P ts) of
        None \<Rightarrow> None
      | Some serde_v \<Rightarrow>
     (case map_remove_key P serde_v (str_bytes ''timestamp_monotonic'') of
        None \<Rightarrow> None
      | Some serde_v \<Rightarrow> Some (Inr (id', serde_v))))))))"

definition process_item ::
  "('c, 'v, 'l) packages \<Rightarrow> ldms_lib \<Rightarrow> sock_stream \<Rightarrow> settings \<Rightarrow> bytes \<Rightarrow> ('l, outcome) loop" where
  "process_item P lib stream cfg item =
     (case prepare P cfg item of
        None \<Rightarrow> fail_m Loop_panic
      | Some (Inl why) \<Rightarrow> ret_m (Skipped why)
      | Some (Inr (id', serde_v)) \<Rightarrow>
          bind_m (consume_token P cfg id') (\<lambda>granted.
            if granted then publish_text P lib stream serde_v else ret_m (Skipped Rate_limited)))"

text \<open>The loop over the entries that arrive, with the outcome of each.\<close>

fun ring_entries ::
  "('c, 'v, 'l) packages \<Rightarrow> ldms_lib \<Rightarrow> sock_stream \<Rightarrow> settings \<Rightarrow> bytes list \<Rightarrow> ('l, outcome list) loop" where
  "ring_entries P lib stream cfg [] = ret_m []"
| "ring_entries P lib stream cfg (item # items) =
     bind_m (process_item P lib stream cfg item) (\<lambda>r.
       map_m (Cons r) (ring_entries P lib stream cfg items))"

text \<open>\<open>ring_loop\<close> owns the stream. When it ends with an error or a panic the stream is dropped. Otherwise it
  runs until its task is cancelled, after the entries given: the cancellation only schedules the
  task once more, so the stream is dropped if a thread of the executor gets to it before the
  process ends (\<open>dropped\<close>). \<open>checks\<close> says whether the program is built with overflow checks.\<close>

definition ring_loop ::
  "('c, 'v, 'l) packages \<Rightarrow> ldms_lib \<Rightarrow> sock_stream \<Rightarrow> u64 \<Rightarrow> u64 \<Rightarrow> bytes \<Rightarrow>
     bool \<Rightarrow> bool \<Rightarrow> nat option \<Rightarrow> int \<Rightarrow> bool \<Rightarrow> bytes list \<Rightarrow> calls \<Rightarrow> (loop_error + outcome list) \<times> calls" where
  "ring_loop P lib stream limit period host checks dropped now_mono now_real ring_ok items cs =
     (let (r, cs) =
        (case current_mono_realtime_offset now_mono now_real of
           None \<Rightarrow> (Inl Loop_panic, cs)
         | Some time_offset \<Rightarrow>
             if \<not> ring_ok then (Inl Ring_unavailable, cs)
             else
               let cfg = \<lparr>set_msglimit = limit, set_interval = period, set_hostname = host,
                      set_offset = time_offset, set_checks = checks\<rparr>;
                   (r, s) = ring_entries P lib stream cfg items
                      \<lparr>producer_tokens = (\<lambda>_. None), calls_made = cs, clock = 0\<rparr>
               in (r, calls_made s))
      in (r, case r of Inl _ \<Rightarrow> sock_drop stream cs
           | Inr _ \<Rightarrow> if dropped then sock_drop stream cs else cs))"

section \<open>The program\<close>

datatype main_error = Logger_failed | Stream_failed stream_error | Main_panic

text \<open>What the program finds outside: whether the logger starts and the pinned ring buffer opens,
  the clocks, whether the ring buffer can be polled, the entries before the interrupt, whether the
  interrupt handler can be set, whether a cancelled task is dropped before the process ends, and
  how the program was built.\<close>

record surroundings =
  logger_ok :: bool
  ring_pinned :: bool
  clock_mono :: "nat option"
  clock_real :: int
  ring_polls :: bool
  entries :: "bytes list"
  ctrlc_ok :: bool
  task_dropped :: bool
  overflow_checks :: bool

text \<open>The main thread ends well whatever the loop's task returned; the second result is the task's.
  It panics when the handler for the interrupt cannot be set, with the task already spawned.\<close>

definition daemon_main ::
  "('c, 'v, 'l) packages \<Rightarrow> ldms_lib \<Rightarrow> surroundings \<Rightarrow> ebpf_ldms \<Rightarrow>
     (main_error + (loop_error + outcome list)) \<times> calls" where
  "daemon_main P lib env cli =
     (if \<not> logger_ok env then (Inl Logger_failed, [])
      else
      let cli = parse_ratelimit cli in
      case sock_new lib (str_bytes ''sock'') (authentication cli) (host_opt cli) (port_opt cli) (stream_opt cli) [] of
        (Inl e, cs) \<Rightarrow> (Inl (Stream_failed e), cs)
      | (Inr stream, cs) \<Rightarrow>
          (case sock_connect lib stream cs of
             (Inl e, cs) \<Rightarrow> (Inl (Stream_failed e), sock_drop stream cs)
           | (Inr _, cs) \<Rightarrow>
               if \<not> ring_pinned env then (Inl Main_panic, sock_drop stream cs)
               else
                 let (task, cs) = ring_loop P lib stream (msglimit cli) (interval cli) (hostname cli)
                        (overflow_checks env) (task_dropped env) (clock_mono env) (clock_real env)
                        (ring_polls env) (entries env) cs
                 in (if ctrlc_ok env then Inr task else Inl Main_panic, cs)))"

section \<open>What the daemon relies on\<close>

text \<open>Indexing by a key reads an object's member and is null for a missing member and for a value
  that is no object; inserting and removing change exactly one member.\<close>

definition serde_ok :: "('c, 'v, 'l) packages \<Rightarrow> bool" where
  "serde_ok P \<longleftrightarrow>
     (\<forall>v k. \<not> json_is_object P v \<longrightarrow> json_index P v k = json_null P) \<and>
     (\<forall>v k x. json_is_object P v \<longrightarrow> json_is_object P (json_insert P v k x) \<and>
        (\<forall>k'. json_index P (json_insert P v k x) k' = (if k' = k then x else json_index P v k'))) \<and>
     (\<forall>v k. json_is_object P v \<longrightarrow> json_is_object P (json_remove P v k) \<and>
        (\<forall>k'. json_index P (json_remove P v k) k' = (if k' = k then json_null P else json_index P v k')))"

text \<open>A message as it is published: \<open>out\<close> is the received value \<open>v\<close> with the host name and the time
  stamp set and the monotonic time taken out.\<close>

definition completed :: "('c, 'v, 'l) packages \<Rightarrow> bytes \<Rightarrow> rat \<Rightarrow> 'v \<Rightarrow> 'v \<Rightarrow> bool" where
  "completed P host ts v out \<longleftrightarrow> json_is_object P out \<and>
     (\<forall>k. json_index P out k =
        (if k = str_bytes ''timestamp_monotonic'' then json_null P
         else if k = str_bytes ''timestamp'' then json_f64 P ts
         else if k = str_bytes ''hostname'' then json_string P host
         else json_index P v k))"

definition producer_of :: "('c, 'v, 'l) packages \<Rightarrow> 'v \<Rightarrow> bytes" where
  "producer_of P v = (case json_as_str P (json_index P v (str_bytes ''id'')) of
     Some x \<Rightarrow> x | None \<Rightarrow> str_bytes ''invalid id field'')"

definition mono_of :: "('c, 'v, 'l) packages \<Rightarrow> 'v \<Rightarrow> u64" where
  "mono_of P v = (case json_as_u64 P (json_index P v (str_bytes ''timestamp_monotonic'')) of
     Some x \<Rightarrow> x | None \<Rightarrow> 0)"

definition relevant :: "('c, 'v, 'l) packages \<Rightarrow> 'v \<Rightarrow> bool" where
  "relevant P v \<longleftrightarrow> json_index P v (str_bytes ''id'') \<noteq> json_null P \<and>
     json_index P v (str_bytes ''timestamp_monotonic'') \<noteq> json_null P"

section \<open>Preparing a message\<close>

lemma key_neq [simp]:
  "str_bytes ''timestamp'' \<noteq> str_bytes ''timestamp_monotonic''"
  "str_bytes ''hostname'' \<noteq> str_bytes ''timestamp_monotonic''"
  "str_bytes ''hostname'' \<noteq> str_bytes ''timestamp''"
  by (simp_all add: str_bytes_def)

lemma completed_steps:
  assumes ok: "serde_ok P" and obj: "json_is_object P v"
  shows "completed P host ts v (json_remove P (json_insert P (json_insert P v (str_bytes ''hostname'')
     (json_string P host)) (str_bytes ''timestamp'') (json_f64 P ts)) (str_bytes ''timestamp_monotonic''))"
proof -
  have ins: "json_is_object P (json_insert P w k x)"
    "json_index P (json_insert P w k x) k' = (if k' = k then x else json_index P w k')"
    if "json_is_object P w" for w k k' x using ok that by (simp_all add: serde_ok_def)
  have rem: "json_is_object P (json_remove P w k)"
    "json_index P (json_remove P w k) k' = (if k' = k then json_null P else json_index P w k')"
    if "json_is_object P w" for w k k' using ok that by (simp_all add: serde_ok_def)
  show ?thesis unfolding completed_def by (simp add: obj ins rem)
qed

lemma prepare_cases:
  assumes ok: "serde_ok P"
  shows "prepare P cfg item =
    (case from_reader P item of None \<Rightarrow> Some (Inl Bad_cbor) | Some c \<Rightarrow>
    (case to_value P c of None \<Rightarrow> Some (Inl Bad_json) | Some v \<Rightarrow>
     if \<not> relevant P v then Some (Inl Missing_fields)
     else (case message_time (set_offset cfg) (mono_of P v) of
         None \<Rightarrow> None
       | Some None \<Rightarrow> Some (Inl Bad_timestamp)
       | Some (Some ts) \<Rightarrow> Some (Inr (producer_of P v,
           json_remove P (json_insert P (json_insert P v (str_bytes ''hostname'')
             (json_string P (set_hostname cfg))) (str_bytes ''timestamp'') (json_f64 P ts))
             (str_bytes ''timestamp_monotonic''))))))"
proof -
  have obj: "json_is_object P v" if "relevant P v" for v
    using that ok by (auto simp: relevant_def serde_ok_def)
  have ins: "json_is_object P (json_insert P w k x)" if "json_is_object P w" for w k x
    using ok that by (simp add: serde_ok_def)
  show ?thesis
  proof (cases "from_reader P item")
    case (Some c)
    show ?thesis
    proof (cases "to_value P c")
      case (Some v)
      show ?thesis
      proof (cases "relevant P v")
        case True
        from obj [OF True] True \<open>from_reader P item = Some c\<close> Some show ?thesis
          by (auto simp: prepare_def relevant_def Let_def map_insert_key_def map_remove_key_def ins
              mono_of_def producer_of_def split: option.split)
      next
        case False
        with \<open>from_reader P item = Some c\<close> Some show ?thesis
          by (auto simp: prepare_def relevant_def Let_def)
      qed
    qed (simp add: prepare_def Some)
  qed (simp add: prepare_def)
qed

lemma prepare_Inr:
  assumes ok: "serde_ok P" and "prepare P cfg item = Some (Inr (p, out))"
  obtains c v ts where "from_reader P item = Some c" "to_value P c = Some v" "relevant P v"
    "p = producer_of P v" "message_time (set_offset cfg) (mono_of P v) = Some (Some ts)"
    "completed P (set_hostname cfg) ts v out"
proof -
  from assms(2) obtain c v ts where r: "from_reader P item = Some c" "to_value P c = Some v" "relevant P v"
    "message_time (set_offset cfg) (mono_of P v) = Some (Some ts)" "p = producer_of P v"
    "out = json_remove P (json_insert P (json_insert P v (str_bytes ''hostname'')
             (json_string P (set_hostname cfg))) (str_bytes ''timestamp'') (json_f64 P ts))
             (str_bytes ''timestamp_monotonic'')"
    unfolding prepare_cases [OF ok] by (auto split: option.splits if_splits)
  have "json_is_object P v" using r(3) ok by (auto simp: relevant_def serde_ok_def)
  from completed_steps [OF ok this] r that show thesis by blast
qed

lemma prepare_no_panic:
  assumes "serde_ok P" "- (2 ^ 62 * 10 ^ 9) \<le> set_offset cfg" "set_offset cfg < 2 ^ 62 * 10 ^ 9"
  shows "prepare P cfg item \<noteq> None"
  unfolding prepare_cases [OF assms(1)]
  by (auto simp: message_time_no_panic [OF assms(2,3)] split: option.splits)

section \<open>Processing an entry\<close>

text \<open>The limiter of a producer, fresh for a new one.\<close>

definition limiter_of :: "('c, 'v, 'l) packages \<Rightarrow> settings \<Rightarrow> 'l daemon \<Rightarrow> bytes \<Rightarrow> 'l" where
  "limiter_of P cfg s p = (case producer_tokens s p of
     Some l \<Rightarrow> l | None \<Rightarrow> sliding_window_counter P (set_msglimit cfg) (set_interval cfg * 1000))"

lemma consume_token_run:
  "consume_token P cfg p s = (if window_ms cfg = None then (Inl Loop_panic, s) else
      let (granted, l) = try_consume_one P (clock s) (limiter_of P cfg s p)
      in (Inr granted, s\<lparr>producer_tokens := (producer_tokens s)(p \<mapsto> l), clock := clock s + 1\<rparr>))"
  by (simp add: consume_token_def limiter_of_def window_ms_def Let_def split: option.splits prod.splits)

lemma publish_text_run:
  "publish_text P lib stream v s =
     (case to_string P v of
        None \<Rightarrow> (Inl Text_failed, s)
      | Some msg \<Rightarrow>
     (case nul_position msg of
        Some n \<Rightarrow> (Inl (Publish_error (Interior_nul n)), s)
      | None \<Rightarrow>
          let cs = calls_made s @ [msg_call stream msg]; rc = return_value lib cs
          in (if rc = 0 then Inr (Published msg) else Inl (Publish_error (Publish_failed rc)),
              s\<lparr>calls_made := cs\<rparr>)))"
  by (auto simp: publish_text_def ldms_msg_publish_run Let_def split: option.splits)

lemma process_item_skip:
  "prepare P cfg item = Some (Inl why) \<Longrightarrow> process_item P lib stream cfg item s = (Inr (Skipped why), s)"
  by (simp add: process_item_def run_simps)

lemma process_item_panic:
  "prepare P cfg item = None \<Longrightarrow> process_item P lib stream cfg item s = (Inl Loop_panic, s)"
  by (simp add: process_item_def run_simps)

lemma process_item_overflow:
  "prepare P cfg item = Some (Inr (p, v)) \<Longrightarrow> window_ms cfg = None \<Longrightarrow>
   process_item P lib stream cfg item s = (Inl Loop_panic, s)"
  by (simp add: process_item_def run_simps consume_token_run)

lemma process_item_ready:
  assumes "prepare P cfg item = Some (Inr (p, v))" "window_ms cfg \<noteq> None"
    and "try_consume_one P (clock s) (limiter_of P cfg s p) = (granted, l)"
  shows "process_item P lib stream cfg item s =
     (let s = s\<lparr>producer_tokens := (producer_tokens s)(p \<mapsto> l), clock := clock s + 1\<rparr>
      in if granted then publish_text P lib stream v s else (Inr (Skipped Rate_limited), s))"
  using assms by (auto simp: process_item_def run_simps consume_token_run)

lemma process_item_cases:
  assumes "process_item P lib stream cfg item s = (r, s')"
  obtains (panic) "prepare P cfg item = None" "r = Inl Loop_panic" "s' = s"
  | (skip) why where "prepare P cfg item = Some (Inl why)" "r = Inr (Skipped why)" "s' = s"
  | (overflow) p v where "prepare P cfg item = Some (Inr (p, v))" "window_ms cfg = None" "r = Inl Loop_panic" "s' = s"
  | (limited) p v l where "prepare P cfg item = Some (Inr (p, v))"
      "try_consume_one P (clock s) (limiter_of P cfg s p) = (False, l)" "r = Inr (Skipped Rate_limited)"
      "s' = s\<lparr>producer_tokens := (producer_tokens s)(p \<mapsto> l), clock := clock s + 1\<rparr>"
  | (granted) p v l where "prepare P cfg item = Some (Inr (p, v))"
      "try_consume_one P (clock s) (limiter_of P cfg s p) = (True, l)"
      "publish_text P lib stream v (s\<lparr>producer_tokens := (producer_tokens s)(p \<mapsto> l), clock := clock s + 1\<rparr>) = (r, s')"
proof (cases "prepare P cfg item")
  case None
  then show ?thesis using assms panic by (simp add: process_item_panic)
next
  case (Some q)
  show ?thesis
  proof (cases q)
    case (Inl why)
    then show ?thesis using assms skip Some by (simp add: process_item_skip)
  next
    case (Inr pv)
    obtain p v where pv: "pv = (p, v)" by (cases pv)
    obtain g l where l: "try_consume_one P (clock s) (limiter_of P cfg s p) = (g, l)" by (cases "try_consume_one P (clock s) (limiter_of P cfg s p)")
    have pr: "prepare P cfg item = Some (Inr (p, v))" using Some Inr pv by simp
    show ?thesis
    proof (cases "window_ms cfg = None")
      case True
      then show ?thesis using assms overflow [OF pr] process_item_overflow [OF pr] by simp
    next
      case False
      show ?thesis
        using assms process_item_ready [OF pr False l, of lib stream] limited [OF pr] granted [OF pr] l
        by (cases g) (auto simp: Let_def)
    qed
  qed
qed

section \<open>Runs of the loop\<close>

fun sent :: "outcome list \<Rightarrow> bytes list" where
  "sent [] = []"
| "sent (Published m # os) = m # sent os"
| "sent (Skipped _ # os) = sent os"

lemma process_item_calls:
  assumes "process_item P lib stream cfg item s = (Inr o', s')"
  shows "calls_made s' = calls_made s @ map (msg_call stream) (sent [o'])"
  using assms
proof (cases rule: process_item_cases)
  case (granted p v l)
  then show ?thesis by (auto simp: publish_text_run Let_def split: option.splits if_splits)
qed auto

lemma process_item_failed:
  assumes "process_item P lib stream cfg item s = (Inl e, s')"
  shows "calls_made s' = calls_made s \<or> (\<exists>m. calls_made s' = calls_made s @ [msg_call stream m])"
  using assms
proof (cases rule: process_item_cases)
  case (granted p v l)
  then show ?thesis by (auto simp: publish_text_run Let_def split: option.splits if_splits)
qed auto

lemma ring_entries_cons:
  "ring_entries P lib stream cfg (item # items) s =
     (case process_item P lib stream cfg item s of
        (Inl e, s') \<Rightarrow> (Inl e, s')
      | (Inr o', s') \<Rightarrow>
          (case ring_entries P lib stream cfg items s' of
             (Inl e, s'') \<Rightarrow> (Inl e, s'') | (Inr os, s'') \<Rightarrow> (Inr (o' # os), s'')))"
  by (simp add: run_simps split: sum.splits prod.splits)

declare ring_entries.simps(2) [simp del]

text \<open>One outcome for every entry; exactly the texts of the published ones are passed on, in order.\<close>

lemma ring_entries_calls:
  assumes "ring_entries P lib stream cfg items s = (Inr os, s')"
  shows "length os = length items \<and> calls_made s' = calls_made s @ map (msg_call stream) (sent os)"
  using assms
proof (induction items arbitrary: s os)
  case Nil
  then show ?case by (simp add: run_simps)
next
  case (Cons item items)
  from Cons.prems obtain o1 s1 os1 where
    o1: "process_item P lib stream cfg item s = (Inr o1, s1)" and
    rest: "ring_entries P lib stream cfg items s1 = (Inr os1, s')" "os = o1 # os1"
    by (auto simp: ring_entries_cons split: prod.splits sum.splits)
  from process_item_calls [OF o1] Cons.IH [OF rest(1)] rest(2) show ?case
    by (cases o1) auto
qed

lemma ring_entries_failed:
  assumes "ring_entries P lib stream cfg items s = (Inl e, s')"
  shows "\<exists>n os s1. n < length items \<and> ring_entries P lib stream cfg (take n items) s = (Inr os, s1) \<and>
     process_item P lib stream cfg (items ! n) s1 = (Inl e, s')"
  using assms
proof (induction items arbitrary: s)
  case Nil
  then show ?case by (simp add: run_simps)
next
  case (Cons item items)
  show ?case
  proof (cases "process_item P lib stream cfg item s")
    case (Pair r s1)
    show ?thesis
    proof (cases r)
      case (Inl e1)
      with Pair Cons.prems have "process_item P lib stream cfg item s = (Inl e, s')"
        by (simp add: ring_entries_cons)
      then show ?thesis by (intro exI [of _ 0]) (simp add: run_simps)
    next
      case (Inr o1)
      with Pair Cons.prems have "ring_entries P lib stream cfg items s1 = (Inl e, s')"
        by (auto simp: ring_entries_cons split: prod.splits sum.splits)
      from Cons.IH [OF this] obtain n os s2 where "n < length items"
        "ring_entries P lib stream cfg (take n items) s1 = (Inr os, s2)"
        "process_item P lib stream cfg (items ! n) s2 = (Inl e, s')" by blast
      with Pair Inr show ?thesis
        by (intro exI [of _ "Suc n"] exI [of _ "o1 # os"] exI [of _ s2]) (simp add: ring_entries_cons)
    qed
  qed
qed

lemma ring_entries_msgs:
  assumes "ring_entries P lib stream cfg items s = (r, s')"
  shows "\<exists>ms. calls_made s' = calls_made s @ map (msg_call stream) ms"
proof (cases r)
  case (Inr os)
  with ring_entries_calls [of P lib stream cfg items s os s'] assms show ?thesis by auto
next
  case (Inl e)
  with assms ring_entries_failed obtain n os s1 where
    r: "ring_entries P lib stream cfg (take n items) s = (Inr os, s1)"
    "process_item P lib stream cfg (items ! n) s1 = (Inl e, s')" by meson
  from process_item_failed [OF r(2)] show ?thesis
  proof
    assume "\<exists>m. calls_made s' = calls_made s1 @ [msg_call stream m]"
    then obtain m where "calls_made s' = calls_made s1 @ [msg_call stream m]" ..
    with ring_entries_calls [OF r(1)] show ?thesis by (intro exI [of _ "sent os @ [m]"]) simp
  qed (use ring_entries_calls [OF r(1)] in auto)
qed

lemma ring_loop_calls:
  assumes "ring_loop P lib stream limit period host checks dropped now_mono now_real ring_ok items cs = (r, cs')"
  shows "\<exists>ms closes. cs' = cs @ map (msg_call stream) ms @ closes \<and>
     (closes = [Xprt_close (xprt_handle stream)] \<or> closes = [] \<and> \<not> dropped \<and> (\<exists>os. r = Inr os))"
proof -
  have msgs: "\<exists>ms. calls_made (snd (ring_entries P lib stream cfg items
      \<lparr>producer_tokens = (\<lambda>_. None), calls_made = cs, clock = 0\<rparr>)) = cs @ map (msg_call stream) ms" for cfg
    using ring_entries_msgs [of P lib stream cfg items "\<lparr>producer_tokens = (\<lambda>_. None), calls_made = cs, clock = 0\<rparr>"]
    by (metis daemon.select_convs(2) prod.collapse)
  obtain ms where cs': "cs' = (case r of Inl _ \<Rightarrow> sock_drop stream (cs @ map (msg_call stream) ms)
       | Inr _ \<Rightarrow> if dropped then sock_drop stream (cs @ map (msg_call stream) ms) else cs @ map (msg_call stream) ms)"
  proof (cases "current_mono_realtime_offset now_mono now_real = None \<or> \<not> ring_ok")
    case True
    with assms that [of "[]"] show thesis by (auto simp: ring_loop_def split: option.splits)
  next
    case False
    then obtain off where off: "current_mono_realtime_offset now_mono now_real = Some off" "ring_ok" by auto
    let ?cfg = "\<lparr>set_msglimit = limit, set_interval = period, set_hostname = host, set_offset = off, set_checks = checks\<rparr>"
    obtain ms where "calls_made (snd (ring_entries P lib stream ?cfg items
      \<lparr>producer_tokens = (\<lambda>_. None), calls_made = cs, clock = 0\<rparr>)) = cs @ map (msg_call stream) ms" using msgs by blast
    with assms off show thesis
      by (intro that [of ms]) (auto simp: ring_loop_def split: prod.splits sum.splits)
  qed
  then show ?thesis by (cases r) (auto simp: sock_drop_def sock_close_def)
qed

section \<open>A concrete instance of the packages\<close>

datatype json = JNull | JString bytes | JNumber nat | JFloat rat | JObject "(bytes \<times> json) list"

fun demo_index :: "json \<Rightarrow> bytes \<Rightarrow> json" where
  "demo_index (JObject kvs) k = (case map_of kvs k of Some x \<Rightarrow> x | None \<Rightarrow> JNull)"
| "demo_index _ k = JNull"

fun demo_insert :: "json \<Rightarrow> bytes \<Rightarrow> json \<Rightarrow> json" where
  "demo_insert (JObject kvs) k x = JObject ((k, x) # filter (\<lambda>(k', _). k' \<noteq> k) kvs)"
| "demo_insert v k x = v"

fun demo_remove :: "json \<Rightarrow> bytes \<Rightarrow> json" where
  "demo_remove (JObject kvs) k = JObject (filter (\<lambda>(k', _). k' \<noteq> k) kvs)"
| "demo_remove v k = v"

definition demo_packages :: "(bytes \<Rightarrow> json option) \<Rightarrow> (json, json, nat) packages" where
  "demo_packages reader = \<lparr>from_reader = reader, to_value = Some, to_string = (\<lambda>_. Some (str_bytes ''{}'')),
     json_null = JNull, json_index = demo_index,
     json_as_str = (\<lambda>v. case v of JString x \<Rightarrow> Some x | _ \<Rightarrow> None),
     json_as_u64 = (\<lambda>v. case v of JNumber n \<Rightarrow> Some (of_nat n) | _ \<Rightarrow> None),
     json_is_object = (\<lambda>v. case v of JObject _ \<Rightarrow> True | _ \<Rightarrow> False),
     json_insert = demo_insert, json_remove = demo_remove, json_string = JString, json_f64 = JFloat,
     sliding_window_counter = (\<lambda>limit _. unat limit), try_consume_one = (\<lambda>_ l. (0 < l, l - 1))\<rparr>"

lemma map_of_filter_key:
  "map_of (filter (\<lambda>(k', _). k' \<noteq> k) kvs) k' = (if k' = k then None else map_of kvs k')"
  by (induction kvs) auto

lemma demo_packages_ok: "serde_ok (demo_packages reader)"
proof -
  have n: "json_index (demo_packages reader) v k = JNull" if "\<not> json_is_object (demo_packages reader) v" for v k
    using that by (cases v) (simp_all add: demo_packages_def)
  then show ?thesis
    unfolding serde_ok_def by (auto simp: demo_packages_def map_of_filter_key split: json.splits)
qed

definition demo_message :: json where
  "demo_message = JObject [(str_bytes ''id'', JString (str_bytes ''p'')),
     (str_bytes ''timestamp_monotonic'', JNumber 5)]"

definition demo_lib :: ldms_lib where
  "demo_lib = \<lparr>new_handle = (\<lambda>_. Some 7), return_value = (\<lambda>cs. if length cs \<le> 3 then 0 else 1)\<rparr>"

definition demo_stream :: sock_stream where
  "demo_stream = \<lparr>c_host = str_bytes ''h'' @ [0], c_port = str_bytes ''1'' @ [0],
     c_stream = str_bytes ''ebpf'' @ [0], xprt_handle = 7\<rparr>"

definition demo_settings :: settings where
  "demo_settings = \<lparr>set_msglimit = 2, set_interval = 1, set_hostname = str_bytes ''n1'', set_offset = 100,
     set_checks = True\<rparr>"

definition demo_daemon :: "nat daemon" where
  "demo_daemon = \<lparr>producer_tokens = (\<lambda>_. None), calls_made = [], clock = 0\<rparr>"

lemmas demo_defs = demo_packages_def demo_message_def demo_lib_def demo_stream_def demo_settings_def demo_daemon_def

section \<open>Properties of the daemon\<close>

text \<open>C6: a published text is the JSON text of the received message with the daemon's host name and
  the wall-clock time of the event set and the monotonic time removed, all other members as
  received. The message carried an identification and a monotonic time, its producer's limiter
  granted it, and the text is passed to the library in one call, zero-terminated, on the
  configured stream. No other producer's limiter changes.\<close>

theorem published_message_spec:
  assumes ok: "serde_ok P"
    and run: "process_item P lib stream cfg item s = (Inr (Published msg), s')"
  shows "\<exists>c v ts out l. from_reader P item = Some c \<and> to_value P c = Some v \<and> relevant P v \<and>
     message_time (set_offset cfg) (mono_of P v) = Some (Some ts) \<and>
     completed P (set_hostname cfg) ts v out \<and> to_string P out = Some msg \<and>
     try_consume_one P (clock s) (limiter_of P cfg s (producer_of P v)) = (True, l) \<and>
     producer_tokens s' = (producer_tokens s)(producer_of P v \<mapsto> l) \<and>
     calls_made s' = calls_made s @ [Msg_publish (xprt_handle stream) (c_stream stream)
       LDMSD_STREAM_JSON 400 (msg @ [0]) (of_nat (length msg + 1))]"
  using run
proof (cases rule: process_item_cases)
  case (granted p out l)
  from granted(1) obtain c v ts where "from_reader P item = Some c" "to_value P c = Some v" "relevant P v"
    "p = producer_of P v" "message_time (set_offset cfg) (mono_of P v) = Some (Some ts)"
    "completed P (set_hostname cfg) ts v out" by (rule prepare_Inr [OF ok])
  with granted(2,3) show ?thesis
    by (auto simp: publish_text_run Let_def msg_call_def split: option.splits if_splits)
qed auto

lemma published_message_spec_witness:
  "\<exists>ts out. message_time 100 5 = Some (Some ts) \<and>
     completed (demo_packages (\<lambda>_. Some demo_message)) (str_bytes ''n1'') ts demo_message out \<and>
     calls_made (snd (process_item (demo_packages (\<lambda>_. Some demo_message)) demo_lib demo_stream
       demo_settings [1] demo_daemon)) =
       [Msg_publish 7 (str_bytes ''ebpf'' @ [0]) LDMSD_STREAM_JSON 400 (str_bytes ''{}'' @ [0]) 3]"
proof -
  let ?P = "demo_packages (\<lambda>_. Some demo_message)"
  have t: "message_time 100 5 = Some (Some (unix_seconds 105))"
    by (subst message_time_value) simp_all
  have r: "relevant ?P demo_message" "mono_of ?P demo_message = 5" "producer_of ?P demo_message = str_bytes ''p''"
    by (simp_all add: relevant_def mono_of_def producer_of_def demo_defs str_bytes_def)
  obtain out where "prepare ?P demo_settings [1] = Some (Inr (str_bytes ''p'', out))"
    using t r by (simp add: prepare_cases [OF demo_packages_ok]) (simp add: demo_defs)
  then have "process_item ?P demo_lib demo_stream demo_settings [1] demo_daemon =
      (Inr (Published (str_bytes ''{}'')), demo_daemon\<lparr>producer_tokens := [str_bytes ''p'' \<mapsto> 1], clock := 1,
         calls_made := [msg_call demo_stream (str_bytes ''{}'')]\<rparr>)"
    by (subst process_item_ready) (auto simp: demo_defs window_ms_def limiter_of_def publish_text_run Let_def str_bytes_def)
  from published_message_spec [OF demo_packages_ok this] this t r(2) show ?thesis
    by (auto simp: demo_packages_def demo_settings_def demo_daemon_def demo_stream_def msg_call_def)
qed


lemma ring_entries_no_panic:
  assumes "serde_ok P" "- (2 ^ 62 * 10 ^ 9) \<le> set_offset cfg" "set_offset cfg < 2 ^ 62 * 10 ^ 9"
      "window_ms cfg \<noteq> None"
    and run: "ring_entries P lib stream cfg items s = (Inl e, s')"
  shows "e = Text_failed \<or> (\<exists>x. e = Publish_error x)"
proof -
  obtain n os s1 where "process_item P lib stream cfg (items ! n) s1 = (Inl e, s')"
    using ring_entries_failed [OF run] by blast
  then show ?thesis
  proof (cases rule: process_item_cases)
    case panic
    then show ?thesis using prepare_no_panic [OF assms(1-3)] by simp
  next
    case overflow
    then show ?thesis using assms(4) by simp
  next
    case (granted p v l)
    then show ?thesis by (auto simp: publish_text_run Let_def split: option.splits if_splits)
  qed auto
qed

text \<open>In a build with overflow checks an interval above \<open>u64::MAX / 1000\<close>, which the command line accepts,
  ends the loop with the first message that would be published.\<close>

lemma interval_overflow_panics:
  assumes "serde_ok P" "from_reader P item = Some c" "to_value P c = Some v" "relevant P v"
    and "message_time (set_offset cfg) (mono_of P v) = Some (Some ts)"
    and "set_checks cfg" "2 ^ 64 \<le> unat (set_interval cfg) * 1000"
  shows "process_item P lib stream cfg item s = (Inl Loop_panic, s)"
  using assms(2-7) by (simp add: process_item_overflow prepare_cases [OF assms(1)] window_ms_def)

text \<open>C9: the loop never panics: whatever bytes the entries hold, no unwrapped object access fails and
  no time overflows, for clocks within the range in which \<open>2 ^ 62\<close> seconds are not exceeded and, when the
  program is built with overflow checks, for an interval whose milliseconds fit into 64 bits. It
  only ends early on a text that cannot be made or published.\<close>

theorem daemon_never_panics:
  assumes ok: "serde_ok P"
    and clocks: "- (2 ^ 62 * 10 ^ 9) \<le> r - int b" "r - int b < 2 ^ 62 * 10 ^ 9"
    and interval: "\<not> checks \<or> unat period * 1000 < 2 ^ 64"
  shows "case fst (ring_loop P lib stream limit period host checks dropped (Some b) r True items cs) of
      Inl e \<Rightarrow> e = Text_failed \<or> (\<exists>x. e = Publish_error x)
    | Inr os \<Rightarrow> length os = length items"
proof -
  let ?cfg = "\<lparr>set_msglimit = limit, set_interval = period, set_hostname = host, set_offset = r - int b,
     set_checks = checks\<rparr>"
  let ?s = "\<lparr>producer_tokens = (\<lambda>_. None), calls_made = cs, clock = 0\<rparr>"
  have "current_mono_realtime_offset (Some b) r = Some (r - int b)"
    by (rule offset_value) (use clocks in auto)
  moreover obtain q s' where q: "ring_entries P lib stream ?cfg items ?s = (q, s')" by (cases "ring_entries P lib stream ?cfg items ?s")
  ultimately have "fst (ring_loop P lib stream limit period host checks dropped (Some b) r True items cs) = q"
    by (simp add: ring_loop_def)
  moreover have "window_ms ?cfg \<noteq> None" using interval by (auto simp: window_ms_def not_le)
  then have "case q of Inl e \<Rightarrow> e = Text_failed \<or> (\<exists>x. e = Publish_error x)
    | Inr os \<Rightarrow> length os = length items"
    using ring_entries_no_panic [OF ok _ _, of ?cfg] ring_entries_calls [of P lib stream ?cfg items ?s] clocks q
    by (cases q) auto
  ultimately show ?thesis by simp
qed

definition demo_reader :: "bytes \<Rightarrow> json option" where
  "demo_reader item = (if item = [1] then Some demo_message else if item = [2] then Some JNull else None)"

lemma daemon_never_panics_witness:
  "fst (ring_loop (demo_packages demo_reader) demo_lib demo_stream 2 1 (str_bytes ''n1'') True False (Some 5)
      1700000000000000000 True [[1], [2], [0xff]] []) =
    Inr [Published (str_bytes ''{}''), Skipped Missing_fields, Skipped Bad_cbor]"
  (is "fst (ring_loop ?P _ _ _ _ _ _ _ _ _ _ _ _) = _")
proof -
  let ?cfg = "\<lparr>set_msglimit = 2, set_interval = 1, set_hostname = str_bytes ''n1'',
     set_offset = 1700000000000000000 - int 5, set_checks = True\<rparr>"
  let ?s = "\<lparr>producer_tokens = (\<lambda>_. None), calls_made = [], clock = 0\<rparr> :: nat daemon"
  have t: "\<exists>ts. message_time (1700000000000000000 - 5) 5 = Some (Some ts)"
    by (subst message_time_value) simp_all
  have r: "relevant ?P demo_message" "mono_of ?P demo_message = 5" "producer_of ?P demo_message = str_bytes ''p''"
    by (simp_all add: relevant_def mono_of_def producer_of_def demo_defs str_bytes_def)
  have rd: "\<not> relevant ?P JNull" "from_reader ?P [2] = Some JNull" "from_reader ?P [0xff] = None" "to_value ?P c = Some c" for c
    by (simp_all add: relevant_def demo_packages_def demo_reader_def)
  obtain out where "prepare ?P ?cfg [1] = Some (Inr (str_bytes ''p'', out))"
    using t r by (auto simp: prepare_cases [OF demo_packages_ok]) (auto simp: demo_defs demo_reader_def)
  then have "process_item ?P demo_lib demo_stream ?cfg [1] ?s =
      (Inr (Published (str_bytes ''{}'')), \<lparr>producer_tokens = [str_bytes ''p'' \<mapsto> 1],
         calls_made = [msg_call demo_stream (str_bytes ''{}'')], clock = 1\<rparr>)"
    by (subst process_item_ready) (auto simp: demo_defs window_ms_def limiter_of_def publish_text_run Let_def str_bytes_def)
  moreover have "prepare ?P ?cfg [2] = Some (Inl Missing_fields)" "prepare ?P ?cfg [0xff] = Some (Inl Bad_cbor)"
    using rd by (simp_all add: prepare_cases [OF demo_packages_ok])
  moreover obtain q s' where q: "ring_entries ?P demo_lib demo_stream ?cfg [[1], [2], [0xff]] ?s = (q, s')"
    by (cases "ring_entries ?P demo_lib demo_stream ?cfg [[1], [2], [0xff]] ?s")
  ultimately have "q = Inr [Published (str_bytes ''{}''), Skipped Missing_fields, Skipped Bad_cbor]"
    by (auto simp: ring_entries_cons process_item_skip run_simps)
  moreover have "current_mono_realtime_offset (Some 5) 1700000000000000000 = Some (1700000000000000000 - int 5)"
    by (rule offset_value) simp_all
  ultimately show ?thesis
    using daemon_never_panics [OF demo_packages_ok, where r = 1700000000000000000 and b = 5 and checks = True
        and period = 1 and items = "[[1], [2], [0xff]]" and cs = "[]" and dropped = False] q
    by (simp add: ring_loop_def)
qed

text \<open>C16: as long as no error occurs, every entry has one outcome, and the library is called exactly
  once for each published text, in the order of the entries and with nothing in between. The first
  error ends the loop: the entries before it were handled, the one that failed is lost, and none
  behind it is read.\<close>

theorem loop_publishes_in_order:
  "case ring_entries P lib stream cfg items s of
     (Inr os, s') \<Rightarrow> length os = length items \<and>
       calls_made s' = calls_made s @ map (msg_call stream) (sent os)
   | (Inl e, s') \<Rightarrow> \<exists>n os failed. n < length items \<and> length os = n \<and>
       fst (ring_entries P lib stream cfg (take n items) s) = Inr os \<and>
       calls_made s' = calls_made s @ map (msg_call stream) (sent os @ failed) \<and> length failed \<le> 1"
proof (cases "ring_entries P lib stream cfg items s")
  case (Pair r s')
  show ?thesis
  proof (cases r)
    case (Inr os)
    then show ?thesis using Pair ring_entries_calls [of P lib stream cfg items s os s'] by simp
  next
    case (Inl e)
    with Pair ring_entries_failed [of P lib stream cfg items s e s'] obtain n os s1 where
      n: "n < length items" "ring_entries P lib stream cfg (take n items) s = (Inr os, s1)" and
      f: "process_item P lib stream cfg (items ! n) s1 = (Inl e, s')" by blast
    obtain failed where "calls_made s' = calls_made s1 @ map (msg_call stream) failed" "length failed \<le> 1"
    proof (cases "calls_made s' = calls_made s1")
      case False
      then obtain m where "calls_made s' = calls_made s1 @ [msg_call stream m]"
        using process_item_failed [OF f] by blast
      then show thesis using that [of "[m]"] by simp
    qed (use that [of "[]"] in simp)
    with n ring_entries_calls [OF n(2)] show ?thesis
      unfolding Pair Inl prod.case sum.case
      by (intro exI [of _ n] exI [of _ os] exI [of _ failed]) simp
  qed
qed

text \<open>C10: in every run of the program, however it ends, the transport is created at most once and only
  used under its own handle: the connection comes first, then only messages, and the handle is
  closed at most once, as the last call. It is closed exactly once unless the loop was still running
  when the main thread ended and its cancelled task was not dropped before the process ended.\<close>

theorem transport_lifecycle:
  "case daemon_main P lib env cli of (r, cs) \<Rightarrow>
     cs = [] \<and> (\<exists>e. r = Inl e) \<or>
     (\<exists>x a. cs = [Xprt_new_with_auth x a] \<and> r = Inl (Stream_failed Transport_failed)) \<or>
     (\<exists>x a h host port us closes. new_handle lib [Xprt_new_with_auth x a] = Some h \<and>
        list_all (\<lambda>u. \<exists>ch m. u = Msg_publish h ch LDMSD_STREAM_JSON 400 (m @ [0]) (of_nat (length m + 1))) us \<and>
        cs = Xprt_new_with_auth x a # Xprt_connect_by_name h host port # us @ closes \<and>
        (closes = [Xprt_close h] \<or>
         closes = [] \<and> \<not> task_dropped env \<and> ring_pinned env \<and> (r = Inl Main_panic \<or> (\<exists>os. r = Inr (Inr os)))))"
proof (cases "logger_ok env")
  case True
  let ?cli = "parse_ratelimit cli"
  obtain r1 cs1 where new: "sock_new lib (str_bytes ''sock'') (authentication ?cli) (host_opt ?cli) (port_opt ?cli)
      (stream_opt ?cli) [] = (r1, cs1)" by fastforce
  then show ?thesis
  proof (cases rule: sock_new_cases)
    case (created x a stream)
    let ?h = "xprt_handle stream"
    let ?open = "[Xprt_new_with_auth x a, Xprt_connect_by_name ?h (c_host stream) (c_port stream)]"
    obtain r2 where con: "sock_connect lib stream cs1 = (r2, ?open)"
      using sock_connect_calls [of lib stream cs1] created(2) by (cases "sock_connect lib stream cs1") auto
    obtain q cs' where loop: "ring_loop P lib stream (msglimit ?cli) (interval ?cli) (hostname ?cli) (overflow_checks env)
        (task_dropped env) (clock_mono env) (clock_real env) (ring_polls env) (entries env) ?open = (q, cs')"
      by fastforce
    obtain ms closes where ms: "cs' = ?open @ map (msg_call stream) ms @ closes"
      "closes = [Xprt_close ?h] \<or> closes = [] \<and> \<not> task_dropped env \<and> (\<exists>os. q = Inr os)"
      using ring_loop_calls [OF loop] by blast
    have all: "list_all (\<lambda>u. \<exists>ch m. u = Msg_publish ?h ch LDMSD_STREAM_JSON 400 (m @ [0]) (of_nat (length m + 1)))
        (map (msg_call stream) ms')" for ms' by (auto simp: list_all_iff msg_call_def)
    have "\<exists>r ms' closes'. daemon_main P lib env cli = (r, ?open @ map (msg_call stream) ms' @ closes') \<and>
       (closes' = [Xprt_close ?h] \<or> closes' = [] \<and> \<not> task_dropped env \<and> ring_pinned env \<and>
         (r = Inl Main_panic \<or> (\<exists>os. r = Inr (Inr os))))"
    proof (cases "(\<exists>e. r2 = Inl e) \<or> \<not> ring_pinned env")
      case True
      with \<open>logger_ok env\<close> new created con obtain r where
        "daemon_main P lib env cli = (r, ?open @ map (msg_call stream) [] @ [Xprt_close ?h])"
        by (cases r2) (auto simp: daemon_main_def Let_def sock_drop_def sock_close_def)
      then show ?thesis by blast
    next
      case False
      with \<open>logger_ok env\<close> new created con loop ms(1)
      have "daemon_main P lib env cli = (if ctrlc_ok env then Inr q else Inl Main_panic,
          ?open @ map (msg_call stream) ms @ closes)"
        by (cases r2) (auto simp: daemon_main_def Let_def)
      with ms(2) False show ?thesis by auto
    qed
    then obtain r ms' closes' where main: "daemon_main P lib env cli = (r, ?open @ map (msg_call stream) ms' @ closes')"
      "closes' = [Xprt_close ?h] \<or> closes' = [] \<and> \<not> task_dropped env \<and> ring_pinned env \<and>
         (r = Inl Main_panic \<or> (\<exists>os. r = Inr (Inr os)))" by blast
    have "new_handle lib [Xprt_new_with_auth x a] = Some ?h" using created by simp
    moreover have "?open @ map (msg_call stream) ms' @ closes' =
      Xprt_new_with_auth x a # Xprt_connect_by_name ?h (c_host stream) (c_port stream) # map (msg_call stream) ms' @ closes'"
      by simp
    ultimately show ?thesis unfolding main(1) prod.case using all [of ms'] main(2) by blast
  qed (use True new in \<open>auto simp: daemon_main_def Let_def\<close>)
qed (simp add: daemon_main_def)

end
