(* ===== verification/Cbor_Iter.thy ===== *)
theory Cbor_Iter
  imports Cbor_Item
begin

text \<open>
  The iterators of the decoder (\<open>minicbor/src/decode/decoder.rs\<close>, from \<open>bytes_iter\<close> to \<open>State\<close>): over the
  chunks of byte and text strings and over the elements of arrays and maps, of definite and
  indefinite length. An iterator is its state and the decoder it borrows; a call of \<open>next\<close> returns
  the item it yields, the new state and the decoder.

  The lemmas show that the loops over chunks end, what they collect, and that iterating over an
  encoded array or map yields its elements in order.
\<close>

section \<open>Iterator states\<close>

datatype 't iter_state = Def 't | End | Indef

definition state_of :: "'t option \<Rightarrow> 't iter_state" where
  "state_of val = (case val of Some n \<Rightarrow> Def n | None \<Rightarrow> Indef)"

definition into_size_hint :: "u64 iter_state \<Rightarrow> usize \<times> usize option" where
  "into_size_hint st =
     (case st of
        Def n \<Rightarrow> (if unat n < usize_bound then (unat n, Some (unat n)) else (0, None))
      | End \<Rightarrow> (0, Some 0)
      | Indef \<Rightarrow> (0, None))"

definition chunk_size_hint :: "usize iter_state \<Rightarrow> usize \<times> usize option" where
  "chunk_size_hint st =
     (case st of Def _ \<Rightarrow> (1, Some 1) | End \<Rightarrow> (0, Some 0) | Indef \<Rightarrow> (0, None))"

text \<open>The state behind an iterator: a context, for the iterators that carry one, and the decoder.\<close>

type_synonym ('c, 'a) elem = "('c \<times> decoder, decode_error, 'a) fallible"

type_synonym ('c, 't, 'a) yielded = "(decode_error + 'a) option \<times> 't iter_state \<times> 'c \<times> decoder"

text \<open>The indefinite case, which all iterators share word by word: a break byte is consumed and ends
  the iteration; otherwise one more item is decoded.\<close>

definition indef_next :: "('c, 'a) elem \<Rightarrow> 'c \<Rightarrow> decoder \<Rightarrow> ('c, 't, 'a) yielded" where
  "indef_next elem c d =
     (case fst (dec_current d) of
        Inr b \<Rightarrow>
          if b = BREAK then
            (case dec_read d of
               (Inr _, d') \<Rightarrow> (None, End, c, d')
             | (Inl e, d') \<Rightarrow> (Some (Inl e), End, c, d'))
          else (case elem (c, d) of (r, c', d') \<Rightarrow> (Some r, Indef, c', d'))
      | Inl e \<Rightarrow> (Some (Inl e), Indef, c, d))"

text \<open>A decoder operation as an element decoder without a context.\<close>

definition plain :: "'a dec \<Rightarrow> (unit, 'a) elem" where
  "plain m = (\<lambda>cd. case m (snd cd) of (r, d') \<Rightarrow> (r, (), d'))"

section \<open>Chunks of strings\<close>

definition dec_bytes_iter :: "usize iter_state dec" where
  "dec_bytes_iter = with_pos (\<lambda>p. bind_m dec_read (\<lambda>b.
     if BYTES \<noteq> type_of b then mismatch b p ''expected bytes''
     else if info_of b = 31 then ret_m Indef
     else bind_m (dec_unsigned (info_of b) p) (\<lambda>n. map_m Def (u64_to_usize n p))))"

definition dec_str_iter :: "(usize iter_state \<times> usize) dec" where
  "dec_str_iter = with_pos (\<lambda>p. bind_m dec_read (\<lambda>b.
     if TEXT \<noteq> type_of b then mismatch b p ''expected text''
     else if info_of b = 31 then ret_m (Indef, p)
     else bind_m (dec_unsigned (info_of b) p) (\<lambda>n. map_m (\<lambda>len. (Def len, p)) (u64_to_usize n p))))"

definition bytes_iter_next :: "usize iter_state \<Rightarrow> decoder \<Rightarrow> (unit, usize, bytes) yielded" where
  "bytes_iter_next st d =
     (case st of
        Indef \<Rightarrow> indef_next (plain dec_bytes) () d
      | End \<Rightarrow> (None, End, (), d)
      | Def n \<Rightarrow> (case read_slice n d of (r, d') \<Rightarrow> (Some r, End, (), d')))"

definition str_iter_next :: "usize \<Rightarrow> usize iter_state \<Rightarrow> decoder \<Rightarrow> (unit, usize, bytes) yielded" where
  "str_iter_next pos st d =
     (case st of
        Indef \<Rightarrow> indef_next (plain dec_str) () d
      | End \<Rightarrow> (None, End, (), d)
      | Def n \<Rightarrow>
          (case bind_m (read_slice n)
                  (\<lambda>x. res_m (map_err (\<lambda>e. err_at pos (err_utf8 e)) (from_utf8 x))) d of
             (r, d') \<Rightarrow> (Some r, End, (), d')))"

text \<open>Which of the two iterators, with the position the text iterator keeps for its errors.\<close>

datatype chunk_kind = Byte_chunks | Text_chunks usize

fun chunk_next :: "chunk_kind \<Rightarrow> usize iter_state \<Rightarrow> decoder \<Rightarrow> (unit, usize, bytes) yielded" where
  "chunk_next Byte_chunks = bytes_iter_next"
| "chunk_next (Text_chunks pos) = str_iter_next pos"

definition chunk_measure :: "usize iter_state \<times> decoder \<Rightarrow> nat" where
  "chunk_measure = (\<lambda>(st, d). case st of
     End \<Rightarrow> 0 | Def _ \<Rightarrow> 1 | Indef \<Rightarrow> Suc (length (dec_buf d) - dec_pos d))"

lemma current_inside:
  "dec_current d = (Inr b, d') \<Longrightarrow> dec_pos d < length (dec_buf d) \<and> b = dec_buf d ! dec_pos d \<and> d' = d"
  by (auto simp: dec_current_def index_get_def split: if_splits)

lemma indef_next_progress:
  assumes m: "safe m" "progress m"
    and run: "indef_next (plain m) () d = (Some (Inr x), st, u, d')"
  shows "st = Indef \<and> dec_buf d' = dec_buf d \<and> dec_pos d < dec_pos d' \<and> dec_pos d < length (dec_buf d)"
proof -
  from run obtain b where b: "fst (dec_current d) = Inr b" by (auto simp: indef_next_def split: sum.splits)
  then have c: "dec_current d = (Inr b, snd (dec_current d))" by (metis prod.collapse)
  have "b \<noteq> BREAK" using run b by (cases "dec_read d"; cases "fst (dec_read d)") (auto simp: indef_next_def)
  then have "(Some (Inr x), st, u, d') = (case m d of (r, d') \<Rightarrow> (Some r, Indef, (), d'))"
    using b unfolding run [symmetric] by (simp add: indef_next_def plain_def split: prod.splits)
  then have e: "st = Indef" "m d = (Inr x, d')" by (auto split: prod.splits)
  from safeD [OF m(1) e(2)] progressD [OF m(2) e(2)] current_inside [OF c] e(1) show ?thesis by blast
qed

lemma chunk_next_decreases:
  assumes "chunk_next k st d = (Some (Inr x), st', u, d')"
  shows "chunk_measure (st', d') < chunk_measure (st, d)"
proof (cases st)
  case Indef
  then have "indef_next (plain dec_bytes) () d = (Some (Inr x), st', u, d') \<or>
      indef_next (plain dec_str) () d = (Some (Inr x), st', u, d')"
    using assms by (cases k) (auto simp: bytes_iter_next_def str_iter_next_def)
  then have "st' = Indef \<and> dec_buf d' = dec_buf d \<and> dec_pos d < dec_pos d' \<and> dec_pos d < length (dec_buf d)"
    using indef_next_progress [OF safe_ops(11) progress_ops(11), of d x st' u d']
      indef_next_progress [OF safe_ops(12) progress_ops(12), of d x st' u d'] by blast
  then show ?thesis by (simp add: chunk_measure_def Indef diff_less_mono2)
qed (use assms in \<open>cases k; auto simp: bytes_iter_next_def str_iter_next_def chunk_measure_def split: prod.splits\<close>)+

text \<open>\<open>for v in iter { v? }\<close>, with the chunks it sees.\<close>

function chunk_loop :: "chunk_kind \<Rightarrow> usize iter_state \<Rightarrow> bytes list dec" where
  "chunk_loop k st d =
     (case chunk_next k st d of
        (None, st', u, d') \<Rightarrow> (Inr [], d')
      | (Some (Inl e), st', u, d') \<Rightarrow> (Inl e, d')
      | (Some (Inr x), st', u, d') \<Rightarrow>
          (case chunk_loop k st' d' of
             (Inl e, d'') \<Rightarrow> (Inl e, d'') | (Inr xs, d'') \<Rightarrow> (Inr (x # xs), d'')))"
  by pat_completeness auto
termination
  by (relation "measure (\<lambda>(k, st, d). chunk_measure (st, d))") (auto dest!: chunk_next_decreases [OF sym])

declare chunk_loop.simps [simp del]

definition bytes_chunks :: "bytes list dec" where
  "bytes_chunks = bind_m dec_bytes_iter (chunk_loop Byte_chunks)"

definition str_chunks :: "bytes list dec" where
  "str_chunks = bind_m dec_str_iter (\<lambda>(st, pos). chunk_loop (Text_chunks pos) st)"

section \<open>Elements of arrays and maps\<close>

definition array_iter_with_next ::
  "('c, 'a) elem \<Rightarrow> u64 iter_state \<Rightarrow> 'c \<Rightarrow> decoder \<Rightarrow> ('c, u64, 'a) yielded" where
  "array_iter_with_next elem st c d =
     (case st of
        Indef \<Rightarrow> indef_next elem c d
      | End \<Rightarrow> (None, st, c, d)
      | Def n \<Rightarrow>
          if n = 0 then (None, st, c, d)
          else (case elem (c, d) of (r, c', d') \<Rightarrow> (Some r, Def (n - 1), c', d')))"

definition array_iter_next ::
  "'a dec \<Rightarrow> u64 iter_state \<Rightarrow> decoder \<Rightarrow> (unit, u64, 'a) yielded" where
  "array_iter_next m st d = array_iter_with_next (plain m) st () d"

text \<open>\<open>pair\<close>: a key and its value.\<close>

definition iter_pair :: "('c, 'k) elem \<Rightarrow> ('c, 'v) elem \<Rightarrow> ('c, 'k \<times> 'v) elem" where
  "iter_pair key val = bind_m key (\<lambda>k. map_m (Pair k) val)"

definition map_iter_with_next ::
  "('c, 'k) elem \<Rightarrow> ('c, 'v) elem \<Rightarrow> u64 iter_state \<Rightarrow> 'c \<Rightarrow> decoder \<Rightarrow> ('c, u64, 'k \<times> 'v) yielded" where
  "map_iter_with_next key val st c d =
     (case st of
        Indef \<Rightarrow> indef_next (iter_pair key val) c d
      | End \<Rightarrow> (None, st, c, d)
      | Def n \<Rightarrow>
          if n = 0 then (None, st, c, d)
          else (case iter_pair key val (c, d) of (r, c', d') \<Rightarrow> (Some r, Def (n - 1), c', d')))"

definition map_iter_next ::
  "'k dec \<Rightarrow> 'v dec \<Rightarrow> u64 iter_state \<Rightarrow> decoder \<Rightarrow> (unit, u64, 'k \<times> 'v) yielded" where
  "map_iter_next key val st d = map_iter_with_next (plain key) (plain val) st () d"

definition dec_array_iter :: "u64 iter_state dec" where
  "dec_array_iter = map_m state_of dec_array"

definition dec_map_iter :: "u64 iter_state dec" where
  "dec_map_iter = map_m state_of dec_map"

text \<open>
  A consumer that takes all items of an iterator. Its element decoder is arbitrary code, so the
  loop need not end: \<open>None\<close> is a loop that goes on for ever.
\<close>

partial_function (option) iter_all ::
  "('t iter_state \<Rightarrow> 'c \<Rightarrow> decoder \<Rightarrow> ('c, 't, 'a) yielded) \<Rightarrow> 't iter_state \<Rightarrow> 'c \<Rightarrow> decoder \<Rightarrow>
     ((decode_error + 'a list) \<times> 'c \<times> decoder) option" where
  "iter_all next st c d =
     (case next st c d of
        (None, st', c', d') \<Rightarrow> Some (Inr [], c', d')
      | (Some (Inl e), st', c', d') \<Rightarrow> Some (Inl e, c', d')
      | (Some (Inr x), st', c', d') \<Rightarrow>
          Option.bind (iter_all next st' c' d') (\<lambda>(r, cd).
            Some (case r of Inl e \<Rightarrow> Inl e | Inr xs \<Rightarrow> Inr (x # xs), cd)))"

section \<open>Running the iterators\<close>

abbreviation at_bytes :: "bytes \<Rightarrow> bytes \<Rightarrow> decoder" where
  "at_bytes pre rest \<equiv> \<lparr>dec_buf = pre @ rest, dec_pos = length pre\<rparr>"

text \<open>\<open>yields\<close> with the input written as what is behind and what is ahead.\<close>

lemma yields_at:
  "yields m bs r \<Longrightarrow> length (pre @ bs @ post) < usize_bound \<Longrightarrow>
     m (at_bytes pre (bs @ post)) = (r (length pre), at_bytes (pre @ bs) post)"
  using yieldsD by fastforce

lemma yieldsI_at:
  "(\<And>pre post. length (pre @ bs @ post) < usize_bound \<Longrightarrow>
     m (at_bytes pre (bs @ post)) = (r (length pre), at_bytes (pre @ bs) post)) \<Longrightarrow> yields m bs r"
  unfolding yields_def by simp

lemma dec_current_at [simp]: "dec_current (at_bytes pre (b # post)) = (Inr b, at_bytes pre (b # post))"
  by (rule dec_current_run)

lemma dec_read_at [simp]: "dec_read (at_bytes pre (b # post)) = (Inr b, at_bytes (pre @ [b]) post)"
  by (simp add: dec_read_def)

lemma indef_next_item:
  assumes "yields m bs r" "bs \<noteq> []" "hd bs \<noteq> BREAK" "length (pre @ bs @ post) < usize_bound"
  shows "indef_next (plain m) () (at_bytes pre (bs @ post)) =
     (Some (r (length pre)), Indef, (), at_bytes (pre @ bs) post)"
  using assms yields_at [OF assms(1,4)] by (cases bs) (simp_all add: indef_next_def plain_def)

lemma indef_next_break:
  "indef_next elem c (at_bytes pre (0xff # post)) = (None, End, c, at_bytes (pre @ [0xff]) post)"
  by (simp add: indef_next_def)

text \<open>Bytes that can stand where a break is possible.\<close>

definition starts_item :: "bytes \<Rightarrow> bool" where
  "starts_item bs \<longleftrightarrow> bs \<noteq> [] \<and> hd bs \<noteq> BREAK"

lemma head_byte_not_break:
  assumes "is_major t" "i < 28" shows "t OR of_nat i \<noteq> BREAK"
proof
  assume "t OR of_nat i = BREAK"
  then have "info_of (t OR of_nat i) = 0x1f" by (simp add: info_of_def)
  with head_byte_parts(2) [OF assms(1), of i] assms(2) info_not_indef [OF assms(2)] show False by simp
qed

lemma head_starts_item: "is_head t n bs \<Longrightarrow> is_major t \<Longrightarrow> starts_item (bs @ cs)"
  using head_byte_not_break by (auto simp: starts_item_def elim!: head_cases)

lemma chunk_loop_end [simp]: "chunk_loop k End d = (Inr [], d)"
  by (cases k) (simp_all add: chunk_loop.simps bytes_iter_next_def str_iter_next_def)

fun chunk_reader :: "chunk_kind \<Rightarrow> bytes dec" where
  "chunk_reader Byte_chunks = dec_bytes"
| "chunk_reader (Text_chunks _) = dec_str"

lemma chunk_next_Indef: "chunk_next k Indef d = indef_next (plain (chunk_reader k)) () d"
  by (cases k) (simp_all add: bytes_iter_next_def str_iter_next_def)

lemma reads_chunks_indef:
  assumes "list_all2 (\<lambda>x bs. reads (chunk_reader k) bs x \<and> starts_item bs) xs bss"
  shows "reads (chunk_loop k Indef) (concat bss @ [0xff]) xs"
  using assms
proof (induction xs bss rule: list_all2_induct)
  case Nil
  show ?case
    by (rule yieldsI_at) (simp add: chunk_loop.simps [of k Indef] chunk_next_Indef indef_next_break)
next
  case (Cons x xs bs bss)
  then have bs: "reads (chunk_reader k) bs x" "bs \<noteq> []" "hd bs \<noteq> BREAK" by (auto simp: starts_item_def)
  show ?case
  proof (rule yieldsI_at)
    fix pre post
    assume len: "length (pre @ (concat (bs # bss) @ [0xff]) @ post) < usize_bound"
    have "indef_next (plain (chunk_reader k)) () (at_bytes pre (bs @ (concat bss @ [0xff]) @ post)) =
        (Some (Inr x), Indef :: usize iter_state, (), at_bytes (pre @ bs) ((concat bss @ [0xff]) @ post))"
      using len by (intro indef_next_item [OF bs]) simp
    moreover have "chunk_loop k Indef (at_bytes (pre @ bs) ((concat bss @ [0xff]) @ post)) =
        (Inr xs, at_bytes ((pre @ bs) @ concat bss @ [0xff]) post)"
      using len by (intro yields_at [OF Cons.IH]) simp
    ultimately show "chunk_loop k Indef (at_bytes pre ((concat (bs # bss) @ [0xff]) @ post)) =
        (Inr (x # xs), at_bytes (pre @ concat (bs # bss) @ [0xff]) post)"
      by (subst chunk_loop.simps) (simp add: chunk_next_Indef)
  qed
qed

lemma yields_chunk_def:
  "reads (chunk_loop Byte_chunks (Def (length x))) x [x]"
  "valid_utf8 x \<Longrightarrow> reads (chunk_loop (Text_chunks p) (Def (length x))) x [x]"
proof -
  have r: "read_slice (length x) (at_bytes pre (x @ post)) = (Inr x, at_bytes (pre @ x) post)"
    if "length (pre @ x @ post) < usize_bound" for pre post
    using yields_at [OF reads_slice that] .
  show "reads (chunk_loop Byte_chunks (Def (length x))) x [x]"
    by (rule yieldsI_at) (simp add: chunk_loop.simps [of _ "Def _"] bytes_iter_next_def r)
  show "valid_utf8 x \<Longrightarrow> reads (chunk_loop (Text_chunks p) (Def (length x))) x [x]"
    by (rule yieldsI_at) (simp add: chunk_loop.simps [of _ "Def _"] str_iter_next_def run_simps r)
qed

lemma reads_bytes_chunks:
  assumes "is_head BYTES (length x) bs"
  shows "reads bytes_chunks (bs @ x) [x]"
  using assms
proof (rule head_cases)
  fix i cs assume h: "bs = (BYTES OR of_nat i) # cs" "is_arg i (length x) cs" "i < 28" "length x < 2 ^ 64"
  have "reads (map_m Def (u64_to_usize (of_nat (length x)) p)) [] (Def (length x))" for p
    using reads_map [OF reads_u64_to_usize, of Def "of_nat (length x)" p] unfolding unat_of_nat_u64 [OF h(4)] .
  then have "reads (bind_m (dec_unsigned (of_nat i) p) (\<lambda>n. map_m Def (u64_to_usize n p))) (cs @ []) (Def (length x))" for p
    by (rule yields_bind [OF reads_unsigned [OF h(2)]])
  then have "reads dec_bytes_iter bs (Def (length x))"
    unfolding dec_bytes_iter_def h(1)
    by (intro yields_with_pos yields_head) (use h(3) in \<open>simp add: head_byte_simps del: major_defs\<close>)
  then show ?thesis unfolding bytes_chunks_def by (rule yields_bind) (rule yields_chunk_def(1))
qed

lemma reads_str_chunks:
  assumes "is_head TEXT (length x) bs" "valid_utf8 x"
  shows "reads str_chunks (bs @ x) [x]"
  using assms(1)
proof (rule head_cases)
  fix i cs assume h: "bs = (TEXT OR of_nat i) # cs" "is_arg i (length x) cs" "i < 28" "length x < 2 ^ 64"
  have "reads (map_m (\<lambda>len. (Def len, p)) (u64_to_usize (of_nat (length x)) p)) [] (Def (length x), p)" for p
    using reads_map [OF reads_u64_to_usize, of "\<lambda>len. (Def len, p)" "of_nat (length x)" p]
    unfolding unat_of_nat_u64 [OF h(4)] .
  then have u: "reads (bind_m (dec_unsigned (of_nat i) p) (\<lambda>n. map_m (\<lambda>len. (Def len, p)) (u64_to_usize n p)))
      (cs @ []) (Def (length x), p)" for p
    by (rule yields_bind [OF reads_unsigned [OF h(2)]])
  have it: "yields dec_str_iter bs (\<lambda>p. Inr (Def (length x), p))"
    unfolding dec_str_iter_def h(1)
    by (intro yields_with_pos yields_head) (use h(3) u in \<open>simp add: head_byte_simps del: major_defs\<close>)
  show ?thesis
  proof (rule yieldsI_at)
    fix pre post assume len: "length (pre @ (bs @ x) @ post) < usize_bound"
    then show "str_chunks (at_bytes pre ((bs @ x) @ post)) = (Inr [x], at_bytes (pre @ bs @ x) post)"
      using yields_at [OF it, of pre "x @ post"]
        yields_at [OF yields_chunk_def(2) [OF assms(2), of "length pre"], of "pre @ bs" post]
      by (simp add: str_chunks_def run_simps)
  qed
qed

lemma reads_iter_indef:
  "reads dec_bytes_iter [0x5f] Indef" "yields dec_str_iter [0x7f] (\<lambda>p. Inr (Indef, p))"
  unfolding dec_bytes_iter_def dec_str_iter_def
  by (intro yields_with_pos yields_head; simp add: type_of_def info_of_def reads_ret)+

lemma chunk_items:
  "list_all2 (\<lambda>x bs. is_head BYTES (length x) bs) xs bss \<Longrightarrow>
     list_all2 (\<lambda>x bs. reads (chunk_reader Byte_chunks) bs x \<and> starts_item bs) xs (map2 (@) bss xs)"
  "list_all2 (\<lambda>x bs. is_head TEXT (length x) bs) ys css \<Longrightarrow> list_all valid_utf8 ys \<Longrightarrow>
     list_all2 (\<lambda>x bs. reads (chunk_reader (Text_chunks p)) bs x \<and> starts_item bs) ys (map2 (@) css ys)"
proof -
  show "list_all2 (\<lambda>x bs. reads (chunk_reader Byte_chunks) bs x \<and> starts_item bs) xs (map2 (@) bss xs)"
    if "list_all2 (\<lambda>x bs. is_head BYTES (length x) bs) xs bss"
    using that
    by (induction xs bss rule: list_all2_induct) (auto simp: reads_bytes intro: head_starts_item [OF _ major_of(1)])
  show "list_all2 (\<lambda>x bs. reads (chunk_reader (Text_chunks p)) bs x \<and> starts_item bs) ys (map2 (@) css ys)"
    if "list_all2 (\<lambda>x bs. is_head TEXT (length x) bs) ys css" "list_all valid_utf8 ys"
    using that
    by (induction ys css rule: list_all2_induct) (auto simp: reads_str intro: head_starts_item [OF _ major_of(2)])
qed

lemma reads_bytes_chunks_indef:
  assumes "list_all2 (\<lambda>x bs. is_head BYTES (length x) bs) xs bss"
  shows "reads bytes_chunks ([0x5f] @ concat (map2 (@) bss xs) @ [0xff]) xs"
  unfolding bytes_chunks_def
  by (rule yields_bind, rule reads_iter_indef(1), rule reads_chunks_indef [OF chunk_items(1) [OF assms]])

lemma reads_str_chunks_indef:
  assumes "list_all2 (\<lambda>x bs. is_head TEXT (length x) bs) xs bss" "list_all valid_utf8 xs"
  shows "reads str_chunks ([0x7f] @ concat (map2 (@) bss xs) @ [0xff]) xs"
proof (rule yieldsI_at)
  fix pre post assume len: "length (pre @ ([0x7f] @ concat (map2 (@) bss xs) @ [0xff]) @ post) < usize_bound"
  then show "str_chunks (at_bytes pre (([0x7f] @ concat (map2 (@) bss xs) @ [0xff]) @ post)) =
      (Inr xs, at_bytes (pre @ [0x7f] @ concat (map2 (@) bss xs) @ [0xff]) post)"
    using yields_at [OF reads_iter_indef(2), of pre "concat (map2 (@) bss xs) @ [0xff] @ post"]
      yields_at [OF reads_chunks_indef [OF chunk_items(2) [OF assms, of "length pre"]], of "pre @ [0x7f]" post]
    by (simp add: str_chunks_def run_simps)
qed

section \<open>Safety of the chunk loops\<close>

definition stays :: "decoder \<Rightarrow> decoder \<Rightarrow> bool" where
  "stays d d' \<longleftrightarrow> dec_buf d' = dec_buf d \<and> dec_pos d \<le> dec_pos d' \<and>
     (dec_pos d \<le> length (dec_buf d) \<longrightarrow> dec_pos d' \<le> length (dec_buf d))"

lemma stays_refl [simp]: "stays d d"
  by (simp add: stays_def)

lemma stays_trans: "stays a b \<Longrightarrow> stays b c \<Longrightarrow> stays a c"
  by (auto simp: stays_def)

lemma safe_iff_stays: "safe m \<longleftrightarrow> (\<forall>d. stays d (snd (m d)))"
  by (auto simp: safe_def stays_def) (metis snd_conv prod.collapse)+

lemma safe_stays: "safe m \<Longrightarrow> m d = (r, d') \<Longrightarrow> stays d d'"
  by (auto simp: safe_iff_stays dest: spec [of _ d])

lemma indef_next_stays:
  assumes "safe m" "indef_next (plain m) () d = (r, st, u, d')"
  shows "stays d d'"
proof -
  have r: "stays d (snd (dec_read d))" "stays d (snd (m d))"
    using assms(1) safe_basic(4) by (auto simp: safe_iff_stays)
  then show ?thesis
    using assms(2) by (cases "dec_read d"; cases "m d"; cases "fst (dec_current d)"; cases "fst (dec_read d)")
      (auto simp: indef_next_def plain_def split: if_splits)
qed

lemma chunk_next_stays:
  assumes "chunk_next k st d = (r, st', u, d')"
  shows "stays d d'"
proof (cases st)
  case Indef
  have "safe (chunk_reader k)" by (cases k) (simp_all add: safe_ops)
  then show ?thesis using assms Indef by (auto simp: chunk_next_Indef intro: indef_next_stays)
next
  case (Def n)
  have "safe (bind_m (read_slice n) (\<lambda>x. res_m (map_err (\<lambda>e. err_at p (err_utf8 e)) (from_utf8 x))))" for p
    by (intro safe_intros)
  then show ?thesis
    using assms Def safe_read_slice [of n]
    by (cases k) (auto simp: bytes_iter_next_def str_iter_next_def split: prod.splits dest: safe_stays)
next
  case End
  then show ?thesis using assms by (cases k) (auto simp: bytes_iter_next_def str_iter_next_def)
qed

lemma chunk_loop_stays: "stays d (snd (chunk_loop k st d))"
proof (induction k st d rule: chunk_loop.induct)
  case (1 k st d)
  obtain r st' u d' where n: "chunk_next k st d = (r, st', u, d')" by (cases "chunk_next k st d") auto
  have s: "stays d d'" by (rule chunk_next_stays [OF n])
  show ?case
  proof (cases "\<exists>x. r = Some (Inr x)")
    case True
    then obtain x where r: "r = Some (Inr x)" ..
    have "stays d' (snd (chunk_loop k st' d'))" by (rule 1) (use n r in auto)
    with s have t: "stays d (snd (chunk_loop k st' d'))" by (rule stays_trans)
    show ?thesis
    proof (cases "chunk_loop k st' d'")
      case (Pair q e)
      with t n r show ?thesis by (cases q) (auto simp: chunk_loop.simps [of k st d])
    qed
  next
    case False
    then show ?thesis using n s by (cases r; cases "the r") (auto simp: chunk_loop.simps [of k st d])
  qed
qed

lemma safe_chunks [safe_intros]: "safe (chunk_loop k st)" "safe bytes_chunks" "safe str_chunks"
proof -
  show l: "safe (chunk_loop k st)" for k st by (simp add: safe_iff_stays chunk_loop_stays)
  have "safe dec_bytes_iter" "safe dec_str_iter"
    unfolding dec_bytes_iter_def dec_str_iter_def by (intro safe_intros)+
  then show "safe bytes_chunks" "safe str_chunks"
    unfolding bytes_chunks_def str_chunks_def by (auto intro!: safe_bind l split: prod.splits)
qed

lemma progress_chunks: "progress bytes_chunks" "progress str_chunks"
proof -
  have "progress dec_bytes_iter" "progress dec_str_iter"
    unfolding dec_bytes_iter_def dec_str_iter_def
    by (intro progress_with_pos progress_bind progress_read safe_intros)+
  then show "progress bytes_chunks" "progress str_chunks"
    unfolding bytes_chunks_def str_chunks_def
    by (auto intro!: progress_bind safe_chunks(1) split: prod.splits)
qed

section \<open>Iterating over elements\<close>

text \<open>What an iterator over elements promises: \<open>item x bs\<close> says that the element \<open>x\<close> is decoded from
  \<open>bs\<close>.\<close>

locale element_iter =
  fixes iter_next :: "u64 iter_state \<Rightarrow> unit \<Rightarrow> decoder \<Rightarrow> (unit, u64, 'a) yielded"
    and item :: "'a \<Rightarrow> bytes \<Rightarrow> bool"
  assumes indef_item: "item x bs \<Longrightarrow> starts_item bs \<Longrightarrow> length (pre @ bs @ post) < usize_bound \<Longrightarrow>
      iter_next Indef () (at_bytes pre (bs @ post)) = (Some (Inr x), Indef, (), at_bytes (pre @ bs) post)"
    and indef_break: "iter_next Indef () (at_bytes pre (0xff # post)) =
      (None, End, (), at_bytes (pre @ [0xff]) post)"
    and def_item: "item x bs \<Longrightarrow> n \<noteq> 0 \<Longrightarrow> length (pre @ bs @ post) < usize_bound \<Longrightarrow>
      iter_next (Def n) () (at_bytes pre (bs @ post)) = (Some (Inr x), Def (n - 1), (), at_bytes (pre @ bs) post)"
    and def_end: "iter_next (Def 0) () d = (None, Def 0, (), d)"
begin

lemma def_all:
  assumes "list_all2 item xs bss" "length xs < 2 ^ 64" "length (pre @ concat bss @ post) < usize_bound"
  shows "iter_all iter_next (Def (of_nat (length xs))) () (at_bytes pre (concat bss @ post)) =
    Some (Inr xs, (), at_bytes (pre @ concat bss) post)"
  using assms
proof (induction xs bss arbitrary: pre rule: list_all2_induct)
  case Nil
  show ?case by (subst iter_all.simps) (simp add: def_end)
next
  case (Cons x xs bs bss)
  have nz: "(of_nat (length (x # xs)) :: u64) \<noteq> 0"
    using Cons.prems(1) unat_of_nat_u64 [of "length (x # xs)"] by auto
  have "iter_next (Def (of_nat (length (x # xs)))) () (at_bytes pre (bs @ concat bss @ post)) =
      (Some (Inr x), Def (of_nat (length (x # xs)) - 1), (), at_bytes (pre @ bs) (concat bss @ post))"
    using Cons.prems(2) by (intro def_item [OF Cons.hyps(1) nz]) simp
  moreover have "iter_all iter_next (Def (of_nat (length xs))) () (at_bytes (pre @ bs) (concat bss @ post)) =
      Some (Inr xs, (), at_bytes ((pre @ bs) @ concat bss) post)"
    using Cons.prems by (intro Cons.IH) auto
  ultimately show ?case by (subst iter_all.simps) simp
qed

lemma indef_all:
  assumes "list_all2 (\<lambda>x bs. item x bs \<and> starts_item bs) xs bss"
    and "length (pre @ (concat bss @ [0xff]) @ post) < usize_bound"
  shows "iter_all iter_next Indef () (at_bytes pre ((concat bss @ [0xff]) @ post)) =
    Some (Inr xs, (), at_bytes (pre @ concat bss @ [0xff]) post)"
  using assms
proof (induction xs bss arbitrary: pre rule: list_all2_induct)
  case Nil
  show ?case using indef_break [of pre post] by (subst iter_all.simps) simp
next
  case (Cons x xs bs bss)
  have "iter_next Indef () (at_bytes pre (bs @ (concat bss @ [0xff]) @ post)) =
      (Some (Inr x), Indef, (), at_bytes (pre @ bs) ((concat bss @ [0xff]) @ post))"
    using Cons.hyps(1) Cons.prems by (intro indef_item) auto
  moreover have "iter_all iter_next Indef () (at_bytes (pre @ bs) ((concat bss @ [0xff]) @ post)) =
      Some (Inr xs, (), at_bytes ((pre @ bs) @ concat bss @ [0xff]) post)"
    using Cons.prems by (intro Cons.IH) auto
  ultimately show ?case by (subst iter_all.simps) simp
qed

end

interpretation array_elems: element_iter "\<lambda>st u. array_iter_next m st" "\<lambda>x bs. reads m bs x" for m
proof (unfold_locales)
  fix x :: 'a and bs pre post :: bytes
  assume r: "reads m bs x" and len: "length (pre @ bs @ post) < usize_bound"
  show "array_iter_next m Indef (at_bytes pre (bs @ post)) = (Some (Inr x), Indef, (), at_bytes (pre @ bs) post)"
    if "starts_item bs"
    using indef_next_item [OF r _ _ len] that
    by (simp add: array_iter_next_def array_iter_with_next_def starts_item_def)
  show "array_iter_next m (Def n) (at_bytes pre (bs @ post)) =
      (Some (Inr x), Def (n - 1), (), at_bytes (pre @ bs) post)" if "n \<noteq> 0" for n
    using yields_at [OF r len] that
    by (simp add: array_iter_next_def array_iter_with_next_def plain_def)
qed (simp_all add: array_iter_next_def array_iter_with_next_def indef_next_break)

lemma iter_pair_plain: "iter_pair (plain k) (plain v) = plain (bind_m k (\<lambda>x. map_m (Pair x) v))"
  by (rule ext) (auto simp: iter_pair_def plain_def run_simps split: prod.splits sum.splits)

interpretation map_entries: element_iter "\<lambda>st u. map_iter_next k v st"
  "\<lambda>xy bs. \<exists>cs ds. bs = cs @ ds \<and> reads k cs (fst xy) \<and> reads v ds (snd xy)" for k v
proof (unfold_locales)
  fix xy :: "'a \<times> 'b" and bs pre post :: bytes
  assume "\<exists>cs ds. bs = cs @ ds \<and> reads k cs (fst xy) \<and> reads v ds (snd xy)"
    and len: "length (pre @ bs @ post) < usize_bound"
  then obtain cs ds where r: "bs = cs @ ds" "reads k cs (fst xy)" "reads v ds (snd xy)" by blast
  have p: "reads (bind_m k (\<lambda>x. map_m (Pair x) v)) bs xy"
    unfolding r(1) by (rule yields_bind [OF r(2)]) (use reads_map [OF r(3), of "Pair (fst xy)"] in simp)
  show "map_iter_next k v Indef (at_bytes pre (bs @ post)) = (Some (Inr xy), Indef, (), at_bytes (pre @ bs) post)"
    if "starts_item bs"
    using indef_next_item [OF p _ _ len] that
    by (simp add: map_iter_next_def map_iter_with_next_def starts_item_def iter_pair_plain)
  show "map_iter_next k v (Def n) (at_bytes pre (bs @ post)) =
      (Some (Inr xy), Def (n - 1), (), at_bytes (pre @ bs) post)" if "n \<noteq> 0" for n
    using yields_at [OF p len] that
    by (simp add: map_iter_next_def map_iter_with_next_def iter_pair_plain) (simp add: plain_def)
qed (simp_all add: map_iter_next_def map_iter_with_next_def indef_next_break)


lemma reads_iter_heads:
  "is_head ARRAY n bs \<Longrightarrow> reads dec_array_iter bs (Def (of_nat n))" "reads dec_array_iter [0x9f] Indef"
  "is_head MAP n bs \<Longrightarrow> reads dec_map_iter bs (Def (of_nat n))" "reads dec_map_iter [0xbf] Indef"
  unfolding dec_array_iter_def dec_map_iter_def
  using reads_map [OF reads_array, of n bs state_of] reads_map [OF reads_map_head, of n bs state_of]
    reads_map [OF reads_indef(1), of state_of] reads_map [OF reads_indef(2), of state_of]
  by (simp_all add: state_of_def)

text \<open>All that an iterator yields, from the head of the array or map on.\<close>

definition array_elements :: "'a dec \<Rightarrow> decoder \<Rightarrow> ((decode_error + 'a list) \<times> unit \<times> decoder) option" where
  "array_elements m d = (case dec_array_iter d of
     (Inl e, d') \<Rightarrow> Some (Inl e, (), d') | (Inr st, d') \<Rightarrow> iter_all (\<lambda>st u. array_iter_next m st) st () d')"

definition map_elements ::
  "'k dec \<Rightarrow> 'v dec \<Rightarrow> decoder \<Rightarrow> ((decode_error + ('k \<times> 'v) list) \<times> unit \<times> decoder) option" where
  "map_elements k v d = (case dec_map_iter d of
     (Inl e, d') \<Rightarrow> Some (Inl e, (), d') | (Inr st, d') \<Rightarrow> iter_all (\<lambda>st u. map_iter_next k v st) st () d')"

text \<open>The bytes of an array or map, of either length form, with the given element encodings. Behind an
  indefinite head an element must not look like a break.\<close>

inductive seq_bytes :: "u8 \<Rightarrow> u8 \<Rightarrow> bytes list \<Rightarrow> nat \<Rightarrow> bytes \<Rightarrow> bool" where
  definite: "is_head t n h \<Longrightarrow> seq_bytes t b bss n (h @ concat bss)"
| indefinite: "list_all starts_item bss \<Longrightarrow> seq_bytes t b bss n ([b] @ concat bss @ [0xff])"

lemma list_all2_conj_list_all:
  "list_all2 P xs ys \<Longrightarrow> list_all Q ys \<Longrightarrow> list_all2 (\<lambda>x y. P x y \<and> Q y) xs ys"
  by (induction xs ys rule: list_all2_induct) auto

lemma array_elements_run:
  assumes e: "list_all2 (\<lambda>x bs. reads m bs x) xs bss" and b: "seq_bytes ARRAY 0x9f bss (length xs) bs"
    and len: "length (pre @ bs @ post) < usize_bound"
  shows "array_elements m (at_bytes pre (bs @ post)) = Some (Inr xs, (), at_bytes (pre @ bs) post)"
  using b
proof cases
  case (definite h)
  from definite(2) have n: "length xs < 2 ^ 64" by (rule head_cases)
  show ?thesis
    using yields_at [OF reads_iter_heads(1) [OF definite(2)], of pre "concat bss @ post"]
      array_elems.def_all [OF e n, of "pre @ h" post] len
    by (simp add: array_elements_def definite(1))
next
  case indefinite
  show ?thesis
    using yields_at [OF reads_iter_heads(2), of pre "(concat bss @ [0xff]) @ post"] len
      array_elems.indef_all [OF list_all2_conj_list_all [OF e indefinite(2)], of "pre @ [0x9f]" post]
    by (simp add: array_elements_def indefinite(1))
qed

lemma map_elements_run:
  assumes e: "list_all2 (\<lambda>xy bs. \<exists>cs ds. bs = cs @ ds \<and> reads k cs (fst xy) \<and> reads v ds (snd xy)) xs bss"
    and b: "seq_bytes MAP 0xbf bss (length xs) bs"
    and len: "length (pre @ bs @ post) < usize_bound"
  shows "map_elements k v (at_bytes pre (bs @ post)) = Some (Inr xs, (), at_bytes (pre @ bs) post)"
  using b
proof cases
  case (definite h)
  from definite(2) have n: "length xs < 2 ^ 64" by (rule head_cases)
  show ?thesis
    using yields_at [OF reads_iter_heads(3) [OF definite(2)], of pre "concat bss @ post"]
      map_entries.def_all [OF e n, of "pre @ h" post] len
    by (simp add: map_elements_def definite(1))
next
  case indefinite
  show ?thesis
    using yields_at [OF reads_iter_heads(4), of pre "(concat bss @ [0xff]) @ post"] len
      map_entries.indef_all [OF list_all2_conj_list_all [OF e indefinite(2)], of "pre @ [0xbf]" post]
    by (simp add: map_elements_def indefinite(1))
qed

text \<open>C18: iterating over an array or a map in either length form, wherever it stands in the input,
  yields its elements in order, ends, and leaves the decoder behind the array or map (behind its
  break byte when the length is indefinite), for every element decoder.\<close>

theorem iterators_yield_elements:
  assumes "length (pre @ bs @ post) < usize_bound"
  shows "(list_all2 (\<lambda>x es. reads m es x) xs bss \<longrightarrow> seq_bytes ARRAY 0x9f bss (length xs) bs \<longrightarrow>
      array_elements m (at_bytes pre (bs @ post)) = Some (Inr xs, (), at_bytes (pre @ bs) post)) \<and>
    (list_all2 (\<lambda>xy es. \<exists>cs ds. es = cs @ ds \<and> reads k cs (fst xy) \<and> reads v ds (snd xy)) kvs bss \<longrightarrow>
      seq_bytes MAP 0xbf bss (length kvs) bs \<longrightarrow>
      map_elements k v (at_bytes pre (bs @ post)) = Some (Inr kvs, (), at_bytes (pre @ bs) post))"
  using array_elements_run [OF _ _ assms] map_elements_run [OF _ _ assms] by blast

lemma iterators_yield_elements_witness:
  "array_elements dec_bool (at_bytes [] ([0x9f, 0xf5, 0xf4, 0xff] @ [7])) =
     Some (Inr [True, False], (), at_bytes ([] @ [0x9f, 0xf5, 0xf4, 0xff]) [7])"
proof -
  have b: "seq_bytes ARRAY 0x9f [[0xf5], [0xf4]] (length [True, False]) [0x9f, 0xf5, 0xf4, 0xff]"
    using indefinite [of "[[0xf5], [0xf4]]" ARRAY "0x9f" "length [True, False]"] by (simp add: starts_item_def)
  have e: "list_all2 (\<lambda>x es. reads dec_bool es x) [True, False] [[0xf5], [0xf4]]"
    using reads_one_byte(1) [of True] reads_one_byte(1) [of False] by simp
  have l: "length ([] @ [0x9f, 0xf5, 0xf4, 0xff] @ [7 :: u8]) < usize_bound" by (simp add: usize_bound_def)
  show ?thesis
    by (rule conjunct1 [OF iterators_yield_elements [OF l], THEN mp, THEN mp, OF e b])
qed

end
