(* ===== verification/Cbor_Skip.thy ===== *)
theory Cbor_Skip
  imports Cbor_Iter
begin

text \<open>
  Skipping over a value (\<open>Decoder::skip\<close>, in both the version with an allocator and the version
  without). The code counts how many items are left (\<open>nrounds\<close>) and how many break bytes are expected
  (\<open>irounds\<close>), and switches to a stack of lengths when a value of indefinite length stands inside one
  of definite length.

  The lemmas show that the loop ends on every input, that skipping a well-formed item in any form
  consumes exactly that item, and that the version without an allocator agrees with the other one
  whenever it succeeds.
\<close>

section \<open>The loop\<close>

text \<open>The stack of the code, with its last element first.\<close>

record skip_state =
  nrounds :: u64
  irounds :: u64
  sk_stack :: "u64 option list"

definition counting :: "skip_state \<Rightarrow> bool" where
  "counting s \<longleftrightarrow> \<not> (nrounds s = 0 \<and> irounds s = 0)"

text \<open>The heads of arrays and maps of \<open>n\<close> items, and of indefinite length.\<close>

definition skip_def :: "u64 \<Rightarrow> skip_state \<Rightarrow> skip_state" where
  "skip_def n s =
     (if n = 0 then s
      else if \<not> counting s then s\<lparr>sk_stack := Some n # sk_stack s\<rparr>
      else s\<lparr>nrounds := sat_add (nrounds s) n\<rparr>)"

definition skip_indef :: "skip_state \<Rightarrow> skip_state" where
  "skip_indef s =
     (if \<not> counting s then s\<lparr>sk_stack := None # sk_stack s\<rparr>
      else if nrounds s < 2 then s\<lparr>irounds := sat_add (irounds s) 1\<rparr>
      else \<lparr>nrounds = 0, irounds = 0,
             sk_stack = None # Some (nrounds s - 1) # replicate (unat (irounds s)) None @ sk_stack s\<rparr>)"

definition skip_head :: "u64 option \<Rightarrow> skip_state \<Rightarrow> skip_state" where
  "skip_head n s = (case n of Some n \<Rightarrow> skip_def n s | None \<Rightarrow> skip_indef s)"

definition skip_break :: "skip_state \<Rightarrow> skip_state" where
  "skip_break s =
     (if \<not> counting s then
        (case sk_stack s of None # st \<Rightarrow> s\<lparr>sk_stack := st\<rparr> | _ \<Rightarrow> s)
      else s\<lparr>irounds := sat_sub (irounds s) 1\<rparr>)"

text \<open>One match of the loop: the new counters, and whether the round is left by \<open>continue\<close>.\<close>

definition skip_unknown :: "string \<Rightarrow> u8 \<Rightarrow> 'a dec" where
  "skip_unknown msg b = bind_m (dec_type_of b) (\<lambda>t.
     with_pos (\<lambda>p. fail_m (with_message msg (err_at p (type_mismatch t)))))"

definition skip_arg :: "u64 dec" where
  "skip_arg = with_pos (\<lambda>p. bind_m dec_read (\<lambda>n. dec_unsigned (info_of n) p))"

definition skip_body :: "skip_state \<Rightarrow> u8 \<Rightarrow> (bool \<times> skip_state) dec" where
  "skip_body s b =
     (if b \<le> 0x1b then seq_m dec_u64 (ret_m (False, s))
     else if SIGNED \<le> b \<and> b \<le> 0x3b then seq_m dec_int (ret_m (False, s))
     else if BYTES \<le> b \<and> b \<le> 0x5f then seq_m bytes_chunks (ret_m (False, s))
     else if TEXT \<le> b \<and> b \<le> 0x7f then seq_m str_chunks (ret_m (False, s))
     else if ARRAY \<le> b \<and> b \<le> 0x9f then map_m (\<lambda>n. (False, skip_head n s)) dec_array
     else if MAP \<le> b \<and> b \<le> 0xbf then
       map_m (\<lambda>n. (False, skip_head (map_option (\<lambda>n. sat_mul n 2) n) s)) dec_map
     else if TAGGED \<le> b \<and> b \<le> 0xdb then seq_m skip_arg (ret_m (True, s))
     else if SIMPLE \<le> b \<and> b \<le> 0xfb then seq_m skip_arg (ret_m (False, s))
     else if b = BREAK then seq_m dec_read (ret_m (False, skip_break s))
     else skip_unknown ''unknown type'' b)"

definition skip_match :: "skip_state \<Rightarrow> (bool \<times> skip_state) dec" where
  "skip_match s = bind_m dec_current (skip_body s)"

text \<open>The end of a round: an item has been passed.\<close>

fun skip_pop :: "u64 option list \<Rightarrow> u64 option list" where
  "skip_pop (Some n # st) = (if n = 0 then skip_pop st else Some (n - 1) # st)"
| "skip_pop st = st"

definition skip_round :: "skip_state \<Rightarrow> skip_state" where
  "skip_round s =
     (if \<not> counting s then s\<lparr>sk_stack := skip_pop (sk_stack s)\<rparr>
      else s\<lparr>nrounds := sat_sub (nrounds s) 1\<rparr>)"

definition skip_live :: "skip_state \<Rightarrow> bool" where
  "skip_live s \<longleftrightarrow> 0 < nrounds s \<or> 0 < irounds s \<or> sk_stack s \<noteq> []"

lemma progress_after: "safe m \<Longrightarrow> (\<And>x. progress (f x)) \<Longrightarrow> progress (bind_m m f)"
  unfolding progress_def bind_m_run
  by (auto split: prod.splits sum.splits) (meson order_le_less_trans safeD)

lemma progress_fail: "progress (fail_m e)"
  by (simp add: progress_def run_simps)

lemma progress_if: "progress m \<Longrightarrow> progress k \<Longrightarrow> progress (if c then m else k)"
  by simp

lemma progress_seq: "progress m \<Longrightarrow> safe k \<Longrightarrow> progress (seq_m m k)"
  unfolding seq_m_def by (intro progress_bind)

lemma progress_map: "progress m \<Longrightarrow> progress (map_m f m)"
  unfolding map_m_def by (intro progress_bind safe_intros)

lemma skip_match_safe: "safe (skip_match s)" "progress (skip_match s)"
proof -
  have arg: "safe skip_arg" "progress skip_arg"
    unfolding skip_arg_def by (intro safe_intros progress_with_pos progress_bind progress_read)+
  have unk: "safe (skip_unknown m b)" "progress (skip_unknown m b)" for m b
    unfolding skip_unknown_def
    by (intro safe_intros progress_after progress_with_pos progress_fail)+
  show "safe (skip_match s)" unfolding skip_match_def skip_body_def by (intro safe_intros arg unk)
  show "progress (skip_match s)" unfolding skip_match_def skip_body_def
    by (intro progress_after progress_if progress_seq progress_map progress_ops progress_chunks progress_read
        safe_intros arg unk)
qed

lemma skip_match_progress:
  assumes "skip_match s d = (Inr x, d')"
  shows "length (dec_buf d') - dec_pos d' < length (dec_buf d) - dec_pos d"
proof -
  have "dec_pos d < length (dec_buf d)"
    using assms by (auto simp: skip_match_def run_simps dec_current_def index_get_def split: if_splits)
  moreover have "dec_pos d < dec_pos d'" by (rule progressD [OF skip_match_safe(2) assms])
  moreover have "dec_buf d' = dec_buf d" using safeD [OF skip_match_safe(1) assms] by blast
  ultimately show ?thesis by (simp add: diff_less_mono2)
qed

function skip_loop :: "skip_state \<Rightarrow> unit dec" where
  "skip_loop s d =
     (if \<not> skip_live s then (Inr (), d)
      else case skip_match s d of
             (Inl e, d') \<Rightarrow> (Inl e, d')
           | (Inr (continue, s'), d') \<Rightarrow> skip_loop (if continue then s' else skip_round s') d')"
  by pat_completeness auto
termination
  by (relation "measure (\<lambda>(s, d). length (dec_buf d) - dec_pos d)") (auto dest!: skip_match_progress [OF sym])

declare skip_loop.simps [simp del]

definition dec_skip :: "unit dec" where
  "dec_skip = skip_loop \<lparr>nrounds = 1, irounds = 0, sk_stack = []\<rparr>"

section \<open>Without an allocator\<close>

definition skip_error_msg :: string where
  "skip_error_msg = ''arrays and maps of indefinite length inside of regular arrays or maps require feature flag `alloc`''"

definition skip_head_noalloc :: "u64 option \<Rightarrow> skip_state \<Rightarrow> (bool \<times> skip_state) dec" where
  "skip_head_noalloc n s =
     (case n of
        Some n \<Rightarrow> ret_m (False, s\<lparr>nrounds := sat_add (nrounds s) n\<rparr>)
      | None \<Rightarrow>
          if nrounds s < 2 then ret_m (False, s\<lparr>irounds := sat_add (irounds s) 1\<rparr>)
          else fail_m (err_message skip_error_msg))"

definition skip_body_noalloc :: "skip_state \<Rightarrow> u8 \<Rightarrow> (bool \<times> skip_state) dec" where
  "skip_body_noalloc s b =
     (if b \<le> 0x1b then seq_m dec_u64 (ret_m (False, s))
     else if SIGNED \<le> b \<and> b \<le> 0x3b then seq_m dec_int (ret_m (False, s))
     else if BYTES \<le> b \<and> b \<le> 0x5f then seq_m bytes_chunks (ret_m (False, s))
     else if TEXT \<le> b \<and> b \<le> 0x7f then seq_m str_chunks (ret_m (False, s))
     else if ARRAY \<le> b \<and> b \<le> 0x9f then bind_m dec_array (\<lambda>n. skip_head_noalloc n s)
     else if MAP \<le> b \<and> b \<le> 0xbf then
       bind_m dec_map (\<lambda>n. skip_head_noalloc (map_option (\<lambda>n. sat_mul n 2) n) s)
     else if TAGGED \<le> b \<and> b \<le> 0xdb then seq_m skip_arg (ret_m (True, s))
     else if SIMPLE \<le> b \<and> b \<le> 0xfb then seq_m skip_arg (ret_m (False, s))
     else if b = BREAK then seq_m dec_read (ret_m (False, s\<lparr>irounds := sat_sub (irounds s) 1\<rparr>))
     else skip_unknown ''not supported'' b)"

definition skip_match_noalloc :: "skip_state \<Rightarrow> (bool \<times> skip_state) dec" where
  "skip_match_noalloc s = bind_m dec_current (skip_body_noalloc s)"

definition skip_round_noalloc :: "skip_state \<Rightarrow> skip_state" where
  "skip_round_noalloc s = s\<lparr>nrounds := sat_sub (nrounds s) 1\<rparr>"

lemma skip_match_noalloc_safe: "safe (skip_match_noalloc s)" "progress (skip_match_noalloc s)"
proof -
  have arg: "safe skip_arg" "progress skip_arg"
    unfolding skip_arg_def by (intro safe_intros progress_with_pos progress_bind progress_read)+
  have unk: "safe (skip_unknown m b)" "progress (skip_unknown m b)" for m b
    unfolding skip_unknown_def
    by (intro safe_intros progress_after progress_with_pos progress_fail)+
  have hd: "safe (skip_head_noalloc n s)" for n s
    unfolding skip_head_noalloc_def by (auto intro: safe_intros split: option.split)
  show "safe (skip_match_noalloc s)" unfolding skip_match_noalloc_def skip_body_noalloc_def by (intro safe_intros arg unk hd)
  show "progress (skip_match_noalloc s)" unfolding skip_match_noalloc_def skip_body_noalloc_def
    by (rule progress_after [OF safe_basic(5)])
      (intro progress_bind progress_if progress_seq progress_map progress_ops progress_chunks progress_read
        safe_intros arg unk hd)
qed

lemma skip_match_noalloc_progress:
  assumes "skip_match_noalloc s d = (Inr x, d')"
  shows "length (dec_buf d') - dec_pos d' < length (dec_buf d) - dec_pos d"
proof -
  have "dec_pos d < length (dec_buf d)"
    using assms by (auto simp: skip_match_noalloc_def run_simps dec_current_def index_get_def split: if_splits)
  moreover have "dec_pos d < dec_pos d'" by (rule progressD [OF skip_match_noalloc_safe(2) assms])
  moreover have "dec_buf d' = dec_buf d" using safeD [OF skip_match_noalloc_safe(1) assms] by blast
  ultimately show ?thesis by (simp add: diff_less_mono2)
qed

function skip_loop_noalloc :: "skip_state \<Rightarrow> unit dec" where
  "skip_loop_noalloc s d =
     (if \<not> (0 < nrounds s \<or> 0 < irounds s) then (Inr (), d)
      else case skip_match_noalloc s d of
             (Inl e, d') \<Rightarrow> (Inl e, d')
           | (Inr (continue, s'), d') \<Rightarrow>
               skip_loop_noalloc (if continue then s' else skip_round_noalloc s') d')"
  by pat_completeness auto
termination
  by (relation "measure (\<lambda>(s, d). length (dec_buf d) - dec_pos d)") (auto dest!: skip_match_noalloc_progress [OF sym])

declare skip_loop_noalloc.simps [simp del]

definition dec_skip_noalloc :: "unit dec" where
  "dec_skip_noalloc = skip_loop_noalloc \<lparr>nrounds = 1, irounds = 0, sk_stack = []\<rparr>"

section \<open>What is left to skip\<close>

text \<open>
  The work that is left, as a list of numbers: the first is the number of items up to the next break
  byte, the others the items behind each further break. The last one is exact; in front of a break
  any number of items is passed over, so that there the counters may lag behind.
\<close>

fun tally :: "u64 option list \<Rightarrow> nat list" where
  "tally [] = [0]"
| "tally (None # st) = 0 # tally st"
| "tally (Some m # st) = (case tally st of t # ts \<Rightarrow> (if t = 0 then Suc (unat m) else t + unat m) # ts | [] \<Rightarrow> [])"

definition left_of :: "skip_state \<Rightarrow> nat list" where
  "left_of s = (if counting s then unat (nrounds s) # replicate (unat (irounds s)) 0 else tally (sk_stack s))"

fun below :: "nat list \<Rightarrow> nat list \<Rightarrow> bool" where
  "below [c] [b] = (c - 1 = b - 1)"
| "below (c # cs) (b # bs) = (c \<le> b \<and> below cs bs)"
| "below _ _ = False"

fun covers :: "nat list \<Rightarrow> nat list \<Rightarrow> bool" where
  "covers [c] [b] = (c = b)"
| "covers (c # cs) (b # bs) = (c \<le> b \<and> below cs bs)"
| "covers _ _ = False"

definition tracks :: "skip_state \<Rightarrow> nat list \<Rightarrow> bool" where
  "tracks s w \<longleftrightarrow> (counting s \<longrightarrow> sk_stack s = []) \<and> covers (left_of s) w"

lemma tally_nonempty [simp]: "tally st \<noteq> []"
  by (induction st rule: tally.induct) (auto split: list.splits)

lemma below_nonempty: "below cs bs \<Longrightarrow> cs \<noteq> [] \<and> bs \<noteq> []"
  by (cases cs; cases bs) auto

lemma below_length: "below cs bs \<Longrightarrow> length cs = length bs"
  by (induction cs bs rule: below.induct) auto

lemma covers_cases: "covers cs bs \<longleftrightarrow> (\<exists>c b. cs = [c] \<and> bs = [b] \<and> c = b) \<or>
    (\<exists>c b cs' bs'. cs = c # cs' \<and> bs = b # bs' \<and> c \<le> b \<and> below cs' bs')"
  by (cases "(cs, bs)" rule: covers.cases) (auto dest: below_nonempty)

text \<open>Passing a break gives the lower levels back: one of their items is done.\<close>

lemma covers_close: "below (c # cs) (b # bs) \<Longrightarrow> covers ((c - 1) # cs) ((b - 1) # bs)"
  by (cases cs; cases bs) auto

lemma covers_pred: "covers (c # cs) (b # bs) \<Longrightarrow> covers ((c - 1) # cs) ((b - 1) # bs)"
  by (auto simp: covers_cases)

lemma covers_open: "covers (c # cs) (b # bs) \<Longrightarrow> covers (0 # c # cs) (0 # b # bs)"
  by (auto simp: covers_cases dest: below_nonempty) (metis below.simps(2) list.exhaust below_nonempty)

text \<open>When counting, the items behind the last break are forgotten; there is at most one.\<close>

lemma covers_forget:
  assumes "covers (c # replicate i 0) (b # bs)" "c < 2" "b \<noteq> 0 \<or> bs \<noteq> []"
  shows "covers (0 # replicate (Suc i) 0) (0 # b # bs)"
  using assms by (cases i) (auto simp: covers_cases dest: below_length)

lemma tally_push: "tally (Some m # st) = (let t = hd (tally st) in (if t = 0 then Suc (unat m) else t + unat m) # tl (tally st))"
  by (cases "tally st") (auto simp: Let_def)

lemma tally_pop: "tally (skip_pop st) = (hd (tally st) - 1) # tl (tally st)"
proof (induction st rule: skip_pop.induct)
  case (1 n st)
  have "unat (n - 1) = unat n - 1" if "n \<noteq> 0" using that by (simp add: unat_minus_one)
  moreover have "0 < unat n" if "n \<noteq> 0" using that by (simp add: unat_gt_0)
  ultimately show ?case
    using 1 by (cases "tally st") auto
qed auto


lemma left_of_empty: "sk_stack s = [] \<Longrightarrow> left_of s = unat (nrounds s) # replicate (unat (irounds s)) 0"
  by (auto simp: left_of_def counting_def)

lemma left_of_stack: "\<not> counting s \<Longrightarrow> left_of s = tally (sk_stack s)"
  by (simp add: left_of_def)

lemma tracks_cases:
  assumes "tracks s w"
  obtains (counting) "counting s" "sk_stack s = []" "covers (unat (nrounds s) # replicate (unat (irounds s)) 0) w"
  | (stacked) "\<not> counting s" "covers (tally (sk_stack s)) w"
  using assms by (cases "counting s") (auto simp: tracks_def left_of_def)

lemma tracks_empty:
  "sk_stack s = [] \<Longrightarrow> tracks s w \<longleftrightarrow> covers (unat (nrounds s) # replicate (unat (irounds s)) 0) w"
  by (simp add: tracks_def left_of_empty)

lemma tracks_stack: "\<not> counting s \<Longrightarrow> tracks s w \<longleftrightarrow> covers (tally (sk_stack s)) w"
  by (simp add: tracks_def left_of_stack)

lemma round_empty:
  assumes "sk_stack s = []"
  shows "sk_stack (skip_round s) = [] \<and> irounds (skip_round s) = irounds s \<and>
    unat (nrounds (skip_round s)) = unat (nrounds s) - 1"
  using assms by (auto simp: skip_round_def counting_def sat_sub_exact)

lemma round_stack:
  "\<not> counting s \<Longrightarrow> \<not> counting (skip_round s) \<and> sk_stack (skip_round s) = skip_pop (sk_stack s)"
  by (simp add: skip_round_def counting_def)

lemma covers_head: "covers cs (b # bs) \<Longrightarrow> cs = hd cs # tl cs"
  by (cases cs) auto

lemma tracks_round:
  assumes "tracks s (b # w)" shows "tracks (skip_round s) ((b - 1) # w)"
  using assms
proof (cases rule: tracks_cases)
  case counting
  then show ?thesis using round_empty [OF counting(2)] covers_pred by (simp add: tracks_empty)
next
  case stacked
  then have "covers ((hd (tally (sk_stack s)) - 1) # tl (tally (sk_stack s))) ((b - 1) # w)"
    using covers_head [OF stacked(2)] covers_pred by metis
  then show ?thesis using round_stack [OF stacked(1)] by (simp add: tracks_stack tally_pop)
qed

lemma tracks_def_round:
  assumes t: "tracks s (b # w)" and n: "n \<noteq> 0" and fits: "b + unat n < 2 ^ 64" and live: "b \<noteq> 0 \<or> w \<noteq> []"
  shows "tracks (skip_round (skip_def n s)) ((if b = 0 then unat n else b + unat n - 1) # w)"
  using t
proof (cases rule: tracks_cases)
  case counting
  let ?s = "skip_def n s"
  have c: "unat (nrounds s) \<le> b" using counting(3) by (auto simp: covers_cases)
  have n0: "0 < unat n" using n by (simp add: unat_gt_0)
  have s: "sk_stack ?s = []" "irounds ?s = irounds s" "nrounds ?s = sat_add (nrounds s) n"
    using counting(1,2) n by (simp_all add: skip_def_def)
  have lt: "unat (nrounds s) + unat n - 1 \<le> (if b = 0 then unat n else b + unat n - 1)" using c by auto
  have eq: "w = [] \<Longrightarrow> unat (nrounds s) = b" using counting(3) by (cases "unat (irounds s)") auto
  have "unat (sat_add (nrounds s) n) - 1 = unat (nrounds s) + unat n - 1"
    using c fits by (simp add: sat_add_exact)
  moreover have "covers ((unat (nrounds s) + unat n - 1) # replicate (unat (irounds s)) 0)
      ((if b = 0 then unat n else b + unat n - 1) # w)"
    using counting(3) lt eq live n0 by (cases "unat (irounds s)") (auto simp: covers_cases dest: below_nonempty)
  ultimately show ?thesis using round_empty [OF s(1)] s(2,3) by (simp add: tracks_empty)
next
  case stacked
  let ?t = "tally (sk_stack s)"
  have s: "\<not> counting (skip_def n s)" "sk_stack (skip_def n s) = Some n # sk_stack s"
    using stacked(1) n by (simp_all add: skip_def_def counting_def)
  have n1: "unat (n - 1) = unat n - 1" "0 < unat n" using n by (simp_all add: unat_minus_one unat_gt_0)
  obtain c cs where t: "?t = c # cs" by (cases ?t) auto
  have "tally (skip_pop (Some n # sk_stack s)) = (if c = 0 then unat n else c + unat n - 1) # cs"
    using n n1 t by (simp add: tally_push)
  moreover have "covers ((if c = 0 then unat n else c + unat n - 1) # cs) ((if b = 0 then unat n else b + unat n - 1) # w)"
    using stacked(2) n1(2) unfolding t by (auto simp: covers_cases)
  ultimately show ?thesis using round_stack [OF s(1)] s(2) by (simp add: tracks_stack)
qed

lemma tally_replicate: "tally (replicate i None) = 0 # replicate i 0"
  by (induction i) auto

lemma tracks_indef_round:
  assumes t: "tracks s (b # w)" and fits: "length w < 2 ^ 64 - 1" and live: "b \<noteq> 0 \<or> w \<noteq> []"
  shows "tracks (skip_round (skip_indef s)) (0 # b # w)"
  using t
proof (cases rule: tracks_cases)
  case counting
  show ?thesis
  proof (cases "nrounds s < 2")
    case True
    let ?s = "skip_indef s"
    have s: "sk_stack ?s = []" "nrounds ?s = nrounds s" "irounds ?s = sat_add (irounds s) 1"
      using True counting(1,2) by (simp_all add: skip_indef_def)
    have n: "unat (nrounds s) < 2" using True by (simp add: word_less_nat_alt)
    have "unat (irounds s) = length w"
      using counting(3) by (auto simp: covers_cases dest: below_length)
    then have "unat (irounds ?s) = Suc (unat (irounds s))" using fits s(3) by (simp add: sat_add_exact)
    moreover have "unat (nrounds ?s) - 1 = 0" using n s(2) by simp
    ultimately show ?thesis
      using round_empty [OF s(1)] covers_forget [OF counting(3) n live] by (simp add: tracks_empty)
  next
    case False
    let ?s = "skip_indef s"
    have s: "\<not> counting ?s" "sk_stack ?s = None # Some (nrounds s - 1) # replicate (unat (irounds s)) None"
      using False counting(1,2) by (simp_all add: skip_indef_def counting_def)
    have "2 \<le> unat (nrounds s)" using False by (simp add: word_less_nat_alt)
    then have "Suc (unat (nrounds s - 1)) = unat (nrounds s)" by (subst unat_minus_one) auto
    then have "tally (sk_stack ?s) = 0 # unat (nrounds s) # replicate (unat (irounds s)) 0"
      by (simp add: s(2) tally_replicate)
    then show ?thesis using round_stack [OF s(1)] covers_open [OF counting(3)] s(2) by (simp add: tracks_stack)
  qed
next
  case stacked
  have s: "\<not> counting (skip_indef s)" "sk_stack (skip_indef s) = None # sk_stack s"
    using stacked(1) by (simp_all add: skip_indef_def counting_def)
  obtain c cs where "tally (sk_stack s) = c # cs" by (cases "tally (sk_stack s)") auto
  then show ?thesis using round_stack [OF s(1)] s(2) covers_open stacked(2) by (simp add: tracks_stack)
qed

lemma tracks_break_round:
  assumes t: "tracks s (0 # b # w)"
  shows "tracks (skip_round (skip_break s)) ((b - 1) # w)"
  using t
proof (cases rule: tracks_cases)
  case counting
  let ?s = "skip_break s"
  have s: "sk_stack ?s = []" "nrounds ?s = nrounds s" "irounds ?s = sat_sub (irounds s) 1"
    using counting(1,2) by (simp_all add: skip_break_def)
  have b: "unat (nrounds s) = 0" "below (replicate (unat (irounds s)) 0) (b # w)"
    using counting(3) by (auto simp: covers_cases)
  from b(2) obtain i where i: "unat (irounds s) = Suc i" by (cases "unat (irounds s)") (auto dest: below_nonempty)
  have "covers (0 # replicate i 0) ((b - 1) # w)" using b(2) i covers_close [of 0 "replicate i 0" b w] by simp
  then show ?thesis using round_empty [OF s(1)] s b(1) i by (simp add: tracks_empty sat_sub_exact)
next
  case stacked
  obtain st where st: "sk_stack s = None # st"
  proof (cases "sk_stack s")
    case (Cons x st)
    show thesis
    proof (cases x)
      case (Some m)
      with Cons stacked(2) show thesis by (auto simp: covers_cases split: list.splits if_splits)
    qed (use that Cons in simp)
  qed (use stacked in simp)
  have s: "\<not> counting (skip_break s)" "sk_stack (skip_break s) = st"
    using stacked(1) st by (simp_all add: skip_break_def counting_def)
  obtain c cs where c: "tally st = c # cs" by (cases "tally st") auto
  have "below (c # cs) (b # w)" using stacked(2) c by (auto simp: st covers_cases)
  from covers_close [OF this] show ?thesis using round_stack [OF s(1)] s(2) c by (simp add: tracks_stack tally_pop)
qed

lemma tracks_live:
  assumes "tracks s (b # w)" shows "skip_live s \<longleftrightarrow> b \<noteq> 0 \<or> w \<noteq> []"
  using assms
proof (cases rule: tracks_cases)
  case counting
  then show ?thesis
    by (cases "irounds s = 0")
      (auto simp: skip_live_def counting_def word_neq_0_conv [symmetric] covers_cases unat_gt_0 unsigned_eq_0_iff 
        dest: below_nonempty)
next
  case stacked
  have "sk_stack s = [] \<longleftrightarrow> tally (sk_stack s) = [0]"
    by (cases "sk_stack s" rule: tally.cases) (auto split: list.splits)
  with stacked show ?thesis
    by (cases "tally (sk_stack s)") (auto simp: skip_live_def counting_def covers_cases dest: below_nonempty)
qed

section \<open>Skipping a well-formed item\<close>

lemma skip_step:
  assumes "skip_live s" "reads (skip_match s) bs (continue, s')" "length (pre @ bs @ post) < usize_bound"
  shows "skip_loop s (at_bytes pre (bs @ post)) =
    skip_loop (if continue then s' else skip_round s') (at_bytes (pre @ bs) post)"
  using assms(1) yields_at [OF assms(2,3)] by (subst skip_loop.simps) simp

text \<open>Which branch of the match a head byte takes.\<close>

definition skip_class :: "u8 \<Rightarrow> nat" where
  "skip_class b =
     (if b \<le> 0x1b then 0 else if SIGNED \<le> b \<and> b \<le> 0x3b then 1 else if BYTES \<le> b \<and> b \<le> 0x5f then 2
      else if TEXT \<le> b \<and> b \<le> 0x7f then 3 else if ARRAY \<le> b \<and> b \<le> 0x9f then 4
      else if MAP \<le> b \<and> b \<le> 0xbf then 5 else if TAGGED \<le> b \<and> b \<le> 0xdb then 6
      else if SIMPLE \<le> b \<and> b \<le> 0xfb then 7 else if b = BREAK then 8 else 9)"

lemma skip_class_head:
  assumes "i < 28"
  shows "skip_class (of_nat i) = 0" "skip_class (SIGNED OR of_nat i) = 1" "skip_class (BYTES OR of_nat i) = 2"
    "skip_class (TEXT OR of_nat i) = 3" "skip_class (ARRAY OR of_nat i) = 4" "skip_class (MAP OR of_nat i) = 5"
    "skip_class (TAGGED OR of_nat i) = 6" "skip_class (SIMPLE OR of_nat i) = 7"
proof -
  have "i \<in> set [0..<28]" using assms by simp
  moreover have "\<forall>i \<in> set [0..<28]. skip_class (of_nat i) = 0 \<and> skip_class (SIGNED OR of_nat i) = 1 \<and>
      skip_class (BYTES OR of_nat i) = 2 \<and> skip_class (TEXT OR of_nat i) = 3 \<and> skip_class (ARRAY OR of_nat i) = 4 \<and>
      skip_class (MAP OR of_nat i) = 5 \<and> skip_class (TAGGED OR of_nat i) = 6 \<and> skip_class (SIMPLE OR of_nat i) = 7"
    by code_simp
  ultimately show "skip_class (of_nat i) = 0" "skip_class (SIGNED OR of_nat i) = 1" "skip_class (BYTES OR of_nat i) = 2"
    "skip_class (TEXT OR of_nat i) = 3" "skip_class (ARRAY OR of_nat i) = 4" "skip_class (MAP OR of_nat i) = 5"
    "skip_class (TAGGED OR of_nat i) = 6" "skip_class (SIMPLE OR of_nat i) = 7" by blast+
qed

lemma skip_body_class:
  "skip_class b = 0 \<Longrightarrow> skip_body s b = seq_m dec_u64 (ret_m (False, s))"
  "skip_class b = 1 \<Longrightarrow> skip_body s b = seq_m dec_int (ret_m (False, s))"
  "skip_class b = 2 \<Longrightarrow> skip_body s b = seq_m bytes_chunks (ret_m (False, s))"
  "skip_class b = 3 \<Longrightarrow> skip_body s b = seq_m str_chunks (ret_m (False, s))"
  "skip_class b = 4 \<Longrightarrow> skip_body s b = map_m (\<lambda>n. (False, skip_head n s)) dec_array"
  "skip_class b = 5 \<Longrightarrow> skip_body s b = map_m (\<lambda>n. (False, skip_head (map_option (\<lambda>n. sat_mul n 2) n) s)) dec_map"
  "skip_class b = 6 \<Longrightarrow> skip_body s b = seq_m skip_arg (ret_m (True, s))"
  "skip_class b = 7 \<Longrightarrow> skip_body s b = seq_m skip_arg (ret_m (False, s))"
  "skip_class b = 8 \<Longrightarrow> skip_body s b = seq_m dec_read (ret_m (False, skip_break s))"
  by (simp_all only: skip_class_def skip_body_def split: if_splits) simp_all

lemma reads_match:
  assumes "bs \<noteq> []" "reads (skip_body s (hd bs)) bs r"
  shows "reads (skip_match s) bs r"
  using assms yields_current [of "skip_body s" "hd bs" "tl bs"] by (simp add: skip_match_def)

lemma reads_done: "reads m bs x \<Longrightarrow> reads (seq_m m (ret_m y)) bs y"
  using yields_seq [of m bs x "ret_m y" "[]"] reads_ret by fastforce

lemma reads_skip_arg: "is_head t n bs \<Longrightarrow> is_major t \<Longrightarrow> reads skip_arg bs (of_nat n)"
  by (erule head_cases, simp only:, unfold skip_arg_def, intro yields_with_pos yields_head)
    (simp add: head_byte_parts reads_unsigned)

lemma hd_head:
  assumes "is_head t n bs"
  obtains i where "i < 28" "hd (bs @ cs) = t OR of_nat i" "bs \<noteq> []"
  using assms by (auto elim!: head_cases)

text \<open>What one match does with each item that is not an array, a map or a tag.\<close>

lemma match_leaf:
  "is_head UNSIGNED n bs \<Longrightarrow> reads (skip_match s) bs (False, s)"
  "is_head SIGNED n bs \<Longrightarrow> reads (skip_match s) bs (False, s)"
  "is_head SIMPLE n bs \<Longrightarrow> reads (skip_match s) bs (False, s)"
  "is_head BYTES (length x) bs \<Longrightarrow> reads (skip_match s) (bs @ x) (False, s)"
  "is_head TEXT (length x) bs \<Longrightarrow> valid_utf8 x \<Longrightarrow> reads (skip_match s) (bs @ x) (False, s)"
proof -
  show "reads (skip_match s) bs (False, s)" if h: "is_head UNSIGNED n bs"
  proof -
    from h obtain i cs where "bs = (UNSIGNED OR of_nat i) # cs" "is_arg i n cs" "i < 28" by (rule head_cases)
    then show ?thesis
      using reads_done [OF reads_u64, of i n cs]
      by (intro reads_match) (simp_all add: skip_class_head skip_body_class)
  qed
  show "reads (skip_match s) bs (False, s)" if h: "is_head SIGNED n bs"
  proof -
    from h obtain i cs where "bs = (SIGNED OR of_nat i) # cs" "is_arg i n cs" "i < 28" by (rule head_cases)
    then show ?thesis
      using skip_class_head(2) [of i] reads_int(2) [of i n cs]
      by (intro reads_match) (simp_all add: skip_body_class reads_done del: major_defs)
  qed
  show "reads (skip_match s) bs (False, s)" if h: "is_head SIMPLE n bs"
  proof -
    obtain i where "i < 28" "hd (bs @ []) = SIMPLE OR of_nat i" "bs \<noteq> []" by (rule hd_head [OF h])
    moreover have "reads skip_arg bs (of_nat n)" by (rule reads_skip_arg [OF h]) (simp add: is_major_def)
    ultimately show ?thesis
      using skip_class_head(8) [of i] by (intro reads_match) (simp_all add: skip_body_class reads_done del: major_defs)
  qed
  show "reads (skip_match s) (bs @ x) (False, s)" if h: "is_head BYTES (length x) bs"
  proof -
    obtain i where "i < 28" "hd (bs @ x) = BYTES OR of_nat i" "bs \<noteq> []" by (rule hd_head [OF h])
    then show ?thesis
      using skip_class_head(3) [of i] reads_bytes_chunks [OF h]
      by (intro reads_match) (simp_all add: skip_body_class reads_done del: major_defs)
  qed
  show "reads (skip_match s) (bs @ x) (False, s)" if h: "is_head TEXT (length x) bs" "valid_utf8 x"
  proof -
    obtain i where "i < 28" "hd (bs @ x) = TEXT OR of_nat i" "bs \<noteq> []" by (rule hd_head [OF h(1)])
    then show ?thesis
      using skip_class_head(4) [of i] reads_str_chunks [OF h]
      by (intro reads_match) (simp_all add: skip_body_class reads_done del: major_defs)
  qed
qed

lemma match_indef_strings:
  "list_all2 (\<lambda>x bs. is_head BYTES (length x) bs) xs bss \<Longrightarrow>
     reads (skip_match s) ([0x5f] @ concat (map2 (@) bss xs) @ [0xff]) (False, s)"
  "list_all2 (\<lambda>x bs. is_head TEXT (length x) bs) ys css \<Longrightarrow> list_all valid_utf8 ys \<Longrightarrow>
     reads (skip_match s) ([0x7f] @ concat (map2 (@) css ys) @ [0xff]) (False, s)"
proof -
  have c: "skip_class 0x5f = 2" "skip_class 0x7f = 3" by (simp_all add: skip_class_def)
  show "reads (skip_match s) ([0x5f] @ concat (map2 (@) bss xs) @ [0xff]) (False, s)"
    if "list_all2 (\<lambda>x bs. is_head BYTES (length x) bs) xs bss"
    using reads_done [OF reads_bytes_chunks_indef [OF that]]
    by (intro reads_match) (simp_all add: skip_body_class c)
  show "reads (skip_match s) ([0x7f] @ concat (map2 (@) css ys) @ [0xff]) (False, s)"
    if "list_all2 (\<lambda>x bs. is_head TEXT (length x) bs) ys css" "list_all valid_utf8 ys"
    using reads_done [OF reads_str_chunks_indef [OF that]]
    by (intro reads_match) (simp_all add: skip_body_class c)
qed

lemma match_heads:
  "is_head ARRAY n bs \<Longrightarrow> reads (skip_match s) bs (False, skip_def (of_nat n) s)"
  "is_head MAP n bs \<Longrightarrow> reads (skip_match s) bs (False, skip_def (sat_mul (of_nat n) 2) s)"
  "is_head TAGGED n bs \<Longrightarrow> reads (skip_match s) bs (True, s)"
  "reads (skip_match s) [0x9f] (False, skip_indef s)" "reads (skip_match s) [0xbf] (False, skip_indef s)"
  "reads (skip_match s) [0xff] (False, skip_break s)"
proof -
  show "reads (skip_match s) bs (False, skip_def (of_nat n) s)" if h: "is_head ARRAY n bs"
  proof -
    obtain i where "i < 28" "hd (bs @ []) = ARRAY OR of_nat i" "bs \<noteq> []" by (rule hd_head [OF h])
    then show ?thesis
      using skip_class_head(5) [of i] reads_map [OF reads_array [OF h], of "\<lambda>n. (False, skip_head n s)"]
      by (intro reads_match) (simp_all add: skip_body_class skip_head_def del: major_defs)
  qed
  show "reads (skip_match s) bs (False, skip_def (sat_mul (of_nat n) 2) s)" if h: "is_head MAP n bs"
  proof -
    obtain i where "i < 28" "hd (bs @ []) = MAP OR of_nat i" "bs \<noteq> []" by (rule hd_head [OF h])
    then show ?thesis
      using skip_class_head(6) [of i]
        reads_map [OF reads_map_head [OF h], of "\<lambda>n. (False, skip_head (map_option (\<lambda>n. sat_mul n 2) n) s)"]
      by (intro reads_match) (simp_all add: skip_body_class skip_head_def del: major_defs)
  qed
  show "reads (skip_match s) bs (True, s)" if h: "is_head TAGGED n bs"
  proof -
    obtain i where "i < 28" "hd (bs @ []) = TAGGED OR of_nat i" "bs \<noteq> []" by (rule hd_head [OF h])
    then show ?thesis
      using skip_class_head(7) [of i] reads_done [OF reads_skip_arg [OF h major_of(5)]]
      by (intro reads_match) (simp_all add: skip_body_class del: major_defs)
  qed
  have c: "skip_class 0x9f = 4" "skip_class 0xbf = 5" "skip_class 0xff = 8" by (simp_all add: skip_class_def)
  show "reads (skip_match s) [0x9f] (False, skip_indef s)" "reads (skip_match s) [0xbf] (False, skip_indef s)"
    "reads (skip_match s) [0xff] (False, skip_break s)"
    using reads_map [OF reads_indef(1), of "\<lambda>n. (False, skip_head n s)"]
      reads_map [OF reads_indef(2), of "\<lambda>n. (False, skip_head (map_option (\<lambda>n. sat_mul n 2) n) s)"]
      reads_done [OF reads_read [of "0xff"], of "(False, skip_break s)"]
    by (intro reads_match; simp add: skip_body_class c skip_head_def)+
qed

lemma encodes_simple_head:
  "x < 24 \<Longrightarrow> is_head SIMPLE (unat x) [SIMPLE OR x]"
  "is_head SIMPLE (unat y) [SIMPLE OR 24, y]"
  "is_head SIMPLE (unat h) ((SIMPLE OR 25) # to_be16 h)"
  "is_head SIMPLE (unat f) ((SIMPLE OR 26) # to_be32 f)"
  "is_head SIMPLE (unat g) ((SIMPLE OR 27) # to_be64 g)"
proof -
  show "is_head SIMPLE (unat x) [SIMPLE OR x]" if "x < 24"
    using is_head.intros [OF is_arg.intros(1), of "unat x" SIMPLE] that by (simp add: word_less_nat_alt)
  show "is_head SIMPLE (unat y) [SIMPLE OR 24, y]"
    using is_head.intros [OF is_arg.intros(2), of "unat y" SIMPLE] unat_lt [of y] by simp
  show "is_head SIMPLE (unat h) ((SIMPLE OR 25) # to_be16 h)"
    "is_head SIMPLE (unat f) ((SIMPLE OR 26) # to_be32 f)" "is_head SIMPLE (unat g) ((SIMPLE OR 27) # to_be64 g)"
    using is_head.intros [OF is_arg.intros(3), of "unat h" SIMPLE] unat_lt [of h]
      is_head.intros [OF is_arg.intros(4), of "unat f" SIMPLE] unat_lt [of f]
      is_head.intros [OF is_arg.intros(5), of "unat g" SIMPLE] unat_lt [of g] by simp_all
qed


text \<open>\<open>skips bs k\<close>: from any counters the loop passes \<open>bs\<close> and accounts for \<open>k\<close> items. The bounds say that
  the counters cannot saturate; they hold for every input that fits into memory.\<close>

definition skips :: "bytes \<Rightarrow> nat \<Rightarrow> bool" where
  "skips bs k \<longleftrightarrow> (\<forall>s b w pre post. tracks s (b # w) \<longrightarrow> k \<le> b \<or> b = 0 \<and> w \<noteq> [] \<longrightarrow>
     b - k + length bs < 2 ^ 64 \<longrightarrow> length w + length bs < 2 ^ 64 \<longrightarrow>
     length (pre @ bs @ post) < usize_bound \<longrightarrow>
     (\<exists>s'. skip_loop s (at_bytes pre (bs @ post)) = skip_loop s' (at_bytes (pre @ bs) post) \<and>
        tracks s' ((b - k) # w)))"

lemma skipsI:
  assumes "\<And>s b w pre post. tracks s (b # w) \<Longrightarrow> k \<le> b \<or> b = 0 \<and> w \<noteq> [] \<Longrightarrow>
     b - k + length bs < 2 ^ 64 \<Longrightarrow> length w + length bs < 2 ^ 64 \<Longrightarrow> length (pre @ bs @ post) < usize_bound \<Longrightarrow>
     \<exists>s'. skip_loop s (at_bytes pre (bs @ post)) = skip_loop s' (at_bytes (pre @ bs) post) \<and> tracks s' ((b - k) # w)"
  shows "skips bs k"
  unfolding skips_def using assms by blast

lemma skipsE:
  assumes "skips bs k" "tracks s (b # w)" "k \<le> b \<or> b = 0 \<and> w \<noteq> []"
    "b - k + length bs < 2 ^ 64" "length w + length bs < 2 ^ 64" "length (pre @ bs @ post) < usize_bound"
  obtains s' where "skip_loop s (at_bytes pre (bs @ post)) = skip_loop s' (at_bytes (pre @ bs) post)"
    "tracks s' ((b - k) # w)"
  using assms unfolding skips_def by blast

lemma skips_leaf:
  assumes "\<And>s. reads (skip_match s) bs (False, s)"
  shows "skips bs 1"
proof (rule skipsI)
  fix s b w pre post
  assume t: "tracks s (b # w)" "1 \<le> b \<or> b = 0 \<and> w \<noteq> []" and len: "length (pre @ bs @ post) < usize_bound"
  have "skip_live s" using tracks_live [OF t(1)] t(2) by auto
  from skip_step [OF this assms len] tracks_round [OF t(1)]
  show "\<exists>s'. skip_loop s (at_bytes pre (bs @ post)) = skip_loop s' (at_bytes (pre @ bs) post) \<and>
      tracks s' ((b - 1) # w)" by auto
qed

lemma skips_nil: "skips [] 0"
  by (rule skipsI) auto

lemma skips_cons:
  assumes v: "skips bs 1" "bs \<noteq> []" and vs: "skips cs k" "k \<le> length cs"
  shows "skips (bs @ cs) (Suc k)"
proof (rule skipsI)
  fix s b w pre post
  assume t: "tracks s (b # w)" "Suc k \<le> b \<or> b = 0 \<and> w \<noteq> []"
    and fit: "b - Suc k + length (bs @ cs) < 2 ^ 64" "length w + length (bs @ cs) < 2 ^ 64"
    and len: "length (pre @ (bs @ cs) @ post) < usize_bound"
  obtain s1 where s1: "skip_loop s (at_bytes pre (bs @ cs @ post)) = skip_loop s1 (at_bytes (pre @ bs) (cs @ post))"
    "tracks s1 ((b - 1) # w)"
    by (rule skipsE [OF v(1) t(1), of pre "cs @ post"]) (use t(2) fit len vs(2) in auto)
  obtain s2 where "skip_loop s1 (at_bytes (pre @ bs) (cs @ post)) = skip_loop s2 (at_bytes ((pre @ bs) @ cs) post)"
    "tracks s2 ((b - 1 - k) # w)"
    by (rule skipsE [OF vs(1) s1(2), of "pre @ bs" post]) (use t(2) fit len v(2) in auto)
  with s1(1) show "\<exists>s'. skip_loop s (at_bytes pre ((bs @ cs) @ post)) =
      skip_loop s' (at_bytes (pre @ bs @ cs) post) \<and> tracks s' ((b - Suc k) # w)"
    by (intro exI [of _ s2]) simp
qed

lemma skips_tagged:
  assumes "is_head TAGGED n bs" "skips cs 1"
  shows "skips (bs @ cs) 1"
proof (rule skipsI)
  fix s b w pre post
  assume t: "tracks s (b # w)" "1 \<le> b \<or> b = 0 \<and> w \<noteq> []"
    and fit: "b - 1 + length (bs @ cs) < 2 ^ 64" "length w + length (bs @ cs) < 2 ^ 64"
    and len: "length (pre @ (bs @ cs) @ post) < usize_bound"
  have "skip_live s" using tracks_live [OF t(1)] t(2) by auto
  from skip_step [OF this match_heads(3) [OF assms(1)], of pre "cs @ post"] len
  have "skip_loop s (at_bytes pre (bs @ cs @ post)) = skip_loop s (at_bytes (pre @ bs) (cs @ post))" by simp
  moreover obtain s2 where "skip_loop s (at_bytes (pre @ bs) (cs @ post)) = skip_loop s2 (at_bytes ((pre @ bs) @ cs) post)"
    "tracks s2 ((b - 1) # w)"
    by (rule skipsE [OF assms(2) t(1), of "pre @ bs" post]) (use t(2) fit len in auto)
  ultimately show "\<exists>s'. skip_loop s (at_bytes pre ((bs @ cs) @ post)) =
      skip_loop s' (at_bytes (pre @ bs @ cs) post) \<and> tracks s' ((b - 1) # w)"
    by (intro exI [of _ s2]) simp
qed

lemma skips_definite:
  assumes h: "\<And>s. reads (skip_match s) bs (False, skip_def (of_nat k) s)" and bs: "bs \<noteq> []"
    and cs: "skips cs k" "k \<le> length cs"
  shows "skips (bs @ cs) 1"
proof (rule skipsI)
  fix s b w pre post
  assume t: "tracks s (b # w)" "1 \<le> b \<or> b = 0 \<and> w \<noteq> []"
    and fit: "b - 1 + length (bs @ cs) < 2 ^ 64" "length w + length (bs @ cs) < 2 ^ 64"
    and len: "length (pre @ (bs @ cs) @ post) < usize_bound"
  have live: "skip_live s" "b \<noteq> 0 \<or> w \<noteq> []" using tracks_live [OF t(1)] t(2) by auto
  let ?s = "skip_round (skip_def (of_nat k) s)"
  from skip_step [OF live(1) h, of pre "cs @ post"] len
  have run: "skip_loop s (at_bytes pre (bs @ cs @ post)) = skip_loop ?s (at_bytes (pre @ bs) (cs @ post))" by simp
  have k: "k < 2 ^ 64" using cs(2) fit(1) by simp
  then have u: "unat (of_nat k :: u64) = k" by (rule unat_of_nat_u64)
  define b' where "b' = (if b = 0 then k else b + k - 1)"
  have t1: "tracks ?s (b' # w)"
  proof (cases "k = 0")
    case True
    then have "b' = b - 1" "skip_def (of_nat k) s = s" by (auto simp: b'_def skip_def_def)
    then show ?thesis using tracks_round [OF t(1)] by simp
  next
    case False
    have nz: "(of_nat k :: u64) \<noteq> 0" using False u by (metis unat_0)
    have "b + unat (of_nat k :: u64) < 2 ^ 64" using u cs(2) fit(1) bs by (cases bs) auto
    from tracks_def_round [OF t(1) nz this live(2)] show ?thesis unfolding u b'_def .
  qed
  have e: "b' - k = b - 1" "k \<le> b' \<or> b' = 0 \<and> w \<noteq> []" using t(2) by (auto simp: b'_def)
  obtain s2 where "skip_loop ?s (at_bytes (pre @ bs) (cs @ post)) = skip_loop s2 (at_bytes ((pre @ bs) @ cs) post)"
    "tracks s2 ((b' - k) # w)"
    by (rule skipsE [OF cs(1) t1 e(2), of "pre @ bs" post]) (use e(1) fit len in auto)
  with run e(1) show "\<exists>s'. skip_loop s (at_bytes pre ((bs @ cs) @ post)) =
      skip_loop s' (at_bytes (pre @ bs @ cs) post) \<and> tracks s' ((b - 1) # w)"
    by (intro exI [of _ s2]) simp
qed

lemma skips_indefinite:
  assumes h: "\<And>s. reads (skip_match s) [h] (False, skip_indef s)" and cs: "skips cs k"
  shows "skips ([h] @ cs @ [0xff]) 1"
proof (rule skipsI)
  fix s b w pre post
  assume t: "tracks s (b # w)" "1 \<le> b \<or> b = 0 \<and> w \<noteq> []"
    and fit: "b - 1 + length ([h] @ cs @ [0xff]) < 2 ^ 64" "length w + length ([h] @ cs @ [0xff]) < 2 ^ 64"
    and len: "length (pre @ ([h] @ cs @ [0xff]) @ post) < usize_bound"
  have live: "skip_live s" "b \<noteq> 0 \<or> w \<noteq> []" using tracks_live [OF t(1)] t(2) by auto
  let ?s = "skip_round (skip_indef s)"
  from skip_step [OF live(1) h, of pre "cs @ [0xff] @ post"] len
  have r1: "skip_loop s (at_bytes pre ([h] @ cs @ [0xff] @ post)) =
      skip_loop ?s (at_bytes (pre @ [h]) (cs @ [0xff] @ post))" by simp
  have t1: "tracks ?s (0 # b # w)" by (rule tracks_indef_round [OF t(1) _ live(2)]) (use fit in simp)
  obtain s2 where r2: "skip_loop ?s (at_bytes (pre @ [h]) (cs @ [0xff] @ post)) =
      skip_loop s2 (at_bytes ((pre @ [h]) @ cs) ([0xff] @ post))" "tracks s2 ((0 - k) # b # w)"
    by (rule skipsE [OF cs t1, of "pre @ [h]" "[0xff] @ post"]) (use fit len in auto)
  have t2: "tracks s2 (0 # b # w)" using r2(2) by simp
  have "skip_live s2" using tracks_live [OF t2] by simp
  from skip_step [OF this match_heads(6), of "(pre @ [h]) @ cs" post] len
  have "skip_loop s2 (at_bytes ((pre @ [h]) @ cs) ([0xff] @ post)) =
      skip_loop (skip_round (skip_break s2)) (at_bytes (((pre @ [h]) @ cs) @ [0xff]) post)" by simp
  with r1 r2(1) tracks_break_round [OF t2]
  show "\<exists>s'. skip_loop s (at_bytes pre (([h] @ cs @ [0xff]) @ post)) =
      skip_loop s' (at_bytes (pre @ [h] @ cs @ [0xff]) post) \<and> tracks s' ((b - 1) # w)"
    by (intro exI [of _ "skip_round (skip_break s2)"]) simp
qed


lemma skips_long: "2 ^ 64 \<le> length bs \<Longrightarrow> skips bs k"
  by (rule skipsI) simp

lemma length_flatten [simp]: "length (flatten kvs) = 2 * length kvs"
  by (induction kvs rule: flatten.induct) auto

lemma skips_map_definite:
  assumes "is_head MAP n bs" "skips cs (2 * n)" "2 * n \<le> length cs"
  shows "skips (bs @ cs) 1"
proof (cases "length cs < 2 ^ 64")
  case True
  then have n: "2 * n < 2 ^ 64" using assms(3) by simp
  then have "unat (of_nat n :: u64) * unat (2 :: u64) < 2 ^ 64" by (simp add: unat_of_nat_u64)
  then have "sat_mul (of_nat n) 2 = (of_nat (2 * n) :: u64)" by (simp add: sat_mul_def mult.commute)
  then show ?thesis
    using match_heads(2) [OF assms(1)] head_nonempty [OF assms(1)] assms(2,3)
    by (intro skips_definite [of bs "2 * n"]) auto
next
  case False
  then show ?thesis by (intro skips_long) simp
qed

lemmas skips_leaves = skips_leaf [OF match_leaf(1)] skips_leaf [OF match_leaf(2)] skips_leaf [OF match_leaf(4)]
  skips_leaf [OF match_leaf(5)] skips_leaf [OF match_leaf(3) [OF encodes_simple_head(1)]]
  skips_leaf [OF match_leaf(3) [OF encodes_simple_head(2)]] skips_leaf [OF match_leaf(3) [OF encodes_simple_head(3)]]
  skips_leaf [OF match_leaf(3) [OF encodes_simple_head(4)]] skips_leaf [OF match_leaf(3) [OF encodes_simple_head(5)]]

lemma skips_encoded:
  "encodes v bs \<Longrightarrow> skips bs 1 \<and> bs \<noteq> []"
  "encodes_seq vs cs \<Longrightarrow> skips cs (length vs) \<and> length vs \<le> length cs"
proof (induction rule: encodes_encodes_seq.inducts)
  case (enc_list xs bs cs)
  then show ?case
    using skips_definite [of bs "length xs" cs, OF match_heads(1)] head_nonempty by blast
next
  case (enc_dict kvs bs cs)
  then show ?case using skips_map_definite [of "length kvs" bs cs] head_nonempty by auto
next
  case (enc_list_indef xs cs)
  then show ?case using skips_indefinite [OF match_heads(4)] by blast
next
  case (enc_dict_indef kvs cs)
  then show ?case using skips_indefinite [OF match_heads(5)] by blast
next
  case (enc_tagged n bs v cs)
  then show ?case using skips_tagged head_nonempty by blast
next
  case (enc_bytestring_indef xs bss)
  then show ?case using skips_leaf [OF match_indef_strings(1)] by blast
next
  case (enc_text_indef xs bss)
  then show ?case using skips_leaf [OF match_indef_strings(2)] by blast
next
  case (enc_seq_cons v bs vs cs)
  then show ?case using skips_cons [of bs cs "length vs"] by (cases bs) auto
next
  case enc_seq_nil
  then show ?case using skips_nil by simp
qed (intro conjI skips_leaves; (assumption | simp add: head_nonempty))+

lemma reads_skip:
  assumes "encodes v bs"
  shows "reads dec_skip bs ()"
proof (rule yieldsI_at)
  fix pre post assume len: "length (pre @ bs @ post) < usize_bound"
  let ?s = "\<lparr>nrounds = 1, irounds = 0, sk_stack = []\<rparr>"
  have t: "tracks ?s [1]" by (simp add: tracks_def left_of_def counting_def)
  obtain s' where run: "skip_loop ?s (at_bytes pre (bs @ post)) = skip_loop s' (at_bytes (pre @ bs) post)"
    "tracks s' [1 - 1]"
    by (rule skipsE [OF conjunct1 [OF skips_encoded(1) [OF assms]] t, of pre post])
      (use len in \<open>auto simp: usize_bound_def\<close>)
  then have "\<not> skip_live s'" using tracks_live [of s' 0 "[]"] by simp
  with run(1) show "dec_skip (at_bytes pre (bs @ post)) = (Inr (), at_bytes (pre @ bs) post)"
    by (simp add: dec_skip_def skip_loop.simps [of s'])
qed

lemma skip_loop_stays: "stays d (snd (skip_loop s d))"
proof (induction s d rule: skip_loop.induct)
  case (1 s d)
  obtain r d1 where m: "skip_match s d = (r, d1)" by (cases "skip_match s d")
  have st: "stays d d1" by (rule safe_stays [OF skip_match_safe(1) m])
  show ?case
  proof (cases "skip_live s")
    case True
    show ?thesis
    proof (cases r)
      case (Inl e)
      with True m st show ?thesis by (subst skip_loop.simps) simp
    next
      case (Inr cs)
      obtain c s' where cs: "cs = (c, s')" by (cases cs)
      have "stays d1 (snd (skip_loop (if c then s' else skip_round s') d1))"
        by (rule 1) (use True m Inr cs in auto)
      with stays_trans [OF st] True m Inr cs show ?thesis by (subst skip_loop.simps) simp
    qed
  qed (subst skip_loop.simps, simp)
qed

lemma safe_skip [safe_intros]: "safe dec_skip"
  unfolding dec_skip_def by (simp add: safe_iff_stays skip_loop_stays)

lemma progress_skip: "progress dec_skip"
  unfolding progress_def
proof (intro allI impI)
  fix d x d' assume run: "dec_skip d = (Inr x, d')"
  let ?s = "\<lparr>nrounds = 1, irounds = 0, sk_stack = []\<rparr>"
  have "skip_live ?s" by (simp add: skip_live_def)
  with run obtain c s1 d1 where m: "skip_match ?s d = (Inr (c, s1), d1)"
    and rest: "skip_loop (if c then s1 else skip_round s1) d1 = (Inr x, d')"
    unfolding dec_skip_def by (subst (asm) skip_loop.simps) (auto split: prod.splits sum.splits)
  have "dec_pos d < dec_pos d1" by (rule progressD [OF skip_match_safe(2) m])
  moreover have "dec_pos d1 \<le> dec_pos d'"
    using skip_loop_stays [of d1 "if c then s1 else skip_round s1"] rest by (simp add: stays_def)
  ultimately show "dec_pos d < dec_pos d'" by simp
qed

lemma skip_loop_noalloc_stays: "stays d (snd (skip_loop_noalloc s d))"
proof (induction s d rule: skip_loop_noalloc.induct)
  case (1 s d)
  obtain r d1 where m: "skip_match_noalloc s d = (r, d1)" by (cases "skip_match_noalloc s d")
  have st: "stays d d1" by (rule safe_stays [OF skip_match_noalloc_safe(1) m])
  show ?case
  proof (cases "0 < nrounds s \<or> 0 < irounds s")
    case True
    show ?thesis
    proof (cases r)
      case (Inl e)
      with True m st show ?thesis by (subst skip_loop_noalloc.simps) simp
    next
      case (Inr cs)
      obtain c s' where cs: "cs = (c, s')" by (cases cs)
      have "stays d1 (snd (skip_loop_noalloc (if c then s' else skip_round_noalloc s') d1))"
        by (rule 1) (use True m Inr cs in auto)
      with stays_trans [OF st] True m Inr cs show ?thesis by (subst skip_loop_noalloc.simps) simp
    qed
  next
    case False
    then show ?thesis by (subst skip_loop_noalloc.simps) simp
  qed
qed

lemma safe_skip_noalloc: "safe dec_skip_noalloc"
  unfolding dec_skip_noalloc_def by (simp add: safe_iff_stays skip_loop_noalloc_stays)

lemma progress_skip_noalloc: "progress dec_skip_noalloc"
  unfolding progress_def
proof (intro allI impI)
  fix d x d' assume run: "dec_skip_noalloc d = (Inr x, d')"
  let ?s = "\<lparr>nrounds = 1, irounds = 0, sk_stack = []\<rparr>"
  from run obtain c s1 d1 where m: "skip_match_noalloc ?s d = (Inr (c, s1), d1)"
    and rest: "skip_loop_noalloc (if c then s1 else skip_round_noalloc s1) d1 = (Inr x, d')"
    unfolding dec_skip_noalloc_def by (subst (asm) skip_loop_noalloc.simps) (auto split: prod.splits sum.splits)
  have "dec_pos d < dec_pos d1" by (rule progressD [OF skip_match_noalloc_safe(2) m])
  moreover have "dec_pos d1 \<le> dec_pos d'"
    using skip_loop_noalloc_stays [of d1 "if c then s1 else skip_round_noalloc s1"] rest by (simp add: stays_def)
  ultimately show "dec_pos d < dec_pos d'" by simp
qed

section \<open>Floats, characters and iterators\<close>

lemma progress_floats: "progress (dec_f16 h)" "progress (dec_f32 h)" "progress (dec_f64 h)" "progress dec_char"
proof -
  have mis: "progress (mismatch b p m)" for b p m
    unfolding mismatch_def by (intro progress_after safe_intros progress_fail)
  show f16: "progress (dec_f16 h)" unfolding dec_f16_def
    by (intro progress_with_pos progress_bind progress_read safe_intros)
  show f32: "progress (dec_f32 h)" unfolding dec_f32_def
    by (intro progress_with_pos progress_after progress_bind progress_if progress_read progress_seq progress_map mis safe_intros f16)
  show "progress (dec_f64 h)" unfolding dec_f64_def
    by (intro progress_with_pos progress_after progress_bind progress_if progress_read progress_seq progress_map mis safe_intros f16 f32)
  show "progress dec_char" unfolding dec_char_def
    by (intro progress_with_pos progress_bind progress_ops safe_intros)
qed

lemma iterators_inside:
  "safe dec_bytes_iter" "safe dec_str_iter" "safe dec_array_iter" "safe dec_map_iter"
  "progress dec_bytes_iter" "progress dec_str_iter" "progress dec_array_iter" "progress dec_map_iter"
  unfolding dec_bytes_iter_def dec_str_iter_def dec_array_iter_def dec_map_iter_def
  by (intro safe_intros progress_with_pos progress_bind progress_map progress_ops progress_read)+

text \<open>An element decoder with a context that stays inside the input, or that consumes some of it as well.\<close>

definition elem_stays :: "('c, 'a) elem \<Rightarrow> bool" where
  "elem_stays elem \<longleftrightarrow> (\<forall>c d r c' d'. elem (c, d) = (r, c', d') \<longrightarrow> stays d d')"

definition elem_moves :: "('c, 'a) elem \<Rightarrow> bool" where
  "elem_moves elem \<longleftrightarrow> (\<forall>c d x c' d'. elem (c, d) = (Inr x, c', d') \<longrightarrow> dec_pos d < dec_pos d')"

lemma plain_elem: "safe m \<Longrightarrow> elem_stays (plain m)" "progress m \<Longrightarrow> elem_moves (plain m)"
  by (auto simp: elem_stays_def elem_moves_def plain_def safe_stays progress_def split: prod.splits)

lemma pair_elem:
  assumes "elem_stays key" "elem_stays val"
  shows "elem_stays (iter_pair key val)" "elem_moves key \<Longrightarrow> elem_moves (iter_pair key val)"
proof -
  have run: "iter_pair key val (c, d) = (case key (c, d) of (Inl e, c', d') \<Rightarrow> (Inl e, c', d')
     | (Inr k, c', d') \<Rightarrow> (case val (c', d') of (Inl e, c'', d'') \<Rightarrow> (Inl e, c'', d'')
         | (Inr v, c'', d'') \<Rightarrow> (Inr (k, v), c'', d'')))" for c d
    by (auto simp: iter_pair_def run_simps split: prod.splits sum.splits)
  show "elem_stays (iter_pair key val)"
    using assms unfolding elem_stays_def run by (fastforce split: prod.splits sum.splits intro: stays_trans)
  show "elem_moves key \<Longrightarrow> elem_moves (iter_pair key val)"
    using assms(2) unfolding elem_stays_def elem_moves_def run stays_def
    by (fastforce split: prod.splits sum.splits intro: less_le_trans)
qed

lemma indef_elem:
  assumes "indef_next elem c d = (r, st, c', d')" "elem_stays elem"
  shows "stays d d'" "elem_moves elem \<Longrightarrow> r = Some (Inr x) \<Longrightarrow> dec_pos d < dec_pos d'"
proof -
  have r: "stays d (snd (dec_read d))" using safe_basic(4) by (auto simp: safe_iff_stays)
  show "stays d d'"
    using assms r unfolding elem_stays_def
    by (cases "dec_read d"; cases "elem (c, d)"; cases "fst (dec_current d)"; cases "fst (dec_read d)")
      (auto simp: indef_next_def split: if_splits)
  show "elem_moves elem \<Longrightarrow> r = Some (Inr x) \<Longrightarrow> dec_pos d < dec_pos d'"
    using assms(1) unfolding elem_moves_def
    by (cases "dec_read d"; cases "elem (c, d)"; cases "fst (dec_current d)"; cases "fst (dec_read d)")
      (auto simp: indef_next_def split: if_splits)
qed

lemma array_elem:
  assumes "array_iter_with_next elem st c d = (r, st', c', d')" "elem_stays elem"
  shows "stays d d'" "elem_moves elem \<Longrightarrow> r = Some (Inr x) \<Longrightarrow> dec_pos d < dec_pos d'"
  using assms indef_elem [of elem c d r st' c' d']
  by (auto simp: array_iter_with_next_def elem_stays_def elem_moves_def split: iter_state.splits if_splits prod.splits)

lemma map_elem:
  assumes "map_iter_with_next key val st c d = (r, st', c', d')" "elem_stays key" "elem_stays val"
  shows "stays d d'" "elem_moves key \<Longrightarrow> r = Some (Inr x) \<Longrightarrow> dec_pos d < dec_pos d'"
proof -
  have "array_iter_with_next (iter_pair key val) st c d = (r, st', c', d')"
    using assms(1) by (simp add: map_iter_with_next_def array_iter_with_next_def split: iter_state.splits)
  note a = array_elem [OF this pair_elem(1) [OF assms(2,3)]]
  show "stays d d'" by (rule a(1))
  show "elem_moves key \<Longrightarrow> r = Some (Inr x) \<Longrightarrow> dec_pos d < dec_pos d'"
    by (rule a(2) [OF pair_elem(2) [OF assms(2,3)]])
qed

lemma chunks_inside: "\<forall>k st d r st' u d'. chunk_next k st d = (r, st', u, d') \<longrightarrow> stays d d'"
  using chunk_next_stays by blast

lemma elements_inside:
  "\<forall>elem st c d r st' c' d'. elem_stays (elem :: ('c, 'a) elem) \<longrightarrow> array_iter_with_next elem st c d = (r, st', c', d') \<longrightarrow>
     stays d d' \<and> (elem_moves elem \<longrightarrow> (\<forall>x. r = Some (Inr x) \<longrightarrow> dec_pos d < dec_pos d'))"
  "\<forall>key val st c d r st' c' d'. elem_stays (key :: ('e, 'k) elem) \<longrightarrow> elem_stays (val :: ('e, 'v) elem) \<longrightarrow>
     map_iter_with_next key val st c d = (r, st', c', d') \<longrightarrow>
     stays d d' \<and> (elem_moves key \<longrightarrow> (\<forall>x. r = Some (Inr x) \<longrightarrow> dec_pos d < dec_pos d'))"
proof -
  have a: "stays d d' \<and> (elem_moves elem \<longrightarrow> (\<forall>x. r = Some (Inr x) \<longrightarrow> dec_pos d < dec_pos d'))"
    if "elem_stays elem" "array_iter_with_next elem st c d = (r, st', c', d')"
    for elem :: "('c, 'a) elem" and st c d r st' c' d'
    using array_elem [OF that(2,1)] by blast
  then show "\<forall>elem st c d r st' c' d'. elem_stays (elem :: ('c, 'a) elem) \<longrightarrow>
     array_iter_with_next elem st c d = (r, st', c', d') \<longrightarrow>
     stays d d' \<and> (elem_moves elem \<longrightarrow> (\<forall>x. r = Some (Inr x) \<longrightarrow> dec_pos d < dec_pos d'))" by simp
  have m: "stays d d' \<and> (elem_moves key \<longrightarrow> (\<forall>x. r = Some (Inr x) \<longrightarrow> dec_pos d < dec_pos d'))"
    if "elem_stays key" "elem_stays val" "map_iter_with_next key val st c d = (r, st', c', d')"
    for key :: "('e, 'k) elem" and val :: "('e, 'v) elem" and st c d r st' c' d'
    using map_elem [OF that(3,1,2)] by blast
  then show "\<forall>key val st c d r st' c' d'. elem_stays (key :: ('e, 'k) elem) \<longrightarrow> elem_stays (val :: ('e, 'v) elem) \<longrightarrow>
     map_iter_with_next key val st c d = (r, st', c', d') \<longrightarrow>
     stays d d' \<and> (elem_moves key \<longrightarrow> (\<forall>x. r = Some (Inr x) \<longrightarrow> dec_pos d < dec_pos d'))" by simp
qed

section \<open>Properties\<close>



text \<open>C7: skipping a well-formed item, however deeply nested, in any head width and with definite and
  indefinite lengths mixed in any way, succeeds and leaves the decoder exactly behind the item.\<close>

theorem skip_consumes_item:
  assumes "encodes v bs"
  shows "reads dec_skip bs ()"
  by (rule reads_skip [OF assms])

lemma skip_consumes_item_witness:
  "dec_skip (at_bytes [] ([0x82, 0x9f, 0x01, 0xff, 0x5f, 0x41, 0x03, 0xff] @ [0x04])) =
     (Inr (), at_bytes ([] @ [0x82, 0x9f, 0x01, 0xff, 0x5f, 0x41, 0x03, 0xff]) [0x04])"
proof -
  have h: "is_head t n [t OR of_nat n]" if "n < 24" for t n
    using is_head.intros [OF is_arg.intros(1) [OF that]] .
  have "encodes (CUInt 1) [0x01]" using enc_unsigned [OF h [of 1]] by simp
  then have a: "encodes (CArray [CUInt 1]) ([0x9f] @ ([0x01] @ []) @ [0xff])"
    by (intro enc_list_indef enc_seq_cons enc_seq_nil)
  have b: "encodes (CBytes (concat [[0x03]])) ([0x5f] @ concat (map2 (@) [[0x41]] [[0x03]]) @ [0xff])"
    using h [of 1 BYTES] by (intro enc_bytestring_indef) simp
  have "is_head ARRAY (length [CArray [CUInt 1], CBytes (concat [[0x03]])]) [0x82]"
    using h [of "length [CArray [CUInt 1], CBytes (concat [[0x03]])]" ARRAY] by simp
  from enc_list [OF this enc_seq_cons [OF a enc_seq_cons [OF b enc_seq_nil]]]
  have "encodes (CArray [CArray [CUInt 1], CBytes [0x03]]) [0x82, 0x9f, 0x01, 0xff, 0x5f, 0x41, 0x03, 0xff]" by simp
  from yields_at [OF skip_consumes_item [OF this], of "[]" "[0x04]"] show ?thesis
    by (simp add: usize_bound_def)
qed

section \<open>Agreement of the two versions\<close>

lemma sat_add_0 [simp]: "sat_add x 0 = x"
  using unat_lt [of x] by (simp add: sat_add_def)

lemma skip_head_same:
  assumes "skip_head_noalloc n s d = (Inr (c, s'), d')" "counting s"
  shows "c = False \<and> d' = d \<and> s' = skip_head n s \<and> (sk_stack s = [] \<longrightarrow> sk_stack s' = [])"
  using assms
  by (auto simp: skip_head_noalloc_def skip_head_def skip_def_def skip_indef_def run_simps
      split: option.splits if_splits)

lemma skip_body_noalloc_class:
  "skip_class b = 0 \<Longrightarrow> skip_body_noalloc s b = seq_m dec_u64 (ret_m (False, s))"
  "skip_class b = 1 \<Longrightarrow> skip_body_noalloc s b = seq_m dec_int (ret_m (False, s))"
  "skip_class b = 2 \<Longrightarrow> skip_body_noalloc s b = seq_m bytes_chunks (ret_m (False, s))"
  "skip_class b = 3 \<Longrightarrow> skip_body_noalloc s b = seq_m str_chunks (ret_m (False, s))"
  "skip_class b = 6 \<Longrightarrow> skip_body_noalloc s b = seq_m skip_arg (ret_m (True, s))"
  "skip_class b = 7 \<Longrightarrow> skip_body_noalloc s b = seq_m skip_arg (ret_m (False, s))"
  "skip_class b = 4 \<Longrightarrow> skip_body_noalloc s b = bind_m dec_array (\<lambda>n. skip_head_noalloc n s)"
  "skip_class b = 5 \<Longrightarrow>
     skip_body_noalloc s b = bind_m dec_map (\<lambda>n. skip_head_noalloc (map_option (\<lambda>n. sat_mul n 2) n) s)"
  "skip_class b = 8 \<Longrightarrow>
     skip_body_noalloc s b = seq_m dec_read (ret_m (False, s\<lparr>irounds := sat_sub (irounds s) 1\<rparr>))"
  "skip_class b = 9 \<Longrightarrow> skip_body_noalloc s b = skip_unknown ''not supported'' b"
  by (simp_all only: skip_class_def skip_body_def skip_body_noalloc_def split: if_splits) simp_all

lemma skip_class_less: "skip_class b < 10"
  by (simp add: skip_class_def)

lemma seq_ret_state: "seq_m m (ret_m x) d = (Inr y, d') \<Longrightarrow> y = x"
  by (auto simp: run_simps split: prod.splits sum.splits)

lemma skip_body_state:
  assumes "skip_class b \<in> {0, 1, 2, 3, 6, 7}" "skip_body s b d = (Inr (c, s'), d')"
  shows "s' = s"
  using assms by (auto simp: skip_body_class dest!: seq_ret_state)

lemma skip_unknown_fails: "skip_unknown m b d \<noteq> (Inr x, d')"
  by (auto simp: skip_unknown_def run_simps with_pos_def split: prod.splits sum.splits)

lemma noalloc_simulated:
  assumes run: "skip_match_noalloc s d = (Inr (c, s'), d')" and cnt: "counting s" and st: "sk_stack s = []"
  shows "skip_match s d = (Inr (c, s'), d') \<and> sk_stack s' = []"
proof -
  obtain b where b: "dec_current d = (Inr b, d)"
    using run by (cases "dec_current d")
      (auto simp: skip_match_noalloc_def run_simps dec_current_def split: option.splits)
  with run have body: "skip_body_noalloc s b d = (Inr (c, s'), d')" by (simp add: skip_match_noalloc_def run_simps)
  have hd: "map_m (\<lambda>n. (False, skip_head (f n) s)) m d = (Inr (c, s'), d') \<and> sk_stack s' = []"
    if "bind_m m (\<lambda>n. skip_head_noalloc (f n) s) d = (Inr (c, s'), d')" for m :: "u64 option dec" and f
  proof -
    from that obtain n d1 where n: "m d = (Inr n, d1)" "skip_head_noalloc (f n) s d1 = (Inr (c, s'), d')"
      by (auto simp: run_simps split: prod.splits sum.splits)
    from skip_head_same [OF n(2) cnt] n(1) st show ?thesis by (auto simp: run_simps)
  qed
  have "skip_class b \<in> {0, 1, 2, 3, 6, 7} \<or> skip_class b \<in> {4, 5, 8, 9}" using skip_class_less [of b] by auto
  then have "skip_body s b d = (Inr (c, s'), d') \<and> sk_stack s' = []"
  proof
    assume k: "skip_class b \<in> {0, 1, 2, 3, 6, 7}"
    then have "skip_body_noalloc s b = skip_body s b" by (auto simp: skip_body_class skip_body_noalloc_class)
    with body have "skip_body s b d = (Inr (c, s'), d')" by simp
    with skip_body_state [OF k this] st show ?thesis by simp
  next
    assume "skip_class b \<in> {4, 5, 8, 9}"
    then consider "skip_class b = 4" | "skip_class b = 5" | "skip_class b = 8" | "skip_class b = 9" by blast
    then show ?thesis
    proof cases
      case 1
      with body hd [of dec_array "\<lambda>n. n"] show ?thesis by (simp add: skip_body_class skip_body_noalloc_class)
    next
      case 2
      with body hd [of dec_map "map_option (\<lambda>n. sat_mul n 2)"] show ?thesis
        by (simp add: skip_body_class skip_body_noalloc_class)
    next
      case 3
      have "skip_break s = s\<lparr>irounds := sat_sub (irounds s) 1\<rparr>" using cnt by (simp add: skip_break_def)
      with 3 body st show ?thesis
        by (auto simp: skip_body_class skip_body_noalloc_class dest!: seq_ret_state)
    next
      case 4
      with body show ?thesis by (simp add: skip_body_noalloc_class skip_unknown_fails)
    qed
  qed
  then show ?thesis by (simp add: skip_match_def run_simps b)
qed

lemma skip_round_same: "sk_stack s = [] \<Longrightarrow> skip_round s = skip_round_noalloc s"
  by (auto simp: skip_round_def skip_round_noalloc_def counting_def sat_sub_def)

lemma skip_loop_same:
  "skip_loop_noalloc s d = (Inr (), d') \<Longrightarrow> sk_stack s = [] \<Longrightarrow> skip_loop s d = (Inr (), d')"
proof (induction s d rule: skip_loop_noalloc.induct)
  case (1 s d)
  show ?case
  proof (cases "0 < nrounds s \<or> 0 < irounds s")
    case True
    then have live: "counting s" "skip_live s" by (auto simp: counting_def skip_live_def)
    from "1.prems"(1) True obtain c s1 d1 where m: "skip_match_noalloc s d = (Inr (c, s1), d1)"
      and rest: "skip_loop_noalloc (if c then s1 else skip_round_noalloc s1) d1 = (Inr (), d')"
      by (subst (asm) skip_loop_noalloc.simps) (auto split: prod.splits sum.splits)
    from noalloc_simulated [OF m live(1) "1.prems"(2)]
    have n: "skip_match s d = (Inr (c, s1), d1)" "sk_stack s1 = []" by auto
    have "sk_stack (if c then s1 else skip_round_noalloc s1) = []" using n(2) by (simp add: skip_round_noalloc_def)
    with "1.IH" [OF _ m [symmetric] refl refl rest] True
    have "skip_loop (if c then s1 else skip_round_noalloc s1) d1 = (Inr (), d')" by blast
    then show ?thesis using live(2) n by (subst skip_loop.simps) (auto simp: skip_round_same)
  next
    case False
    then have "\<not> skip_live s" using "1.prems"(2) by (simp add: skip_live_def)
    moreover have "d' = d" using "1.prems"(1) False by (subst (asm) skip_loop_noalloc.simps) simp
    ultimately show ?thesis by (subst skip_loop.simps) simp
  qed
qed

text \<open>C19: whenever the version without an allocator succeeds, the version with one succeeds too and
  stops at the same place; so it never silently skips something else.\<close>

theorem skip_versions_agree:
  assumes "dec_skip_noalloc d = (Inr (), d')"
  shows "dec_skip d = (Inr (), d')"
  using skip_loop_same assms by (simp add: dec_skip_def dec_skip_noalloc_def)

lemma skip_versions_agree_witness:
  "dec_skip \<lparr>dec_buf = [0x05, 0x07], dec_pos = 0\<rparr> = (Inr (), \<lparr>dec_buf = [0x05, 0x07], dec_pos = 1\<rparr>)"
proof (rule skip_versions_agree)
  show "dec_skip_noalloc \<lparr>dec_buf = [0x05, 0x07], dec_pos = 0\<rparr> = (Inr (), \<lparr>dec_buf = [0x05, 0x07], dec_pos = 1\<rparr>)"
    unfolding dec_skip_noalloc_def
    by (subst skip_loop_noalloc.simps)
      (simp add: skip_match_noalloc_def skip_body_noalloc_def run_simps dec_current_def dec_read_def index_get_def dec_u64_def with_pos_def
        dec_unsigned_def skip_round_noalloc_def sat_sub_def, subst skip_loop_noalloc.simps, simp)
qed

end
