(* ===== verification/Cbor_Types.thy ===== *)
theory Cbor_Types
  imports Cbor_Skip "HOL-Library.Multiset"
begin

text \<open>
  The traits \<open>Encode\<close>, \<open>CborLen\<close> and \<open>Decode\<close> of minicbor (\<open>encode.rs\<close>, \<open>decode.rs\<close>) and their implementations for the
  types of the Rust library. An implementation for a generic type takes those of its parameters as
  arguments. The context that all methods pass through is the unit type, and none of the
  implementations looks at it. Collections are the lists of their elements in iteration order.
\<close>

section \<open>CborLen of the basic types\<close>

definition len_bool :: "bool \<Rightarrow> usize" where
  "len_bool x = 1"

definition len_u8 :: "u8 \<Rightarrow> usize" where
  "len_u8 x = (if x \<le> 0x17 then 1 else 2)"

definition len_u16 :: "u16 \<Rightarrow> usize" where
  "len_u16 x = (if x \<le> 0x17 then 1 else if x \<le> 0xff then 2 else 3)"

definition len_u32 :: "u32 \<Rightarrow> usize" where
  "len_u32 x = (if x \<le> 0x17 then 1 else if x \<le> 0xff then 2 else if x \<le> 0xffff then 3 else 5)"

definition len_u64 :: "u64 \<Rightarrow> usize" where
  "len_u64 x =
     (if x \<le> 0x17 then 1 else if x \<le> 0xff then 2 else if x \<le> 0xffff then 3
      else if x \<le> 0xffffffff then 5 else 9)"

definition len_char :: "u32 \<Rightarrow> usize" where
  "len_char x = len_u32 x"

definition len_i8 :: "i8 \<Rightarrow> usize" where
  "len_i8 x = len_u8 (if 0 \<le> sint x then x else - 1 - x)"

definition len_i16 :: "i16 \<Rightarrow> usize" where
  "len_i16 x = len_u16 (if 0 \<le> sint x then x else - 1 - x)"

definition len_i32 :: "i32 \<Rightarrow> usize" where
  "len_i32 x = len_u32 (if 0 \<le> sint x then x else - 1 - x)"

definition len_i64 :: "i64 \<Rightarrow> usize" where
  "len_i64 x = len_u64 (if 0 \<le> sint x then x else - 1 - x)"

definition len_f32 :: "f32 \<Rightarrow> usize" where
  "len_f32 x = 5"

definition len_f64 :: "f64 \<Rightarrow> usize" where
  "len_f64 x = 9"

text \<open>\<open>usize\<close> and \<open>isize\<close> are 64 bits wide.\<close>

definition encode_usize :: "('w, 'e) write_all \<Rightarrow> usize \<Rightarrow> ('w, 'e) enc" where
  "encode_usize wr x = enc_u64 wr (of_nat x)"

definition len_usize :: "usize \<Rightarrow> usize" where
  "len_usize x = len_u64 (of_nat x)"

definition decode_usize :: "usize dec" where
  "decode_usize = map_m unat dec_u64"

definition encode_isize :: "('w, 'e) write_all \<Rightarrow> i64 \<Rightarrow> ('w, 'e) enc" where
  "encode_isize wr x = enc_i64 wr x"

definition len_isize :: "i64 \<Rightarrow> usize" where
  "len_isize x = len_i64 x"

definition decode_isize :: "i64 dec" where
  "decode_isize = dec_i64"

definition len_int :: "cbor_int \<Rightarrow> usize" where
  "len_int x = len_u64 (int_val x)"

definition len_tag :: "tag \<Rightarrow> usize" where
  "len_tag x = len_u64 (tag_as_u64 x)"

definition len_iana_tag :: "iana_tag \<Rightarrow> usize" where
  "len_iana_tag x = len_tag (tag_of_iana x)"

definition encode_iana_tag :: "('w, 'e) write_all \<Rightarrow> iana_tag \<Rightarrow> ('w, 'e) enc" where
  "encode_iana_tag wr x = enc_tag wr (tag_of_iana x)"

section \<open>References, boxes, cells and other wrappers\<close>

text \<open>
  A reference, box, cow, wrapping or non-zero number, atomic or cell is the value inside; its
  implementations hand over to those of the value. (The interior mutability of cells is the caller's: an
  encoder sees one value.)
\<close>

definition encode_ref :: "('a \<Rightarrow> ('w, 'e) enc) \<Rightarrow> 'a \<Rightarrow> ('w, 'e) enc" where
  "encode_ref enc x = enc x"

definition len_ref :: "('a \<Rightarrow> usize) \<Rightarrow> 'a \<Rightarrow> usize" where
  "len_ref len x = len x"

definition is_nil_ref :: "('a \<Rightarrow> bool) \<Rightarrow> 'a \<Rightarrow> bool" where
  "is_nil_ref is_nil x = is_nil x"

definition decode_box :: "'a dec \<Rightarrow> 'a dec" where
  "decode_box m = map_m (\<lambda>x. x) m"

definition nil_box :: "'a option \<Rightarrow> 'a option" where
  "nil_box nil = map_option (\<lambda>x. x) nil"

definition encode_cow :: "('a \<Rightarrow> ('w, 'e) enc) \<Rightarrow> 'a \<Rightarrow> ('w, 'e) enc" where
  "encode_cow enc x = enc x"

definition len_cow :: "('a \<Rightarrow> usize) \<Rightarrow> 'a \<Rightarrow> usize" where
  "len_cow len x = len x"

definition decode_cow :: "'a dec \<Rightarrow> 'a dec" where
  "decode_cow m = map_m (\<lambda>x. x) m"

definition encode_wrapping :: "('a \<Rightarrow> ('w, 'e) enc) \<Rightarrow> 'a \<Rightarrow> ('w, 'e) enc" where
  "encode_wrapping enc x = enc x"

definition len_wrapping :: "('a \<Rightarrow> usize) \<Rightarrow> 'a \<Rightarrow> usize" where
  "len_wrapping len x = len x"

definition decode_wrapping :: "'a dec \<Rightarrow> 'a dec" where
  "decode_wrapping m = map_m (\<lambda>x. x) m"

definition encode_nonzero :: "('a \<Rightarrow> ('w, 'e) enc) \<Rightarrow> 'a \<Rightarrow> ('w, 'e) enc" where
  "encode_nonzero enc x = enc x"

definition len_nonzero :: "('a \<Rightarrow> usize) \<Rightarrow> 'a \<Rightarrow> usize" where
  "len_nonzero len x = len x"

text \<open>Decoding a non-zero number refuses zero.\<close>

definition decode_nonzero :: "string \<Rightarrow> 'a::zero dec \<Rightarrow> 'a dec" where
  "decode_nonzero msg m = with_pos (\<lambda>p. bind_m m (\<lambda>n.
     if n = 0 then fail_m (err_at p (err_message msg)) else ret_m n))"

definition encode_atomic :: "('a \<Rightarrow> ('w, 'e) enc) \<Rightarrow> 'a \<Rightarrow> ('w, 'e) enc" where
  "encode_atomic enc x = enc x"

definition len_atomic :: "('a \<Rightarrow> usize) \<Rightarrow> 'a \<Rightarrow> usize" where
  "len_atomic len x = len x"

definition decode_atomic :: "'a dec \<Rightarrow> 'a dec" where
  "decode_atomic m = map_m (\<lambda>x. x) m"

definition encode_cell :: "('a \<Rightarrow> ('w, 'e) enc) \<Rightarrow> 'a \<Rightarrow> ('w, 'e) enc" where
  "encode_cell enc x = enc x"

definition len_cell :: "('a \<Rightarrow> usize) \<Rightarrow> 'a \<Rightarrow> usize" where
  "len_cell len x = len x"

definition decode_cell :: "'a dec \<Rightarrow> 'a dec" where
  "decode_cell m = map_m (\<lambda>x. x) m"

section \<open>Strings and paths\<close>

definition len_str :: "bytes \<Rightarrow> usize" where
  "len_str x = len_usize (length x) + length x"

text \<open>A C string is its bytes without the terminating zero.\<close>

definition encode_cstr :: "('w, 'e) write_all \<Rightarrow> bytes \<Rightarrow> ('w, 'e) enc" where
  "encode_cstr wr x = enc_bytes wr (x @ [0])"

definition len_cstr :: "bytes \<Rightarrow> usize" where
  "len_cstr x = len_usize (length (x @ [0])) + length (x @ [0])"

definition from_bytes_with_nul :: "bytes \<Rightarrow> bytes option" where
  "from_bytes_with_nul b =
     (if b \<noteq> [] \<and> last b = 0 \<and> 0 \<notin> set (butlast b) then Some (butlast b) else None)"

definition decode_cstr :: "bytes dec" where
  "decode_cstr = with_pos (\<lambda>p. bind_m dec_bytes (\<lambda>b.
     res_m (ok_or (err_at p (err_message ''invalid c-string'')) (from_bytes_with_nul b))))"

text \<open>A path is a byte string that need not be UTF-8.\<close>

definition encode_path :: "('w, 'e) write_all \<Rightarrow> bytes \<Rightarrow> ('w, 'e) enc" where
  "encode_path wr x =
     (if valid_utf8 x then enc_str wr x
      else fail_m (enc_error_message ''non-utf-8 path values are not supported''))"

definition len_path :: "bytes \<Rightarrow> usize" where
  "len_path x = (if valid_utf8 x then len_str x else 0)"

section \<open>Options, results, tags and units\<close>

definition encode_option :: "('w, 'e) write_all \<Rightarrow> ('a \<Rightarrow> ('w, 'e) enc) \<Rightarrow> 'a option \<Rightarrow> ('w, 'e) enc" where
  "encode_option wr enc x = (case x of Some y \<Rightarrow> enc y | None \<Rightarrow> enc_null wr)"

definition option_is_nil :: "'a option \<Rightarrow> bool" where
  "option_is_nil x \<longleftrightarrow> x = None"

definition len_option :: "('a \<Rightarrow> usize) \<Rightarrow> 'a option \<Rightarrow> usize" where
  "len_option len x = (case x of Some y \<Rightarrow> len y | None \<Rightarrow> 1)"

definition decode_option :: "'a dec \<Rightarrow> 'a option dec" where
  "decode_option m = bind_m dec_datatype (\<lambda>t.
     if t = TyNull then seq_m dec_skip (ret_m None) else map_m Some m)"

definition option_nil :: "'a option option" where
  "option_nil = Some None"

text \<open>The encoding of an enumeration: its variant and the value. \<open>Result\<close> has \<open>Ok\<close> as variant 0 and
  \<open>Err\<close> as variant 1.\<close>

definition encode_variant :: "('w, 'e) write_all \<Rightarrow> u32 \<Rightarrow> ('w, 'e) enc \<Rightarrow> ('w, 'e) enc" where
  "encode_variant wr n e = seq_m (enc_array wr 2) (seq_m (enc_u32 wr n) e)"

definition decode_variant :: "(i64 \<Rightarrow> usize \<Rightarrow> 'a dec) \<Rightarrow> 'a dec" where
  "decode_variant m = with_pos (\<lambda>p. bind_m dec_array (\<lambda>n.
     if n \<noteq> Some 2 then fail_m (err_at p (err_message ''expected enum (2-element array)''))
     else with_pos (\<lambda>p. bind_m dec_i64 (\<lambda>i. m i p))))"

definition encode_result ::
  "('w, 'e) write_all \<Rightarrow> ('a \<Rightarrow> ('w, 'e) enc) \<Rightarrow> ('b \<Rightarrow> ('w, 'e) enc) \<Rightarrow> 'b + 'a \<Rightarrow> ('w, 'e) enc" where
  "encode_result wr enc_v enc_e r =
     (case r of Inr v \<Rightarrow> encode_variant wr 0 (enc_v v) | Inl v \<Rightarrow> encode_variant wr 1 (enc_e v))"

definition len_result :: "('a \<Rightarrow> usize) \<Rightarrow> ('b \<Rightarrow> usize) \<Rightarrow> 'b + 'a \<Rightarrow> usize" where
  "len_result len_ok len_err r = 1 + (case r of Inr v \<Rightarrow> 1 + len_ok v | Inl v \<Rightarrow> 1 + len_err v)"

definition decode_result :: "'a dec \<Rightarrow> 'b dec \<Rightarrow> ('b + 'a) dec" where
  "decode_result m_ok m_err = decode_variant (\<lambda>i p.
     if i = 0 then map_m Inr m_ok
     else if i = 1 then map_m Inl m_err
     else fail_m (err_at p (unknown_variant i)))"

definition encode_tagged :: "('w, 'e) write_all \<Rightarrow> u64 \<Rightarrow> ('a \<Rightarrow> ('w, 'e) enc) \<Rightarrow> 'a \<Rightarrow> ('w, 'e) enc" where
  "encode_tagged wr n enc x = seq_m (enc_tag wr (tag_new n)) (enc x)"

definition len_tagged :: "u64 \<Rightarrow> ('a \<Rightarrow> usize) \<Rightarrow> 'a \<Rightarrow> usize" where
  "len_tagged n len x = len_tag (tag_new n) + len x"

definition decode_tagged :: "u64 \<Rightarrow> 'a dec \<Rightarrow> 'a dec" where
  "decode_tagged n m = with_pos (\<lambda>p. bind_m dec_tag (\<lambda>t.
     if n \<noteq> tag_as_u64 t
     then fail_m (err_at p (with_message (''expected tag '' @ nat_str (unat n)) (tag_mismatch t)))
     else m))"

text \<open>\<open>()\<close> and \<open>PhantomData\<close> are empty arrays.\<close>

definition encode_unit :: "('w, 'e) write_all \<Rightarrow> unit \<Rightarrow> ('w, 'e) enc" where
  "encode_unit wr x = enc_array wr 0"

definition len_unit :: "unit \<Rightarrow> usize" where
  "len_unit x = 1"

definition encode_phantom :: "('w, 'e) write_all \<Rightarrow> unit \<Rightarrow> ('w, 'e) enc" where
  "encode_phantom wr x = enc_array wr 0"

definition len_phantom :: "unit \<Rightarrow> usize" where
  "len_phantom x = 1"

definition decode_empty :: "string \<Rightarrow> unit dec" where
  "decode_empty msg = with_pos (\<lambda>p. bind_m dec_array (\<lambda>n.
     if n \<noteq> Some 0 then fail_m (err_at p (err_message msg)) else ret_m ()))"

definition decode_unit :: "unit dec" where
  "decode_unit = decode_empty ''expected unit, i.e. an empty array''"

definition decode_phantom :: "unit dec" where
  "decode_phantom = decode_empty ''expected phantom data, i.e. an empty array''"

section \<open>Sequences, maps and tuples\<close>

fun encode_each :: "('a \<Rightarrow> ('w, 'e) enc) \<Rightarrow> 'a list \<Rightarrow> ('w, 'e) enc" where
  "encode_each enc [] = enc_ok"
| "encode_each enc (x # xs) = seq_m (enc x) (encode_each enc xs)"

definition encode_sequential ::
  "('w, 'e) write_all \<Rightarrow> ('a \<Rightarrow> ('w, 'e) enc) \<Rightarrow> 'a list \<Rightarrow> ('w, 'e) enc" where
  "encode_sequential wr enc xs = seq_m (enc_array wr (of_nat (length xs))) (encode_each enc xs)"

definition len_sequential :: "('a \<Rightarrow> usize) \<Rightarrow> 'a list \<Rightarrow> usize" where
  "len_sequential len xs = len_usize (length xs) + sum_list (map len xs)"

definition encode_hash_set ::
  "('w, 'e) write_all \<Rightarrow> ('a \<Rightarrow> ('w, 'e) enc) \<Rightarrow> 'a list \<Rightarrow> ('w, 'e) enc" where
  "encode_hash_set wr enc xs = seq_m (enc_array wr (of_nat (length xs))) (encode_each enc xs)"

definition len_hash_set :: "('a \<Rightarrow> usize) \<Rightarrow> 'a list \<Rightarrow> usize" where
  "len_hash_set len xs = len_usize (length xs) + sum_list (map len xs)"

definition encode_entry ::
  "('k \<Rightarrow> ('w, 'e) enc) \<Rightarrow> ('v \<Rightarrow> ('w, 'e) enc) \<Rightarrow> 'k \<times> 'v \<Rightarrow> ('w, 'e) enc" where
  "encode_entry enc_k enc_v kv = seq_m (enc_k (fst kv)) (enc_v (snd kv))"

definition encode_map ::
  "('w, 'e) write_all \<Rightarrow> ('k \<Rightarrow> ('w, 'e) enc) \<Rightarrow> ('v \<Rightarrow> ('w, 'e) enc) \<Rightarrow> ('k \<times> 'v) list \<Rightarrow> ('w, 'e) enc" where
  "encode_map wr enc_k enc_v kvs =
     seq_m (enc_map wr (of_nat (length kvs))) (encode_each (encode_entry enc_k enc_v) kvs)"

definition len_map :: "('k \<Rightarrow> usize) \<Rightarrow> ('v \<Rightarrow> usize) \<Rightarrow> ('k \<times> 'v) list \<Rightarrow> usize" where
  "len_map len_k len_v kvs = len_usize (length kvs) + sum_list (map (\<lambda>(k, v). len_k k + len_v v) kvs)"

definition encode_btree_map ::
  "('w, 'e) write_all \<Rightarrow> ('k \<Rightarrow> ('w, 'e) enc) \<Rightarrow> ('v \<Rightarrow> ('w, 'e) enc) \<Rightarrow> ('k \<times> 'v) list \<Rightarrow> ('w, 'e) enc" where
  "encode_btree_map wr enc_k enc_v kvs =
     seq_m (enc_map wr (of_nat (length kvs))) (encode_each (encode_entry enc_k enc_v) kvs)"

definition len_btree_map :: "('k \<Rightarrow> usize) \<Rightarrow> ('v \<Rightarrow> usize) \<Rightarrow> ('k \<times> 'v) list \<Rightarrow> usize" where
  "len_btree_map len_k len_v kvs =
     len_usize (length kvs) + sum_list (map (\<lambda>(k, v). len_k k + len_v v) kvs)"

text \<open>
  Collecting from the iterators. The loop ends for every element decoder that consumes input when
  it succeeds, as all decoders of minicbor do (lemma \<open>elements_total\<close> of \<open>Cbor_Impls\<close>).
\<close>

definition decode_vec :: "'a dec \<Rightarrow> 'a list dec" where
  "decode_vec m = (\<lambda>d. case the (array_elements m d) of (r, _, d') \<Rightarrow> (r, d'))"

definition decode_heap :: "'a dec \<Rightarrow> 'a multiset dec" where
  "decode_heap m = map_m (\<lambda>xs. fold add_mset xs {#}) (decode_vec m)"

definition decode_set :: "'a dec \<Rightarrow> 'a set dec" where
  "decode_set m = map_m (\<lambda>xs. fold insert xs {}) (decode_vec m)"

definition decode_map :: "'k dec \<Rightarrow> 'v dec \<Rightarrow> ('k \<Rightarrow> 'v option) dec" where
  "decode_map k v = map_m (\<lambda>kvs. fold (\<lambda>(x, y) f. f(x \<mapsto> y)) kvs Map.empty)
     (\<lambda>d. case the (map_elements k v d) of (r, _, d') \<Rightarrow> (r, d'))"

text \<open>
  Arrays of a fixed length: \<open>ArrayVec\<close> takes the elements as they come; the one that does not fit any
  more is an error, and so is an array that ends too early.
\<close>

fun array_vec_fill :: "nat \<Rightarrow> 'a dec \<Rightarrow> u64 iter_state \<Rightarrow> 'a list \<Rightarrow> ('a list \<times> bool) dec" where
  "array_vec_fill room m st acc d =
     (case array_iter_next m st d of
        (None, st', u, d') \<Rightarrow> (Inr (acc, True), d')
      | (Some (Inl e), st', u, d') \<Rightarrow> (Inl e, d')
      | (Some (Inr x), st', u, d') \<Rightarrow>
          (case room of 0 \<Rightarrow> (Inr (acc, False), d') | Suc k \<Rightarrow> array_vec_fill k m st' (acc @ [x]) d'))"

declare array_vec_fill.simps [simp del]

definition decode_array_n :: "nat \<Rightarrow> 'a dec \<Rightarrow> 'a list dec" where
  "decode_array_n n m = with_pos (\<lambda>p. bind_m dec_array_iter (\<lambda>st.
     bind_m (array_vec_fill n m st []) (\<lambda>(acc, fitted).
       if \<not> fitted then fail_m (err_at p (err_message (''array has more than '' @ nat_str n @ '' elements'')))
       else if length acc = n then ret_m acc
       else fail_m (err_at p (err_message (''array has less than '' @ nat_str n @ '' elements''))))))"

definition encode_array_n ::
  "nat \<Rightarrow> ('w, 'e) write_all \<Rightarrow> ('a \<Rightarrow> ('w, 'e) enc) \<Rightarrow> 'a list \<Rightarrow> ('w, 'e) enc" where
  "encode_array_n n wr enc xs = seq_m (enc_array wr (of_nat n)) (encode_each enc xs)"

definition len_array_n :: "nat \<Rightarrow> ('a \<Rightarrow> usize) \<Rightarrow> 'a list \<Rightarrow> usize" where
  "len_array_n n len xs = len_usize n + sum_list (map len xs)"

text \<open>
  Tuples of any arity, as nested pairs: the fields one after the other, behind an array head with
  their number. \<open>fields_*\<close> adds one field in front.
\<close>

definition encode_tuple :: "('w, 'e) write_all \<Rightarrow> nat \<Rightarrow> ('a \<Rightarrow> ('w, 'e) enc) \<Rightarrow> 'a \<Rightarrow> ('w, 'e) enc" where
  "encode_tuple wr n enc x = seq_m (enc_array wr (of_nat n)) (enc x)"

definition len_tuple :: "nat \<Rightarrow> ('a \<Rightarrow> usize) \<Rightarrow> 'a \<Rightarrow> usize" where
  "len_tuple n len x = len_i32 (of_nat n) + len x"

definition decode_tuple :: "nat \<Rightarrow> 'a dec \<Rightarrow> 'a dec" where
  "decode_tuple n m = with_pos (\<lambda>p. bind_m dec_array (\<lambda>k.
     if k \<noteq> Some (of_nat n)
     then fail_m (err_at p (err_message (''invalid '' @ nat_str n @ ''-tuple length'')))
     else m))"

definition encode_fields ::
  "('a \<Rightarrow> ('w, 'e) enc) \<Rightarrow> ('b \<Rightarrow> ('w, 'e) enc) \<Rightarrow> 'a \<times> 'b \<Rightarrow> ('w, 'e) enc" where
  "encode_fields e1 e2 x = seq_m (e1 (fst x)) (e2 (snd x))"

definition len_fields :: "('a \<Rightarrow> usize) \<Rightarrow> ('b \<Rightarrow> usize) \<Rightarrow> 'a \<times> 'b \<Rightarrow> usize" where
  "len_fields l1 l2 x = l1 (fst x) + l2 (snd x)"

definition decode_pair :: "'a dec \<Rightarrow> 'b dec \<Rightarrow> ('a \<times> 'b) dec" where
  "decode_pair m1 m2 = bind_m m1 (\<lambda>x. map_m (Pair x) m2)"

text \<open>
  All the fields of a tuple, each with the implementation of its own type: encoded one after the other,
  their lengths added up, and decoded in the same order.
\<close>

fun encode_tuple_fields :: "('a \<Rightarrow> ('w, 'e) enc) list \<Rightarrow> 'a list \<Rightarrow> ('w, 'e) enc" where
  "encode_tuple_fields (e # es) (x # xs) = seq_m (e x) (encode_tuple_fields es xs)"
| "encode_tuple_fields _ _ = enc_ok"

fun len_tuple_fields :: "('a \<Rightarrow> usize) list \<Rightarrow> 'a list \<Rightarrow> usize" where
  "len_tuple_fields (l # ls) (x # xs) = l x + len_tuple_fields ls xs"
| "len_tuple_fields _ _ = 0"

fun decode_tuple_fields :: "'a dec list \<Rightarrow> 'a list dec" where
  "decode_tuple_fields [] = ret_m []"
| "decode_tuple_fields (m # ms) = bind_m m (\<lambda>x. map_m (Cons x) (decode_tuple_fields ms))"

section \<open>Structures with optional extra elements\<close>

text \<open>
  \<open>decode_fields!\<close>: the elements of an array are taken as the fields of a structure; further elements are
  skipped, missing ones are an error. \<open>step i s\<close> decodes field \<open>i < k\<close> into \<open>s\<close>. The counter of the
  indefinite case is an \<open>i32\<close> in the code; it is unbounded here, which is the same for every input of less
  than two gigabytes.
\<close>

fun fields_def :: "nat \<Rightarrow> (nat \<Rightarrow> 's \<Rightarrow> 's dec) \<Rightarrow> nat \<Rightarrow> nat \<Rightarrow> 's \<Rightarrow> 's dec" where
  "fields_def k step i 0 s = ret_m s"
| "fields_def k step i (Suc n) s =
     bind_m (if i < k then step i s else seq_m dec_skip (ret_m s)) (fields_def k step (Suc i) n)"

definition fields_measure :: "nat \<Rightarrow> nat \<Rightarrow> decoder \<Rightarrow> nat \<times> nat" where
  "fields_measure k i d = (k - i, length (dec_buf d) - dec_pos d)"

lemma datatype_inside:
  "dec_datatype d = (Inr t, d') \<Longrightarrow> d' = d \<and> dec_pos d < length (dec_buf d)"
proof -
  assume a: "dec_datatype d = (Inr t, d')"
  have pure: "dec_type_of b d = (r, e) \<Longrightarrow> e = d" for b r e
    by (auto simp: dec_type_of_def run_simps dec_peek_def split: if_splits sum.splits)
  from a show ?thesis
    by (auto simp: dec_datatype_def run_simps dec_current_def index_get_def split: if_splits dest: pure)
qed

lemma skip_decreases:
  assumes "dec_datatype d = (Inr t, d1)" "dec_skip d1 = (Inr u, d2)"
  shows "length (dec_buf d2) - dec_pos d2 < length (dec_buf d) - dec_pos d"
proof -
  have d: "d1 = d" "dec_pos d < length (dec_buf d)" using datatype_inside [OF assms(1)] by auto
  from progressD [OF progress_skip assms(2)] safeD [OF safe_skip assms(2)] d show ?thesis
    by (simp add: diff_less_mono2)
qed

function fields_indef :: "nat \<Rightarrow> (nat \<Rightarrow> 's \<Rightarrow> 's dec) \<Rightarrow> nat \<Rightarrow> 's \<Rightarrow> 's dec" where
  "fields_indef k step i s d =
     (case dec_datatype d of
        (Inl e, d1) \<Rightarrow> (Inl e, d1)
      | (Inr t, d1) \<Rightarrow>
          if t = TyBreak then seq_m dec_skip (ret_m s) d1
          else if i < k then
            (case step i s d1 of
               (Inl e, d2) \<Rightarrow> (Inl e, d2)
             | (Inr s', d2) \<Rightarrow> fields_indef k step (Suc i) s' d2)
          else
            (case dec_skip d1 of
               (Inl e, d2) \<Rightarrow> (Inl e, d2)
             | (Inr _, d2) \<Rightarrow> fields_indef k step (Suc i) s d2))"
  by pat_completeness auto
termination
proof (relation "inv_image (less_than <*lex*> less_than) (\<lambda>(k, step, i, s, d). fields_measure k i d)")
qed (auto simp: fields_measure_def dest!: skip_decreases [OF sym sym])

declare fields_indef.simps [simp del]

definition field_value :: "usize \<Rightarrow> nat \<Rightarrow> string \<Rightarrow> 'a option \<Rightarrow> 'a dec" where
  "field_value p n msg x = res_m (ok_or (with_message msg (err_at p (missing_value (of_nat n)))) x)"

definition decode_fields :: "nat \<Rightarrow> (nat \<Rightarrow> 's \<Rightarrow> 's dec) \<Rightarrow> 's \<Rightarrow> (usize \<Rightarrow> 's \<Rightarrow> 'a dec) \<Rightarrow> 'a dec" where
  "decode_fields k step s0 finish = with_pos (\<lambda>p. bind_m dec_array (\<lambda>n.
     bind_m (case n of Some n \<Rightarrow> fields_def k step 0 (unat n) s0 | None \<Rightarrow> fields_indef k step 0 s0)
       (finish p)))"

definition step1 :: "'a dec \<Rightarrow> nat \<Rightarrow> 'a option \<Rightarrow> 'a option dec" where
  "step1 m i s = map_m Some m"

definition step2 :: "'a dec \<Rightarrow> 'b dec \<Rightarrow> nat \<Rightarrow> 'a option \<times> 'b option \<Rightarrow> ('a option \<times> 'b option) dec" where
  "step2 m1 m2 i s =
     (if i = 0 then map_m (\<lambda>x. (Some x, snd s)) m1 else map_m (\<lambda>y. (fst s, Some y)) m2)"

definition decode_fields1 :: "string \<Rightarrow> 'a dec \<Rightarrow> 'a dec" where
  "decode_fields1 msg m = decode_fields 1 (step1 m) None (\<lambda>p. field_value p 0 msg)"

definition decode_fields2 :: "string \<Rightarrow> 'a dec \<Rightarrow> string \<Rightarrow> 'b dec \<Rightarrow> ('a \<times> 'b) dec" where
  "decode_fields2 msg1 m1 msg2 m2 = decode_fields 2 (step2 m1 m2) (None, None) (\<lambda>p s.
     bind_m (field_value p 0 msg1 (fst s)) (\<lambda>x. map_m (Pair x) (field_value p 1 msg2 (snd s))))"


section \<open>Byte strings\<close>

text \<open>
  \<open>bytes.rs\<close>: the wrappers that encode bytes as a byte string and not as an array of numbers. A
  \<open>ByteSlice\<close>, a \<open>ByteVec\<close> and, for the traits with \<open>Bytes\<close> in their name, plain slices, vectors and
  boxes are their bytes; a \<open>ByteArray\<close> also has a fixed length.
\<close>

definition encode_byte_slice :: "('w, 'e) write_all \<Rightarrow> bytes \<Rightarrow> ('w, 'e) enc" where
  "encode_byte_slice wr x = enc_bytes wr x"

definition len_byte_slice :: "bytes \<Rightarrow> usize" where
  "len_byte_slice x = len_usize (length x) + length x"

definition decode_byte_slice :: "bytes dec" where
  "decode_byte_slice = dec_bytes"

definition encode_byte_array :: "nat \<Rightarrow> ('w, 'e) write_all \<Rightarrow> bytes \<Rightarrow> ('w, 'e) enc" where
  "encode_byte_array n wr x = enc_bytes wr x"

definition len_byte_array :: "nat \<Rightarrow> bytes \<Rightarrow> usize" where
  "len_byte_array n x = len_usize n + n"

definition decode_byte_array :: "nat \<Rightarrow> bytes dec" where
  "decode_byte_array n = with_pos (\<lambda>pos. bind_m dec_bytes (\<lambda>slice.
     if length slice = n then ret_m slice
     else fail_m (err_at pos (err_message ''byte slice length does not match expected array length''))))"

definition encode_byte_vec :: "('w, 'e) write_all \<Rightarrow> bytes \<Rightarrow> ('w, 'e) enc" where
  "encode_byte_vec wr x = enc_bytes wr x"

definition len_byte_vec :: "bytes \<Rightarrow> usize" where
  "len_byte_vec x = len_usize (length x) + length x"

definition decode_byte_vec :: "bytes dec" where
  "decode_byte_vec = dec_bytes"

definition encode_bytes_option ::
  "('w, 'e) write_all \<Rightarrow> ('a \<Rightarrow> ('w, 'e) enc) \<Rightarrow> 'a option \<Rightarrow> ('w, 'e) enc" where
  "encode_bytes_option wr enc x = (case x of Some y \<Rightarrow> enc y | None \<Rightarrow> enc_null wr)"

definition decode_bytes_option :: "'a dec \<Rightarrow> 'a option dec" where
  "decode_bytes_option m = bind_m dec_datatype (\<lambda>t.
     if t = TyNull then seq_m dec_skip (ret_m None) else map_m Some m)"

definition len_bytes_option :: "('a \<Rightarrow> usize) \<Rightarrow> 'a option \<Rightarrow> usize" where
  "len_bytes_option len x = (case x of Some y \<Rightarrow> len y | None \<Rightarrow> 1)"

section \<open>Times\<close>

text \<open>The shape of a structure with two fields.\<close>

definition encode_struct2 ::
  "('w, 'e) write_all \<Rightarrow> ('a \<Rightarrow> ('w, 'e) enc) \<Rightarrow> ('b \<Rightarrow> ('w, 'e) enc) \<Rightarrow> 'a \<times> 'b \<Rightarrow> ('w, 'e) enc" where
  "encode_struct2 wr e1 e2 x = seq_m (enc_array wr 2) (seq_m (e1 (fst x)) (e2 (snd x)))"

definition len_struct2 :: "('a \<Rightarrow> usize) \<Rightarrow> ('b \<Rightarrow> usize) \<Rightarrow> 'a \<times> 'b \<Rightarrow> usize" where
  "len_struct2 l1 l2 x = 1 + l1 (fst x) + l2 (snd x)"

record duration =
  as_secs :: u64
  subsec_nanos :: u32

text \<open>
  \<open>Duration::new\<close> of the core library carries whole seconds of the nanoseconds over; it panics when the
  seconds overflow, which is \<open>None\<close> here.
\<close>

definition duration_new :: "u64 \<Rightarrow> u32 \<Rightarrow> duration option" where
  "duration_new secs nanos =
     (if unat nanos < 10 ^ 9 then Some \<lparr>as_secs = secs, subsec_nanos = nanos\<rparr>
      else if unat secs + unat nanos div 10 ^ 9 < 2 ^ 64 then
        Some \<lparr>as_secs = secs + of_nat (unat nanos div 10 ^ 9), subsec_nanos = of_nat (unat nanos mod 10 ^ 9)\<rparr>
      else None)"

definition encode_duration :: "('w, 'e) write_all \<Rightarrow> duration \<Rightarrow> ('w, 'e) enc" where
  "encode_duration wr x = encode_struct2 wr (enc_u64 wr) (enc_u32 wr) (as_secs x, subsec_nanos x)"

definition len_duration :: "duration \<Rightarrow> usize" where
  "len_duration x = 1 + len_u64 (as_secs x) + len_u32 (subsec_nanos x)"

text \<open>The inner option is the panic of \<open>Duration::new\<close>.\<close>

definition decode_duration :: "duration option dec" where
  "decode_duration = map_m (\<lambda>(secs, nanos). duration_new secs nanos)
     (decode_fields2 ''Duration::secs'' dec_u64 ''Duration::nanos'' dec_u32)"

text \<open>
  The system time of the standard library on Unix: signed seconds and the nanoseconds after them.
\<close>

record system_time =
  st_secs :: i64
  st_nanos :: u32

definition duration_since_epoch :: "system_time \<Rightarrow> string + duration" where
  "duration_since_epoch t =
     (if 0 \<le> sint (st_secs t) then Inr \<lparr>as_secs = st_secs t, subsec_nanos = st_nanos t\<rparr>
      else Inl ''second time provided was later than self'')"

definition epoch_checked_add :: "duration \<Rightarrow> system_time option" where
  "epoch_checked_add d =
     (if unat (as_secs d) < 2 ^ 63 then Some \<lparr>st_secs = as_secs d, st_nanos = subsec_nanos d\<rparr> else None)"

definition encode_system_time :: "('w, 'e) write_all \<Rightarrow> system_time \<Rightarrow> ('w, 'e) enc" where
  "encode_system_time wr t =
     (case duration_since_epoch t of
        Inr d \<Rightarrow> encode_duration wr d
      | Inl e \<Rightarrow> fail_m (enc_with_message ''when encoding system time'' (enc_error_custom e)))"

definition len_system_time :: "system_time \<Rightarrow> usize" where
  "len_system_time t = (case duration_since_epoch t of Inr d \<Rightarrow> len_duration d | Inl _ \<Rightarrow> 0)"

definition decode_system_time :: "system_time option dec" where
  "decode_system_time = with_pos (\<lambda>p. bind_m decode_duration (\<lambda>panicked_or.
     case panicked_or of
       None \<Rightarrow> ret_m None
     | Some d \<Rightarrow> map_m Some (res_m (ok_or
         (err_at p (err_message ''duration value can not represent system time'')) (epoch_checked_add d)))))"

section \<open>Network addresses\<close>

text \<open>An IP address is its octets.\<close>

datatype ip_addr = IpV4 bytes | IpV6 bytes

record socket_addr_v4 =
  v4_ip :: bytes
  v4_port :: u16

record socket_addr_v6 =
  v6_ip :: bytes
  v6_port :: u16
  v6_flowinfo :: u32
  v6_scope_id :: u32

datatype socket_addr = SocketV4 socket_addr_v4 | SocketV6 socket_addr_v6

definition encode_ipv4 :: "('w, 'e) write_all \<Rightarrow> bytes \<Rightarrow> ('w, 'e) enc" where
  "encode_ipv4 wr octets = enc_bytes wr octets"

definition len_ipv4 :: "bytes \<Rightarrow> usize" where
  "len_ipv4 a = 5"

definition decode_ipv4 :: "bytes dec" where
  "decode_ipv4 = decode_byte_array 4"

definition encode_ipv6 :: "('w, 'e) write_all \<Rightarrow> bytes \<Rightarrow> ('w, 'e) enc" where
  "encode_ipv6 wr octets = enc_bytes wr octets"

definition len_ipv6 :: "bytes \<Rightarrow> usize" where
  "len_ipv6 a = 17"

definition decode_ipv6 :: "bytes dec" where
  "decode_ipv6 = decode_byte_array 16"

definition encode_ip_addr :: "('w, 'e) write_all \<Rightarrow> ip_addr \<Rightarrow> ('w, 'e) enc" where
  "encode_ip_addr wr x =
     (case x of IpV4 a \<Rightarrow> encode_variant wr 0 (encode_ipv4 wr a)
      | IpV6 a \<Rightarrow> encode_variant wr 1 (encode_ipv6 wr a))"

definition len_ip_addr :: "ip_addr \<Rightarrow> usize" where
  "len_ip_addr x = 1 + (case x of IpV4 a \<Rightarrow> 1 + len_ipv4 a | IpV6 a \<Rightarrow> 1 + len_ipv6 a)"

definition decode_ip_addr :: "ip_addr dec" where
  "decode_ip_addr = decode_variant (\<lambda>i p.
     if i = 0 then map_m IpV4 decode_ipv4
     else if i = 1 then map_m IpV6 decode_ipv6
     else fail_m (err_at p (unknown_variant i)))"

definition encode_socket_v4 :: "('w, 'e) write_all \<Rightarrow> socket_addr_v4 \<Rightarrow> ('w, 'e) enc" where
  "encode_socket_v4 wr x = encode_struct2 wr (encode_ipv4 wr) (enc_u16 wr) (v4_ip x, v4_port x)"

definition len_socket_v4 :: "socket_addr_v4 \<Rightarrow> usize" where
  "len_socket_v4 x = 1 + len_ipv4 (v4_ip x) + len_u16 (v4_port x)"

definition decode_socket_v4 :: "socket_addr_v4 dec" where
  "decode_socket_v4 = map_m (\<lambda>(ip, port). \<lparr>v4_ip = ip, v4_port = port\<rparr>)
     (decode_fields2 ''SocketAddrV4::ip'' decode_ipv4 ''SocketAddrV4::port'' dec_u16)"

definition encode_socket_v6 :: "('w, 'e) write_all \<Rightarrow> socket_addr_v6 \<Rightarrow> ('w, 'e) enc" where
  "encode_socket_v6 wr x = encode_struct2 wr (encode_ipv6 wr) (enc_u16 wr) (v6_ip x, v6_port x)"

definition len_socket_v6 :: "socket_addr_v6 \<Rightarrow> usize" where
  "len_socket_v6 x = 1 + len_ipv6 (v6_ip x) + len_u16 (v6_port x)"

definition decode_socket_v6 :: "socket_addr_v6 dec" where
  "decode_socket_v6 =
     map_m (\<lambda>(ip, port). \<lparr>v6_ip = ip, v6_port = port, v6_flowinfo = 0, v6_scope_id = 0\<rparr>)
       (decode_fields2 ''SocketAddrV6::ip'' decode_ipv6 ''SocketAddrV6::port'' dec_u16)"

definition encode_socket_addr :: "('w, 'e) write_all \<Rightarrow> socket_addr \<Rightarrow> ('w, 'e) enc" where
  "encode_socket_addr wr x =
     (case x of SocketV4 a \<Rightarrow> encode_variant wr 0 (encode_socket_v4 wr a)
      | SocketV6 a \<Rightarrow> encode_variant wr 1 (encode_socket_v6 wr a))"

definition len_socket_addr :: "socket_addr \<Rightarrow> usize" where
  "len_socket_addr x = 1 + (case x of SocketV4 a \<Rightarrow> 1 + len_socket_v4 a | SocketV6 a \<Rightarrow> 1 + len_socket_v6 a)"

definition decode_socket_addr :: "socket_addr dec" where
  "decode_socket_addr = decode_variant (\<lambda>i p.
     if i = 0 then map_m SocketV4 decode_socket_v4
     else if i = 1 then map_m SocketV6 decode_socket_v6
     else fail_m (err_at p (unknown_variant i)))"

section \<open>Ranges and bounds\<close>

text \<open>A range is its start and its end, an open range the one end it has.\<close>

definition encode_range ::
  "('w, 'e) write_all \<Rightarrow> ('a \<Rightarrow> ('w, 'e) enc) \<Rightarrow> 'a \<times> 'a \<Rightarrow> ('w, 'e) enc" where
  "encode_range wr enc x = encode_struct2 wr enc enc x"

definition len_range :: "('a \<Rightarrow> usize) \<Rightarrow> 'a \<times> 'a \<Rightarrow> usize" where
  "len_range len x = len_struct2 len len x"

definition decode_range :: "'a dec \<Rightarrow> ('a \<times> 'a) dec" where
  "decode_range m = decode_fields2 ''Range::start'' m ''Range::end'' m"

definition encode_open_range ::
  "('w, 'e) write_all \<Rightarrow> ('a \<Rightarrow> ('w, 'e) enc) \<Rightarrow> 'a \<Rightarrow> ('w, 'e) enc" where
  "encode_open_range wr enc x = seq_m (enc_array wr 1) (enc x)"

definition len_open_range :: "('a \<Rightarrow> usize) \<Rightarrow> 'a \<Rightarrow> usize" where
  "len_open_range len x = 1 + len x"

definition decode_range_from :: "'a dec \<Rightarrow> 'a dec" where
  "decode_range_from m = decode_fields1 ''RangeFrom::start'' m"

definition decode_range_to :: "'a dec \<Rightarrow> 'a dec" where
  "decode_range_to m = decode_fields1 ''RangeTo::end'' m"

definition decode_range_to_inclusive :: "'a dec \<Rightarrow> 'a dec" where
  "decode_range_to_inclusive m = decode_fields1 ''RangeToInclusive::end'' m"

definition encode_range_inclusive ::
  "('w, 'e) write_all \<Rightarrow> ('a \<Rightarrow> ('w, 'e) enc) \<Rightarrow> 'a \<times> 'a \<Rightarrow> ('w, 'e) enc" where
  "encode_range_inclusive wr enc x = encode_struct2 wr enc enc x"

definition len_range_inclusive :: "('a \<Rightarrow> usize) \<Rightarrow> 'a \<times> 'a \<Rightarrow> usize" where
  "len_range_inclusive len x = len_struct2 len len x"

definition decode_range_inclusive :: "'a dec \<Rightarrow> ('a \<times> 'a) dec" where
  "decode_range_inclusive m = decode_fields2 ''RangeInclusive::start'' m ''RangeInclusive::end'' m"

datatype 'a range_bound = Included 'a | Excluded 'a | Unbounded

definition encode_bound ::
  "('w, 'e) write_all \<Rightarrow> ('a \<Rightarrow> ('w, 'e) enc) \<Rightarrow> 'a range_bound \<Rightarrow> ('w, 'e) enc" where
  "encode_bound wr enc x =
     (case x of Included v \<Rightarrow> encode_variant wr 0 (enc v)
      | Excluded v \<Rightarrow> encode_variant wr 1 (enc v)
      | Unbounded \<Rightarrow> encode_variant wr 2 (enc_array wr 0))"

definition len_bound :: "('a \<Rightarrow> usize) \<Rightarrow> 'a range_bound \<Rightarrow> usize" where
  "len_bound len x =
     1 + (case x of Included v \<Rightarrow> 1 + len v | Excluded v \<Rightarrow> 1 + len v | Unbounded \<Rightarrow> 2)"

definition decode_bound :: "'a dec \<Rightarrow> 'a range_bound dec" where
  "decode_bound m = decode_variant (\<lambda>i p.
     if i = 0 then map_m Included m
     else if i = 1 then map_m Excluded m
     else if i = 2 then map_m (\<lambda>_. Unbounded) dec_skip
     else fail_m (err_at p (unknown_variant i)))"

section \<open>Encodable iterators and the crate's functions\<close>

text \<open>
  \<open>ArrayIter\<close> and \<open>MapIter\<close>: \<open>hint\<close> is the iterator's size hint, \<open>xs\<close> what it yields.
\<close>

definition encode_array_iter ::
  "('w, 'e) write_all \<Rightarrow> ('a \<Rightarrow> ('w, 'e) enc) \<Rightarrow> usize \<times> usize option \<Rightarrow> 'a list \<Rightarrow> ('w, 'e) enc" where
  "encode_array_iter wr enc hint xs =
     (let exact = (Some (fst hint) = snd hint) in
      seq_m (if exact then enc_array wr (of_nat (fst hint)) else enc_begin_array wr)
        (seq_m (encode_each enc xs) (if exact then enc_ok else enc_end wr)))"

definition encode_map_iter ::
  "('w, 'e) write_all \<Rightarrow> ('k \<Rightarrow> ('w, 'e) enc) \<Rightarrow> ('v \<Rightarrow> ('w, 'e) enc) \<Rightarrow> usize \<times> usize option \<Rightarrow>
     ('k \<times> 'v) list \<Rightarrow> ('w, 'e) enc" where
  "encode_map_iter wr enc_k enc_v hint kvs =
     (let exact = (Some (fst hint) = snd hint) in
      seq_m (if exact then enc_map wr (of_nat (fst hint)) else enc_begin_map wr)
        (seq_m (encode_each (encode_entry enc_k enc_v) kvs) (if exact then enc_ok else enc_end wr)))"

text \<open>The functions of \<open>lib.rs\<close>.\<close>

definition minicbor_decode :: "'a dec \<Rightarrow> bytes \<Rightarrow> decode_error + 'a" where
  "minicbor_decode m b = fst (m (dec_new b))"

definition minicbor_encode :: "('a \<Rightarrow> ('w, 'e) enc) \<Rightarrow> 'a \<Rightarrow> ('w, 'e) enc" where
  "minicbor_encode enc x = seq_m (enc x) enc_ok"

definition to_vec :: "('a \<Rightarrow> (bytes, infallible) enc) \<Rightarrow> 'a \<Rightarrow> infallible enc_error + bytes" where
  "to_vec enc x = (case enc x [] of (Inl e, _) \<Rightarrow> Inl e | (Inr _, v) \<Rightarrow> Inr v)"

definition minicbor_len :: "('a \<Rightarrow> usize) \<Rightarrow> 'a \<Rightarrow> usize" where
  "minicbor_len len x = len x"

end
