(* ===== verification/Cbor_Codec.thy ===== *)
theory Cbor_Codec
  imports Cbor_Types
begin

text \<open>
  The contract of the traits \<open>Encode\<close>, \<open>CborLen\<close> and \<open>Decode\<close>, as the locale \<open>codec\<close>: a value is
  encoded as an item of the announced length, which is decoded back. The basic types satisfy it, every
  generic implementation keeps it, and what cannot be decoded back is named.
\<close>

section \<open>The type of the next item\<close>

text \<open>\<open>peeks bs t\<close>: in front of \<open>bs\<close> the decoder reports the type \<open>t\<close>, whatever follows.\<close>

definition peeks :: "bytes \<Rightarrow> cbor_type \<Rightarrow> bool" where
  "peeks bs t \<longleftrightarrow> (\<forall>pre post. length (pre @ bs @ post) < usize_bound \<longrightarrow>
     dec_datatype (at_bytes pre (bs @ post)) = (Inr t, at_bytes pre (bs @ post)))"

lemma peeks_append: "peeks bs t \<Longrightarrow> peeks (bs @ cs) t"
  unfolding peeks_def by (metis append.assoc)

lemma peeksD:
  "peeks bs t \<Longrightarrow> length (pre @ bs @ post) < usize_bound \<Longrightarrow>
     dec_datatype (at_bytes pre (bs @ post)) = (Inr t, at_bytes pre (bs @ post))"
  unfolding peeks_def by blast

lemma peeks_first:
  "(\<And>d. dec_type_of b d = (Inr t, d)) \<Longrightarrow> peeks (b # bs) t"
  by (simp add: peeks_def dec_datatype_def run_simps)

lemma peeks_second:
  "(\<And>d. dec_peek d = (Inr c, d) \<Longrightarrow> dec_type_of b d = (Inr t, d)) \<Longrightarrow> peeks (b # c # bs) t"
  by (simp add: peeks_def dec_datatype_def run_simps dec_peek_def nth_append checked_add_def index_get_def)

definition typed :: "bytes \<Rightarrow> bool" where
  "typed bs \<longleftrightarrow> (\<exists>t. peeks bs t \<and> t \<noteq> TyBreak)"

definition typed_value :: "bytes \<Rightarrow> bool" where
  "typed_value bs \<longleftrightarrow> (\<exists>t. peeks bs t \<and> t \<noteq> TyBreak \<and> t \<noteq> TyNull)"

lemma typed_append: "typed bs \<Longrightarrow> typed (bs @ cs)" "typed_value bs \<Longrightarrow> typed_value (bs @ cs)"
  unfolding typed_def typed_value_def using peeks_append by blast+

lemma typed_value_typed: "typed_value bs \<Longrightarrow> typed bs"
  unfolding typed_def typed_value_def by blast

lemma typed_starts_item:
  assumes "typed bs" "length bs < usize_bound" shows "starts_item bs"
proof -
  from assms(1) obtain t where t: "peeks bs t" "t \<noteq> TyBreak" by (auto simp: typed_def)
  from peeksD [OF t(1), of "[]" "[]"] t(2) assms(2) show ?thesis
    by (cases bs) (auto simp: starts_item_def dec_datatype_def run_simps dec_current_def index_get_def
        dec_type_of_def)
qed

lemma plain_type:
  "b \<notin> {0x38, 0x39, 0x3a, 0x3b, 0xf6, 0xff} \<Longrightarrow>
     \<exists>t. (\<forall>d. dec_type_of b d = (Inr t, d)) \<and> t \<noteq> TyBreak \<and> t \<noteq> TyNull"
  by (simp add: dec_type_of_def run_simps)

lemma typed_plain: "b \<notin> {0x38, 0x39, 0x3a, 0x3b, 0xf6, 0xff} \<Longrightarrow> typed_value (b # bs)"
  unfolding typed_value_def using plain_type [of b] peeks_first by metis

lemma typed_second:
  "(\<And>d. dec_peek d = (Inr c, d) \<Longrightarrow> dec_type_of b d = (Inr t, d)) \<Longrightarrow> t \<notin> {TyBreak, TyNull} \<Longrightarrow>
     typed_value (b # c # bs)"
  unfolding typed_value_def using peeks_second [of c b t bs] by auto

lemma typed_signed: "b \<in> {0x38, 0x39, 0x3a, 0x3b} \<Longrightarrow> typed_value (b # c # bs)"
proof (elim insertE emptyE; hypsubst)
  show "typed_value (0x38 # c # bs)"
    by (rule typed_second [of _ _ "if c < 0x80 then TyI8 else TyI16"]) (auto simp: dec_type_of_def run_simps)
  show "typed_value (0x39 # c # bs)"
    by (rule typed_second [of _ _ "if c < 0x80 then TyI16 else TyI32"]) (auto simp: dec_type_of_def run_simps)
  show "typed_value (0x3a # c # bs)"
    by (rule typed_second [of _ _ "if c < 0x80 then TyI32 else TyI64"]) (auto simp: dec_type_of_def run_simps)
  show "typed_value (0x3b # c # bs)"
    by (rule typed_second [of _ _ "if c < 0x80 then TyI64 else TyInt"]) (auto simp: dec_type_of_def run_simps)
qed

lemma typed_head:
  assumes h: "is_head t n bs" and t: "is_major t" "t \<noteq> SIMPLE"
  shows "typed_value bs"
proof -
  from h obtain i cs where b: "bs = (t OR of_nat i) # cs" "is_arg i n cs" "i < 28" by (rule head_cases)
  let ?b = "t OR of_nat i :: u8"
  have parts: "type_of ?b = t" "info_of ?b = of_nat i" using head_byte_parts [OF t(1), of i] b(3) by auto
  have "unat (info_of ?b) = i" using b(3) by (simp add: parts unsigned_of_nat take_bit_nat_eq_self)
  then have i: "?b \<in> {0x38, 0x39, 0x3a, 0x3b} \<Longrightarrow> 24 \<le> i" by (auto simp: info_of_def)
  show ?thesis
  proof (cases "?b \<in> {0x38, 0x39, 0x3a, 0x3b}")
    case True
    have "length cs \<noteq> 0" using b(2) i [OF True] by cases simp_all
    then obtain c ds where "cs = c # ds" by (cases cs) simp_all
    with True b(1) show ?thesis using typed_signed by metis
  next
    case False
    have "type_of ?b \<noteq> 0xe0" using t parts(1) by simp
    then have "?b \<noteq> 0xf6" "?b \<noteq> 0xff" by (auto simp: type_of_def)
    with False b(1) show ?thesis using typed_plain by auto
  qed
qed

section \<open>Announced lengths\<close>

lemma length_head:
  "length (head_bytes t n) =
     (if n < 24 then 1 else if n < 2 ^ 8 then 2 else if n < 2 ^ 16 then 3 else if n < 2 ^ 32 then 5 else 9)"
  by (simp add: head_bytes_def)

lemma len_unsigned:
  "length (head_bytes t (unat a)) = len_u8 a" "length (head_bytes t (unat b)) = len_u16 b"
  "length (head_bytes t (unat c)) = len_u32 c" "length (head_bytes t (unat d)) = len_u64 d"
  using unat_lt [of a] unat_lt [of b] unat_lt [of c]
  by (simp_all add: length_head len_u8_def len_u16_def len_u32_def len_u64_def word_le_nat_alt)

lemma len_signed:
  "length (int_head (sint a)) = len_i8 a" "length (int_head (sint b)) = len_i16 b"
  "length (int_head (sint c)) = len_i32 c" "length (int_head (sint d)) = len_i64 d"
  by (simp_all add: len_i8_def len_i16_def len_i32_def len_i64_def int_head_sint_nonneg int_head_sint_neg
      len_unsigned not_le)

section \<open>The contract\<close>

text \<open>
  \<open>carries T enc len m x y\<close>: \<open>x\<close> is encoded as an item with the property \<open>T\<close>, of the announced length,
  which the decoder \<open>m\<close> reads as \<open>y\<close> wherever it stands.
\<close>

definition carries ::
  "(bytes \<Rightarrow> bool) \<Rightarrow> ('a \<Rightarrow> (bytes, infallible) enc) \<Rightarrow> ('a \<Rightarrow> usize) \<Rightarrow> 'b dec \<Rightarrow> 'a \<Rightarrow> 'b \<Rightarrow> bool" where
  "carries T enc len m x y \<longleftrightarrow> (\<exists>bs. vec_sink.emits (enc x) bs \<and> length bs = len x \<and>
     (length bs < usize_bound \<longrightarrow> T bs \<and> reads m bs y))"

lemma carriesI:
  "vec_sink.emits (enc x) bs \<Longrightarrow> length bs = len x \<Longrightarrow> (length bs < usize_bound \<Longrightarrow> T bs) \<Longrightarrow>
     (length bs < usize_bound \<Longrightarrow> reads m bs y) \<Longrightarrow> carries T enc len m x y"
  unfolding carries_def by blast

lemma carriesE:
  assumes "carries T enc len m x y"
  obtains bs where "vec_sink.emits (enc x) bs" "length bs = len x" "length bs < usize_bound \<longrightarrow> T bs"
    "length bs < usize_bound \<longrightarrow> reads m bs y"
  using assms unfolding carries_def by blast

lemma carries_payload:
  assumes "carries T enc len m x y"
  obtains bs where "vec_sink.emits (enc x) bs" "length bs = len x" "length bs < usize_bound \<longrightarrow> reads m bs y"
  using assms unfolding carries_def by blast

lemma carries_map: "carries T enc len m x y \<Longrightarrow> carries T enc len (map_m f m) x (f y)"
  by (elim carriesE, intro carriesI) (auto intro: reads_map)

lemma carries_typed: "carries typed_value enc len m x y \<Longrightarrow> carries typed enc len m x y"
  by (elim carriesE, intro carriesI) (auto intro: typed_value_typed)

locale codec =
  fixes enc :: "'a \<Rightarrow> (bytes, infallible) enc"
    and len :: "'a \<Rightarrow> usize"
    and m :: "'a dec"
    and ok :: "'a \<Rightarrow> bool"
  assumes carried: "ok x \<Longrightarrow> carries typed enc len m x x"

text \<open>Types whose values never look like \<open>null\<close>.\<close>

locale value_codec =
  fixes enc :: "'a \<Rightarrow> (bytes, infallible) enc"
    and len :: "'a \<Rightarrow> usize"
    and m :: "'a dec"
    and ok :: "'a \<Rightarrow> bool"
  assumes value_carried: "ok x \<Longrightarrow> carries typed_value enc len m x x"

sublocale value_codec \<subseteq> codec
  by unfold_locales (rule carries_typed [OF value_carried])

lemma value_codec_codec: "value_codec enc len m ok \<Longrightarrow> codec enc len m ok"
  by (simp add: value_codec_def codec_def carries_typed)

section \<open>Basic types\<close>

lemma typed_head_bytes [simp]:
  "n < 2 ^ 64 \<Longrightarrow> t \<in> {0, 0x20, 0x40, 0x60, 0x80, 0xa0, 0xc0} \<Longrightarrow> typed_value (head_bytes t n)"
  by (rule typed_head [OF is_head_head_bytes]) (auto simp: is_major_def)

lemma typed_int_head: "is_int_head k bs \<Longrightarrow> typed_value bs"
  by (auto simp: is_int_head_def is_major_def intro: typed_head split: if_splits)

lemma carries_uint:
  assumes "LENGTH('a) \<le> 64" "vec_sink.emits (enc x) (head_bytes 0 (unat (x :: 'a::len word)))"
    "length (head_bytes 0 (unat x)) = len x" "reads m (int_head (uint x)) x"
  shows "carries typed_value enc len m x x"
  using assms typed_int_head [OF canonical_bounds(1) [OF assms(1), of x]]
  by (intro carriesI) (simp_all add: int_head_uint)

lemma carries_sint:
  assumes "LENGTH('a) \<le> 64" "vec_sink.emits (enc x) (int_head (sint (x :: 'a::len word)))"
    "length (int_head (sint x)) = len x" "reads m (int_head (sint x)) x"
  shows "carries typed_value enc len m x x"
  using assms typed_int_head [OF canonical_bounds(2) [OF assms(1), of x]] by (intro carriesI) simp_all

lemma carries_integers:
  "carries typed_value (enc_u8 vec_write_all) len_u8 dec_u8 a a"
  "carries typed_value (enc_u16 vec_write_all) len_u16 dec_u16 b b"
  "carries typed_value (enc_u32 vec_write_all) len_u32 dec_u32 c c"
  "carries typed_value (enc_u64 vec_write_all) len_u64 dec_u64 d d"
  "carries typed_value (enc_i8 vec_write_all) len_i8 dec_i8 a a"
  "carries typed_value (enc_i16 vec_write_all) len_i16 dec_i16 b b"
  "carries typed_value (enc_i32 vec_write_all) len_i32 dec_i32 c c"
  "carries typed_value (enc_i64 vec_write_all) len_i64 dec_i64 d d"
  by ((rule carries_uint carries_sint,
      auto intro: vec_sink.emits_intros reads_int_head simp: len_unsigned len_signed)[1])+


lemma yields_then: "reads m bs x \<Longrightarrow> yields (f x) [] (\<lambda>_. r) \<Longrightarrow> yields (bind_m m f) bs (\<lambda>_. r)"
  using yields_bind [of m bs x f "[]" r] by simp

lemma carries_head:
  assumes "vec_sink.emits (enc x) (head_bytes t n)" "n < 2 ^ 64" "t \<in> {0, 0x20, 0x40, 0x60, 0x80, 0xa0, 0xc0}"
    "length (head_bytes t n) = len x" "reads m (head_bytes t n) y"
  shows "carries typed_value enc len m x y"
  by (rule carriesI [where enc = enc, OF assms(1)]) (use assms in simp_all)

lemma carries_bytes_like:
  assumes "vec_sink.emits (enc x) (head_bytes t (unat (of_nat (length s) :: u64)) @ s)"
    "t \<in> {0x40, 0x60}" "len_usize (length s) + length s = len x"
    "\<And>bs. is_head t (length s) bs \<Longrightarrow> reads m (bs @ s) y"
  shows "carries typed_value enc len m x y"
proof (rule carriesI [where enc = enc, OF assms(1)])
  let ?h = "head_bytes t (unat (of_nat (length s) :: u64))"
  show "length (?h @ s) = len x" using assms(3) by (simp add: len_unsigned len_usize_def)
  show "typed_value (?h @ s)"
    using assms(2) unat_lt [of "of_nat (length s) :: u64"] by (intro typed_append(2) typed_head_bytes) auto
  assume "length (?h @ s) < usize_bound"
  then have "length s < 2 ^ 64" by (simp add: usize_bound_def)
  then show "reads m (?h @ s) y" by (intro assms(4)) (simp add: unat_of_nat_u64 is_head_head_bytes)
qed

lemma carries_strings:
  "valid_utf8 s \<Longrightarrow> carries typed_value (enc_str vec_write_all) len_str dec_str s s"
  "valid_utf8 s \<Longrightarrow> carries typed_value (encode_path vec_write_all) len_path dec_str s s"
  "carries typed_value (encode_byte_slice vec_write_all) len_byte_slice decode_byte_slice s s"
  "carries typed_value (encode_byte_vec vec_write_all) len_byte_vec decode_byte_vec s s"
  unfolding encode_byte_slice_def encode_byte_vec_def decode_byte_slice_def decode_byte_vec_def
  by (rule carries_bytes_like [where t = "0x60" and s = s] carries_bytes_like [where t = "0x40" and s = s];
      use vec_sink.emits_str [of s] vec_sink.emits_bytes [of s] reads_str reads_bytes in
      \<open>simp add: len_str_def len_path_def len_byte_slice_def len_byte_vec_def encode_path_def\<close>)+

lemma carries_cstr:
  assumes "0 \<notin> set s"
  shows "carries typed_value (encode_cstr vec_write_all) len_cstr decode_cstr s s"
proof (rule carries_bytes_like [where t = "0x40" and s = "s @ [0]"])
  show "vec_sink.emits (encode_cstr vec_write_all s) (head_bytes 0x40 (unat (of_nat (length (s @ [0])) :: u64)) @ s @ [0])"
    unfolding encode_cstr_def using vec_sink.emits_bytes [of "s @ [0]"] by simp
  fix bs assume "is_head 0x40 (length (s @ [0])) bs"
  then have r: "reads dec_bytes (bs @ s @ [0]) (s @ [0])" using reads_bytes [of "s @ [0]"] by simp
  have "reads (res_m (ok_or (err_at p (err_message ''invalid c-string'')) (from_bytes_with_nul (s @ [0])))) [] s" for p
    using yields_res [of "Inr s"] assms by (simp add: from_bytes_with_nul_def)
  with r show "reads decode_cstr (bs @ s @ [0]) s"
    unfolding decode_cstr_def by (intro yields_with_pos) (rule yields_then)
qed (simp_all add: len_cstr_def)

lemma carries_byte_array:
  assumes "length s = n"
  shows "carries typed_value (encode_byte_array n vec_write_all) (len_byte_array n) (decode_byte_array n) s s"
proof (rule carries_bytes_like [where t = "0x40" and s = s])
  show "vec_sink.emits (encode_byte_array n vec_write_all s) (head_bytes 0x40 (unat (of_nat (length s) :: u64)) @ s)"
    unfolding encode_byte_array_def using vec_sink.emits_bytes [of s] by simp
  fix bs assume "is_head 0x40 (length s) bs"
  then have r: "reads dec_bytes (bs @ s) s" using reads_bytes [of s] by simp
  then show "reads (decode_byte_array n) (bs @ s) s"
    unfolding decode_byte_array_def by (intro yields_with_pos, rule yields_then) (simp add: assms reads_ret)
qed (simp_all add: len_byte_array_def assms)

lemma carries_scalars:
  "carries typed_value (enc_bool vec_write_all) len_bool dec_bool b b"
  "carries typed_value (enc_f32 vec_write_all) len_f32 (dec_f32 h) f f"
  "carries typed_value (enc_f64 vec_write_all) len_f64 (dec_f64 h) g g"
  by (rule carriesI [OF vec_sink.emits_bool] carriesI [OF vec_sink.emits_f32] carriesI [OF vec_sink.emits_f64];
      use reads_floats reads_one_byte in \<open>simp add: len_bool_def len_f32_def len_f64_def typed_plain\<close>)+

lemma carries_usize:
  "n < usize_bound \<Longrightarrow> carries typed_value (encode_usize vec_write_all) len_usize decode_usize n n"
  unfolding decode_usize_def
  using carries_map [OF carries_integers(4) [of "of_nat n"], of unat]
  by (simp add: carries_def encode_usize_def len_usize_def usize_bound_def unat_of_nat_u64)

lemma carries_char:
  assumes "char_from_u32 c = Some c"
  shows "carries typed_value (enc_char vec_write_all) len_char dec_char c c"
proof (rule carries_head [where t = 0 and n = "unat c"])
  show "reads dec_char (head_bytes 0 (unat c)) c"
    unfolding dec_char_def
    by (intro yields_with_pos yields_then [OF reads_int_head(3) [unfolded int_head_uint]])
      (use assms yields_res in fastforce)
qed (use vec_sink.emits_u32 [of c] unat_lt [of c] in \<open>simp_all add: enc_char_def len_char_def len_unsigned\<close>)

lemma carries_tag: "carries typed_value (enc_tag vec_write_all) len_tag dec_tag t t"
proof (rule carries_head [where t = "0xc0" and n = "unat (tag_as_u64 t)"])
  show "reads dec_tag (head_bytes 0xc0 (unat (tag_as_u64 t))) t"
    using reads_tag [OF is_head_head_bytes, of "unat (tag_as_u64 t)"] unat_lt [of "tag_as_u64 t"]
    by (cases t) (simp add: tag_new_def)
qed (use vec_sink.emits_type_len [of "0xc0" "tag_as_u64 t"] unat_lt [of "tag_as_u64 t"] in
  \<open>simp_all add: enc_tag_def len_tag_def len_unsigned\<close>)

lemma carries_int: "carries typed_value (enc_int vec_write_all) len_int dec_int i i"
  by (rule carriesI [OF vec_sink.emits_int])
    (use reads_int_head_int int_value_range [of i] typed_int_head [OF is_int_head_canonical, of "int_value i"] in
      \<open>simp_all add: len_int_def int_head_int_value len_unsigned\<close>)


section \<open>Structures, variants and tags\<close>

lemma emits_array: "vec_sink.emits (enc_array vec_write_all n) (head_bytes 0x80 (unat n))"
  using vec_sink.emits_type_len [of ARRAY n] by (simp add: enc_array_def)

lemma emits_array_small: "vec_sink.emits (enc_array vec_write_all 0) [0x80]"
  "vec_sink.emits (enc_array vec_write_all 1) [0x81]" "vec_sink.emits (enc_array vec_write_all 2) [0x82]"
  using emits_array [of 0] emits_array [of 1] emits_array [of 2] by (simp_all add: head_bytes_def)

lemma reads_array_small:
  "reads dec_array [0x80] (Some 0)" "reads dec_array [0x81] (Some 1)" "reads dec_array [0x82] (Some 2)"
  using reads_array [OF is_head_head_bytes, of 0] reads_array [OF is_head_head_bytes, of 1]
    reads_array [OF is_head_head_bytes, of 2] by (simp_all add: head_bytes_def)

lemma reads_fields2:
  assumes "reads m1 bs x" "reads m2 cs y"
  shows "reads (decode_fields2 msg1 m1 msg2 m2) ([0x82] @ bs @ cs) (x, y)"
proof -
  have s: "reads (step2 m1 m2 0 (None, None)) bs (Some x, None)"
    "reads (step2 m1 m2 1 (Some x, None)) cs (Some x, Some y)"
    using reads_map [OF assms(1), of "\<lambda>x. (Some x, None)"] reads_map [OF assms(2), of "\<lambda>y. (Some x, Some y)"]
    by (simp_all add: step2_def)
  have f: "reads (bind_m (field_value p 0 msg1 (Some x)) (\<lambda>x. map_m (Pair x) (field_value p 1 msg2 (Some y)))) [] (x, y)" for p
    by (simp add: yields_def run_simps field_value_def)
  have "reads (fields_def 2 (step2 m1 m2) 0 2 (None, None)) (bs @ cs) (Some x, Some y)"
    by (simp add: numeral_2_eq_2, rule yields_bind, rule s(1))
      (simp, rule yields_then, rule s(2) [unfolded One_nat_def], simp add: reads_ret)
  then show ?thesis
    unfolding decode_fields2_def decode_fields_def using f
    by (intro yields_with_pos yields_bind [OF reads_array_small(3)]) (auto intro: yields_then)
qed

lemma reads_fields1:
  assumes "reads m bs x" shows "reads (decode_fields1 msg m) ([0x81] @ bs) x"
proof -
  have "reads (step1 m 0 None) bs (Some x)" using reads_map [OF assms, of Some] by (simp add: step1_def)
  then have "reads (fields_def 1 (step1 m) 0 (unat (1::u64)) None) bs (Some x)"
    by simp (erule yields_then, simp add: reads_ret)
  moreover have "reads (field_value p 0 msg (Some x)) [] x" for p
    by (simp add: yields_def run_simps field_value_def)
  ultimately show ?thesis
    unfolding decode_fields1_def decode_fields_def
    by (intro yields_with_pos yields_bind [OF reads_array_small(2)]) (auto intro: yields_then)
qed

lemma carries_struct2:
  assumes "carries T e1 l1 m1 x a" "carries U e2 l2 m2 y b"
  shows "carries typed_value (encode_struct2 vec_write_all e1 e2) (len_struct2 l1 l2)
     (decode_fields2 msg1 m1 msg2 m2) (x, y) (a, b)"
proof -
  from assms(1) obtain bs where b: "vec_sink.emits (e1 x) bs" "length bs = l1 x" "length bs < usize_bound \<longrightarrow> reads m1 bs a"
    by (rule carries_payload)
  from assms(2) obtain cs where c: "vec_sink.emits (e2 y) cs" "length cs = l2 y" "length cs < usize_bound \<longrightarrow> reads m2 cs b"
    by (rule carries_payload)
  show ?thesis
  proof (rule carriesI)
    show "vec_sink.emits (encode_struct2 vec_write_all e1 e2 (x, y)) ([0x82] @ bs @ cs)"
      unfolding encode_struct2_def using b(1) c(1) by (intro vec_sink.emits_seq emits_array_small) simp_all
    show "length ([0x82] @ bs @ cs) < usize_bound \<Longrightarrow>
        reads (decode_fields2 msg1 m1 msg2 m2) ([0x82] @ bs @ cs) (a, b)"
      using b(3) c(3) by (intro reads_fields2) auto
  qed (use b c in \<open>simp_all add: len_struct2_def typed_plain\<close>)
qed

lemma carries_open_range:
  assumes "carries T e l m x a"
  shows "carries typed_value (encode_open_range vec_write_all e) (len_open_range l) (decode_fields1 msg m) x a"
proof -
  from assms obtain bs where b: "vec_sink.emits (e x) bs" "length bs = l x" "length bs < usize_bound \<longrightarrow> reads m bs a"
    by (rule carries_payload)
  show ?thesis
  proof (rule carriesI)
    show "vec_sink.emits (encode_open_range vec_write_all e x) ([0x81] @ bs)"
      unfolding encode_open_range_def using b(1) by (intro vec_sink.emits_seq emits_array_small)
    show "length ([0x81] @ bs) < usize_bound \<Longrightarrow> reads (decode_fields1 msg m) ([0x81] @ bs) a"
      using b(3) by (intro reads_fields1) auto
  qed (use b in \<open>simp_all add: len_open_range_def typed_plain\<close>)
qed

lemma reads_variant:
  assumes "n \<in> {0, 1, 2}" "\<And>p. reads (k (ucast (n :: u32)) p) bs x"
  shows "reads (decode_variant k) ([0x82, ucast n] @ bs) x"
proof -
  have i: "reads dec_i64 [ucast n] (ucast n)"
    using reads_int_head(8) [of "ucast n"] assms(1) by (auto simp: int_head_def head_bytes_def)
  have "reads (with_pos (\<lambda>p. bind_m dec_i64 (\<lambda>i. k i p))) ([ucast n] @ bs) x"
    by (intro yields_with_pos yields_bind [OF i] assms(2))
  then have "reads (decode_variant k) ([0x82] @ [ucast n] @ bs) x"
    unfolding decode_variant_def by (intro yields_with_pos yields_bind [OF reads_array_small(3)]) simp
  then show ?thesis by simp
qed

lemma carries_variant:
  assumes c: "carries T e l m y z" and n: "n \<in> {0, 1, 2}"
    and "enc x = encode_variant vec_write_all n (e y)" "len x = 2 + l y" "\<And>p. k (ucast n) p = map_m f m"
  shows "carries typed_value enc len (decode_variant k) x (f z)"
proof -
  from c obtain bs where b: "vec_sink.emits (e y) bs" "length bs = l y" "length bs < usize_bound \<longrightarrow> reads m bs z"
    by (rule carries_payload)
  have h: "head_bytes 0 (unat n) = [ucast n]" using n by (auto simp: head_bytes_def)
  show ?thesis
  proof (rule carriesI)
    have "vec_sink.emits (enc x) ([0x82] @ [ucast n] @ bs)"
      unfolding assms(3) encode_variant_def
      by (intro vec_sink.emits_seq emits_array_small b(1) vec_sink.emits_u32 [of n, unfolded h])
    then show "vec_sink.emits (enc x) ([0x82, ucast n] @ bs)" by simp
    assume "length ([0x82, ucast n] @ bs) < usize_bound"
    then have "reads m bs z" using b(3) by simp
    then show "reads (decode_variant k) ([0x82, ucast n] @ bs) (f z)"
      by (intro reads_variant [OF n]) (simp add: assms(5) reads_map)
  qed (simp_all add: b(2) assms(4) typed_plain)
qed

lemma carries_result:
  "carries T e1 l1 m1 x a \<Longrightarrow> carries typed_value (encode_result vec_write_all e1 e2) (len_result l1 l2)
     (decode_result m1 m2) (Inr x) (Inr a)"
  "carries T e2 l2 m2 y b \<Longrightarrow> carries typed_value (encode_result vec_write_all e1 e2) (len_result l1 l2)
     (decode_result m1 m2) (Inl y) (Inl b)"
  unfolding decode_result_def
  by (rule carries_variant [where n = 0] carries_variant [where n = 1];
      simp add: encode_result_def len_result_def)+

lemma carries_bound:
  "carries T e l m x a \<Longrightarrow> carries typed_value (encode_bound vec_write_all e) (len_bound l) (decode_bound m)
     (Included x) (Included a)"
  "carries T e l m x a \<Longrightarrow> carries typed_value (encode_bound vec_write_all e) (len_bound l) (decode_bound m)
     (Excluded x) (Excluded a)"
  "carries typed_value (encode_bound vec_write_all e) (len_bound l) (decode_bound m) Unbounded Unbounded"
proof -
  have "encodes (CArray []) [0x80]"
    using enc_list [OF is_head_head_bytes enc_seq_nil] by (simp add: head_bytes_def)
  from reads_skip [OF this]
  have u: "carries (\<lambda>_. True) (\<lambda>_. enc_array vec_write_all 0) (\<lambda>_. 1) dec_skip () ()"
    by (intro carriesI [where bs = "[0x80]"] emits_array_small) simp_all
  show "carries typed_value (encode_bound vec_write_all e) (len_bound l) (decode_bound m) Unbounded Unbounded"
    unfolding decode_bound_def
    by (rule carries_variant [OF u, where n = 2 and f = "\<lambda>_. Unbounded"]) (simp_all add: encode_bound_def len_bound_def)
qed (unfold decode_bound_def, rule carries_variant [where n = 0] carries_variant [where n = 1];
    simp add: encode_bound_def len_bound_def)+

lemma carries_tagged:
  assumes "carries T e l m x a"
  shows "carries typed_value (encode_tagged vec_write_all n e) (len_tagged n l) (decode_tagged n m) x a"
proof -
  from assms obtain bs where b: "vec_sink.emits (e x) bs" "length bs = l x" "length bs < usize_bound \<longrightarrow> reads m bs a"
    by (rule carries_payload)
  from carries_tag [of "tag_new n"] obtain h where h: "vec_sink.emits (enc_tag vec_write_all (tag_new n)) h"
    "length h = len_tag (tag_new n)" "length h < usize_bound \<longrightarrow> typed_value h"
    "length h < usize_bound \<longrightarrow> reads dec_tag h (tag_new n)"
    by (rule carriesE)
  show ?thesis
  proof (rule carriesI)
    show "vec_sink.emits (encode_tagged vec_write_all n e x) (h @ bs)"
      unfolding encode_tagged_def by (intro vec_sink.emits_seq h b)
    assume len: "length (h @ bs) < usize_bound"
    then show "typed_value (h @ bs)" using h(3) by (intro typed_append) simp
    from len show "reads (decode_tagged n m) (h @ bs) a"
      unfolding decode_tagged_def using b(3) h(4)
      by (intro yields_with_pos yields_bind [of _ _ "tag_new n"]) (simp_all add: tag_new_def)
  qed (simp add: h(2) b(2) len_tagged_def)
qed


section \<open>Options, units and non-zero numbers\<close>

lemma peeks_null: "peeks [0xf6] TyNull"
  by (rule peeks_first) (simp add: dec_type_of_def run_simps)

lemma encodes_null: "encodes (CSimple 22) [0xf6]"
  using enc_simple_short [of 22] by simp

lemma yields_typed:
  assumes "peeks bs t" "yields (f t) bs r" shows "yields (bind_m dec_datatype f) bs r"
  using assms by (simp add: yields_def peeks_def run_simps)

lemma reads_option:
  "typed_value bs \<Longrightarrow> reads m bs x \<Longrightarrow> reads (decode_option m) bs (Some x)"
  "reads (decode_option m) [0xf6] None"
proof -
  assume a: "typed_value bs" "reads m bs x"
  then obtain t where t: "peeks bs t" "t \<noteq> TyNull" by (auto simp: typed_value_def)
  show "reads (decode_option m) bs (Some x)"
    unfolding decode_option_def by (rule yields_typed [OF t(1)]) (simp add: t(2) reads_map a(2))
next
  show "reads (decode_option m) [0xf6] None"
    unfolding decode_option_def using reads_skip [OF encodes_null]
    by (intro yields_typed [OF peeks_null]) (simp add: reads_done)
qed

lemma typed_null: "typed [0xf6]"
  unfolding typed_def using peeks_null by blast

lemma carries_option:
  "carries typed_value e l m x a \<Longrightarrow>
     carries typed_value (encode_option vec_write_all e) (len_option l) (decode_option m) (Some x) (Some a)"
  "carries typed (encode_option vec_write_all e) (len_option l) (decode_option m) None None"
proof -
  assume "carries typed_value e l m x a"
  then obtain bs where "vec_sink.emits (e x) bs" "length bs = l x" "length bs < usize_bound \<longrightarrow> typed_value bs"
    "length bs < usize_bound \<longrightarrow> reads m bs a" by (rule carriesE)
  then show "carries typed_value (encode_option vec_write_all e) (len_option l) (decode_option m) (Some x) (Some a)"
    by (intro carriesI) (auto simp: encode_option_def len_option_def intro: reads_option)
next
  show "carries typed (encode_option vec_write_all e) (len_option l) (decode_option m) None None"
    using vec_sink.emits_put [of "[0xf6]"]
    by (intro carriesI [where bs = "[0xf6]"])
      (simp_all add: encode_option_def len_option_def enc_null_def typed_null reads_option)
qed

lemma carries_unit:
  "carries typed_value (encode_unit vec_write_all) len_unit (decode_empty msg) () ()"
proof (rule carriesI)
  show "vec_sink.emits (encode_unit vec_write_all ()) [0x80]"
    unfolding encode_unit_def by (rule emits_array_small)
  show "reads (decode_empty msg) [0x80] ()"
    unfolding decode_empty_def
    by (intro yields_with_pos yields_then [OF reads_array_small(1)]) (simp add: reads_ret)
qed (simp_all add: len_unit_def typed_plain)

lemma carries_nonzero:
  assumes "carries T e l m x x" "x \<noteq> 0"
  shows "carries T e l (decode_nonzero msg m) x x"
proof -
  from assms(1) obtain bs where "vec_sink.emits (e x) bs" "length bs = l x" "length bs < usize_bound \<longrightarrow> T bs"
    "length bs < usize_bound \<longrightarrow> reads m bs x" by (rule carriesE)
  then show ?thesis
    using assms(2) by (intro carriesI)
      (auto simp: decode_nonzero_def reads_ret intro!: yields_with_pos yields_then [of m bs x])
qed

section \<open>Sequences and maps\<close>

lemma emits_each:
  assumes "\<And>x. x \<in> set xs \<Longrightarrow> \<exists>bs. vec_sink.emits (enc x) bs \<and> length bs = len x \<and> (length bs < usize_bound \<longrightarrow> R x bs)"
  shows "\<exists>bss. vec_sink.emits (encode_each enc xs) (concat bss) \<and> length (concat bss) = sum_list (map len xs) \<and>
    (length (concat bss) < usize_bound \<longrightarrow> list_all2 R xs bss)"
  using assms
proof (induction xs)
  case Nil
  show ?case by (rule exI [of _ "[]"]) (simp add: enc_ok_def vec_sink.emits_ret)
next
  case (Cons x xs)
  then obtain bs where b: "vec_sink.emits (enc x) bs" "length bs = len x" "length bs < usize_bound \<longrightarrow> R x bs"
    by (metis list.set_intros(1))
  from Cons obtain bss where bss: "vec_sink.emits (encode_each enc xs) (concat bss)"
    "length (concat bss) = sum_list (map len xs)" "length (concat bss) < usize_bound \<longrightarrow> list_all2 R xs bss"
    by (metis list.set_intros(2))
  have "vec_sink.emits (encode_each enc (x # xs)) (concat (bs # bss))"
    using vec_sink.emits_seq [OF b(1) bss(1)] by simp
  with b bss show ?case by (intro exI [of _ "bs # bss"]) auto
qed

lemma elements_fit:
  assumes "list_all2 R xs bss" "\<And>x bs. R x bs \<Longrightarrow> length bs < usize_bound \<Longrightarrow> bs \<noteq> []" "length (concat bss) < usize_bound"
  shows "length xs \<le> length (concat bss)"
  using assms(1,3)
proof (induction xs bss rule: list_all2_induct)
  case (Cons x xs bs bss)
  then have "bs \<noteq> []" using assms(2) [of x bs] by simp
  with Cons show ?case by (cases bs) auto
qed simp

text \<open>The bytes of a sequence: its head and its elements.\<close>

lemma emits_sequence:
  assumes "\<And>x. x \<in> set xs \<Longrightarrow> \<exists>bs. vec_sink.emits (enc x) bs \<and> length bs = len x \<and> (length bs < usize_bound \<longrightarrow> R x bs)"
    and "\<And>x bs. R x bs \<Longrightarrow> length bs < usize_bound \<Longrightarrow> bs \<noteq> []" and t: "t \<in> {0x80, 0xa0}"
  shows "\<exists>bss bs. vec_sink.emits (seq_m (type_len vec_write_all t (of_nat (length xs))) (encode_each enc xs)) bs \<and>
    length bs = len_usize (length xs) + sum_list (map len xs) \<and> typed_value bs \<and>
    (length bs < usize_bound \<longrightarrow> list_all2 R xs bss \<and> (\<exists>h. is_head t (length xs) h \<and> bs = h @ concat bss))"
proof -
  from emits_each [of xs enc len R, OF assms(1)] obtain bss where
    e: "vec_sink.emits (encode_each enc xs) (concat bss)" "length (concat bss) = sum_list (map len xs)"
    "length (concat bss) < usize_bound \<longrightarrow> list_all2 R xs bss" by blast
  let ?n = "of_nat (length xs) :: u64"
  let ?h = "head_bytes t (unat ?n)"
  show ?thesis
  proof (rule exI [of _ bss], rule exI [of _ "?h @ concat bss"], intro conjI)
    show "vec_sink.emits (seq_m (type_len vec_write_all t ?n) (encode_each enc xs)) (?h @ concat bss)"
      by (intro vec_sink.emits_seq vec_sink.emits_type_len e)
    show "length (?h @ concat bss) = len_usize (length xs) + sum_list (map len xs)"
      using e(2) by (simp add: len_usize_def len_unsigned)
    show "typed_value (?h @ concat bss)"
      using t unat_lt [of ?n] by (intro typed_append typed_head_bytes) auto
    show "length (?h @ concat bss) < usize_bound \<longrightarrow> list_all2 R xs bss \<and> (\<exists>h. is_head t (length xs) h \<and> ?h @ concat bss = h @ concat bss)"
    proof
      assume len: "length (?h @ concat bss) < usize_bound"
      with e(3) have R: "list_all2 R xs bss" by simp
      have "length xs \<le> length (concat bss)" by (rule elements_fit [OF R]) (use assms(2) len in auto)
      with len have "length xs < 2 ^ 64" by (simp add: usize_bound_def)
      then have "is_head t (length xs) ?h" by (simp add: unat_of_nat_u64 is_head_head_bytes)
      with R show "list_all2 R xs bss \<and> (\<exists>h. is_head t (length xs) h \<and> ?h @ concat bss = h @ concat bss)"
        by blast
    qed
  qed
qed

lemma reads_vec:
  assumes "list_all2 (\<lambda>x bs. reads m bs x) xs bss" "seq_bytes ARRAY 0x9f bss (length xs) bs"
  shows "reads (decode_vec m) bs xs"
  by (rule yieldsI_at) (simp add: decode_vec_def array_elements_run [OF assms])

lemma reads_dict:
  assumes "list_all2 (\<lambda>xy bs. \<exists>cs ds. bs = cs @ ds \<and> reads k cs (fst xy) \<and> reads v ds (snd xy)) kvs bss"
    "seq_bytes MAP 0xbf bss (length kvs) bs"
  shows "reads (decode_map k v) bs (fold (\<lambda>(x, y) f. f(x \<mapsto> y)) kvs Map.empty)"
proof -
  have "reads (\<lambda>d. case the (map_elements k v d) of (r, _, d') \<Rightarrow> (r, d')) bs kvs"
    by (rule yieldsI_at) (simp add: map_elements_run [OF assms])
  then show ?thesis unfolding decode_map_def by (rule reads_map)
qed

lemma typed_nonempty: "typed bs \<Longrightarrow> length bs < usize_bound \<Longrightarrow> bs \<noteq> []"
  using typed_starts_item starts_item_def by blast

lemma carries_sequence:
  assumes "\<And>x. x \<in> set xs \<Longrightarrow> carries typed e l m x x"
    and "\<And>h bss. is_head ARRAY (length xs) h \<Longrightarrow> list_all2 (\<lambda>x bs. reads m bs x) xs bss \<Longrightarrow> reads d (h @ concat bss) y"
  shows "carries typed_value (encode_sequential vec_write_all e) (len_sequential l) d xs y"
proof -
  let ?R = "\<lambda>x bs. typed bs \<and> reads m bs x"
  have "\<exists>bss bs. vec_sink.emits (seq_m (type_len vec_write_all 0x80 (of_nat (length xs))) (encode_each e xs)) bs \<and>
    length bs = len_usize (length xs) + sum_list (map l xs) \<and> typed_value bs \<and>
    (length bs < usize_bound \<longrightarrow> list_all2 ?R xs bss \<and> (\<exists>h. is_head 0x80 (length xs) h \<and> bs = h @ concat bss))"
    by (rule emits_sequence) (use assms(1) typed_nonempty in \<open>auto simp: carries_def\<close>)
  then obtain bss bs where b: "vec_sink.emits (encode_sequential vec_write_all e xs) bs"
    "length bs = len_sequential l xs" "typed_value bs"
    "length bs < usize_bound \<longrightarrow> list_all2 ?R xs bss \<and> (\<exists>h. is_head ARRAY (length xs) h \<and> bs = h @ concat bss)"
    by (auto simp: encode_sequential_def enc_array_def len_sequential_def)
  have "reads d bs y" if "length bs < usize_bound"
    using b(4) that by (auto intro!: assms(2) elim: list_all2_mono)
  with b show ?thesis by (intro carriesI)
qed

lemma carries_vec:
  "(\<And>x. x \<in> set xs \<Longrightarrow> carries typed e l m x x) \<Longrightarrow>
     carries typed_value (encode_sequential vec_write_all e) (len_sequential l) (decode_vec m) xs xs"
  by (rule carries_sequence) (assumption | rule reads_vec [OF _ definite])+

lemma carries_dict:
  assumes "\<And>k v. (k, v) \<in> set kvs \<Longrightarrow> carries typed e1 l1 m1 k k \<and> carries U e2 l2 m2 v v"
  shows "carries typed_value (encode_map vec_write_all e1 e2) (len_map l1 l2) (decode_map m1 m2) kvs
     (fold (\<lambda>(x, y) f. f(x \<mapsto> y)) kvs Map.empty)"
proof -
  let ?R = "\<lambda>xy bs. typed bs \<and> (\<exists>cs ds. bs = cs @ ds \<and> reads m1 cs (fst xy) \<and> reads m2 ds (snd xy))"
  have entry: "\<exists>bs. vec_sink.emits (encode_entry e1 e2 xy) bs \<and> length bs = (case xy of (k, v) \<Rightarrow> l1 k + l2 v) \<and>
      (length bs < usize_bound \<longrightarrow> ?R xy bs)" if "xy \<in> set kvs" for xy
  proof -
    obtain k v where xy: "xy = (k, v)" by (cases xy)
    with that assms have c: "carries typed e1 l1 m1 k k" "carries U e2 l2 m2 v v" by auto
    from c(1) obtain cs where cs: "vec_sink.emits (e1 k) cs" "length cs = l1 k" "length cs < usize_bound \<longrightarrow> typed cs"
      "length cs < usize_bound \<longrightarrow> reads m1 cs k" by (rule carriesE)
    from c(2) obtain ds where ds: "vec_sink.emits (e2 v) ds" "length ds = l2 v" "length ds < usize_bound \<longrightarrow> reads m2 ds v"
      by (rule carries_payload)
    have "vec_sink.emits (encode_entry e1 e2 xy) (cs @ ds)"
      unfolding encode_entry_def xy using cs ds by (simp add: vec_sink.emits_seq)
    with cs ds xy show ?thesis by (intro exI [of _ "cs @ ds"]) (auto intro: typed_append)
  qed
  have "\<exists>bss bs. vec_sink.emits (seq_m (type_len vec_write_all 0xa0 (of_nat (length kvs))) (encode_each (encode_entry e1 e2) kvs)) bs \<and>
    length bs = len_usize (length kvs) + sum_list (map (\<lambda>(k, v). l1 k + l2 v) kvs) \<and> typed_value bs \<and>
    (length bs < usize_bound \<longrightarrow> list_all2 ?R kvs bss \<and> (\<exists>h. is_head 0xa0 (length kvs) h \<and> bs = h @ concat bss))"
    by (rule emits_sequence) (use entry typed_nonempty in auto)
  then obtain bss bs where b: "vec_sink.emits (encode_map vec_write_all e1 e2 kvs) bs"
    "length bs = len_map l1 l2 kvs" "typed_value bs"
    "length bs < usize_bound \<longrightarrow> list_all2 ?R kvs bss \<and> (\<exists>h. is_head MAP (length kvs) h \<and> bs = h @ concat bss)"
    by (auto simp: encode_map_def enc_map_def len_map_def)
  have "reads (decode_map m1 m2) bs (fold (\<lambda>(x, y) f. f(x \<mapsto> y)) kvs Map.empty)" if "length bs < usize_bound"
    using b(4) that by (auto intro!: reads_dict [of _ _ _ bss] definite elim: list_all2_mono)
  with b show ?thesis by (intro carriesI)
qed


section \<open>Tuples\<close>

text \<open>A tuple is its fields, one after the other, behind their number.\<close>

lemma carries_fields:
  assumes "carries T e1 l1 m1 x a" "carries U e2 l2 m2 y b"
  shows "carries (\<lambda>_. True) (encode_fields e1 e2) (len_fields l1 l2) (decode_pair m1 m2) (x, y) (a, b)"
proof -
  from assms(1) obtain bs where b: "vec_sink.emits (e1 x) bs" "length bs = l1 x" "length bs < usize_bound \<longrightarrow> reads m1 bs a"
    by (rule carries_payload)
  from assms(2) obtain cs where c: "vec_sink.emits (e2 y) cs" "length cs = l2 y" "length cs < usize_bound \<longrightarrow> reads m2 cs b"
    by (rule carries_payload)
  show ?thesis
  proof (rule carriesI)
    show "vec_sink.emits (encode_fields e1 e2 (x, y)) (bs @ cs)"
      unfolding encode_fields_def using b(1) c(1) by (simp add: vec_sink.emits_seq)
    show "length (bs @ cs) < usize_bound \<Longrightarrow> reads (decode_pair m1 m2) (bs @ cs) (a, b)"
      unfolding decode_pair_def using b(3) c(3) reads_map [of m2 cs b "Pair a"]
      by (intro yields_bind [of m1 bs a]) auto
  qed (simp_all add: len_fields_def b(2) c(2))
qed

lemma carries_tuple:
  assumes "carries T e l m x a" "1 \<le> n" "n \<le> 16"
  shows "carries typed_value (encode_tuple vec_write_all n e) (len_tuple n l) (decode_tuple n m) x a"
proof -
  from assms(1) obtain bs where b: "vec_sink.emits (e x) bs" "length bs = l x" "length bs < usize_bound \<longrightarrow> reads m bs a"
    by (rule carries_payload)
  have u: "unat (of_nat n :: u64) = n" using assms(3) by (intro unat_of_nat_u64) simp
  have h: "is_head ARRAY n (head_bytes 0x80 n)" using is_head_head_bytes [of n ARRAY] assms(3) by simp
  have s: "sint (of_nat n :: i32) = int n"
    using sint_word_of_int [of "int n", where 'a = 32] assms(3) by simp
  have l: "length (head_bytes 0x80 n) = len_i32 (of_nat n)"
    using len_signed(3) [of "of_nat n"] assms(3) by (simp add: s int_head_def head_bytes_def)
  show ?thesis
  proof (rule carriesI)
    show "vec_sink.emits (encode_tuple vec_write_all n e x) (head_bytes 0x80 n @ bs)"
      unfolding encode_tuple_def using emits_array [of "of_nat n"] by (intro vec_sink.emits_seq b) (simp add: u)
    show "typed_value (head_bytes 0x80 n @ bs)" using assms(3) by (intro typed_append typed_head_bytes) simp_all
    show "length (head_bytes 0x80 n @ bs) < usize_bound \<Longrightarrow> reads (decode_tuple n m) (head_bytes 0x80 n @ bs) a"
      unfolding decode_tuple_def using b(3)
      by (intro yields_with_pos yields_bind [OF reads_array [OF h]]) simp
  qed (simp add: len_tuple_def b(2) l)
qed

section \<open>The contract is kept\<close>

context codec begin

lemma round_trip: "ok x \<Longrightarrow> decoded_back m (enc x) x"
  by (drule carried, erule carriesE, erule decoded_backI) (simp add: usize_bound_def)

text \<open>\<open>to_vec\<close> gives as many bytes as \<open>len\<close> announces, and \<open>decode\<close> gives the value back.\<close>

lemma to_vec_decode:
  assumes "ok x"
  shows "\<exists>v. to_vec enc x = Inr v \<and> length v = minicbor_len len x \<and>
    (length v < usize_bound \<longrightarrow> minicbor_decode m v = Inr x)"
proof -
  from carried [OF assms] obtain bs where b: "vec_sink.emits (enc x) bs" "length bs = len x"
    "length bs < usize_bound \<longrightarrow> reads m bs x" by (rule carries_payload)
  have "minicbor_decode m bs = Inr x" if "length bs < usize_bound"
    using yieldsD [of m bs "\<lambda>_. Inr x" "[]" "[]"] b(3) that by (simp add: minicbor_decode_def dec_new_def)
  then show ?thesis using vec_run [OF b(1), of "[]"] b(2) by (simp add: to_vec_def minicbor_len_def)
qed

end

lemma vec_codec:
  "codec e l m ok \<Longrightarrow> value_codec (encode_sequential vec_write_all e) (len_sequential l) (decode_vec m) (list_all ok)"
  by (auto simp: codec_def value_codec_def list_all_iff intro: carries_vec)

lemma option_codec:
  "value_codec e l m ok \<Longrightarrow> codec (encode_option vec_write_all e) (len_option l) (decode_option m) (pred_option ok)"
proof (unfold value_codec_def codec_def, intro allI impI)
  fix x assume a: "\<forall>x. ok x \<longrightarrow> carries typed_value e l m x x" "pred_option ok x"
  then show "carries typed (encode_option vec_write_all e) (len_option l) (decode_option m) x x"
    by (cases x) (auto intro: carries_option carries_typed [OF carries_option(1)])
qed

lemma result_codec:
  "codec e1 l1 m1 ok1 \<Longrightarrow> codec e2 l2 m2 ok2 \<Longrightarrow>
     value_codec (encode_result vec_write_all e1 e2) (len_result l1 l2) (decode_result m1 m2) (pred_sum ok2 ok1)"
  by (auto simp: codec_def value_codec_def pred_sum.simps intro: carries_result)

lemma pair_codec:
  "codec e1 l1 m1 ok1 \<Longrightarrow> codec e2 l2 m2 ok2 \<Longrightarrow>
     value_codec (encode_tuple vec_write_all 2 (encode_fields e1 e2)) (len_tuple 2 (len_fields l1 l2))
       (decode_tuple 2 (decode_pair m1 m2)) (pred_prod ok1 ok2)"
  by (auto simp: codec_def value_codec_def pred_prod.simps intro!: carries_tuple carries_fields)

lemma tagged_codec:
  "codec e l m ok \<Longrightarrow> value_codec (encode_tagged vec_write_all n e) (len_tagged n l) (decode_tagged n m) ok"
  by (auto simp: codec_def value_codec_def intro: carries_tagged)

lemma range_codec:
  "codec e l m ok \<Longrightarrow> value_codec (encode_range vec_write_all e) (len_range l) (decode_range m) (pred_prod ok ok)"
  unfolding encode_range_def [abs_def] len_range_def [abs_def] decode_range_def
  by (auto simp: codec_def value_codec_def pred_prod.simps intro!: carries_struct2)

lemma bound_codec:
  "codec e l m ok \<Longrightarrow> value_codec (encode_bound vec_write_all e) (len_bound l) (decode_bound m) (pred_range_bound ok)"
proof (unfold value_codec_def codec_def, intro allI impI)
  fix x assume a: "\<forall>x. ok x \<longrightarrow> carries typed e l m x x" "pred_range_bound ok x"
  then show "carries typed_value (encode_bound vec_write_all e) (len_bound l) (decode_bound m) x x"
    by (cases x) (auto intro: carries_bound)
qed

interpretation u8_codec: value_codec "enc_u8 vec_write_all" len_u8 dec_u8 "\<lambda>_. True"
  by unfold_locales (rule carries_integers)

interpretation u64_codec: value_codec "enc_u64 vec_write_all" len_u64 dec_u64 "\<lambda>_. True"
  by unfold_locales (rule carries_integers)

interpretation i64_codec: value_codec "enc_i64 vec_write_all" len_i64 dec_i64 "\<lambda>_. True"
  by unfold_locales (rule carries_integers)

interpretation bool_codec: value_codec "enc_bool vec_write_all" len_bool dec_bool "\<lambda>_. True"
  by unfold_locales (rule carries_scalars)

interpretation str_codec: value_codec "enc_str vec_write_all" len_str dec_str valid_utf8
  by unfold_locales (rule carries_strings)

text \<open>A composite type, as an example of what the interpretations compose to:
  \<open>Vec<(String, Option<u64>)>\<close>.\<close>

interpretation opt_u64_codec: codec "encode_option vec_write_all (enc_u64 vec_write_all)" "len_option len_u64"
  "decode_option dec_u64" "pred_option (\<lambda>_. True)"
  by (rule option_codec) (rule u64_codec.value_codec_axioms)

interpretation labels_codec: value_codec
  "encode_sequential vec_write_all (encode_tuple vec_write_all 2
     (encode_fields (enc_str vec_write_all) (encode_option vec_write_all (enc_u64 vec_write_all))))"
  "len_sequential (len_tuple 2 (len_fields len_str (len_option len_u64)))"
  "decode_vec (decode_tuple 2 (decode_pair dec_str (decode_option dec_u64)))"
  "list_all (pred_prod valid_utf8 (pred_option (\<lambda>_. True)))"
  by (intro vec_codec value_codec_codec pair_codec str_codec.codec_axioms opt_u64_codec.codec_axioms)

end
