(* ===== verification/Cbor_Impls.thy ===== *)
theory Cbor_Impls
  imports Cbor_Codec
begin

text \<open>
  The implementations of the traits for arrays, times, addresses and iterators; the decoding of
  structures with further elements; and the termination of the decoders of collections.
\<close>

section \<open>Fixed-length arrays\<close>

lemma reads_fill:
  assumes "list_all2 (\<lambda>x bs. reads m bs x) xs bss" "length xs < 2 ^ 64" "length xs \<le> room"
  shows "reads (array_vec_fill room m (Def (of_nat (length xs))) acc) (concat bss) (acc @ xs, True)"
  using assms
proof (induction xs bss arbitrary: room acc rule: list_all2_induct)
  case Nil
  show ?case by (simp add: yields_def array_vec_fill.simps array_elems.def_end)
next
  case (Cons x xs bs bss)
  then obtain k where k: "room = Suc k" by (cases room) auto
  have nz: "(of_nat (length (x # xs)) :: u64) \<noteq> 0"
    using Cons.prems(1) unat_of_nat_u64 [of "length (x # xs)"] by auto
  show ?case
  proof (rule yieldsI_at)
    fix pre post assume len: "length (pre @ concat (bs # bss) @ post) < usize_bound"
    have "array_iter_next m (Def (of_nat (length (x # xs)))) (at_bytes pre (bs @ concat bss @ post)) =
        (Some (Inr x), Def (of_nat (length (x # xs)) - 1), (), at_bytes (pre @ bs) (concat bss @ post))"
      using len by (intro array_elems.def_item [OF Cons.hyps(1) nz]) simp
    moreover have "array_vec_fill k m (Def (of_nat (length xs))) (acc @ [x]) (at_bytes (pre @ bs) (concat bss @ post)) =
        (Inr ((acc @ [x]) @ xs, True), at_bytes ((pre @ bs) @ concat bss) post)"
      using len Cons.prems k by (intro yields_at [OF Cons.IH]) auto
    ultimately show "array_vec_fill room m (Def (of_nat (length (x # xs)))) acc (at_bytes pre (concat (bs # bss) @ post)) =
        (Inr (acc @ x # xs, True), at_bytes (pre @ concat (bs # bss)) post)"
      by (simp add: k array_vec_fill.simps [of "Suc k"])
  qed
qed


lemma carries_array_n:
  assumes "\<And>x. x \<in> set xs \<Longrightarrow> carries typed e l m x x" "length xs = n"
  shows "carries typed_value (encode_array_n n vec_write_all e) (len_array_n n l) (decode_array_n n m) xs xs"
proof -
  have "carries typed_value (encode_sequential vec_write_all e) (len_sequential l) (decode_array_n n m) xs xs"
  proof (rule carries_sequence)
    fix h bss assume h: "is_head ARRAY (length xs) h" and e: "list_all2 (\<lambda>x bs. reads m bs x) xs bss"
    from h have "length xs < 2 ^ 64" by (rule head_cases)
    from reads_fill [OF e this, of n "[]"] show "reads (decode_array_n n m) (h @ concat bss) xs"
      unfolding decode_array_n_def
      by (intro yields_with_pos yields_bind [OF reads_iter_heads(1) [OF h]])
        (simp add: assms(2), erule yields_then, simp add: reads_ret assms(2))
  qed (rule assms(1))
  then show ?thesis
    by (simp add: carries_def encode_array_n_def encode_sequential_def len_array_n_def len_sequential_def assms(2))
qed

section \<open>Times and addresses\<close>

lemmas record_eqI = duration.equality system_time.equality socket_addr_v4.equality socket_addr_v6.equality

lemma carries_cong:
  assumes "carries T e l m x y" "enc x' = e x" "len x' = l x" shows "carries T enc len m x' y"
  using assms by (simp add: carries_def)

lemma carries_record2:
  assumes "carries T e1 l1 m1 a c" "carries U e2 l2 m2 b d"
    "enc x = encode_struct2 vec_write_all e1 e2 (a, b)" "len x = 1 + l1 a + l2 b" "y = f (c, d)"
  shows "carries typed_value enc len (map_m f (decode_fields2 msg1 m1 msg2 m2)) x y"
  unfolding assms(5)
  by (rule carries_cong [OF carries_map [OF carries_struct2 [OF assms(1,2)]]])
    (simp_all add: assms(3,4) len_struct2_def)

lemma carries_duration:
  assumes "unat (subsec_nanos d) < 10 ^ 9"
  shows "carries typed_value (encode_duration vec_write_all) len_duration decode_duration d (Some d)"
  unfolding decode_duration_def
  by (rule carries_record2 [OF carries_integers(4) carries_integers(3)])
    (use assms in \<open>auto simp: encode_duration_def len_duration_def duration_new_def intro!: record_eqI\<close>)

lemma carries_system_time:
  assumes "0 \<le> sint (st_secs t)" "unat (st_nanos t) < 10 ^ 9"
  shows "carries typed_value (encode_system_time vec_write_all) len_system_time decode_system_time t (Some t)"
proof -
  let ?d = "\<lparr>as_secs = st_secs t, subsec_nanos = st_nanos t\<rparr>"
  have small: "unat (st_secs t) < 2 ^ 63"
    using assms(1) sint_lt [of "st_secs t"] uint_of_sint [of "st_secs t"]
    by (simp only: unat_less_iff_uint) simp
  obtain bs where b: "vec_sink.emits (encode_duration vec_write_all ?d) bs" "length bs = len_duration ?d"
    "length bs < usize_bound \<longrightarrow> typed_value bs" "length bs < usize_bound \<longrightarrow> reads decode_duration bs (Some ?d)"
    using carries_duration [of ?d] assms(2) by (auto elim: carriesE)
  have e: "epoch_checked_add ?d = Some t"
    using small by (auto simp: epoch_checked_add_def intro!: record_eqI)
  have "reads decode_system_time bs (Some t)" if "length bs < usize_bound"
    unfolding decode_system_time_def
    by (intro yields_with_pos yields_then [of decode_duration bs "Some ?d"])
      (use b(4) that reads_map [OF yields_res [of "Inr t"], of Some] in \<open>simp_all add: e\<close>)
  with b(1-3) show ?thesis
    by (intro carriesI [where bs = bs])
      (simp_all only: encode_system_time_def len_system_time_def duration_since_epoch_def assms(1) if_True sum.case)
qed

lemma carries_ip:
  "length a = 4 \<Longrightarrow> carries typed_value (encode_ipv4 vec_write_all) len_ipv4 decode_ipv4 a a"
  "length b = 16 \<Longrightarrow> carries typed_value (encode_ipv6 vec_write_all) len_ipv6 decode_ipv6 b b"
  unfolding decode_ipv4_def decode_ipv6_def
  by (rule carries_cong, erule carries_byte_array,
      simp_all add: encode_ipv4_def encode_ipv6_def encode_byte_array_def len_ipv4_def len_ipv6_def
        len_byte_array_def len_usize_def len_u64_def)+

fun ip_ok :: "ip_addr \<Rightarrow> bool" where
  "ip_ok (IpV4 a) \<longleftrightarrow> length a = 4"
| "ip_ok (IpV6 a) \<longleftrightarrow> length a = 16"

lemma carries_ip_addr:
  "ip_ok a \<Longrightarrow> carries typed_value (encode_ip_addr vec_write_all) len_ip_addr decode_ip_addr a a"
  unfolding decode_ip_addr_def
  by (cases a) (simp_all add: carries_variant [OF carries_ip(1), where n = 0] carries_variant [OF carries_ip(2), where n = 1]
      encode_ip_addr_def len_ip_addr_def)

lemma carries_socket_v4:
  assumes "length (v4_ip a) = 4"
  shows "carries typed_value (encode_socket_v4 vec_write_all) len_socket_v4 decode_socket_v4 a a"
  unfolding decode_socket_v4_def
  by (rule carries_record2 [OF carries_ip(1) [OF assms] carries_integers(2)])
    (auto simp: encode_socket_v4_def len_socket_v4_def intro!: record_eqI)

text \<open>The flow information and the scope of an IPv6 socket address are not encoded.\<close>

lemma carries_socket_v6:
  assumes "length (v6_ip a) = 16"
  shows "carries typed_value (encode_socket_v6 vec_write_all) len_socket_v6 decode_socket_v6 a
     (a\<lparr>v6_flowinfo := 0, v6_scope_id := 0\<rparr>)"
  unfolding decode_socket_v6_def
  by (rule carries_record2 [OF carries_ip(2) [OF assms] carries_integers(2)])
    (auto simp: encode_socket_v6_def len_socket_v6_def intro!: record_eqI)


section \<open>Tuples of any arity\<close>

lemma carries_tuple_fields:
  assumes "list_all2 (\<lambda>(e, l, m) x. carries typed e l m x x) ts xs"
  shows "carries (\<lambda>_. True) (encode_tuple_fields (map fst ts)) (len_tuple_fields (map (fst \<circ> snd) ts))
     (decode_tuple_fields (map (snd \<circ> snd) ts)) xs xs"
  using assms
proof (induction ts xs rule: list_all2_induct)
  case Nil
  show ?case by (intro carriesI [where bs = "[]"]) (simp_all add: enc_ok_def vec_sink.emits_ret reads_ret)
next
  case (Cons t ts x xs)
  obtain e l m where t: "t = (e, l, m)" by (cases t)
  with Cons.hyps(1) obtain bs where b: "vec_sink.emits (e x) bs" "length bs = l x" "length bs < usize_bound \<longrightarrow> reads m bs x"
    by (auto elim: carries_payload)
  from Cons.IH obtain cs where c: "vec_sink.emits (encode_tuple_fields (map fst ts) xs) cs"
    "length cs = len_tuple_fields (map (fst \<circ> snd) ts) xs"
    "length cs < usize_bound \<longrightarrow> reads (decode_tuple_fields (map (snd \<circ> snd) ts)) cs xs"
    by (rule carries_payload)
  show ?case
  proof (rule carriesI)
    show "vec_sink.emits (encode_tuple_fields (map fst (t # ts)) (x # xs)) (bs @ cs)"
      using b(1) c(1) by (simp add: t vec_sink.emits_seq)
    show "length (bs @ cs) < usize_bound \<Longrightarrow>
        reads (decode_tuple_fields (map (snd \<circ> snd) (t # ts))) (bs @ cs) (x # xs)"
      using b(3) c(3) reads_map [of "decode_tuple_fields (map (snd \<circ> snd) ts)" cs xs "Cons x"]
      by (auto simp: t intro!: yields_bind [of m bs x])
  qed (simp_all add: t b(2) c(2) comp_def)
qed

lemma carries_ranges:
  assumes "carries typed e l m x x" "carries typed e l m y y"
  shows "carries typed_value (encode_range vec_write_all e) (len_range l) (decode_range m) (x, y) (x, y)"
    "carries typed_value (encode_range_inclusive vec_write_all e) (len_range_inclusive l) (decode_range_inclusive m) (x, y) (x, y)"
    "carries typed_value (encode_open_range vec_write_all e) (len_open_range l) (decode_range_from m) x x"
    "carries typed_value (encode_open_range vec_write_all e) (len_open_range l) (decode_range_to m) x x"
    "carries typed_value (encode_open_range vec_write_all e) (len_open_range l) (decode_range_to_inclusive m) x x"
  unfolding encode_range_def [abs_def] len_range_def [abs_def] decode_range_def encode_range_inclusive_def [abs_def]
    len_range_inclusive_def [abs_def] decode_range_inclusive_def decode_range_from_def decode_range_to_def
    decode_range_to_inclusive_def
  by (rule carries_struct2 [OF assms] carries_open_range [OF assms(1)])+

section \<open>Sets, heaps and maps\<close>

lemma fold_add_mset: "fold add_mset xs M = mset xs + M"
  by (induction xs arbitrary: M) auto

lemma carries_collections:
  assumes "\<And>x. x \<in> set xs \<Longrightarrow> carries typed e l m x x"
  shows "carries typed_value (encode_sequential vec_write_all e) (len_sequential l) (decode_set m) xs (set xs)"
    "carries typed_value (encode_sequential vec_write_all e) (len_sequential l) (decode_heap m) xs (mset xs)"
  unfolding decode_set_def decode_heap_def
  using carries_map [OF carries_vec [of xs e l m, OF assms], of "\<lambda>xs. fold insert xs {}"]
    carries_map [OF carries_vec [of xs e l m, OF assms], of "\<lambda>xs. fold add_mset xs {#}"]
  by (simp_all add: union_set_fold [symmetric] fold_add_mset)

lemma fold_updates: "fold (\<lambda>(x, y) f. f(x \<mapsto> y)) kvs M = M ++ map_of (rev kvs)"
  by (induction kvs arbitrary: M) (auto simp: map_add_def fun_eq_iff split: option.splits)

lemma distinct_map_of_rev: "distinct (map fst kvs) \<Longrightarrow> map_of (rev kvs) = map_of kvs"
  by (intro map_of_inject_set [THEN iffD2]) (simp_all add: rev_map [symmetric])

lemma carries_map_of:
  assumes "\<And>k v. (k, v) \<in> set kvs \<Longrightarrow> carries typed e1 l1 m1 k k \<and> carries U e2 l2 m2 v v" "distinct (map fst kvs)"
  shows "carries typed_value (encode_map vec_write_all e1 e2) (len_map l1 l2) (decode_map m1 m2) kvs (map_of kvs)"
  using carries_dict [of kvs e1 l1 m1 U e2 l2 m2, OF assms(1)] distinct_map_of_rev [OF assms(2)]
  by (simp add: fold_updates)

section \<open>Structures with further elements\<close>

lemma typed_simple:
  assumes "x < (24 :: u8)" shows "typed [SIMPLE OR x]"
proof -
  have n: "unat x < 24" using assms by (simp add: word_less_nat_alt)
  have p: "type_of (SIMPLE OR x) = SIMPLE" "info_of (SIMPLE OR x) = x"
    using head_byte_parts [of SIMPLE "unat x"] n by (simp_all add: is_major_def)
  have "b \<in> {0x38, 0x39, 0x3a, 0x3b} \<Longrightarrow> type_of b \<noteq> SIMPLE" for b by (auto simp: type_of_def)
  with p(1) have "SIMPLE OR x \<notin> {0x38, 0x39, 0x3a, 0x3b}" by blast
  moreover have "SIMPLE OR x \<noteq> 0xff" using p(2) assms by (auto simp: info_of_def)
  ultimately show ?thesis
    using typed_null typed_value_typed [OF typed_plain, of "SIMPLE OR x" "[]"] by (cases "SIMPLE OR x = 0xf6") auto
qed

lemma encodes_typed: "encodes v bs \<Longrightarrow> typed bs"
  by (erule encodes.cases)
    (auto intro!: typed_value_typed typed_append typed_plain intro: typed_head simp: is_major_def typed_simple [simplified])

lemma reads_further:
  assumes "encodes_seq vs cs" "k \<le> i"
  shows "reads (fields_def k step i (length vs) s) cs s"
  using assms
proof (induction vs arbitrary: cs i)
  case Nil
  then show ?case by (auto elim: encodes_seq.cases simp: reads_ret)
next
  case (Cons v vs)
  from Cons.prems(1) obtain bs ds where c: "cs = bs @ ds" "encodes v bs" "encodes_seq vs ds"
    by (auto elim: encodes_seq.cases)
  have "reads (seq_m dec_skip (ret_m s)) bs s" by (rule reads_done [OF reads_skip [OF c(2)]])
  with Cons.prems(2) Cons.IH [OF c(3), of "Suc i"] show ?case
    by (auto simp: c(1) intro!: yields_bind [of _ bs s])
qed

lemma yields_indef_break: "reads (fields_indef k step i s) [0xff] s"
proof (rule yieldsI_at)
  fix pre post :: bytes assume len: "length (pre @ [0xff] @ post) < usize_bound"
  have p: "peeks [0xff] TyBreak" by (rule peeks_first) (simp add: dec_type_of_def run_simps)
  have "dec_skip (at_bytes pre ([0xff] @ post)) = (Inr (), at_bytes (pre @ [0xff]) post)"
    unfolding dec_skip_def using len
    by (subst skip_step [OF _ match_heads(6)])
      (simp_all add: skip_live_def skip_break_def skip_round_def counting_def sat_sub_def skip_loop.simps)
  with peeksD [OF p len]
  show "fields_indef k step i s (at_bytes pre ([0xff] @ post)) = (Inr s, at_bytes (pre @ [0xff]) post)"
    by (simp add: fields_indef.simps run_simps)
qed

lemma yields_indef_step:
  assumes "typed bs" "reads (if i < k then step i s else seq_m dec_skip (ret_m s)) bs s'"
    "reads (fields_indef k step (Suc i) s') cs r"
  shows "reads (fields_indef k step i s) (bs @ cs) r"
proof (rule yieldsI_at)
  fix pre post assume len: "length (pre @ (bs @ cs) @ post) < usize_bound"
  from assms(1) obtain t where t: "peeks bs t" "t \<noteq> TyBreak" by (auto simp: typed_def)
  have p: "dec_datatype (at_bytes pre (bs @ cs @ post)) = (Inr t, at_bytes pre (bs @ cs @ post))"
    using peeksD [OF t(1)] len by simp
  have s: "(if i < k then step i s else seq_m dec_skip (ret_m s)) (at_bytes pre (bs @ cs @ post)) =
      (Inr s', at_bytes (pre @ bs) (cs @ post))"
    using yields_at [OF assms(2), of pre "cs @ post"] len by simp
  have r: "fields_indef k step (Suc i) s' (at_bytes (pre @ bs) (cs @ post)) = (Inr r, at_bytes (pre @ bs @ cs) post)"
    using yields_at [OF assms(3), of "pre @ bs" post] len by simp
  show "fields_indef k step i s (at_bytes pre ((bs @ cs) @ post)) = (Inr r, at_bytes (pre @ bs @ cs) post)"
    using p s r t(2) by (subst fields_indef.simps) (auto simp: run_simps split: if_splits prod.splits sum.splits)
qed


lemma steps2:
  assumes "reads m1 bs x" "reads m2 cs y"
  shows "reads (step2 m1 m2 0 (None, None)) bs (Some x, None)"
    "reads (step2 m1 m2 (Suc 0) (Some x, None)) cs (Some x, Some y)"
  using reads_map [OF assms(1), of "\<lambda>x. (Some x, None)"] reads_map [OF assms(2), of "\<lambda>y. (Some x, Some y)"]
  by (simp_all add: step2_def)

text \<open>What the loop over the fields leaves in \<open>s\<close> decides the result, in both length forms.\<close>

lemma fields_from_array:
  assumes "is_head ARRAY n h" "reads (fields_def k step 0 n s0) bs s" "\<And>p. yields (finish p s) [] (\<lambda>_. r p)"
  shows "yields (decode_fields k step s0 finish) (h @ bs) r"
proof -
  from assms(1) have n: "n < 2 ^ 64" by (rule head_cases)
  show ?thesis
    unfolding decode_fields_def
    by (intro yields_with_pos yields_bind [OF reads_array [OF assms(1)]])
      (simp only: option.case unat_of_nat_u64 [OF n], rule yields_then [OF assms(2)], rule assms(3))
qed

lemma fields_from_indef:
  assumes "reads (fields_indef k step 0 s0) bs s" "\<And>p. yields (finish p s) [] (\<lambda>_. r p)"
  shows "yields (decode_fields k step s0 finish) ([0x9f] @ bs) r"
  unfolding decode_fields_def
  by (intro yields_with_pos yields_bind [OF reads_indef(1)])
    (simp only: option.case, rule yields_then [OF assms(1)], rule assms(2))

lemma reads_step1: "reads m bs x \<Longrightarrow> reads (step1 m i s) bs (Some x)"
  using reads_map [of m bs x Some] by (simp add: step1_def)

text \<open>The results of the structures of two fields, by what was found of them.\<close>

fun both_fields :: "string \<Rightarrow> string \<Rightarrow> 'a option \<times> 'b option \<Rightarrow> usize \<Rightarrow> decode_error + 'a \<times> 'b" where
  "both_fields msg1 msg2 (Some x, Some y) p = Inr (x, y)"
| "both_fields msg1 msg2 (None, _) p = Inl (with_message msg1 (err_at p (missing_value 0)))"
| "both_fields msg1 msg2 (Some _, None) p = Inl (with_message msg2 (err_at p (missing_value 1)))"

lemma both_fields_eqs:
  "both_fields msg1 msg2 (Some x, Some y) = (\<lambda>_. Inr (x, y))"
  "both_fields msg1 msg2 (None, z) = (\<lambda>p. Inl (with_message msg1 (err_at p (missing_value 0))))"
  "both_fields msg1 msg2 (Some x, None) = (\<lambda>p. Inl (with_message msg2 (err_at p (missing_value 1))))"
  by (simp_all add: fun_eq_iff)

lemma yields_both_fields:
  "yields (bind_m (field_value p 0 msg1 (fst s)) (\<lambda>x. map_m (Pair x) (field_value p 1 msg2 (snd s)))) []
     (\<lambda>_. both_fields msg1 msg2 s p)"
  by (cases "(msg1, msg2, s, p)" rule: both_fields.cases) (simp_all add: yields_def run_simps field_value_def)

lemma fields2_from:
  "is_head ARRAY n h \<Longrightarrow> reads (fields_def 2 (step2 m1 m2) 0 n (None, None)) bs s \<Longrightarrow>
     yields (decode_fields2 msg1 m1 msg2 m2) (h @ bs) (both_fields msg1 msg2 s)"
  "reads (fields_indef 2 (step2 m1 m2) 0 (None, None)) bs s \<Longrightarrow>
     yields (decode_fields2 msg1 m1 msg2 m2) ([0x9f] @ bs) (both_fields msg1 msg2 s)"
  unfolding decode_fields2_def
  by (rule fields_from_array fields_from_indef, assumption+, rule yields_both_fields)+

lemma yields_one_field:
  "yields (field_value p 0 msg s) [] (\<lambda>_. ok_or (with_message msg (err_at p (missing_value 0))) s)"
  by (cases s) (simp_all add: yields_def run_simps field_value_def)

lemma fields1_from:
  "is_head ARRAY n h \<Longrightarrow> reads (fields_def 1 (step1 m) 0 n None) bs s \<Longrightarrow>
     yields (decode_fields1 msg m) (h @ bs) (\<lambda>p. ok_or (with_message msg (err_at p (missing_value 0))) s)"
  "reads (fields_indef 1 (step1 m) 0 None) bs s \<Longrightarrow>
     yields (decode_fields1 msg m) ([0x9f] @ bs) (\<lambda>p. ok_or (with_message msg (err_at p (missing_value 0))) s)"
  unfolding decode_fields1_def
  by (rule fields_from_array fields_from_indef, assumption+, rule yields_one_field)+

lemma reads_further_indef:
  assumes "encodes_seq vs cs" "k \<le> i"
  shows "reads (fields_indef k step i s) (cs @ [0xff]) s"
  using assms
proof (induction vs arbitrary: cs i)
  case Nil
  then show ?case by (auto elim: encodes_seq.cases simp: yields_indef_break)
next
  case (Cons v vs)
  from Cons.prems(1) obtain bs ds where c: "cs = bs @ ds" "encodes v bs" "encodes_seq vs ds"
    by (auto elim: encodes_seq.cases)
  have "reads (fields_indef k step i s) (bs @ ds @ [0xff]) s"
    by (rule yields_indef_step [OF encodes_typed [OF c(2)]])
      (use Cons.prems(2) Cons.IH [OF c(3), of "Suc i"] reads_done [OF reads_skip [OF c(2)]] in simp_all)
  then show ?case by (simp add: c(1))
qed

lemma fields_def_loops:
  assumes "reads m1 bs x" "reads m2 cs y" "encodes_seq vs ds"
  shows "reads (fields_def 2 (step2 m1 m2) 0 (2 + length vs) (None, None)) (bs @ cs @ ds) (Some x, Some y)"
    "reads (fields_def 2 (step2 m1 m2) 0 1 (None, None)) bs (Some x, None)"
    "reads (fields_def k step 0 0 s) [] s"
    "reads (fields_def 1 (step1 m1) 0 (1 + length vs) None) (bs @ ds) (Some x)"
proof -
  have g: "reads (fields_def 2 (step2 m1 m2) (Suc 0) (Suc (length vs)) (Some x, None)) (cs @ ds) (Some x, Some y)"
    by simp (rule yields_bind [OF steps2(2) [OF assms(1,2)]], rule reads_further [OF assms(3)], simp)
  show "reads (fields_def 2 (step2 m1 m2) 0 (2 + length vs) (None, None)) (bs @ cs @ ds) (Some x, Some y)"
    by simp (rule yields_bind [OF steps2(1) [OF assms(1,2)]], rule g)
  show "reads (fields_def 2 (step2 m1 m2) 0 1 (None, None)) bs (Some x, None)"
    by simp (rule yields_then [OF steps2(1) [OF assms(1,2)]], simp add: reads_ret)
  show "reads (fields_def 1 (step1 m1) 0 (1 + length vs) None) (bs @ ds) (Some x)"
    by simp (rule yields_bind [OF reads_step1 [OF assms(1)]], rule reads_further [OF assms(3)], simp)
qed (simp add: reads_ret)

lemma fields_indef_loops:
  assumes r: "reads m1 bs x" "reads m2 cs y" and more: "encodes_seq vs ds" and t: "typed bs"
  shows "typed cs \<Longrightarrow> reads (fields_indef 2 (step2 m1 m2) 0 (None, None)) (bs @ cs @ ds @ [0xff]) (Some x, Some y)"
    "reads (fields_indef 2 (step2 m1 m2) 0 (None, None)) (bs @ [0xff]) (Some x, None)"
    "reads (fields_indef 1 (step1 m1) 0 None) (bs @ ds @ [0xff]) (Some x)"
proof -
  assume "typed cs"
  then have "reads (fields_indef 2 (step2 m1 m2) (Suc 0) (Some x, None)) (cs @ ds @ [0xff]) (Some x, Some y)"
    by (rule yields_indef_step [where s' = "(Some x, Some y)"])
      (simp_all add: steps2(2) [OF r] reads_further_indef [OF more])
  then show "reads (fields_indef 2 (step2 m1 m2) 0 (None, None)) (bs @ cs @ ds @ [0xff]) (Some x, Some y)"
    by (intro yields_indef_step [OF t, where s' = "(Some x, None)"]) (simp_all add: steps2(1) [OF r])
next
  show "reads (fields_indef 2 (step2 m1 m2) 0 (None, None)) (bs @ [0xff]) (Some x, None)"
    by (rule yields_indef_step [OF t, where s' = "(Some x, None)"]) (simp_all add: steps2(1) [OF r] yields_indef_break)
  show "reads (fields_indef 1 (step1 m1) 0 None) (bs @ ds @ [0xff]) (Some x)"
    by (rule yields_indef_step [OF t, where s' = "Some x"])
      (simp_all add: reads_step1 [OF r(1)] reads_further_indef [OF more])
qed

section \<open>Collections are decoded in finite time\<close>

definition iter_measure :: "u64 iter_state \<Rightarrow> decoder \<Rightarrow> nat" where
  "iter_measure st d = (case st of End \<Rightarrow> 0 | Def n \<Rightarrow> unat n | Indef \<Rightarrow> Suc (length (dec_buf d) - dec_pos d))"

lemma array_next_stays:
  assumes "safe m" "array_iter_next m st d = (r, st', u, d')" shows "stays d d'"
proof (cases st)
  case Indef
  with assms(2) have "indef_next (plain m) () d = (r, st', u, d')"
    by (simp add: array_iter_next_def array_iter_with_next_def)
  then show ?thesis using indef_next_stays [OF assms(1)] by blast
next
  case (Def n)
  with assms show ?thesis
    by (auto simp: array_iter_next_def array_iter_with_next_def plain_def safe_stays split: if_splits prod.splits)
qed (use assms in \<open>auto simp: array_iter_next_def array_iter_with_next_def\<close>)

lemma array_next_decreases:
  assumes "safe m" "progress m" "array_iter_next m st d = (Some (Inr x), st', u, d')"
  shows "iter_measure st' d' < iter_measure st d"
proof (cases st)
  case Indef
  with assms(3) have "indef_next (plain m) () d = (Some (Inr x), st', u, d')"
    by (simp add: array_iter_next_def array_iter_with_next_def)
  from indef_next_progress [OF assms(1,2) this] show ?thesis
    by (simp add: iter_measure_def Indef diff_less_mono2)
next
  case (Def n)
  with assms(3) have "n \<noteq> 0" "st' = Def (n - 1)"
    by (auto simp: array_iter_next_def array_iter_with_next_def split: if_splits prod.splits)
  then show ?thesis by (simp add: iter_measure_def Def unat_minus_one unat_gt_0)
qed (use assms in \<open>auto simp: array_iter_next_def array_iter_with_next_def\<close>)

lemma iter_all_total:
  assumes m: "safe m" "progress m"
  shows "\<exists>r d'. iter_all (\<lambda>st u. array_iter_next m st) st () d = Some (r, (), d') \<and> stays d d'"
proof (induction "iter_measure st d" arbitrary: st d rule: less_induct)
  case less
  obtain r st' u d' where n: "array_iter_next m st d = (r, st', u, d')" by (cases "array_iter_next m st d") auto
  have s: "stays d d'" by (rule array_next_stays [OF m(1) n])
  show ?case
  proof (cases "\<exists>x. r = Some (Inr x)")
    case True
    then obtain x where x: "r = Some (Inr x)" by blast
    from less [OF array_next_decreases [OF m n [unfolded x]]] obtain q e where
      "iter_all (\<lambda>st u. array_iter_next m st) st' () d' = Some (q, (), e)" "stays d' e" by blast
    with n x s show ?thesis by (subst iter_all.simps) (auto intro: stays_trans)
  next
    case False
    then have "r = None \<or> (\<exists>e. r = Some (Inl e))" by (metis sum.exhaust not_None_eq)
    with n s show ?thesis by (subst iter_all.simps) auto
  qed
qed


lemma map_as_array: "map_iter_next k v st = array_iter_next (bind_m k (\<lambda>x. map_m (Pair x) v)) st"
  by (rule ext, cases st) (simp_all add: map_iter_next_def map_iter_with_next_def array_iter_next_def array_iter_with_next_def
      iter_pair_plain)

lemma elements_total:
  assumes m: "safe m" "progress m"
  shows "\<exists>r d'. array_elements m d = Some (r, (), d') \<and> stays d d' \<and> (\<forall>xs. r = Inr xs \<longrightarrow> dec_pos d < dec_pos d')"
proof -
  obtain q e where q: "dec_array_iter d = (q, e)" by (cases "dec_array_iter d")
  have i: "safe dec_array_iter" "progress dec_array_iter"
    unfolding dec_array_iter_def by (intro safe_intros progress_map progress_ops)+
  have s: "stays d e" by (rule safe_stays [OF i(1) q])
  show ?thesis
  proof (cases q)
    case (Inl x)
    with q s show ?thesis by (simp add: array_elements_def)
  next
    case (Inr st)
    from progressD [OF i(2) q [unfolded Inr]] iter_all_total [OF m, of st e] q s Inr show ?thesis
      by (fastforce simp: array_elements_def stays_def intro: stays_trans)
  qed
qed

lemma entries_total:
  assumes m: "safe k" "progress k" "safe v"
  shows "\<exists>r d'. map_elements k v d = Some (r, (), d') \<and> stays d d' \<and> (\<forall>xs. r = Inr xs \<longrightarrow> dec_pos d < dec_pos d')"
proof -
  obtain q e where q: "dec_map_iter d = (q, e)" by (cases "dec_map_iter d")
  have i: "safe dec_map_iter" "progress dec_map_iter"
    unfolding dec_map_iter_def by (intro safe_intros progress_map progress_ops)+
  have p: "safe (bind_m k (\<lambda>x. map_m (Pair x) v))" "progress (bind_m k (\<lambda>x. map_m (Pair x) v))"
    by (rule safe_bind progress_bind; rule m safe_map [OF m(3)])+
  have s: "stays d e" by (rule safe_stays [OF i(1) q])
  show ?thesis
  proof (cases q)
    case (Inl x)
    with q s show ?thesis by (simp add: map_elements_def)
  next
    case (Inr st)
    from progressD [OF i(2) q [unfolded Inr]] iter_all_total [OF p, of st e] q s Inr show ?thesis
      by (fastforce simp: map_elements_def map_as_array stays_def intro: stays_trans)
  qed
qed

lemma decode_vec_safe:
  assumes "safe m" "progress m" shows "safe (decode_vec m)" "progress (decode_vec m)"
proof -
  have "\<exists>r e. decode_vec m d = (r, e) \<and> stays d e \<and> (\<forall>xs. r = Inr xs \<longrightarrow> dec_pos d < dec_pos e)" for d
    using elements_total [OF assms, of d] by (auto simp: decode_vec_def)
  then show "safe (decode_vec m)" "progress (decode_vec m)"
    unfolding safe_iff_stays progress_def by (metis snd_conv prod.inject)+
qed

lemma emits_elements:
  assumes "\<And>x. x \<in> set xs \<Longrightarrow> carries typed e l m x x"
  shows "\<exists>bss. vec_sink.emits (encode_each e xs) (concat bss) \<and>
    (length (concat bss) < usize_bound \<longrightarrow> list_all2 (\<lambda>x bs. typed bs \<and> reads m bs x) xs bss)"
  using emits_each [of xs e l "\<lambda>x bs. typed bs \<and> reads m bs x"] assms by (auto simp: carries_def)

lemma typed_starts_all:
  "list_all2 (\<lambda>x bs. typed bs \<and> P x bs) xs bss \<Longrightarrow> length (concat bss) < usize_bound \<Longrightarrow> list_all starts_item bss"
  by (induction xs bss rule: list_all2_induct) (auto intro: typed_starts_item)

lemma array_iter_decoded:
  assumes c: "\<And>x. x \<in> set xs \<Longrightarrow> carries typed e l m x x" and hint: "snd hint = Some (fst hint) \<Longrightarrow> fst hint = length xs"
  shows "decoded_back (decode_vec m) (encode_array_iter vec_write_all e hint xs) xs"
proof (cases "snd hint = Some (fst hint)")
  case True
  from carries_vec [of xs e l m, OF c] obtain bs where b: "vec_sink.emits (encode_sequential vec_write_all e xs) bs"
    "length bs < usize_bound \<longrightarrow> reads (decode_vec m) bs xs" by (rule carries_payload)
  have "seq_m (encode_each e xs) enc_ok = encode_each e xs"
    by (rule ext) (auto simp: enc_ok_def run_simps split: prod.splits sum.splits)
  then have "encode_array_iter vec_write_all e hint xs = encode_sequential vec_write_all e xs"
    using True hint by (simp add: encode_array_iter_def encode_sequential_def)
  with b show ?thesis by (simp only:) (rule decoded_backI, auto simp: usize_bound_def)
next
  case False
  from emits_elements [of xs e l m, OF c] obtain bss where b: "vec_sink.emits (encode_each e xs) (concat bss)"
    "length (concat bss) < usize_bound \<longrightarrow> list_all2 (\<lambda>x bs. typed bs \<and> reads m bs x) xs bss" by blast
  show ?thesis
  proof (rule decoded_backI)
    show "vec_sink.emits (encode_array_iter vec_write_all e hint xs) ([0x9f] @ concat bss @ [0xff])"
      unfolding encode_array_iter_def using False
      by (auto simp: Let_def enc_begin_array_def enc_end_def
          intro!: vec_sink.emits_seq [of _ "[0x9f]", simplified] vec_sink.emits_seq vec_sink.emits_put b(1))
    assume len: "length ([0x9f] @ concat bss @ [0xff]) < 2 ^ 64"
    then have l: "list_all2 (\<lambda>x bs. typed bs \<and> reads m bs x) xs bss" using b(2) by (simp add: usize_bound_def)
    have "list_all starts_item bss" using typed_starts_all [OF l] len by (simp add: usize_bound_def)
    then show "reads (decode_vec m) ([0x9f] @ concat bss @ [0xff]) xs"
      by (intro reads_vec [OF _ indefinite]) (use l in \<open>auto elim: list_all2_mono\<close>)
  qed
qed


text \<open>The same for maps.\<close>

lemma entry_carried:
  assumes "carries typed e1 l1 m1 k k" "carries U e2 l2 m2 v v"
  shows "\<exists>bs. vec_sink.emits (encode_entry e1 e2 (k, v)) bs \<and> length bs = l1 k + l2 v \<and>
    (length bs < usize_bound \<longrightarrow> typed bs \<and> (\<exists>cs ds. bs = cs @ ds \<and> reads m1 cs k \<and> reads m2 ds v))"
proof -
  from assms(1) obtain cs where cs: "vec_sink.emits (e1 k) cs" "length cs = l1 k" "length cs < usize_bound \<longrightarrow> typed cs"
    "length cs < usize_bound \<longrightarrow> reads m1 cs k" by (rule carriesE)
  from assms(2) obtain ds where ds: "vec_sink.emits (e2 v) ds" "length ds = l2 v" "length ds < usize_bound \<longrightarrow> reads m2 ds v"
    by (rule carries_payload)
  have "vec_sink.emits (encode_entry e1 e2 (k, v)) (cs @ ds)"
    unfolding encode_entry_def using cs ds by (simp add: vec_sink.emits_seq)
  with cs ds show ?thesis by (intro exI [of _ "cs @ ds"]) (auto intro: typed_append)
qed

lemma map_iter_decoded:
  assumes c: "\<And>k v. (k, v) \<in> set kvs \<Longrightarrow> carries typed e1 l1 m1 k k \<and> carries U e2 l2 m2 v v"
    and hint: "snd hint = Some (fst hint) \<Longrightarrow> fst hint = length kvs" and d: "distinct (map fst kvs)"
  shows "decoded_back (decode_map m1 m2) (encode_map_iter vec_write_all e1 e2 hint kvs) (map_of kvs)"
proof (cases "snd hint = Some (fst hint)")
  case True
  from carries_map_of [of kvs e1 l1 m1 U e2 l2 m2, OF c d] obtain bs where
    b: "vec_sink.emits (encode_map vec_write_all e1 e2 kvs) bs"
    "length bs < usize_bound \<longrightarrow> reads (decode_map m1 m2) bs (map_of kvs)" by (rule carries_payload)
  have "seq_m (encode_each (encode_entry e1 e2) kvs) enc_ok = encode_each (encode_entry e1 e2) kvs"
    by (rule ext) (auto simp: enc_ok_def run_simps split: prod.splits sum.splits)
  then have "encode_map_iter vec_write_all e1 e2 hint kvs = encode_map vec_write_all e1 e2 kvs"
    using True hint by (simp add: encode_map_iter_def encode_map_def)
  with b show ?thesis by (simp only:) (rule decoded_backI, auto simp: usize_bound_def)
next
  case False
  let ?R = "\<lambda>xy bs. typed bs \<and> (\<exists>cs ds. bs = cs @ ds \<and> reads m1 cs (fst xy) \<and> reads m2 ds (snd xy))"
  have "\<exists>bss. vec_sink.emits (encode_each (encode_entry e1 e2) kvs) (concat bss) \<and>
      length (concat bss) = sum_list (map (\<lambda>(k, v). l1 k + l2 v) kvs) \<and>
      (length (concat bss) < usize_bound \<longrightarrow> list_all2 ?R kvs bss)"
    by (rule emits_each) (use entry_carried c in fastforce)
  then obtain bss where b: "vec_sink.emits (encode_each (encode_entry e1 e2) kvs) (concat bss)"
    "length (concat bss) < usize_bound \<longrightarrow> list_all2 ?R kvs bss" by blast
  show ?thesis
  proof (rule decoded_backI)
    show "vec_sink.emits (encode_map_iter vec_write_all e1 e2 hint kvs) ([0xbf] @ concat bss @ [0xff])"
      unfolding encode_map_iter_def using False
      by (auto simp: Let_def enc_begin_map_def enc_end_def
          intro!: vec_sink.emits_seq [of _ "[0xbf]", simplified] vec_sink.emits_seq vec_sink.emits_put b(1))
    assume len: "length ([0xbf] @ concat bss @ [0xff]) < 2 ^ 64"
    then have l: "list_all2 ?R kvs bss" using b(2) by (simp add: usize_bound_def)
    have s: "list_all starts_item bss" using typed_starts_all [OF l] len by (simp add: usize_bound_def)
    have "reads (decode_map m1 m2) ([0xbf] @ concat bss @ [0xff]) (fold (\<lambda>(x, y) f. f(x \<mapsto> y)) kvs Map.empty)"
      by (rule reads_dict [OF _ indefinite [OF s]]) (use l in \<open>auto elim: list_all2_mono\<close>)
    then show "reads (decode_map m1 m2) ([0xbf] @ concat bss @ [0xff]) (map_of kvs)"
      by (simp only: fold_updates distinct_map_of_rev [OF d] empty_map_add)
  qed
qed

section \<open>Properties\<close>

text \<open>C37: every value of a basic type is encoded in exactly the number of bytes that \<open>cbor_len\<close> announces,
  never as something that could be taken for null or a break, and is decoded back: the integers of every
  width, \<open>usize\<close> and \<open>isize\<close>, characters, booleans, floats, tags, units, byte strings and strings.\<close>

theorem basic_types_exact:
  "carries typed_value (enc_u8 vec_write_all) len_u8 dec_u8 a a \<and>
   carries typed_value (enc_u16 vec_write_all) len_u16 dec_u16 b b \<and>
   carries typed_value (enc_u32 vec_write_all) len_u32 dec_u32 c c \<and>
   carries typed_value (enc_u64 vec_write_all) len_u64 dec_u64 d d \<and>
   carries typed_value (enc_i8 vec_write_all) len_i8 dec_i8 a a \<and>
   carries typed_value (enc_i16 vec_write_all) len_i16 dec_i16 b b \<and>
   carries typed_value (enc_i32 vec_write_all) len_i32 dec_i32 c c \<and>
   carries typed_value (enc_i64 vec_write_all) len_i64 dec_i64 d d \<and>
   (n < usize_bound \<longrightarrow> carries typed_value (encode_usize vec_write_all) len_usize decode_usize n n) \<and>
   carries typed_value (encode_isize vec_write_all) len_isize decode_isize d d \<and>
   carries typed_value (enc_int vec_write_all) len_int dec_int i i \<and>
   (char_from_u32 c = Some c \<longrightarrow> carries typed_value (enc_char vec_write_all) len_char dec_char c c) \<and>
   carries typed_value (enc_bool vec_write_all) len_bool dec_bool q q \<and>
   carries typed_value (enc_f32 vec_write_all) len_f32 (dec_f32 half) c c \<and>
   carries typed_value (enc_f64 vec_write_all) len_f64 (dec_f64 half) d d \<and>
   carries typed_value (enc_tag vec_write_all) len_tag dec_tag t t \<and>
   carries typed_value (encode_unit vec_write_all) len_unit decode_unit () () \<and>
   carries typed_value (encode_byte_slice vec_write_all) len_byte_slice decode_byte_slice s s \<and>
   carries typed_value (encode_byte_array (length s) vec_write_all) (len_byte_array (length s)) (decode_byte_array (length s)) s s \<and>
   (valid_utf8 s \<longrightarrow> carries typed_value (enc_str vec_write_all) len_str dec_str s s)"
  unfolding decode_unit_def encode_isize_def [abs_def] len_isize_def [abs_def] decode_isize_def
  by (intro conjI impI carries_integers carries_scalars carries_tag carries_int carries_unit carries_strings(1,3)
      carries_byte_array carries_usize carries_char refl)

lemma basic_types_exact_witness:
  "carries typed_value (enc_char vec_write_all) len_char dec_char 0x20ac 0x20ac \<and>
   carries typed_value (encode_usize vec_write_all) len_usize decode_usize 70000 70000 \<and>
   carries typed_value (enc_str vec_write_all) len_str dec_str [0xe2, 0x82, 0xac] [0xe2, 0x82, 0xac]"
proof -
  have "char_from_u32 0x20ac = Some 0x20ac" "valid_utf8 [0xe2, 0x82, 0xac]" by code_simp+
  then show ?thesis
    using basic_types_exact [where c = "0x20ac" and n = 70000 and s = "[0xe2, 0x82, 0xac]"] by (simp add: usize_bound_def)
qed

text \<open>C22: a generic type keeps the contract of its parameters: vectors and fixed-length arrays give their
  elements back in order, sets, heaps and maps (with distinct keys) their contents; tuples of one to
  sixteen fields, each of a type of its own, pairs, the five kinds of ranges, the three kinds of bounds, both
  kinds of results and tagged values give back their parts: each in exactly the announced number of bytes.
  Encoded iterators, which announce no length, come back as the vector or the map of their items,
  whether their size hint is exact or not.\<close>

theorem generic_types_round_trip:
  assumes e: "\<forall>x. ok x \<longrightarrow> carries typed enc len m x x" and xs: "list_all ok xs" and kvs: "list_all (\<lambda>(k, v). ok k \<and> ok v) kvs"
    and "distinct (map fst kvs)" "ok x" "ok y"
    and "list_all2 (\<lambda>(e, l, m) v. carries typed e l m v v) ts vs" "1 \<le> length ts" "length ts \<le> 16"
  shows "carries typed_value (encode_sequential vec_write_all enc) (len_sequential len) (decode_vec m) xs xs \<and>
    carries typed_value (encode_array_n (length xs) vec_write_all enc) (len_array_n (length xs) len)
      (decode_array_n (length xs) m) xs xs \<and>
    carries typed_value (encode_sequential vec_write_all enc) (len_sequential len) (decode_set m) xs (set xs) \<and>
    carries typed_value (encode_sequential vec_write_all enc) (len_sequential len) (decode_heap m) xs (mset xs) \<and>
    carries typed_value (encode_map vec_write_all enc enc) (len_map len len) (decode_map m m) kvs (map_of kvs) \<and>
    carries typed_value (encode_tuple vec_write_all (length ts) (encode_tuple_fields (map fst ts)))
      (len_tuple (length ts) (len_tuple_fields (map (fst \<circ> snd) ts)))
      (decode_tuple (length ts) (decode_tuple_fields (map (snd \<circ> snd) ts))) vs vs \<and>
    carries typed_value (encode_tuple vec_write_all 2 (encode_fields enc enc)) (len_tuple 2 (len_fields len len))
      (decode_tuple 2 (decode_pair m m)) (x, y) (x, y) \<and>
    carries typed_value (encode_range vec_write_all enc) (len_range len) (decode_range m) (x, y) (x, y) \<and>
    carries typed_value (encode_range_inclusive vec_write_all enc) (len_range_inclusive len)
      (decode_range_inclusive m) (x, y) (x, y) \<and>
    carries typed_value (encode_open_range vec_write_all enc) (len_open_range len) (decode_range_from m) x x \<and>
    carries typed_value (encode_open_range vec_write_all enc) (len_open_range len) (decode_range_to m) x x \<and>
    carries typed_value (encode_open_range vec_write_all enc) (len_open_range len) (decode_range_to_inclusive m) x x \<and>
    (\<forall>b \<in> {Included x, Excluded x, Unbounded}.
      carries typed_value (encode_bound vec_write_all enc) (len_bound len) (decode_bound m) b b) \<and>
    (\<forall>r \<in> {Inr x, Inl y}.
      carries typed_value (encode_result vec_write_all enc enc) (len_result len len) (decode_result m m) r r) \<and>
    carries typed_value (encode_tagged vec_write_all n enc) (len_tagged n len) (decode_tagged n m) x x \<and>
    ((snd hint = Some (fst hint) \<longrightarrow> fst hint = length xs) \<longrightarrow>
      decoded_back (decode_vec m) (encode_array_iter vec_write_all enc hint xs) xs) \<and>
    ((snd hint = Some (fst hint) \<longrightarrow> fst hint = length kvs) \<longrightarrow>
      decoded_back (decode_map m m) (encode_map_iter vec_write_all enc enc hint kvs) (map_of kvs))"
proof -
  have c: "carries typed enc len m x x" "carries typed enc len m y y" using e assms(5,6) by auto
  have el: "\<And>x. x \<in> set xs \<Longrightarrow> carries typed enc len m x x" using e xs by (auto simp: list_all_iff)
  have kv: "\<And>k v. (k, v) \<in> set kvs \<Longrightarrow> carries typed enc len m k k \<and> carries typed enc len m v v"
    using e kvs by (auto simp: list_all_iff)
  have b: "\<forall>b \<in> {Included x, Excluded x, Unbounded}.
      carries typed_value (encode_bound vec_write_all enc) (len_bound len) (decode_bound m) b b"
    using carries_bound(1,2) [OF c(1)] carries_bound(3) by blast
  have r: "\<forall>r \<in> {Inr x, Inl y}.
      carries typed_value (encode_result vec_write_all enc enc) (len_result len len) (decode_result m m) r r"
    using carries_result(1) [OF c(1)] carries_result(2) [OF c(2)] by blast
  show ?thesis
    by (intro conjI impI b r carries_ranges [OF c] array_iter_decoded [where l = len] map_iter_decoded [OF kv _ assms(4)]
        carries_vec carries_array_n carries_collections carries_map_of [OF kv assms(4)]
        carries_tuple [OF carries_tuple_fields [OF assms(7)] assms(8,9)]
        carries_tuple [OF carries_fields [OF c]] carries_tagged [OF c(1)]) (simp_all add: el)
qed

lemma generic_types_round_trip_witness:
  "carries typed_value (encode_tuple vec_write_all 2 (encode_tuple_fields [enc_u64 vec_write_all, encode_nonzero (enc_u64 vec_write_all)]))
     (len_tuple 2 (len_tuple_fields [len_u64, len_nonzero len_u64]))
     (decode_tuple 2 (decode_tuple_fields [dec_u64, decode_nonzero ''zero'' dec_u64])) [0, 300] [0, 300]"
proof -
  have z: "carries typed (encode_nonzero (enc_u64 vec_write_all)) (len_nonzero len_u64) (decode_nonzero ''zero'' dec_u64) 300 300"
    using carries_nonzero [OF carries_typed [OF carries_integers(4)], of 300 "''zero''"]
    by (simp add: carries_def encode_nonzero_def len_nonzero_def)
  show ?thesis
    using generic_types_round_trip [of "\<lambda>_. True" "enc_u64 vec_write_all" len_u64 dec_u64 "[1, 300]" "[(1, 2)]" 1 2
        "[(enc_u64 vec_write_all, len_u64, dec_u64),
          (encode_nonzero (enc_u64 vec_write_all), len_nonzero len_u64, decode_nonzero ''zero'' dec_u64)]" "[0, 300]"]
      carries_typed [OF carries_integers(4)] z by (simp add: numeral_2_eq_2)
qed

text \<open>An optional value comes back when its type is never encoded as null, and nothing comes back as
  nothing; an option in an option loses a level, since both absent values are the same byte.\<close>

theorem options_round_trip:
  assumes "carries typed_value enc len m x x"
  shows "carries typed (encode_option vec_write_all enc) (len_option len) (decode_option m) (Some x) (Some x) \<and>
    carries typed (encode_option vec_write_all enc) (len_option len) (decode_option m) None None \<and>
    decoded_back (decode_option (decode_option m))
      (encode_option vec_write_all (encode_option vec_write_all enc) (Some None)) None"
proof (intro conjI)
  have "encode_option vec_write_all (encode_option vec_write_all enc) (Some None) = enc_put vec_write_all [0xf6]"
    by (simp add: encode_option_def enc_null_def)
  then show "decoded_back (decode_option (decode_option m))
      (encode_option vec_write_all (encode_option vec_write_all enc) (Some None)) None"
    by (simp only:) (rule decoded_backI [OF vec_sink.emits_put], rule reads_option(2))
qed (rule carries_typed [OF carries_option(1) [OF assms]], rule carries_option(2))

lemma options_round_trip_witness:
  "carries typed (encode_option vec_write_all (enc_bool vec_write_all)) (len_option len_bool)
     (decode_option dec_bool) (Some True) (Some True)"
  by (rule conjunct1 [OF options_round_trip [OF carries_scalars(1)]])

text \<open>Durations, times since the epoch and addresses come back, in the announced number of bytes,
  except that an IPv6 socket address comes back without its flow information and its scope.\<close>

theorem times_and_addresses_round_trip:
  assumes "unat (subsec_nanos d) < 10 ^ 9" "0 \<le> sint (st_secs t)" "unat (st_nanos t) < 10 ^ 9"
    and "ip_ok a" "length (v4_ip b) = 4" "length (v6_ip c) = 16"
  shows "carries typed_value (encode_duration vec_write_all) len_duration decode_duration d (Some d) \<and>
    carries typed_value (encode_system_time vec_write_all) len_system_time decode_system_time t (Some t) \<and>
    carries typed_value (encode_ip_addr vec_write_all) len_ip_addr decode_ip_addr a a \<and>
    carries typed_value (encode_socket_addr vec_write_all) len_socket_addr decode_socket_addr (SocketV4 b) (SocketV4 b) \<and>
    carries typed_value (encode_socket_addr vec_write_all) len_socket_addr decode_socket_addr (SocketV6 c)
      (SocketV6 (c\<lparr>v6_flowinfo := 0, v6_scope_id := 0\<rparr>))"
proof (intro conjI carries_duration carries_system_time carries_ip_addr assms)
  show "carries typed_value (encode_socket_addr vec_write_all) len_socket_addr decode_socket_addr (SocketV4 b) (SocketV4 b)"
    unfolding decode_socket_addr_def
    by (rule carries_variant [OF carries_socket_v4 [OF assms(5)], where n = 0])
      (simp_all add: encode_socket_addr_def len_socket_addr_def)
  show "carries typed_value (encode_socket_addr vec_write_all) len_socket_addr decode_socket_addr (SocketV6 c)
      (SocketV6 (c\<lparr>v6_flowinfo := 0, v6_scope_id := 0\<rparr>))"
    unfolding decode_socket_addr_def
    by (rule carries_variant [OF carries_socket_v6 [OF assms(6)], where n = 1])
      (simp_all add: encode_socket_addr_def len_socket_addr_def)
qed

lemma times_and_addresses_round_trip_witness:
  "carries typed_value (encode_socket_addr vec_write_all) len_socket_addr decode_socket_addr
     (SocketV6 \<lparr>v6_ip = replicate 16 1, v6_port = 53, v6_flowinfo = 7, v6_scope_id = 3\<rparr>)
     (SocketV6 \<lparr>v6_ip = replicate 16 1, v6_port = 53, v6_flowinfo = 0, v6_scope_id = 0\<rparr>)"
  using times_and_addresses_round_trip [of "\<lparr>as_secs = 1, subsec_nanos = 2\<rparr>" "\<lparr>st_secs = 1, st_nanos = 2\<rparr>"
      "IpV4 [127, 0, 0, 1]" "\<lparr>v4_ip = [127, 0, 0, 1], v4_port = 80\<rparr>"
      "\<lparr>v6_ip = replicate 16 1, v6_port = 53, v6_flowinfo = 7, v6_scope_id = 3\<rparr>"] by simp


text \<open>C23: a structure of one or two fields is decoded from an array with more elements than it has fields by
  skipping the further ones, whatever items they are. One with too few elements is an error that names
  the first missing field, whichever it is, and the position of the array. Both hold in both length forms.\<close>

theorem structures_extensible:
  assumes "reads m1 bs x" "reads m2 cs y" "encodes_seq vs ds"
  shows "(is_head ARRAY (2 + length vs) h \<longrightarrow>
      reads (decode_fields2 msg1 m1 msg2 m2) (h @ bs @ cs @ ds) (x, y)) \<and>
    (is_head ARRAY (1 + length vs) h \<longrightarrow> reads (decode_fields1 msg1 m1) (h @ bs @ ds) x) \<and>
    (typed bs \<longrightarrow> typed cs \<longrightarrow>
      reads (decode_fields2 msg1 m1 msg2 m2) ([0x9f] @ bs @ cs @ ds @ [0xff]) (x, y)) \<and>
    (typed bs \<longrightarrow> reads (decode_fields1 msg1 m1) ([0x9f] @ bs @ ds @ [0xff]) x) \<and>
    (is_head ARRAY 1 h \<longrightarrow> yields (decode_fields2 msg1 m1 msg2 m2) (h @ bs)
      (\<lambda>p. Inl (with_message msg2 (err_at p (missing_value 1))))) \<and>
    (typed bs \<longrightarrow> yields (decode_fields2 msg1 m1 msg2 m2) ([0x9f] @ bs @ [0xff])
      (\<lambda>p. Inl (with_message msg2 (err_at p (missing_value 1))))) \<and>
    (is_head ARRAY 0 h \<or> h = [0x9f, 0xff] \<longrightarrow>
      yields (decode_fields2 msg1 m1 msg2 m2) h (\<lambda>p. Inl (with_message msg1 (err_at p (missing_value 0)))) \<and>
      yields (decode_fields1 msg1 m1) h (\<lambda>p. Inl (with_message msg1 (err_at p (missing_value 0)))))"
proof (intro conjI impI)
  assume "is_head ARRAY 0 h \<or> h = [0x9f, 0xff]"
  then show "yields (decode_fields2 msg1 m1 msg2 m2) h (\<lambda>p. Inl (with_message msg1 (err_at p (missing_value 0))))"
    "yields (decode_fields1 msg1 m1) h (\<lambda>p. Inl (with_message msg1 (err_at p (missing_value 0))))"
    using fields2_from(1) [OF _ fields_def_loops(3) [OF assms], of h] fields2_from(2) [OF yields_indef_break]
      fields1_from(1) [OF _ fields_def_loops(3) [OF assms], of h] fields1_from(2) [OF yields_indef_break]
    by (auto simp: ok_or_def both_fields_eqs)
qed (use fields2_from(1) [OF _ fields_def_loops(1) [OF assms], of h msg1 msg2]
    fields1_from(1) [OF _ fields_def_loops(4) [OF assms], of h msg1]
    fields2_from(2) [OF fields_indef_loops(1) [OF assms], of msg1 msg2]
    fields1_from(2) [OF fields_indef_loops(3) [OF assms], of msg1]
    fields2_from(1) [OF _ fields_def_loops(2) [OF assms], of h msg1 msg2]
    fields2_from(2) [OF fields_indef_loops(2) [OF assms], of msg1 msg2] in \<open>simp_all add: ok_or_def both_fields_eqs\<close>)

lemma structures_extensible_witness:
  "reads decode_socket_v4 [0x83, 0x44, 127, 0, 0, 1, 0x18, 80, 0xf6] \<lparr>v4_ip = [127, 0, 0, 1], v4_port = 80\<rparr>"
proof -
  have h: "is_head BYTES (length [127, 0, 0, 1 :: u8]) [0x44]"
    using is_head_head_bytes [of "length [127, 0, 0, 1 :: u8]" BYTES] by (simp add: head_bytes_def)
  have r: "reads dec_bytes ([0x44] @ [127, 0, 0, 1]) [127, 0, 0, 1]"
    "is_head ARRAY (2 + length [CSimple 22]) [0x83]"
    using reads_bytes [OF h] is_head_head_bytes [of 3 ARRAY] by (simp_all add: head_bytes_def)
  have ip: "reads decode_ipv4 [0x44, 127, 0, 0, 1] [127, 0, 0, 1]"
    unfolding decode_ipv4_def decode_byte_array_def using r(1)
    by (intro yields_with_pos yields_then [of dec_bytes _ "[127, 0, 0, 1]"]) (simp_all add: reads_ret)
  have port: "reads dec_u16 [0x18, 80] 80" using reads_int_head(2) [of 80] by (simp add: int_head_def head_bytes_def)
  have more: "encodes_seq [CSimple 22] ([0xf6] @ [])" by (rule enc_seq_cons [OF encodes_null enc_seq_nil])
  from reads_map [OF conjunct1 [OF structures_extensible [OF ip port more], rule_format, OF r(2),
        of "''SocketAddrV4::ip''" "''SocketAddrV4::port''"], of "\<lambda>(ip, port). \<lparr>v4_ip = ip, v4_port = port\<rparr>"]
  show ?thesis by (simp add: decode_socket_v4_def)
qed

text \<open>C34: decoding a collection ends on every input, well-formed or not, for every element decoder that
  stays inside the input and consumes something when it succeeds; the decoder of vectors is then again
  such a decoder, so that nested collections end too.\<close>

theorem collections_terminate:
  assumes "safe m \<and> progress m" "safe v"
  shows "(\<exists>r d'. array_elements m d = Some (r, (), d')) \<and> (\<exists>r d'. map_elements m v d = Some (r, (), d')) \<and>
    safe (decode_vec m) \<and> progress (decode_vec m)"
  using elements_total [of m d] entries_total [of m v d] decode_vec_safe [of m] assms by blast

lemma collections_terminate_witness:
  "\<exists>r d'. array_elements (decode_vec dec_u64) (dec_new [0x9f, 0x81]) = Some (r, (), d')"
proof -
  have "safe dec_u64 \<and> progress dec_u64" by (intro conjI safe_ops progress_ops)
  from collections_terminate [OF this safe_ops(1), of undefined]
  have "safe (decode_vec dec_u64) \<and> progress (decode_vec dec_u64)" by blast
  from collections_terminate [OF this safe_ops(1), of "dec_new [0x9f, 0x81]"] show ?thesis by blast
qed

lemma duration_new_spec:
  "duration_new s n = None \<longleftrightarrow> 2 ^ 64 \<le> unat s + unat n div 10 ^ 9"
  "duration_new s n = Some d \<Longrightarrow> unat (subsec_nanos d) < 10 ^ 9 \<and>
     unat (as_secs d) * 10 ^ 9 + unat (subsec_nanos d) = unat s * 10 ^ 9 + unat n"
proof -
  have q: "unat (s + of_nat k) = unat s + k" if "unat s + k < 2 ^ 64" for k
    using that unat_of_nat_u64 [of "unat s + k"] by simp
  have r: "unat (of_nat (unat n mod 10 ^ 9) :: u32) = unat n mod 10 ^ 9"
  proof -
    have "unat n mod 10 ^ 9 < (10::nat) ^ 9" by simp
    then have "unat n mod 10 ^ 9 < 2 ^ 32" by simp
    then show ?thesis by (simp add: unsigned_of_nat take_bit_nat_eq_self)
  qed
  show "duration_new s n = None \<longleftrightarrow> 2 ^ 64 \<le> unat s + unat n div 10 ^ 9"
    using unat_lt [of s] by (auto simp: duration_new_def)
  assume d: "duration_new s n = Some d"
  show "unat (subsec_nanos d) < 10 ^ 9 \<and>
     unat (as_secs d) * 10 ^ 9 + unat (subsec_nanos d) = unat s * 10 ^ 9 + unat n"
  proof (cases "unat n < 10 ^ 9")
    case True
    with d show ?thesis by (auto simp: duration_new_def)
  next
    case False
    with d have f: "unat s + unat n div 10 ^ 9 < 2 ^ 64" and
      e: "d = \<lparr>as_secs = s + of_nat (unat n div 10 ^ 9), subsec_nanos = of_nat (unat n mod 10 ^ 9)\<rparr>"
      by (simp_all only: duration_new_def if_False split: if_splits) simp_all
    have "(unat s + unat n div 10 ^ 9) * 10 ^ 9 + unat n mod 10 ^ 9 = unat s * 10 ^ 9 + unat n"
      by (simp only: add_mult_distrib add.assoc div_mult_mod_eq)
    then show ?thesis unfolding e using q [OF f] r by (simp del: unsigned_of_nat)
  qed
qed

text \<open>Decoding a duration keeps its length in nanoseconds and normalises it, for every pair of
  numbers on the wire; it panics exactly when the seconds, with the whole seconds among the nanoseconds
  added, do not fit 64 bits.\<close>

theorem duration_decoding:
  assumes "reads dec_u64 bs s" "reads dec_u32 cs n"
  shows "reads decode_duration ([0x82] @ bs @ cs) (duration_new s n) \<and>
    (duration_new s n = None \<longleftrightarrow> 2 ^ 64 \<le> unat s + unat n div 10 ^ 9) \<and>
    (\<forall>d. duration_new s n = Some d \<longrightarrow> unat (subsec_nanos d) < 10 ^ 9 \<and>
      unat (as_secs d) * 10 ^ 9 + unat (subsec_nanos d) = unat s * 10 ^ 9 + unat n)"
  unfolding decode_duration_def
  using reads_map [OF reads_fields2 [OF assms], of "\<lambda>(secs, nanos). duration_new secs nanos"] duration_new_spec
  by simp

lemma duration_decoding_witness:
  "reads decode_duration ([0x82] @ int_head (uint (2 ^ 64 - 1 :: u64)) @ int_head (uint (10 ^ 9 :: u32))) None"
  using duration_decoding [OF reads_int_head(4) [of "2 ^ 64 - 1"] reads_int_head(3) [of "10 ^ 9"]]
  by (simp add: duration_new_def)

end
