(* ===== verification/Cbor_Token.thy ===== *)
theory Cbor_Token
  imports Cbor_Impls
begin

text \<open>
  Tokens (\<open>minicbor/src/data/token.rs\<close>): single CBOR heads and payloads as values, with their text,
  their decoding and their encoding. The formatting of floats in scientific notation is the standard
  library's, and the conversions of half precision are the \<open>half\<close> crate's; both are parameters.

  The lemmas show that an encoded token is decoded as the token of the smallest type that holds its
  value, and for which tokens \<open>cbor_len\<close> is the length of the encoding.
\<close>

section \<open>Tokens\<close>

datatype token =
    Tk_Bool bool
  | Tk_U8 u8
  | Tk_U16 u16
  | Tk_U32 u32
  | Tk_U64 u64
  | Tk_I8 i8
  | Tk_I16 i16
  | Tk_I32 i32
  | Tk_I64 i64
  | Tk_Int cbor_int
  | Tk_F16 f32
  | Tk_F32 f32
  | Tk_F64 f64
  | Tk_Bytes bytes
  | Tk_String bytes
  | Tk_Array u64
  | Tk_Map u64
  | Tk_Tag tag
  | Tk_Simple u8
  | Tk_Break
  | Tk_Null
  | Tk_Undefined
  | Tk_BeginBytes
  | Tk_BeginString
  | Tk_BeginArray
  | Tk_BeginMap

text \<open>The bytes of a byte string in hexadecimal, separated by blanks.\<close>

fun hex_bytes :: "bytes \<Rightarrow> string" where
  "hex_bytes [] = []"
| "hex_bytes [x] = hex2_str x"
| "hex_bytes (x # y # ys) = hex2_str x @ '' '' @ hex_bytes (y # ys)"

definition show_uint :: "'a::len word \<Rightarrow> bytes" where
  "show_uint n = str_bytes (nat_str (unat n))"

definition show_sint :: "'a::len word \<Rightarrow> bytes" where
  "show_sint n = str_bytes (int_str (sint n))"

record float_format =
  show_f32 :: "f32 \<Rightarrow> string"
  show_f64 :: "f64 \<Rightarrow> string"

fun token_display :: "float_format \<Rightarrow> token \<Rightarrow> bytes" where
  "token_display ff (Tk_Bool b) = str_bytes (if b then ''true'' else ''false'')"
| "token_display ff (Tk_U8 n) = show_uint n"
| "token_display ff (Tk_U16 n) = show_uint n"
| "token_display ff (Tk_U32 n) = show_uint n"
| "token_display ff (Tk_U64 n) = show_uint n"
| "token_display ff (Tk_I8 n) = show_sint n"
| "token_display ff (Tk_I16 n) = show_sint n"
| "token_display ff (Tk_I32 n) = show_sint n"
| "token_display ff (Tk_I64 n) = show_sint n"
| "token_display ff (Tk_Int n) = str_bytes (int_display n)"
| "token_display ff (Tk_F16 n) = str_bytes (show_f32 ff n)"
| "token_display ff (Tk_F32 n) = str_bytes (show_f32 ff n)"
| "token_display ff (Tk_F64 n) = str_bytes (show_f64 ff n)"
| "token_display ff (Tk_String n) = [0x22] @ n @ [0x22]"
| "token_display ff (Tk_Array n) = str_bytes ''A['' @ show_uint n @ str_bytes '']''"
| "token_display ff (Tk_Map n) = str_bytes ''M['' @ show_uint n @ str_bytes '']''"
| "token_display ff (Tk_Tag t) = str_bytes ''T('' @ show_uint (tag_as_u64 t) @ str_bytes '')''"
| "token_display ff (Tk_Simple n) = str_bytes ''simple('' @ show_uint n @ str_bytes '')''"
| "token_display ff Tk_Break = str_bytes '']''"
| "token_display ff Tk_Null = str_bytes ''null''"
| "token_display ff Tk_Undefined = str_bytes ''undefined''"
| "token_display ff Tk_BeginBytes = str_bytes ''?B[''"
| "token_display ff Tk_BeginString = str_bytes ''?S[''"
| "token_display ff Tk_BeginArray = str_bytes ''?A[''"
| "token_display ff Tk_BeginMap = str_bytes ''?M[''"
| "token_display ff (Tk_Bytes b) = str_bytes (''h'' @ [CHR 0x27] @ hex_bytes b @ [CHR 0x27])"

definition skip_byte :: "unit dec" where
  "skip_byte = (\<lambda>d. (Inr (), dec_set_position (dec_position d + 1) d))"

definition token_of_type :: "(u16 \<Rightarrow> f32) \<Rightarrow> cbor_type \<Rightarrow> token dec" where
  "token_of_type to_f32 = (\<lambda>ty. case ty of
       TyBool \<Rightarrow> map_m Tk_Bool dec_bool
     | TyU8 \<Rightarrow> map_m Tk_U8 dec_u8
     | TyU16 \<Rightarrow> map_m Tk_U16 dec_u16
     | TyU32 \<Rightarrow> map_m Tk_U32 dec_u32
     | TyU64 \<Rightarrow> map_m Tk_U64 dec_u64
     | TyI8 \<Rightarrow> map_m Tk_I8 dec_i8
     | TyI16 \<Rightarrow> map_m Tk_I16 dec_i16
     | TyI32 \<Rightarrow> map_m Tk_I32 dec_i32
     | TyI64 \<Rightarrow> map_m Tk_I64 dec_i64
     | TyInt \<Rightarrow> map_m Tk_Int dec_int
     | TyF16 \<Rightarrow> map_m Tk_F16 (dec_f16 to_f32)
     | TyF32 \<Rightarrow> map_m Tk_F32 (dec_f32 to_f32)
     | TyF64 \<Rightarrow> map_m Tk_F64 (dec_f64 to_f32)
     | TyBytes \<Rightarrow> map_m Tk_Bytes dec_bytes
     | TyString \<Rightarrow> map_m Tk_String dec_str
     | TyTag \<Rightarrow> map_m Tk_Tag dec_tag
     | TySimple \<Rightarrow> map_m Tk_Simple dec_simple
     | TyArray \<Rightarrow> with_pos (\<lambda>p. bind_m dec_array (\<lambda>n. case n of
           Some n \<Rightarrow> ret_m (Tk_Array n)
         | None \<Rightarrow> fail_m (with_message ''missing array length'' (err_at p (type_mismatch TyArray)))))
     | TyMap \<Rightarrow> with_pos (\<lambda>p. bind_m dec_map (\<lambda>n. case n of
           Some n \<Rightarrow> ret_m (Tk_Map n)
         | None \<Rightarrow> fail_m (with_message ''missing map length'' (err_at p (type_mismatch TyArray)))))
     | TyBytesIndef \<Rightarrow> seq_m skip_byte (ret_m Tk_BeginBytes)
     | TyStringIndef \<Rightarrow> seq_m skip_byte (ret_m Tk_BeginString)
     | TyArrayIndef \<Rightarrow> seq_m skip_byte (ret_m Tk_BeginArray)
     | TyMapIndef \<Rightarrow> seq_m skip_byte (ret_m Tk_BeginMap)
     | TyNull \<Rightarrow> seq_m skip_byte (ret_m Tk_Null)
     | TyUndefined \<Rightarrow> seq_m skip_byte (ret_m Tk_Undefined)
     | TyBreak \<Rightarrow> seq_m skip_byte (ret_m Tk_Break)
     | TyUnknown b \<Rightarrow> with_pos (\<lambda>p.
         fail_m (with_message ''unknown cbor type'' (err_at p (type_mismatch (TyUnknown b))))))"

definition decode_token :: "(u16 \<Rightarrow> f32) \<Rightarrow> token dec" where
  "decode_token to_f32 = bind_m dec_datatype (token_of_type to_f32)"

fun encode_token :: "(f32 \<Rightarrow> u16) \<Rightarrow> ('w, 'e) write_all \<Rightarrow> token \<Rightarrow> ('w, 'e) enc" where
  "encode_token to_f16 wr (Tk_Bool x) = enc_bool wr x"
| "encode_token to_f16 wr (Tk_U8 x) = enc_u8 wr x"
| "encode_token to_f16 wr (Tk_U16 x) = enc_u16 wr x"
| "encode_token to_f16 wr (Tk_U32 x) = enc_u32 wr x"
| "encode_token to_f16 wr (Tk_U64 x) = enc_u64 wr x"
| "encode_token to_f16 wr (Tk_I8 x) = enc_i8 wr x"
| "encode_token to_f16 wr (Tk_I16 x) = enc_i16 wr x"
| "encode_token to_f16 wr (Tk_I32 x) = enc_i32 wr x"
| "encode_token to_f16 wr (Tk_I64 x) = enc_i64 wr x"
| "encode_token to_f16 wr (Tk_Int x) = enc_int wr x"
| "encode_token to_f16 wr (Tk_F16 x) = enc_f16 to_f16 wr x"
| "encode_token to_f16 wr (Tk_F32 x) = enc_f32 wr x"
| "encode_token to_f16 wr (Tk_F64 x) = enc_f64 wr x"
| "encode_token to_f16 wr (Tk_Bytes x) = enc_bytes wr x"
| "encode_token to_f16 wr (Tk_String x) = enc_str wr x"
| "encode_token to_f16 wr (Tk_Array x) = enc_array wr x"
| "encode_token to_f16 wr (Tk_Map x) = enc_map wr x"
| "encode_token to_f16 wr (Tk_Tag x) = enc_tag wr x"
| "encode_token to_f16 wr (Tk_Simple x) = enc_simple wr x"
| "encode_token to_f16 wr Tk_Break = enc_end wr"
| "encode_token to_f16 wr Tk_Null = enc_null wr"
| "encode_token to_f16 wr Tk_Undefined = enc_undefined wr"
| "encode_token to_f16 wr Tk_BeginBytes = enc_begin_bytes wr"
| "encode_token to_f16 wr Tk_BeginString = enc_begin_str wr"
| "encode_token to_f16 wr Tk_BeginArray = enc_begin_array wr"
| "encode_token to_f16 wr Tk_BeginMap = enc_begin_map wr"

text \<open>
  \<open>cbor_len\<close> of a byte string token is the one of a slice of \<open>u8\<close>, which is an array of numbers; the one
  of a half precision token is that of an \<open>f32\<close>, and the one of a simple value that of a \<open>u8\<close>.
\<close>

fun token_len :: "token \<Rightarrow> usize" where
  "token_len (Tk_Bool x) = len_bool x"
| "token_len (Tk_U8 x) = len_u8 x"
| "token_len (Tk_U16 x) = len_u16 x"
| "token_len (Tk_U32 x) = len_u32 x"
| "token_len (Tk_U64 x) = len_u64 x"
| "token_len (Tk_I8 x) = len_i8 x"
| "token_len (Tk_I16 x) = len_i16 x"
| "token_len (Tk_I32 x) = len_i32 x"
| "token_len (Tk_I64 x) = len_i64 x"
| "token_len (Tk_Int x) = len_int x"
| "token_len (Tk_F16 x) = len_f32 x"
| "token_len (Tk_F32 x) = len_f32 x"
| "token_len (Tk_F64 x) = len_f64 x"
| "token_len (Tk_Bytes x) = len_sequential len_u8 x"
| "token_len (Tk_String x) = len_str x"
| "token_len (Tk_Array x) = len_u64 x"
| "token_len (Tk_Map x) = len_u64 x"
| "token_len (Tk_Tag x) = len_tag x"
| "token_len (Tk_Simple x) = len_u8 x"
| "token_len t = 1"

section \<open>Encoded tokens\<close>

fun token_bytes :: "(f32 \<Rightarrow> u16) \<Rightarrow> token \<Rightarrow> bytes" where
  "token_bytes to_f16 (Tk_Bool x) = [SIMPLE OR (if x then 0x15 else 0x14)]"
| "token_bytes to_f16 (Tk_U8 x) = int_head (uint x)"
| "token_bytes to_f16 (Tk_U16 x) = int_head (uint x)"
| "token_bytes to_f16 (Tk_U32 x) = int_head (uint x)"
| "token_bytes to_f16 (Tk_U64 x) = int_head (uint x)"
| "token_bytes to_f16 (Tk_I8 x) = int_head (sint x)"
| "token_bytes to_f16 (Tk_I16 x) = int_head (sint x)"
| "token_bytes to_f16 (Tk_I32 x) = int_head (sint x)"
| "token_bytes to_f16 (Tk_I64 x) = int_head (sint x)"
| "token_bytes to_f16 (Tk_Int x) = int_head (int_value x)"
| "token_bytes to_f16 (Tk_F16 x) = (SIMPLE OR 25) # to_be16 (to_f16 x)"
| "token_bytes to_f16 (Tk_F32 x) = (SIMPLE OR 26) # to_be32 x"
| "token_bytes to_f16 (Tk_F64 x) = (SIMPLE OR 27) # to_be64 x"
| "token_bytes to_f16 (Tk_Bytes x) = head_bytes BYTES (unat (of_nat (length x) :: u64)) @ x"
| "token_bytes to_f16 (Tk_String x) = head_bytes TEXT (unat (of_nat (length x) :: u64)) @ x"
| "token_bytes to_f16 (Tk_Array n) = head_bytes ARRAY (unat n)"
| "token_bytes to_f16 (Tk_Map n) = head_bytes MAP (unat n)"
| "token_bytes to_f16 (Tk_Tag t) = head_bytes TAGGED (unat (tag_as_u64 t))"
| "token_bytes to_f16 (Tk_Simple x) = (if x < 0x14 then [SIMPLE OR x] else [SIMPLE OR 24, x])"
| "token_bytes to_f16 Tk_Break = [0xff]"
| "token_bytes to_f16 Tk_Null = [SIMPLE OR 22]"
| "token_bytes to_f16 Tk_Undefined = [SIMPLE OR 23]"
| "token_bytes to_f16 Tk_BeginBytes = [0x5f]"
| "token_bytes to_f16 Tk_BeginString = [0x7f]"
| "token_bytes to_f16 Tk_BeginArray = [0x9f]"
| "token_bytes to_f16 Tk_BeginMap = [0xbf]"

lemma emits_token: "vec_sink.emits (encode_token to_f16 vec_write_all t) (token_bytes to_f16 t)"
  by (cases t)
    (simp_all only: encode_token.simps token_bytes.simps int_head_uint vec_sink.emits_intros enc_null_def enc_undefined_def
      enc_tag_def enc_array_def enc_map_def enc_begin_array_def enc_begin_map_def enc_begin_bytes_def enc_begin_str_def
      enc_end_def)

text \<open>The token of the smallest type for an integer.\<close>

definition int_token :: "int \<Rightarrow> token" where
  "int_token k =
     (if 0 \<le> k then
        (if k < 2 ^ 8 then Tk_U8 (word_of_int k) else if k < 2 ^ 16 then Tk_U16 (word_of_int k)
         else if k < 2 ^ 32 then Tk_U32 (word_of_int k) else Tk_U64 (word_of_int k))
      else if - (2 ^ 7) \<le> k then Tk_I8 (word_of_int k)
      else if - (2 ^ 15) \<le> k then Tk_I16 (word_of_int k)
      else if - (2 ^ 31) \<le> k then Tk_I32 (word_of_int k)
      else if - (2 ^ 63) \<le> k then Tk_I64 (word_of_int k)
      else Tk_Int (int_negative (word_of_int (- 1 - k))))"

text \<open>What an encoded token is decoded as.\<close>

fun canonical :: "(u16 \<Rightarrow> f32) \<Rightarrow> (f32 \<Rightarrow> u16) \<Rightarrow> token \<Rightarrow> token" where
  "canonical to_f32 to_f16 (Tk_U8 x) = int_token (uint x)"
| "canonical to_f32 to_f16 (Tk_U16 x) = int_token (uint x)"
| "canonical to_f32 to_f16 (Tk_U32 x) = int_token (uint x)"
| "canonical to_f32 to_f16 (Tk_U64 x) = int_token (uint x)"
| "canonical to_f32 to_f16 (Tk_I8 x) = int_token (sint x)"
| "canonical to_f32 to_f16 (Tk_I16 x) = int_token (sint x)"
| "canonical to_f32 to_f16 (Tk_I32 x) = int_token (sint x)"
| "canonical to_f32 to_f16 (Tk_I64 x) = int_token (sint x)"
| "canonical to_f32 to_f16 (Tk_Int x) = int_token (int_value x)"
| "canonical to_f32 to_f16 (Tk_F16 x) = Tk_F16 (to_f32 (to_f16 x))"
| "canonical to_f32 to_f16 t = t"

definition token_ok :: "token \<Rightarrow> bool" where
  "token_ok t = (case t of Tk_String x \<Rightarrow> valid_utf8 x | _ \<Rightarrow> True)"

lemma peeks_unsigned:
  assumes "n < 2 ^ 64"
  shows "peeks (head_bytes 0 n)
    (if n < 2 ^ 8 then TyU8 else if n < 2 ^ 16 then TyU16 else if n < 2 ^ 32 then TyU32 else TyU64)"
proof -
  have "(of_nat n :: u8) \<le> 0x18" if "n < 24"
    by (rule order_trans [OF small_byte(1) [OF that]]) simp
  then show ?thesis
    unfolding head_bytes_def by (auto intro!: peeks_first simp: dec_type_of_def run_simps)
qed

lemma of_nat_byte_less: "k < 256 \<Longrightarrow> (of_nat k :: u8) < 0x80 \<longleftrightarrow> k < 128"
  by (simp add: word_less_nat_alt unsigned_of_nat take_bit_nat_eq_self)

lemma peeks_signed:
  assumes "n < 2 ^ 64"
  shows "peeks (head_bytes 0x20 n)
    (if n < 2 ^ 7 then TyI8 else if n < 2 ^ 15 then TyI16 else if n < 2 ^ 31 then TyI32
     else if n < 2 ^ 63 then TyI64 else TyInt)"
proof -
  consider "n < 24" | "24 \<le> n" "n < 2 ^ 8" | "2 ^ 8 \<le> n" "n < 2 ^ 16" | "2 ^ 16 \<le> n" "n < 2 ^ 32" | "2 ^ 32 \<le> n"
    by linarith
  then show ?thesis
  proof cases
    case 1
    have "\<not> 0x20 OR of_nat n \<le> (0x18 :: u8)"
      using order_trans [OF small_byte(2) [OF 1], of "0x18"] by auto
    with small_byte [OF 1] signed_byte [OF 1] show ?thesis
      using 1 unfolding head_bytes_def by (auto intro!: peeks_first simp: dec_type_of_def run_simps)
  next
    case 2
    then show ?thesis
      unfolding head_bytes_def by (auto intro!: peeks_second simp: dec_type_of_def run_simps of_nat_byte_less)
  next
    case 3
    then show ?thesis
      unfolding head_bytes_def by (auto intro!: peeks_second simp: dec_type_of_def run_simps of_nat_byte_less be_simps)
  next
    case 4
    then show ?thesis
      unfolding head_bytes_def by (auto intro!: peeks_second simp: dec_type_of_def run_simps of_nat_byte_less be_simps)
  next
    case 5
    with assms show ?thesis
      unfolding head_bytes_def by (auto intro!: peeks_second simp: dec_type_of_def run_simps of_nat_byte_less be_simps)
  qed
qed


lemma uint_of_int_small: "0 \<le> k \<Longrightarrow> k < 2 ^ LENGTH('a) \<Longrightarrow> uint (word_of_int k :: 'a::len word) = k"
  by (simp add: uint_word_of_int)

lemma sint_of_int_negative:
  "k < 0 \<Longrightarrow> - (2 ^ (LENGTH('a) - 1)) \<le> k \<Longrightarrow> sint (word_of_int k :: 'a::len word) = k"
  by (rule sint_word_of_int) (auto intro: less_le_trans [of k 0])

lemma reads_int_token:
  assumes "- (2 ^ 64) \<le> k" "k < 2 ^ 64"
  shows "reads (decode_token to_f32) (int_head k) (int_token k)"
proof (cases "0 \<le> k")
  case True
  then have h: "int_head k = head_bytes 0 (nat k)" by (simp add: int_head_def)
  have n: "nat k < 2 ^ 64" using assms(2) True by (simp add: nat_less_iff)
  have r: "k < 2 ^ 8 \<Longrightarrow> reads dec_u8 (int_head k) (word_of_int k)" "k < 2 ^ 16 \<Longrightarrow> reads dec_u16 (int_head k) (word_of_int k)"
    "k < 2 ^ 32 \<Longrightarrow> reads dec_u32 (int_head k) (word_of_int k)" "reads dec_u64 (int_head k) (word_of_int k)"
    using reads_int_head(1-4) [of "word_of_int k"] assms(2) True uint_of_int_small [of k, where 'a = 8]
      uint_of_int_small [of k, where 'a = 16] uint_of_int_small [of k, where 'a = 32] uint_of_int_small [of k, where 'a = 64]
    by simp_all
  show ?thesis
    unfolding decode_token_def token_of_type_def
    by (rule yields_typed [OF peeks_unsigned [OF n, folded h]])
      (use True r in \<open>auto simp: int_token_def nat_less_iff intro: reads_map\<close>)
next
  case False
  then have h: "int_head k = head_bytes 0x20 (nat (- 1 - k))" by (simp add: int_head_def)
  have n: "nat (- 1 - k) < 2 ^ 64" using assms(1) False by (simp add: nat_less_iff)
  have "uint (word_of_int (- 1 - k) :: u64) = - 1 - k"
    by (rule uint_of_int_small) (use False assms(1) in auto)
  then have i: "int_value (int_negative (word_of_int (- 1 - k))) = k"
    by (simp add: int_value_def int_negative_def)
  have r: "- (2 ^ 7) \<le> k \<Longrightarrow> reads dec_i8 (int_head k) (word_of_int k)" "- (2 ^ 15) \<le> k \<Longrightarrow> reads dec_i16 (int_head k) (word_of_int k)"
    "- (2 ^ 31) \<le> k \<Longrightarrow> reads dec_i32 (int_head k) (word_of_int k)" "- (2 ^ 63) \<le> k \<Longrightarrow> reads dec_i64 (int_head k) (word_of_int k)"
    "reads dec_int (int_head k) (int_negative (word_of_int (- 1 - k)))"
    using reads_int_head(5-8) [of "word_of_int k"] False sint_of_int_negative [of k, where 'a = 8]
      sint_of_int_negative [of k, where 'a = 16] sint_of_int_negative [of k, where 'a = 32]
      sint_of_int_negative [of k, where 'a = 64] reads_int_head_int [of "int_negative (word_of_int (- 1 - k))", unfolded i]
    by (simp_all only: not_le) simp_all
  show ?thesis
    unfolding decode_token_def token_of_type_def
    by (rule yields_typed [OF peeks_signed [OF n, folded h]])
      (use False r in \<open>auto simp: int_token_def nat_less_iff intro: reads_map\<close>)
qed

lemma reads_word_tokens:
  fixes a :: "'a::len word"
  assumes "LENGTH('a) \<le> 64"
  shows "reads (decode_token to_f32) (int_head (uint a)) (int_token (uint a))"
    "reads (decode_token to_f32) (int_head (sint a)) (int_token (sint a))"
proof -
  have p: "(2::int) ^ LENGTH('a) \<le> 2 ^ 64" "(2::int) ^ (LENGTH('a) - 1) \<le> 2 ^ 64"
    using power_increasing [OF assms, of "2::int"] power_increasing [of "LENGTH('a) - 1" 64 "2::int"] assms
    by simp_all
  have "0 \<le> uint a" by simp
  with p show "reads (decode_token to_f32) (int_head (uint a)) (int_token (uint a))"
    using uint_lt2p [of a] by (intro reads_int_token) linarith+
  show "reads (decode_token to_f32) (int_head (sint a)) (int_token (sint a))"
    using p sint_ge [of a] sint_lt [of a] by (intro reads_int_token) linarith+
qed

lemma reads_skip_byte: "reads (seq_m skip_byte (ret_m x)) [b] x"
  by (simp add: yields_def run_simps skip_byte_def dec_set_position_def dec_position_def)

lemma peeks_major:
  assumes "is_head t n bs" "\<And>i. i < 28 \<Longrightarrow> dec_type_of (t OR of_nat i) = ret_m ty"
  shows "peeks (bs @ x) ty"
proof -
  from assms(1) obtain i cs where "bs = (t OR of_nat i) # cs" "i < 28" by (rule head_cases)
  with assms(2) [of i] show ?thesis by (simp add: peeks_first run_simps)
qed

lemma major_types:
  assumes "i < 28"
  shows "dec_type_of (BYTES OR of_nat i) = ret_m TyBytes" "dec_type_of (TEXT OR of_nat i) = ret_m TyString"
    "dec_type_of (ARRAY OR of_nat i) = ret_m TyArray" "dec_type_of (MAP OR of_nat i) = ret_m TyMap"
    "dec_type_of (TAGGED OR of_nat i) = ret_m TyTag"
proof -
  have "\<forall>i \<in> set [0..<28]. dec_type_of (0x40 OR of_nat i) = ret_m TyBytes \<and> dec_type_of (0x60 OR of_nat i) = ret_m TyString \<and>
     dec_type_of (0x80 OR of_nat i) = ret_m TyArray \<and> dec_type_of (0xa0 OR of_nat i) = ret_m TyMap \<and>
     dec_type_of (0xc0 OR of_nat i) = ret_m TyTag"
    by (simp add: dec_type_of_def upt_rec)
  moreover have "i \<in> set [0..<28]" using assms by simp
  ultimately show "dec_type_of (BYTES OR of_nat i) = ret_m TyBytes" "dec_type_of (TEXT OR of_nat i) = ret_m TyString"
    "dec_type_of (ARRAY OR of_nat i) = ret_m TyArray" "dec_type_of (MAP OR of_nat i) = ret_m TyMap"
    "dec_type_of (TAGGED OR of_nat i) = ret_m TyTag"
    unfolding BYTES_def TEXT_def ARRAY_def MAP_def TAGGED_def by blast+
qed

lemma peeks_simple: "peeks (if x < 0x14 then [SIMPLE OR x] else [SIMPLE OR 24, x]) TySimple"
proof -
  have "\<forall>n \<in> set [0..<20]. dec_type_of (0xe0 OR of_nat n) = ret_m TySimple"
    by (simp add: dec_type_of_def upt_rec)
  then have "dec_type_of (SIMPLE OR x) = ret_m TySimple" if "x < 0x14"
    using that by (auto dest!: bspec [of _ _ "unat x"] simp: word_less_nat_alt)
  moreover have "dec_type_of (SIMPLE OR 24) = ret_m TySimple" by (simp add: dec_type_of_def)
  ultimately show ?thesis by (auto intro!: peeks_first simp: ret_m_def)
qed

lemma reads_payload_tokens:
  assumes "length x < 2 ^ 64"
  shows "reads (decode_token to_f32) (head_bytes BYTES (length x) @ x) (Tk_Bytes x)"
    "valid_utf8 x \<Longrightarrow> reads (decode_token to_f32) (head_bytes TEXT (length x) @ x) (Tk_String x)"
proof -
  note h = is_head_head_bytes [OF assms]
  show "reads (decode_token to_f32) (head_bytes BYTES (length x) @ x) (Tk_Bytes x)"
    unfolding decode_token_def token_of_type_def
    by (rule yields_typed [OF peeks_major [OF h major_types(1)]], assumption, simp only: cbor_type.case)
      (rule reads_map, rule reads_bytes [OF h])
  show "reads (decode_token to_f32) (head_bytes TEXT (length x) @ x) (Tk_String x)" if "valid_utf8 x"
    unfolding decode_token_def token_of_type_def
    by (rule yields_typed [OF peeks_major [OF h major_types(2)]], assumption, simp only: cbor_type.case)
      (rule reads_map, rule reads_str [OF h that])
qed

lemma reads_head_tokens:
  "reads (decode_token to_f32) (head_bytes ARRAY (unat n)) (Tk_Array n)"
  "reads (decode_token to_f32) (head_bytes MAP (unat n)) (Tk_Map n)"
  "reads (decode_token to_f32) (head_bytes TAGGED (unat (tag_as_u64 t))) (Tk_Tag t)"
proof -
  have h: "is_head ty (unat m) (head_bytes ty (unat m))" for ty and m :: u64
    using unat_lt [of m] by (intro is_head_head_bytes) simp
  have t: "tag_new (tag_as_u64 t) = t" by (cases t) (simp add: tag_new_def)
  show "reads (decode_token to_f32) (head_bytes ARRAY (unat n)) (Tk_Array n)"
    unfolding decode_token_def token_of_type_def
    by (rule yields_typed [OF peeks_major [OF h major_types(3), where x = "[]", unfolded append_Nil2]], assumption, simp only: cbor_type.case)
      (intro yields_with_pos yields_then [OF reads_array [OF h]], simp add: reads_ret)
  show "reads (decode_token to_f32) (head_bytes MAP (unat n)) (Tk_Map n)"
    unfolding decode_token_def token_of_type_def
    by (rule yields_typed [OF peeks_major [OF h major_types(4), where x = "[]", unfolded append_Nil2]], assumption, simp only: cbor_type.case)
      (intro yields_with_pos yields_then [OF reads_map_head [OF h]], simp add: reads_ret)
  show "reads (decode_token to_f32) (head_bytes TAGGED (unat (tag_as_u64 t))) (Tk_Tag t)"
    unfolding decode_token_def token_of_type_def
    by (rule yields_typed [OF peeks_major [OF h major_types(5), where x = "[]", unfolded append_Nil2]], assumption, simp only: cbor_type.case)
      (use reads_map [OF reads_tag [OF h [of TAGGED "tag_as_u64 t"]], of Tk_Tag] in \<open>simp add: t\<close>)
qed

lemma reads_float_tokens:
  "reads (decode_token to_f32) ((SIMPLE OR 25) # to_be16 h) (Tk_F16 (to_f32 h))"
  "reads (decode_token to_f32) ((SIMPLE OR 26) # to_be32 a) (Tk_F32 a)"
  "reads (decode_token to_f32) ((SIMPLE OR 27) # to_be64 b) (Tk_F64 b)"
proof -
  have p: "peeks ((SIMPLE OR 25) # bs) TyF16" "peeks ((SIMPLE OR 26) # bs) TyF32" "peeks ((SIMPLE OR 27) # bs) TyF64" for bs
    by (auto intro!: peeks_first simp: dec_type_of_def run_simps)
  have f: "reads (dec_f16 to_f32) ((SIMPLE OR 25) # to_be16 h) (to_f32 h)"
    "reads (dec_f32 to_f32) ((SIMPLE OR 26) # to_be32 a) a" "reads (dec_f64 to_f32) ((SIMPLE OR 27) # to_be64 b) b"
    using reads_floats by simp_all
  show "reads (decode_token to_f32) ((SIMPLE OR 25) # to_be16 h) (Tk_F16 (to_f32 h))"
    "reads (decode_token to_f32) ((SIMPLE OR 26) # to_be32 a) (Tk_F32 a)"
    "reads (decode_token to_f32) ((SIMPLE OR 27) # to_be64 b) (Tk_F64 b)"
    unfolding decode_token_def token_of_type_def
    by (rule p [THEN yields_typed], simp only: cbor_type.case, rule reads_map, rule f)+
qed

lemma reads_byte_tokens:
  "reads (decode_token to_f32) [SIMPLE OR (if q then 0x15 else 0x14)] (Tk_Bool q)"
  "reads (decode_token to_f32) [SIMPLE OR 22] Tk_Null" "reads (decode_token to_f32) [SIMPLE OR 23] Tk_Undefined"
  "reads (decode_token to_f32) [0x5f] Tk_BeginBytes" "reads (decode_token to_f32) [0x7f] Tk_BeginString"
  "reads (decode_token to_f32) [0x9f] Tk_BeginArray" "reads (decode_token to_f32) [0xbf] Tk_BeginMap"
  "reads (decode_token to_f32) [0xff] Tk_Break"
proof -
  have p: "peeks [SIMPLE OR (if q then 0x15 else 0x14)] TyBool" "peeks [SIMPLE OR 22] TyNull" "peeks [SIMPLE OR 23] TyUndefined"
    "peeks [0x5f] TyBytesIndef" "peeks [0x7f] TyStringIndef" "peeks [0x9f] TyArrayIndef" "peeks [0xbf] TyMapIndef"
    "peeks [0xff] TyBreak"
    by (auto intro!: peeks_first simp: dec_type_of_def run_simps)
  note t = p [THEN yields_typed]
  show "reads (decode_token to_f32) [SIMPLE OR (if q then 0x15 else 0x14)] (Tk_Bool q)"
    unfolding decode_token_def token_of_type_def by (rule t(1), simp only: cbor_type.case) (rule reads_map, rule reads_one_byte)
  show "reads (decode_token to_f32) [SIMPLE OR 22] Tk_Null" "reads (decode_token to_f32) [SIMPLE OR 23] Tk_Undefined"
    "reads (decode_token to_f32) [0x5f] Tk_BeginBytes" "reads (decode_token to_f32) [0x7f] Tk_BeginString"
    "reads (decode_token to_f32) [0x9f] Tk_BeginArray" "reads (decode_token to_f32) [0xbf] Tk_BeginMap"
    "reads (decode_token to_f32) [0xff] Tk_Break"
    unfolding decode_token_def token_of_type_def by (rule t, simp only: cbor_type.case, rule reads_skip_byte)+
qed

lemma reads_simple_token:
  "reads (decode_token to_f32) (if x < 0x14 then [SIMPLE OR x] else [SIMPLE OR 24, x]) (Tk_Simple x)"
  unfolding decode_token_def token_of_type_def
  by (rule yields_typed [OF peeks_simple], simp only: cbor_type.case) (rule reads_map, rule reads_simple)

lemma reads_token:
  assumes "token_ok t" "length (token_bytes to_f16 t) < 2 ^ 64"
  shows "reads (decode_token to_f32) (token_bytes to_f16 t) (canonical to_f32 to_f16 t)"
proof -
  have l: "unat (of_nat (length x) :: u64) = length x" if "length x < 2 ^ 64" for x :: bytes
    using that by (simp add: unsigned_of_nat take_bit_nat_eq_self)
  show ?thesis
  proof (cases t)
    case (Tk_Bytes x)
    with assms(2) have "length x < 2 ^ 64" by simp
    with Tk_Bytes show ?thesis by (simp only: token_bytes.simps canonical.simps l reads_payload_tokens)
  next
    case (Tk_String x)
    with assms have "length x < 2 ^ 64" "valid_utf8 x" by (simp_all add: token_ok_def)
    with Tk_String show ?thesis by (simp only: token_bytes.simps canonical.simps l reads_payload_tokens)
  next
    case (Tk_Int i)
    with int_value_range [of i] show ?thesis
      by (simp only: token_bytes.simps canonical.simps) (rule reads_int_token; simp)
  qed (simp_all only: token_bytes.simps canonical.simps reads_float_tokens reads_byte_tokens reads_simple_token
      reads_head_tokens, (rule reads_word_tokens; simp)+)
qed

section \<open>Every token lies inside the input\<close>

lemma skip_byte_run: "seq_m skip_byte (ret_m x) d = (Inr x, d\<lparr>dec_pos := dec_pos d + 1\<rparr>)"
  by (simp add: run_simps skip_byte_def dec_set_position_def dec_position_def)

lemma token_of_type_inside:
  assumes "token_of_type h ty d = (r, d')" "dec_pos d < length (dec_buf d)"
  shows "stays d d' \<and> (\<forall>t. r = Inr t \<longrightarrow> dec_pos d < dec_pos d')"
proof -
  have n: "safe (case n of None \<Rightarrow> fail_m e | Some n \<Rightarrow> ret_m (f n))" for n :: "u64 option" and e and f :: "u64 \<Rightarrow> token"
    by (cases n) (simp_all add: safe_intros)
  have "(safe (token_of_type h ty) \<and> progress (token_of_type h ty)) \<or> (\<exists>x. token_of_type h ty = seq_m skip_byte (ret_m x))"
    unfolding token_of_type_def
    by (cases ty; simp only: cbor_type.case)
      (blast intro: safe_map safe_ops safe_floats progress_map progress_ops progress_floats safe_with_pos progress_with_pos
        safe_bind progress_bind n safe_basic progress_fail)+
  then show ?thesis
    using assms safe_stays [of "token_of_type h ty" d r d'] progressD [of "token_of_type h ty" d]
    by (auto simp: skip_byte_run stays_def)
qed

lemma decode_token_inside:
  assumes "decode_token h d = (r, d')"
  shows "stays d d'" "r = Inr t \<Longrightarrow> dec_pos d < dec_pos d'" "r = Inr t \<Longrightarrow> dec_pos d < length (dec_buf d)"
proof -
  obtain q e where q: "dec_datatype d = (q, e)" by (cases "dec_datatype d")
  have "stays d d' \<and> (\<forall>t. r = Inr t \<longrightarrow> dec_pos d < dec_pos d' \<and> dec_pos d < length (dec_buf d))"
  proof (cases q)
    case (Inl x)
    with assms q safe_stays [OF safe_floats(5) q] show ?thesis by (auto simp: decode_token_def bind_m_run)
  next
    case (Inr ty)
    with q datatype_inside [of d ty e] have "e = d" "dec_pos d < length (dec_buf d)" by simp_all
    with assms q Inr token_of_type_inside [of h ty d r d'] show ?thesis by (auto simp: decode_token_def bind_m_run)
  qed
  then show "stays d d'" "r = Inr t \<Longrightarrow> dec_pos d < dec_pos d'" "r = Inr t \<Longrightarrow> dec_pos d < length (dec_buf d)"
    by auto
qed

section \<open>The announced lengths\<close>

text \<open>The tokens whose announced length is the one of their encoding.\<close>

definition token_len_exact :: "token \<Rightarrow> bool" where
  "token_len_exact t = (case t of
       Tk_F16 _ \<Rightarrow> False
     | Tk_Simple x \<Rightarrow> x < 0x14 \<or> 0x17 < x
     | Tk_Bytes x \<Rightarrow> list_all (\<lambda>b. b \<le> 0x17) x
     | _ \<Rightarrow> True)"

lemma len_small_bytes:
  "length x \<le> sum_list (map len_u8 x)" "sum_list (map len_u8 x) = length x \<longleftrightarrow> list_all (\<lambda>b. b \<le> 0x17) x"
proof -
  have "length x \<le> sum_list (map len_u8 x) \<and> (sum_list (map len_u8 x) = length x \<longleftrightarrow> list_all (\<lambda>b. b \<le> 0x17) x)"
    by (induction x) (auto simp: len_u8_def)
  then show "length x \<le> sum_list (map len_u8 x)" "sum_list (map len_u8 x) = length x \<longleftrightarrow> list_all (\<lambda>b. b \<le> 0x17) x"
    by simp_all
qed

lemma token_len_spec: "token_len t = length (token_bytes to_f16 t) \<longleftrightarrow> token_len_exact t"
proof (cases t)
  case (Tk_Simple x)
  then show ?thesis by (auto simp: token_len_exact_def len_u8_def not_less not_le word_le_nat_alt word_less_nat_alt)
next
  case (Tk_Bytes x)
  have "length (head_bytes BYTES (unat (of_nat (length x) :: u64))) = len_usize (length x)"
    by (simp add: len_unsigned len_usize_def)
  with Tk_Bytes len_small_bytes(2) [of x] show ?thesis
    by (auto simp: token_len_exact_def len_sequential_def)
next
  case (Tk_Int i)
  then show ?thesis using carries_int [of i] vec_run [OF vec_sink.emits_int [of i]]
    by (auto simp: token_len_exact_def carries_def dest: vec_run [of _ _ "[]"])
qed (simp_all add: token_len_exact_def len_unsigned len_signed int_head_uint len_bool_def len_f32_def len_f64_def len_str_def
    len_usize_def len_tag_def)

section \<open>Properties\<close>

text \<open>C36: an encoded token is decoded back, as the token of the smallest type that holds its value, and the
  decoder stops right behind it; the length announced for it is the one of its encoding except for half
  precision floats, the simple values 20 to 23 and byte strings with a byte above 23.\<close>

theorem tokens_exact:
  assumes "token_ok t"
  shows "decoded_back (decode_token to_f32) (encode_token to_f16 vec_write_all t) (canonical to_f32 to_f16 t) \<and>
    (\<exists>bs. vec_sink.emits (encode_token to_f16 vec_write_all t) bs \<and> (token_len t = length bs \<longleftrightarrow> token_len_exact t))"
  using decoded_backI [OF emits_token reads_token [OF assms]] emits_token token_len_spec by blast

lemma tokens_exact_witness:
  "decoded_back (decode_token (\<lambda>_. 0)) (encode_token (\<lambda>_. 0) vec_write_all (Tk_U32 7)) (Tk_U8 7)"
  using tokens_exact [of "Tk_U32 7" "\<lambda>_. 0" "\<lambda>_. 0"] by (simp add: token_ok_def int_token_def)

end
