(* ===== verification/Cbor_Tokenizer.thy ===== *)
theory Cbor_Tokenizer
  imports Cbor_Token
begin

text \<open>
  The tokenizer (\<open>minicbor/src/decode/tokenizer.rs\<close>) and the sizes of items (\<open>minicbor/src/decode/info.rs\<close>).
  A tokenizer is a decoder; as an iterator it is the list of its results, since after the end of the
  input, and after an error, it stays at its end. The text of a tokenizer is produced by a machine with a
  stack of pending work, \<open>display_loop\<close>; the formatter it writes to is a growing text that takes every
  write.

  The specification of that text is the diagnostic notation of nested items, \<open>diag_notation\<close>; the machine is
  shown to print it, and to end on every sequence of tokens.
\<close>

section \<open>The tokenizer\<close>

definition tokenizer_new :: "bytes \<Rightarrow> decoder" where
  "tokenizer_new bs = dec_new bs"

definition tokenizer_token :: "(u16 \<Rightarrow> f32) \<Rightarrow> token dec" where
  "tokenizer_token to_f32 d = (case decode_token to_f32 d of
       (Inr tk, d') \<Rightarrow> (Inr tk, d')
     | (Inl e, d') \<Rightarrow> (Inl e, dec_set_position (length (dec_input d')) d'))"

definition tokenizer_next :: "(u16 \<Rightarrow> f32) \<Rightarrow> decoder \<Rightarrow> (decode_error + token) option \<times> decoder" where
  "tokenizer_next to_f32 d = (case tokenizer_token to_f32 d of
       (Inr t, d') \<Rightarrow> (Some (Inr t), d')
     | (Inl e, d') \<Rightarrow> (if is_end_of_input e then None else Some (Inl e), d'))"

lemma decode_token_at_end:
  "length (dec_buf d) \<le> dec_pos d \<Longrightarrow> decode_token h d = (Inl end_of_input, d)"
  by (simp add: decode_token_def dec_datatype_def dec_current_def index_get_def run_simps)

lemma tokenizer_next_decreases:
  assumes "tokenizer_next h d = (Some r, d')"
  shows "length (dec_buf d') - dec_pos d' < length (dec_buf d) - dec_pos d"
proof -
  obtain q e where q: "decode_token h d = (q, e)" by (cases "decode_token h d")
  have "dec_pos d < length (dec_buf d)"
    using assms decode_token_at_end [of d h]
    by (rule_tac ccontr) (simp add: tokenizer_next_def tokenizer_token_def is_end_of_input_def end_of_input_def err_of_def)
  with decode_token_inside [OF q] assms q show ?thesis
    by (auto simp: tokenizer_next_def tokenizer_token_def dec_set_position_def dec_input_def stays_def
        split: sum.splits if_splits)
qed

function tokens :: "(u16 \<Rightarrow> f32) \<Rightarrow> decoder \<Rightarrow> (decode_error + token) list" where
  "tokens to_f32 d = (case tokenizer_next to_f32 d of
       (None, d') \<Rightarrow> []
     | (Some r, d') \<Rightarrow> r # tokens to_f32 d')"
  by pat_completeness auto
termination
  by (relation "measure (\<lambda>(h, d). length (dec_buf d) - dec_pos d)") (auto dest!: tokenizer_next_decreases [OF sym])

declare tokens.simps [simp del]

section \<open>Its text\<close>

text \<open>The control stack: next token (\<open>True\<close> when one is required), tag, array, map, indefinite byte string,
  indefinite text, a text, and a text that is left out before a break.\<close>

datatype elem =
    E_N bool
  | E_T
  | E_A "u64 option"
  | E_M "u64 option"
  | E_B
  | E_D
  | E_S string
  | E_X string

type_synonym token_results = "(decode_error + token) list"

text \<open>A step takes the top of the stack; it gives the text written and, unless the display returns, what is
  pushed (the top first) and what is left of the tokens.\<close>

type_synonym display_result = "bytes \<times> (elem list \<times> token_results) option"

definition decoding_error :: "decode_error \<Rightarrow> bytes" where
  "decoding_error e = str_bytes ('' !!! decoding error: '' @ decode_error_display e)"

definition next_is_break :: "token_results \<Rightarrow> bool" where
  "next_is_break its = (case its of Inr Tk_Break # _ \<Rightarrow> True | _ \<Rightarrow> False)"

definition display_token :: "float_format \<Rightarrow> token \<Rightarrow> token_results \<Rightarrow> display_result" where
  "display_token ff t its = (case t of
       Tk_Array n \<Rightarrow> (str_bytes ''['', Some ([E_A (Some n)], its))
     | Tk_Map n \<Rightarrow> (str_bytes ''{'', Some ([E_M (Some n)], its))
     | Tk_BeginArray \<Rightarrow> (str_bytes ''[_ '', Some ([E_A None], its))
     | Tk_BeginMap \<Rightarrow> (str_bytes ''{_ '', Some ([E_M None], its))
     | Tk_BeginBytes \<Rightarrow>
         if next_is_break its then ([0x27, 0x27, 0x5f], Some ([], tl its))
         else (str_bytes ''(_ '', Some ([E_B], its))
     | Tk_BeginString \<Rightarrow>
         if next_is_break its then ([0x22, 0x22, 0x5f], Some ([], tl its))
         else (str_bytes ''(_ '', Some ([E_D], its))
     | Tk_Tag t \<Rightarrow> (show_uint (tag_as_u64 t) @ str_bytes ''('', Some ([E_T], its))
     | t \<Rightarrow> (token_display ff t, Some ([], its)))"

text \<open>The elements of a container of indefinite length: its closing text at a break, otherwise its elements again.\<close>

definition display_indef :: "string \<Rightarrow> string \<Rightarrow> elem list \<Rightarrow> token_results \<Rightarrow> display_result" where
  "display_indef unclosed close again its =
     (if its = [] then (str_bytes unclosed, None)
      else if next_is_break its then (str_bytes close, Some ([], tl its))
      else ([], Some (again, its)))"

fun display_step :: "float_format \<Rightarrow> elem \<Rightarrow> token_results \<Rightarrow> display_result" where
  "display_step ff (E_N required) its = (case its of
       Inr t # its' \<Rightarrow> display_token ff t its'
     | Inl e # its' \<Rightarrow> (decoding_error e, None)
     | [] \<Rightarrow> if required then (str_bytes '' !!! decoding error: unexpected end of input'', None) else ([], Some ([], [])))"
| "display_step ff (E_S s) its = (str_bytes s, Some ([], its))"
| "display_step ff (E_X s) its = (case its of
       [] \<Rightarrow> ([], Some ([], its))
     | Inr t # _ \<Rightarrow> (if t = Tk_Break then [] else str_bytes s, Some ([], its))
     | Inl e # _ \<Rightarrow> (decoding_error e, None))"
| "display_step ff E_T its = ([], Some ([E_N True, E_S '')''], its))"
| "display_step ff (E_A (Some n)) its =
     (if n = 0 then (str_bytes '']'', Some ([], its))
      else if n = 1 then ([], Some ([E_N True, E_A (Some 0)], its))
      else ([], Some ([E_N True, E_S '', '', E_A (Some (n - 1))], its)))"
| "display_step ff (E_A None) its =
     display_indef '' !!! indefinite array not closed'' '']'' [E_N True, E_X '', '', E_A None] its"
| "display_step ff (E_M (Some n)) its =
     (if n = 0 then (str_bytes ''}'', Some ([], its))
      else if n = 1 then ([], Some ([E_N True, E_S '': '', E_N True, E_M (Some 0)], its))
      else ([], Some ([E_N True, E_S '': '', E_N True, E_S '', '', E_M (Some (n - 1))], its)))"
| "display_step ff (E_M None) its =
     display_indef '' !!! indefinite map not closed'' ''}''
       [E_N True, E_S '': '', E_N True, E_X '', '', E_M None] its"
| "display_step ff E_B its =
     display_indef '' !!! indefinite byte string not closed'' '')'' [E_N True, E_X '', '', E_B] its"
| "display_step ff E_D its =
     display_indef '' !!! indefinite string not closed'' '')'' [E_N True, E_X '', '', E_D] its"

definition is_next :: "elem \<Rightarrow> bool" where
  "is_next e = (case e of E_N _ \<Rightarrow> True | _ \<Rightarrow> False)"

text \<open>A step never adds tokens, and without taking one it leaves less work before the next token is asked for.\<close>

definition work :: "elem list \<Rightarrow> token_results \<Rightarrow> nat \<times> nat \<times> nat" where
  "work st its = (length its, length (filter ((=) (E_N False)) st), length (takeWhile (Not \<circ> is_next) st))"

lemma next_is_break_Cons: "next_is_break its \<longleftrightarrow> (\<exists>its'. its = Inr Tk_Break # its')"
  by (auto simp: next_is_break_def split: list.splits sum.splits token.splits)

lemma display_step_works:
  assumes "display_step ff e its = (out, Some (push, its'))"
  shows "length its' < length its \<or> its' = its \<and>
    (work (push @ st) its, work (e # st) its) \<in> less_than <*lex*> less_than <*lex*> less_than"
  using assms
  by (cases "(ff, e, its)" rule: display_step.cases)
    (auto simp: display_token_def display_indef_def next_is_break_Cons work_def is_next_def
      split: list.splits sum.splits token.splits if_splits)

function display_loop :: "float_format \<Rightarrow> elem list \<Rightarrow> token_results \<Rightarrow> bytes \<times> token_results option" where
  "display_loop ff [] its = ([], Some its)"
| "display_loop ff (e # st) its = (case display_step ff e its of
       (out, None) \<Rightarrow> (out, None)
     | (out, Some (push, its')) \<Rightarrow> apfst ((@) out) (display_loop ff (push @ st) its'))"
  by pat_completeness auto
termination
proof (relation "inv_image (less_than <*lex*> less_than <*lex*> less_than) (\<lambda>(ff, st, its). work st its)", goal_cases)
  case (2 ff e st its out q r push its')
  then have "display_step ff e its = (out, Some (push, its'))" by simp
  from display_step_works [OF this, of st] show ?case by (auto simp: work_def)
qed (intro wf_inv_image wf_lex_prod wf_less_than)

text \<open>The display returns, or it has used up the stack and left a part of the tokens.\<close>

lemma display_loop_left: "display_loop ff st its = (out, Some its') \<Longrightarrow> length its' \<le> length its"
proof (induction ff st its arbitrary: out rule: display_loop.induct)
  case (2 ff e st its)
  then obtain o1 push its1 where s: "display_step ff e its = (o1, Some (push, its1))"
    by (cases "display_step ff e its"; cases "snd (display_step ff e its)") auto
  with 2(2) obtain o2 where "display_loop ff (push @ st) its1 = (o2, Some its')"
    by (cases "display_loop ff (push @ st) its1") auto
  from 2(1) [OF s [symmetric] refl refl this] display_step_works [OF s, of "[]"] show ?case by auto
qed simp

lemma display_next_takes:
  assumes "display_loop ff (E_N b # st) its = (out, Some its')" "its \<noteq> []"
  shows "length its' < length its"
proof -
  from assms(1) obtain o1 push its1 where s: "display_step ff (E_N b) its = (o1, Some (push, its1))"
    by (cases "display_step ff (E_N b) its"; cases "snd (display_step ff (E_N b) its)") auto
  with assms(1) obtain o2 where "display_loop ff (push @ st) its1 = (o2, Some its')"
    by (cases "display_loop ff (push @ st) its1") auto
  moreover from s assms(2) have "length its1 < length its"
    by (auto simp: display_token_def next_is_break_Cons split: list.splits sum.splits token.splits if_splits)
  ultimately show ?thesis using display_loop_left by fastforce
qed

function display_all :: "float_format \<Rightarrow> token_results \<Rightarrow> bytes" where
  "display_all ff its = (if its = [] then [] else case display_loop ff [E_N False] its of
       (out, None) \<Rightarrow> out
     | (out, Some its') \<Rightarrow> out @ display_all ff its')"
  by pat_completeness auto
termination
  by (relation "measure (\<lambda>(ff, its). length its)") (auto simp del: display_loop.simps dest!: display_next_takes [OF sym])

declare display_all.simps [simp del]

definition tokenizer_display :: "(u16 \<Rightarrow> f32) \<Rightarrow> float_format \<Rightarrow> decoder \<Rightarrow> bytes" where
  "tokenizer_display to_f32 ff d = display_all ff (tokens to_f32 d)"

section \<open>Diagnostic notation\<close>

text \<open>
  Nested items with their length form: arrays and maps are definite or, with \<open>True\<close>, indefinite; a string
  of indefinite length is the list of its chunks, of text with \<open>True\<close>.
\<close>

datatype diag =
    D_Leaf token
  | D_Array bool "diag list"
  | D_Map bool "(diag \<times> diag) list"
  | D_Tag tag diag
  | D_Chunks bool "bytes list"

definition chunk_token :: "bool \<Rightarrow> bytes \<Rightarrow> token" where
  "chunk_token text x = (if text then Tk_String x else Tk_Bytes x)"

fun diag_tokens :: "diag \<Rightarrow> token list" where
  "diag_tokens (D_Leaf t) = [t]"
| "diag_tokens (D_Array indef xs) =
     (if indef then Tk_BeginArray # concat (map diag_tokens xs) @ [Tk_Break]
      else Tk_Array (of_nat (length xs)) # concat (map diag_tokens xs))"
| "diag_tokens (D_Map indef kvs) =
     (if indef then Tk_BeginMap # concat (map (\<lambda>(k, v). diag_tokens k @ diag_tokens v) kvs) @ [Tk_Break]
      else Tk_Map (of_nat (length kvs)) # concat (map (\<lambda>(k, v). diag_tokens k @ diag_tokens v) kvs))"
| "diag_tokens (D_Tag t x) = Tk_Tag t # diag_tokens x"
| "diag_tokens (D_Chunks text xs) =
     (if text then Tk_BeginString else Tk_BeginBytes) # map (chunk_token text) xs @ [Tk_Break]"

fun join :: "bytes list \<Rightarrow> bytes" where
  "join [] = []"
| "join [x] = x"
| "join (x # y # ys) = x @ str_bytes '', '' @ join (y # ys)"

fun diag_notation :: "float_format \<Rightarrow> diag \<Rightarrow> bytes" where
  "diag_notation ff (D_Leaf t) = token_display ff t"
| "diag_notation ff (D_Array indef xs) =
     str_bytes (if indef then ''[_ '' else ''['') @ join (map (diag_notation ff) xs) @ str_bytes '']''"
| "diag_notation ff (D_Map indef kvs) =
     str_bytes (if indef then ''{_ '' else ''{'') @
     join (map (\<lambda>(k, v). diag_notation ff k @ str_bytes '': '' @ diag_notation ff v) kvs) @ str_bytes ''}''"
| "diag_notation ff (D_Tag t x) = show_uint (tag_as_u64 t) @ str_bytes ''('' @ diag_notation ff x @ str_bytes '')''"
| "diag_notation ff (D_Chunks text xs) =
     (if xs = [] then (if text then [0x22, 0x22, 0x5f] else [0x27, 0x27, 0x5f])
      else str_bytes ''(_ '' @ join (map (\<lambda>x. token_display ff (chunk_token text x)) xs) @ str_bytes '')'')"

definition is_leaf :: "token \<Rightarrow> bool" where
  "is_leaf t = (case t of Tk_Array _ \<Rightarrow> False | Tk_Map _ \<Rightarrow> False | Tk_BeginArray \<Rightarrow> False | Tk_BeginMap \<Rightarrow> False
     | Tk_BeginBytes \<Rightarrow> False | Tk_BeginString \<Rightarrow> False | Tk_Tag _ \<Rightarrow> False | Tk_Break \<Rightarrow> False | _ \<Rightarrow> True)"

fun diag_ok :: "diag \<Rightarrow> bool" where
  "diag_ok (D_Leaf t) = is_leaf t"
| "diag_ok (D_Array indef xs) = ((indef \<or> length xs < 2 ^ 64) \<and> list_all diag_ok xs)"
| "diag_ok (D_Map indef kvs) = ((indef \<or> length kvs < 2 ^ 64) \<and> list_all (\<lambda>(k, v). diag_ok k \<and> diag_ok v) kvs)"
| "diag_ok (D_Tag t x) = diag_ok x"
| "diag_ok (D_Chunks text xs) = True"

text \<open>The elements \<open>es\<close> on the top of the stack take the tokens \<open>ts\<close> and write \<open>out\<close>.\<close>

definition prints :: "float_format \<Rightarrow> elem list \<Rightarrow> token list \<Rightarrow> bytes \<Rightarrow> bool" where
  "prints ff es ts out \<longleftrightarrow>
     (\<forall>st its. display_loop ff (es @ st) (map Inr ts @ its) = apfst ((@) out) (display_loop ff st its))"

lemma apfst_append [simp]: "apfst ((@) a) (apfst ((@) b) p) = apfst ((@) (a @ b)) p" "apfst ((@) []) p = p"
  by (cases p, simp)+

lemma prints_append: "prints ff es ts a \<Longrightarrow> prints ff fs us b \<Longrightarrow> prints ff (es @ fs) (ts @ us) (a @ b)"
  by (simp add: prints_def)

lemma prints_Cons: "prints ff [e] ts a \<Longrightarrow> prints ff fs us b \<Longrightarrow> prints ff (e # fs) (ts @ us) (a @ b)"
  using prints_append [of ff "[e]"] by simp

lemma prints_step:
  assumes "\<And>its. display_step ff e (map Inr ts @ its) = (a, Some (push, map Inr us @ its))"
    and "prints ff (push @ es) us b"
  shows "prints ff (e # es) ts (a @ b)"
  using assms by (simp add: prints_def)

lemma prints_text: "prints ff fs us b \<Longrightarrow> prints ff (E_S s # fs) us (str_bytes s @ b)"
  by (simp add: prints_def)

lemma prints_nil: "prints ff [] [] []"
  by (simp add: prints_def)

lemma prints_end:
  "(\<And>its. display_step ff e (map Inr ts @ its) = (a, Some ([], its))) \<Longrightarrow> prints ff [e] ts a"
  using prints_step [of ff e ts a "[]" "[]" "[]" "[]"] prints_nil by simp

lemma unat_less_two:
  fixes n :: u64
  assumes "unat n = Suc (Suc k)" shows "n \<noteq> 0" "n \<noteq> 1" "unat (n - 1) = Suc k"
proof -
  show n: "n \<noteq> 0" and "n \<noteq> 1" using assms by auto
  then show "unat (n - 1) = Suc k" using assms by (simp add: unat_minus_one)
qed

lemma prints_array:
  assumes "\<And>x. x \<in> set xs \<Longrightarrow> prints ff [E_N True] (tk x) (nt x)" "unat n = length xs"
  shows "prints ff [E_A (Some n)] (concat (map tk xs)) (join (map nt xs) @ str_bytes '']'')"
  using assms
proof (induction xs arbitrary: n rule: induct_list012)
  case 1
  then have "n = 0" by (simp add: unat_eq_zero)
  then show ?case by (auto intro!: prints_end)
next
  case (2 x)
  then have n: "n = 1" by (simp add: word_unat_eq_iff)
  have z: "prints ff [E_A (Some 0)] [] (str_bytes '']'')" by (rule prints_end) simp
  show ?case
    using prints_step [of ff "E_A (Some n)" "tk x" "[]" "[E_N True, E_A (Some 0)]" "tk x" "[]"]
      prints_Cons [OF 2(1) z] n by simp
next
  case (3 x y ys)
  then have n: "unat n = Suc (Suc (length ys))" by simp
  have "prints ff [E_A (Some (n - 1))] (concat (map tk (y # ys))) (join (map nt (y # ys)) @ str_bytes '']'')"
    using 3 unat_less_two(3) [OF n] by simp
  from prints_Cons [OF 3(3) prints_text [OF this, of "'', ''"], of x]
  show ?case
    using prints_step [of ff "E_A (Some n)" "concat (map tk (x # y # ys))" "[]"
        "[E_N True, E_S '', '', E_A (Some (n - 1))]" "concat (map tk (x # y # ys))" "[]"]
      unat_less_two [OF n] by simp
qed

lemma prints_map:
  assumes "\<And>k v. (k, v) \<in> set kvs \<Longrightarrow> prints ff [E_N True] (tk k) (nt k) \<and> prints ff [E_N True] (tk v) (nt v)"
    and "unat n = length kvs"
  shows "prints ff [E_M (Some n)] (concat (map (\<lambda>(k, v). tk k @ tk v) kvs))
    (join (map (\<lambda>(k, v). nt k @ str_bytes '': '' @ nt v) kvs) @ str_bytes ''}'')"
  using assms
proof (induction kvs arbitrary: n rule: induct_list012)
  case 1
  then have "n = 0" by (simp add: unat_eq_zero)
  then show ?case by (auto intro!: prints_end)
next
  case (2 x)
  then have n: "n = 1" by (simp add: word_unat_eq_iff)
  obtain k v where x: "x = (k, v)" by (cases x)
  with 2 have kv: "prints ff [E_N True] (tk k) (nt k)" "prints ff [E_N True] (tk v) (nt v)" by auto
  have z: "prints ff [E_M (Some 0)] [] (str_bytes ''}'')" by (rule prints_end) simp
  show ?case
    using prints_step [of ff "E_M (Some n)" "tk k @ tk v" "[]" "[E_N True, E_S '': '', E_N True, E_M (Some 0)]" "tk k @ tk v" "[]"]
      prints_Cons [OF kv(1) prints_text [OF prints_Cons [OF kv(2) z], of "'': ''"]] n x by simp
next
  case (3 x y ys)
  then have n: "unat n = Suc (Suc (length ys))" by simp
  obtain k v where x: "x = (k, v)" by (cases x)
  with 3(3) have kv: "prints ff [E_N True] (tk k) (nt k)" "prints ff [E_N True] (tk v) (nt v)" by auto
  let ?tk = "\<lambda>kvs. concat (map (\<lambda>(k, v). tk k @ tk v) kvs)" and ?nt = "\<lambda>(k, v). nt k @ str_bytes '': '' @ nt v"
  have "prints ff [E_M (Some (n - 1))] (?tk (y # ys)) (join (map ?nt (y # ys)) @ str_bytes ''}'')"
    by (rule 3(2) [OF 3(3)]) (simp_all add: unat_less_two(3) [OF n])
  from prints_Cons [OF kv(1) prints_text [OF prints_Cons [OF kv(2) prints_text [OF this, of "'', ''"]], of "'': ''"]]
  show ?case
    using prints_step [of ff "E_M (Some n)" "?tk (x # y # ys)" "[]"
        "[E_N True, E_S '': '', E_N True, E_S '', '', E_M (Some (n - 1))]" "?tk (x # y # ys)" "[]"]
      unat_less_two [OF n] x by simp
qed

text \<open>An item starts with a token that is not a break.\<close>

definition starts_token :: "token list \<Rightarrow> bool" where
  "starts_token ts \<longleftrightarrow> ts \<noteq> [] \<and> hd ts \<noteq> Tk_Break"

lemma display_indef_again:
  "starts_token ts \<Longrightarrow> display_indef a b again (map Inr (ts @ us) @ its) = ([], Some (again, map Inr (ts @ us) @ its))"
  by (cases ts) (auto simp: starts_token_def display_indef_def next_is_break_Cons)

lemma prints_comma:
  "starts_token ts \<Longrightarrow> prints ff es (ts @ us) b \<Longrightarrow> prints ff (E_X s # es) (ts @ us) (str_bytes s @ b)"
  by (cases ts) (auto simp: starts_token_def prints_def)

lemma prints_break_comma: "prints ff es (Tk_Break # us) b \<Longrightarrow> prints ff (E_X s # es) (Tk_Break # us) b"
  by (simp add: prints_def)

lemma prints_break:
  assumes "\<And>its. display_step ff e its = display_indef a b again its"
  shows "prints ff [e] [Tk_Break] (str_bytes b)"
  by (rule prints_end) (simp add: assms display_indef_def next_is_break_Cons)

lemma prints_indef:
  assumes "\<And>x. x \<in> set xs \<Longrightarrow> prints ff [E_N True] (tk x) (nt x) \<and> starts_token (tk x)"
    and e: "\<And>its. display_step ff e its = display_indef a b [E_N True, E_X '', '', e] its"
  shows "prints ff [e] (concat (map tk xs) @ [Tk_Break]) (join (map nt xs) @ str_bytes b)"
  using assms(1)
proof (induction xs rule: induct_list012)
  case 1
  then show ?case using prints_break [OF e] by simp
next
  case (2 x)
  then have x: "prints ff [E_N True] (tk x) (nt x)" "starts_token (tk x)" by auto
  show ?case
    using prints_step [of ff e "tk x @ [Tk_Break]" "[]" "[E_N True, E_X '', '', e]" "tk x @ [Tk_Break]" "[]"]
      prints_Cons [OF x(1) prints_break_comma [OF prints_break [OF e]], of "'', ''"]
      display_indef_again [OF x(2), of a b _ "[Tk_Break]"] by (simp add: e)
next
  case (3 x y ys)
  then have x: "prints ff [E_N True] (tk x) (nt x)" "starts_token (tk x)" and y: "starts_token (tk y)" by auto
  let ?ts = "concat (map tk ys) @ [Tk_Break]"
  have "prints ff [e] (tk y @ ?ts) (join (map nt (y # ys)) @ str_bytes b)"
    using 3 by simp
  from prints_Cons [OF x(1) prints_comma [OF y this, of "'', ''"]]
  show ?case
    using prints_step [of ff e "tk x @ tk y @ ?ts" "[]" "[E_N True, E_X '', '', e]" "tk x @ tk y @ ?ts" "[]"]
      display_indef_again [OF x(2), of a b _ "tk y @ ?ts"] by (simp add: e)
qed

lemma prints_map_indef:
  assumes "\<And>k v. (k, v) \<in> set kvs \<Longrightarrow>
      prints ff [E_N True] (tk k) (nt k) \<and> starts_token (tk k) \<and> prints ff [E_N True] (tk v) (nt v)"
  shows "prints ff [E_M None] (concat (map (\<lambda>(k, v). tk k @ tk v) kvs) @ [Tk_Break])
    (join (map (\<lambda>(k, v). nt k @ str_bytes '': '' @ nt v) kvs) @ str_bytes ''}'')"
  using assms
proof (induction kvs rule: induct_list012)
  case 1
  then show ?case using prints_break [of ff "E_M None"] by simp
next
  case (2 x)
  obtain k v where x: "x = (k, v)" by (cases x)
  with 2 have kv: "prints ff [E_N True] (tk k) (nt k)" "starts_token (tk k)" "prints ff [E_N True] (tk v) (nt v)" by auto
  have b: "prints ff [E_M None] [Tk_Break] (str_bytes ''}'')" by (rule prints_break) simp
  show ?case
    using prints_step [of ff "E_M None" "tk k @ tk v @ [Tk_Break]" "[]" "[E_N True, E_S '': '', E_N True, E_X '', '', E_M None]"
        "tk k @ tk v @ [Tk_Break]" "[]"]
      prints_Cons [OF kv(1) prints_text [OF prints_Cons [OF kv(3) prints_break_comma [OF b], of "'', ''"], of "'': ''"]]
      display_indef_again [OF kv(2), of _ _ _ "tk v @ [Tk_Break]"] x by simp
next
  case (3 x y ys)
  obtain k v where x: "x = (k, v)" by (cases x)
  obtain k' v' where y: "y = (k', v')" by (cases y)
  from x y 3(3) have kv: "prints ff [E_N True] (tk k) (nt k)" "starts_token (tk k)" "prints ff [E_N True] (tk v) (nt v)"
    and k': "starts_token (tk k')" by auto
  let ?ts = "tk v' @ concat (map (\<lambda>(k, v). tk k @ tk v) ys) @ [Tk_Break]"
    and ?nt = "\<lambda>(k, v). nt k @ str_bytes '': '' @ nt v"
  have "prints ff [E_M None] (tk k' @ ?ts) (join (map ?nt (y # ys)) @ str_bytes ''}'')"
    using 3(2) [OF 3(3)] y by simp
  from prints_Cons [OF kv(1) prints_text [OF prints_Cons [OF kv(3) prints_comma [OF k' this, of "'', ''"]], of "'': ''"]]
  show ?case
    using prints_step [of ff "E_M None" "tk k @ tk v @ tk k' @ ?ts" "[]" "[E_N True, E_S '': '', E_N True, E_X '', '', E_M None]"
        "tk k @ tk v @ tk k' @ ?ts" "[]"]
      display_indef_again [OF kv(2), of _ _ _ "tk v @ tk k' @ ?ts"] x y by simp
qed

lemma diag_starts: "diag_ok x \<Longrightarrow> starts_token (diag_tokens x)"
  by (cases x) (auto simp: starts_token_def is_leaf_def)

lemma prints_open:
  assumes "\<And>its. display_token ff t its = (a, Some ([e], its))" "prints ff [e] ts b"
  shows "prints ff [E_N q] (t # ts) (a @ b)"
  by (rule prints_step [where us = ts and push = "[e]"]) (simp_all add: assms)

lemma prints_leaf: "is_leaf t \<Longrightarrow> prints ff [E_N q] [t] (token_display ff t)"
  by (rule prints_end) (auto simp: display_token_def is_leaf_def split: token.splits)

lemma prints_chunks:
  assumes "xs \<noteq> []"
  shows "prints ff [if text then E_D else E_B] (map (chunk_token text) xs @ [Tk_Break])
    (join (map (\<lambda>x. token_display ff (chunk_token text x)) xs) @ str_bytes '')'')"
proof -
  have "prints ff [E_N True] [chunk_token text x] (token_display ff (chunk_token text x)) \<and> starts_token [chunk_token text x]" for x
    using prints_leaf [of "chunk_token text x" ff True] by (auto simp: chunk_token_def starts_token_def is_leaf_def)
  from prints_indef [where xs = xs and e = "if text then E_D else E_B", OF this] show ?thesis
    by (cases "text") (simp_all add: concat_map_singleton)
qed

lemma prints_diag: "diag_ok x \<Longrightarrow> prints ff [E_N q] (diag_tokens x) (diag_notation ff x)"
proof (induction x arbitrary: q)
  case (D_Leaf t)
  then show ?case by (simp add: prints_leaf)
next
  case (D_Array indef xs)
  then have xs: "prints ff [E_N True] (diag_tokens x) (diag_notation ff x) \<and> starts_token (diag_tokens x)" if "x \<in> set xs" for x
    using that by (auto simp: list_all_iff diag_starts)
  show ?case
  proof (cases indef)
    case True
    have "prints ff [E_A None] (concat (map diag_tokens xs) @ [Tk_Break]) (join (map (diag_notation ff) xs) @ str_bytes '']'')"
      by (rule prints_indef [OF xs]) simp_all
    from prints_open [OF _ this, of "Tk_BeginArray" "str_bytes ''[_ ''"] True show ?thesis by (simp add: display_token_def)
  next
    case False
    with D_Array(2) have "unat (of_nat (length xs) :: u64) = length xs" by (simp add: unat_of_nat_u64)
    with xs have "prints ff [E_A (Some (of_nat (length xs)))] (concat (map diag_tokens xs))
        (join (map (diag_notation ff) xs) @ str_bytes '']'')"
      by (intro prints_array) simp_all
    from prints_open [OF _ this, of "Tk_Array (of_nat (length xs))" "str_bytes ''[''"] False show ?thesis
      by (simp add: display_token_def)
  qed
next
  case (D_Map indef kvs)
  have kvs: "prints ff [E_N True] (diag_tokens k) (diag_notation ff k) \<and> starts_token (diag_tokens k) \<and>
      prints ff [E_N True] (diag_tokens v) (diag_notation ff v)" if "(k, v) \<in> set kvs" for k v
  proof -
    have "diag_ok k" "diag_ok v" using D_Map(3) that by (auto simp: list_all_iff)
    with D_Map(1) [OF that, of k True] D_Map(2) [OF that, of v True] diag_starts [of k] show ?thesis by simp
  qed
  let ?tk = "concat (map (\<lambda>(k, v). diag_tokens k @ diag_tokens v) kvs)"
    and ?nt = "join (map (\<lambda>(k, v). diag_notation ff k @ str_bytes '': '' @ diag_notation ff v) kvs)"
  show ?case
  proof (cases indef)
    case True
    have "prints ff [E_M None] (?tk @ [Tk_Break]) (?nt @ str_bytes ''}'')"
      by (rule prints_map_indef [OF kvs])
    from prints_open [OF _ this, of "Tk_BeginMap" "str_bytes ''{_ ''"] True show ?thesis by (simp add: display_token_def)
  next
    case False
    with D_Map(3) have "unat (of_nat (length kvs) :: u64) = length kvs" by (simp add: unat_of_nat_u64)
    with kvs have "prints ff [E_M (Some (of_nat (length kvs)))] ?tk (?nt @ str_bytes ''}'')"
      by (intro prints_map) simp_all
    from prints_open [OF _ this, of "Tk_Map (of_nat (length kvs))" "str_bytes ''{''"] False show ?thesis
      by (simp add: display_token_def)
  qed
next
  case (D_Tag t x)
  have "prints ff [E_T] (diag_tokens x) ([] @ diag_notation ff x @ str_bytes '')'' @ [])"
    by (rule prints_step) (use prints_Cons [OF D_Tag(1) prints_text [OF prints_nil, of ff "'')''"]] D_Tag(2) in simp_all)
  from prints_open [OF _ this, of "Tk_Tag t" "show_uint (tag_as_u64 t) @ str_bytes ''(''"] show ?case
    by (simp add: display_token_def)
next
  case (D_Chunks u xs)
  show ?case
  proof (cases "xs = []")
    case True
    then show ?thesis
      by (auto intro!: prints_end simp: display_token_def next_is_break_def)
  next
    case False
    have nb: "\<not> next_is_break (map Inr (map (chunk_token u) xs @ [Tk_Break]) @ its)" for its
      using False by (cases xs) (auto simp: next_is_break_Cons chunk_token_def)
    show ?thesis
      using prints_step [of ff "E_N q" "diag_tokens (D_Chunks u xs)" "str_bytes ''(_ ''" "[if u then E_D else E_B]"
          "map (chunk_token u) xs @ [Tk_Break]" "[]"] prints_chunks [OF False, of ff u] False nb
      by (cases u) (simp_all add: display_token_def)
  qed
qed

lemma display_diag:
  assumes "list_all diag_ok xs"
  shows "display_all ff (map Inr (concat (map diag_tokens xs))) = concat (map (diag_notation ff) xs)"
  using assms
proof (induction xs)
  case (Cons x xs)
  let ?ts = "map Inr (concat (map diag_tokens xs))"
  have "display_loop ff [E_N False] (map Inr (diag_tokens x) @ ?ts) = (diag_notation ff x, Some ?ts)"
    using prints_diag [of x ff False] Cons(2) by (simp add: prints_def del: display_loop.simps(2))
  moreover have "diag_tokens x \<noteq> []" using diag_starts [of x] Cons(2) by (simp add: starts_token_def)
  ultimately show ?case using Cons by (subst display_all.simps) (simp del: display_loop.simps)
qed (simp add: display_all.simps)

section \<open>The tokens of an input\<close>

lemma tokens_end: "length (dec_buf d) \<le> dec_pos d \<Longrightarrow> tokens h d = []"
  by (subst tokens.simps)
    (simp add: tokenizer_next_def tokenizer_token_def decode_token_at_end is_end_of_input_def end_of_input_def err_of_def)

lemma tokens_read:
  assumes "reads (decode_token h) bs t" "length (pre @ bs @ post) < usize_bound"
  shows "tokens h \<lparr>dec_buf = pre @ bs @ post, dec_pos = length pre\<rparr> =
    Inr t # tokens h \<lparr>dec_buf = pre @ bs @ post, dec_pos = length pre + length bs\<rparr>"
  by (subst tokens.simps) (simp add: tokenizer_next_def tokenizer_token_def yieldsD [OF assms])

lemma tokens_stream:
  assumes "list_all2 (reads (decode_token h)) bss ts" "length (pre @ concat bss) < usize_bound"
  shows "tokens h \<lparr>dec_buf = pre @ concat bss, dec_pos = length pre\<rparr> = map Inr ts"
  using assms
proof (induction bss ts arbitrary: pre rule: list_all2_induct)
  case (Cons bs bss t ts)
  from tokens_read [OF Cons(1), of pre "concat bss"] Cons(3) [of "pre @ bs"] Cons(4) show ?case by simp
qed (simp add: tokens_end)

lemma tokens_emitted:
  assumes "list_all token_ok ts" "length (concat (map (token_bytes to_f16) ts)) < usize_bound"
  shows "tokens h (tokenizer_new (concat (map (token_bytes to_f16) ts))) = map (Inr \<circ> canonical h to_f16) ts"
proof -
  have "length (token_bytes to_f16 t) < 2 ^ 64" if "t \<in> set ts" for t
    using that assms(2) member_le_sum_list [of "length (token_bytes to_f16 t)" "map (length \<circ> token_bytes to_f16) ts"]
    by (auto simp: length_concat comp_def usize_bound_def)
  with assms(1) have "list_all2 (reads (decode_token h)) (map (token_bytes to_f16) ts) (map (canonical h to_f16) ts)"
    by (auto simp: list_all2_map1 list_all2_map2 list.rel_refl_strong list_all_iff intro!: list.rel_refl_strong reads_token)
  from tokens_stream [OF this, of "[]"] assms(2) show ?thesis
    by (simp add: tokenizer_new_def dec_new_def)
qed

lemma emits_tokens: "vec_sink.emits (encode_each (encode_token to_f16 vec_write_all) ts) (concat (map (token_bytes to_f16) ts))"
  by (induction ts) (simp_all add: enc_ok_def vec_sink.emits_ret vec_sink.emits_seq emits_token)

text \<open>An error is the last result.\<close>

lemma tokenizer_next_cases:
  assumes "tokenizer_next h d = (Some r, d')"
  shows "dec_buf d' = dec_buf d \<and> dec_pos d < dec_pos d' \<and> dec_pos d' \<le> length (dec_buf d) \<and>
    (\<forall>e. r = Inl e \<longrightarrow> \<not> is_end_of_input e \<and> dec_pos d' = length (dec_buf d))"
proof -
  obtain q e where q: "decode_token h d = (q, e)" by (cases "decode_token h d")
  have "dec_pos d < length (dec_buf d)" using tokenizer_next_decreases [OF assms] by simp
  with decode_token_inside [OF q] assms q show ?thesis
    by (auto simp: tokenizer_next_def tokenizer_token_def dec_set_position_def dec_input_def stays_def
        split: sum.splits if_splits)
qed

lemma tokens_inside:
  "length (tokens h d) \<le> length (dec_buf d) - dec_pos d \<and> (\<forall>r \<in> set (butlast (tokens h d)). \<not> isl r) \<and>
   (\<forall>e. Inl e \<in> set (tokens h d) \<longrightarrow> \<not> is_end_of_input e)"
proof (induction h d rule: tokens.induct)
  case (1 h d)
  obtain q d' where q: "tokenizer_next h d = (q, d')" by (cases "tokenizer_next h d")
  show ?case
  proof (cases q)
    case None
    with q show ?thesis by (subst tokens.simps, subst tokens.simps, subst tokens.simps) simp
  next
    case (Some r)
    with q have n: "tokenizer_next h d = (Some r, d')" by simp
    then have t: "tokens h d = r # tokens h d'" by (subst tokens.simps) simp
    from tokenizer_next_cases [OF n] 1 [OF n [symmetric] refl] tokens_end [of d' h] show ?thesis
      unfolding t by (cases r) auto
  qed
qed

section \<open>Sizes of items\<close>

datatype item_size = Size_Head | Size_Bytes u64 | Size_Items u64 | Size_Indef

definition size_head :: "u8 \<Rightarrow> decode_error + usize" where
  "size_head fst_byte =
     (let info = info_of fst_byte in
      if info \<le> 0x17 then Inr 1
      else if info = 0x18 then Inr 2
      else if info = 0x19 then Inr 3
      else if info = 0x1a then Inr 5
      else if info = 0x1b then Inr 9
      else if info = 0x1f then
        (if type_of fst_byte \<in> {BYTES, TEXT, ARRAY, MAP, SIMPLE} then Inr 1
         else Inl (err_message ''invalid data item head''))
      else Inl (err_message ''invalid data item head''))"

definition size_tail :: "bytes \<Rightarrow> decode_error + item_size" where
  "size_tail hd_bytes = (case hd_bytes of
       [] \<Rightarrow> Inl end_of_input
     | b # rest \<Rightarrow>
         let arg = (\<lambda>f. map_sum id f (fst (with_pos (dec_unsigned (info_of b)) (dec_new rest)))) in
         if type_of b \<in> {UNSIGNED, SIGNED, TAGGED, SIMPLE} then Inr Size_Head
         else if type_of b \<in> {BYTES, TEXT} then (if info_of b = 0x1f then Inr Size_Indef else arg Size_Bytes)
         else if type_of b \<in> {ARRAY, MAP} then (if info_of b = 0x1f then Inr Size_Indef else arg Size_Items)
         else Inl (with_message ''unknown cbor type'' (err_at 0 (type_mismatch (TyUnknown (type_of b))))))"

text \<open>The size that a head of major type \<open>t\<close> with argument \<open>n\<close> announces.\<close>

definition announced :: "u8 \<Rightarrow> nat \<Rightarrow> item_size" where
  "announced t n = (if t \<in> {BYTES, TEXT} then Size_Bytes (of_nat n)
     else if t \<in> {ARRAY, MAP} then Size_Items (of_nat n) else Size_Head)"

lemma size_head_arg:
  assumes "is_arg i n cs" "is_major t" shows "size_head (t OR of_nat i) = Inr (1 + length cs)"
  using assms(1)
proof cases
  case 1
  then have "(of_nat n :: u8) \<le> 0x17" by (simp add: word_le_nat_alt unsigned_of_nat take_bit_nat_eq_self)
  with 1 assms(2) show ?thesis by (simp add: size_head_def head_byte_parts)
qed (use head_byte_parts(2) [OF assms(2), of i] in \<open>simp_all add: size_head_def\<close>)

lemma size_of_head:
  assumes "is_head t n bs" "is_major t"
  shows "size_head (hd bs) = Inr (length bs)" "size_tail bs = Inr (announced t n)"
proof -
  from assms(1) obtain i cs where i: "is_arg i n cs" and bs: "bs = (t OR of_nat i) # cs" by (cases rule: is_head.cases) auto
  from size_head_arg [OF i assms(2)] show "size_head (hd bs) = Inr (length bs)" by (simp add: bs)
  have l: "length cs \<le> 8" using i by (cases rule: is_arg.cases) auto
  have "fst (with_pos (dec_unsigned (of_nat i)) (dec_new cs)) = Inr (of_nat n)"
    using yieldsD [OF reads_unsigned [OF i], of "[]" "[]"] l by (simp add: with_pos_def dec_new_def usize_bound_def)
  moreover have "of_nat i \<noteq> (0x1f :: u8)"
    using is_arg_bounds [OF i] by (simp add: word_unat_eq_iff unsigned_of_nat take_bit_nat_eq_self)
  moreover have "type_of (t OR of_nat i) = t" "info_of (t OR of_nat i) = of_nat i"
    using head_byte_parts [OF assms(2), of i] is_arg_bounds [OF i] by simp_all
  ultimately show "size_tail bs = Inr (announced t n)"
    using assms(2) by (auto simp: bs size_tail_def announced_def is_major_def Let_def)
qed

section \<open>Properties\<close>

text \<open>C35: on every input the tokenizer ends, with at most one result for each byte; an error is the last
  result, and the end of the input is never reported as an error.\<close>

theorem tokenizer_ends:
  "length (tokens to_f32 d) \<le> length (dec_buf d) - dec_pos d \<and>
   (\<forall>r \<in> set (butlast (tokens to_f32 d)). \<not> isl r) \<and>
   (\<forall>e. Inl e \<in> set (tokens to_f32 d) \<longrightarrow> \<not> is_end_of_input e)"
  by (rule tokens_inside)

lemma tokenizer_ends_witness:
  "length (tokens (\<lambda>_. 0) (tokenizer_new [0x01, 0x1c])) \<le> 2 \<and>
   list_all (Not \<circ> isl) (butlast (tokens (\<lambda>_. 0) (tokenizer_new [0x01, 0x1c])))"
  using tokenizer_ends [of "\<lambda>_. 0" "tokenizer_new [0x01, 0x1c]"] by (simp add: tokenizer_new_def dec_new_def list_all_iff)

text \<open>C24: for nested items that were encoded token by token, the tokenizer gives the tokens back and its
  text is the diagnostic notation of the items, one after the other: arrays in brackets, maps in braces,
  tagged items and the chunks of indefinite strings in parentheses, and indefinite lengths marked by an
  underscore.\<close>

theorem display_is_diagnostic_notation:
  assumes "list_all diag_ok xs" "ts = concat (map diag_tokens xs)"
    and "list_all (\<lambda>t. token_ok t \<and> canonical to_f32 to_f16 t = t) ts"
    and "encode_each (encode_token to_f16 vec_write_all) ts [] = (r, w)" "length w < usize_bound"
  shows "r = Inr () \<and> tokens to_f32 (tokenizer_new w) = map Inr ts \<and>
    tokenizer_display to_f32 ff (tokenizer_new w) = concat (map (diag_notation ff) xs)"
proof -
  have w: "r = Inr ()" "w = concat (map (token_bytes to_f16) ts)"
    using assms(4) vec_run [OF emits_tokens, of to_f16 ts "[]"] by simp_all
  have "tokens to_f32 (tokenizer_new w) = map (Inr \<circ> canonical to_f32 to_f16) ts"
    using tokens_emitted [of ts to_f16 to_f32] assms(3,5) by (simp add: w(2) list_all_iff)
  also have "\<dots> = map Inr ts" using assms(3) by (simp add: list_all_iff)
  finally have t: "tokens to_f32 (tokenizer_new w) = map Inr ts" .
  with display_diag [OF assms(1), of ff] w(1) assms(2) show ?thesis by (simp add: tokenizer_display_def)
qed

lemma display_is_diagnostic_notation_witness:
  "tokenizer_display (\<lambda>_. 0) \<lparr>show_f32 = \<lambda>_. [], show_f64 = \<lambda>_. []\<rparr> (tokenizer_new [0x82, 0x01, 0x9f, 0xf6, 0xff]) =
     str_bytes ''[1, [_ null]]''"
proof -
  let ?xs = "[D_Array False [D_Leaf (Tk_U8 1), D_Array True [D_Leaf Tk_Null]]]"
  have "encode_each (encode_token (\<lambda>_. 0) vec_write_all) (concat (map diag_tokens ?xs)) [] =
      (Inr (), [0x82, 0x01, 0x9f, 0xf6, 0xff])"
    using vec_run [OF emits_tokens, of "\<lambda>_. 0" "concat (map diag_tokens ?xs)" "[]"]
    by (simp add: int_head_def head_bytes_def)
  from display_is_diagnostic_notation [OF _ refl _ this, of "\<lambda>_. 0" "\<lparr>show_f32 = \<lambda>_. [], show_f64 = \<lambda>_. []\<rparr>"]
  show ?thesis
    by (simp add: is_leaf_def token_ok_def int_token_def usize_bound_def show_uint_def str_bytes_def nat_str.simps digit_char_def)
qed

lemma size_head_refused:
  "isl (size_head b) \<longleftrightarrow> \<not> info_of b \<le> 0x17 \<and> info_of b \<notin> {0x18, 0x19, 0x1a, 0x1b} \<and>
     \<not> (info_of b = 0x1f \<and> type_of b \<in> {BYTES, TEXT, ARRAY, MAP, SIMPLE})"
  by (simp add: size_head_def Let_def del: major_defs)

lemma size_head_info:
  assumes "is_major t" "i < 32"
  shows "isl (size_head (t OR of_nat i)) \<longleftrightarrow> i \<in> {28, 29, 30} \<or> i = 31 \<and> t \<in> {UNSIGNED, SIGNED, TAGGED}"
proof -
  have t: "t \<notin> {BYTES, TEXT, ARRAY, MAP, SIMPLE} \<longleftrightarrow> t \<in> {UNSIGNED, SIGNED, TAGGED}"
    using assms(1) by (auto simp: is_major_def)
  have "(of_nat i :: u8) \<le> 0x17 \<longleftrightarrow> i < 24"
    using assms(2) by (simp add: word_le_nat_alt unsigned_of_nat take_bit_nat_eq_self less_Suc_eq_le [of i 23, simplified])
  moreover have "of_nat i = (of_nat k :: u8) \<longleftrightarrow> i = k" if "k < 32" for k
    using assms(2) that by (simp add: word_unat_eq_iff unsigned_of_nat take_bit_nat_eq_self)
  from this [of 24] this [of 25] this [of 26] this [of 27] this [of 31]
  have "of_nat i = (0x18 :: u8) \<longleftrightarrow> i = 24" "of_nat i = (0x19 :: u8) \<longleftrightarrow> i = 25" "of_nat i = (0x1a :: u8) \<longleftrightarrow> i = 26"
    "of_nat i = (0x1b :: u8) \<longleftrightarrow> i = 27" "of_nat i = (0x1f :: u8) \<longleftrightarrow> i = 31"
    by simp_all
  ultimately have "isl (size_head (t OR of_nat i)) \<longleftrightarrow> \<not> i < 24 \<and> i \<notin> {24, 25, 26, 27} \<and> \<not> (i = 31 \<and> t \<notin> {UNSIGNED, SIGNED, TAGGED})"
    unfolding size_head_refused head_byte_parts [OF assms] t [symmetric] by simp
  with assms(2) show ?thesis by auto
qed

text \<open>The first byte of an item of any major type gives the length of its head, and the head gives the
  size the item announces, whatever follows; items of indefinite length are recognised from one byte, and
  the first bytes that are refused are exactly those that start no item: the reserved arguments and the
  indefinite length of a number or a tag.\<close>

theorem item_sizes:
  assumes "is_major t"
  shows "(\<forall>n bs post. is_head t n bs \<longrightarrow> size_head (hd (bs @ post)) = Inr (length bs) \<and>
      size_tail (take (length bs) (bs @ post)) = Inr (announced t n)) \<and>
    (size_tail [t OR 0x1f] = Inr Size_Indef \<longleftrightarrow> t \<in> {BYTES, TEXT, ARRAY, MAP}) \<and>
    (\<forall>i < 32. isl (size_head (t OR of_nat i)) \<longleftrightarrow> i \<in> {28, 29, 30} \<or> i = 31 \<and> t \<in> {UNSIGNED, SIGNED, TAGGED})"
proof (intro conjI allI impI)
  show "size_head (hd (bs @ post)) = Inr (length bs)" "size_tail (take (length bs) (bs @ post)) = Inr (announced t n)"
    if "is_head t n bs" for n bs post
    using size_of_head [OF that assms] head_nonempty [OF that] by simp_all
  show "size_tail [t OR 0x1f] = Inr Size_Indef \<longleftrightarrow> t \<in> {BYTES, TEXT, ARRAY, MAP}"
    using head_byte_parts [OF assms, of 31] assms by (auto simp: size_tail_def is_major_def)
qed (rule size_head_info [OF assms])

lemma item_sizes_witness: "size_head 0x78 = Inr 2 \<and> size_tail [0x78, 0x20] = Inr (Size_Bytes 32)"
proof -
  have "is_major TEXT" by (simp add: is_major_def)
  moreover have "is_head TEXT 32 [0x78, 0x20]" using is_head_head_bytes [of 32 TEXT] by (simp add: head_bytes_def)
  ultimately show ?thesis using item_sizes [of TEXT] by (fastforce simp: announced_def)
qed

end
