(* ===== verification/Cbor_Io.thy ===== *)
theory Cbor_Io
  imports Cbor_Impls
begin

text \<open>
  Length-delimited values over streams (\<open>minicbor-io/src\<close>): the blocking and the asynchronous reader and
  writer. The stream below them is any implementation of the standard traits; it is represented by the
  answers it will give, in any chunking and with interruptions and errors at any place, so a statement
  about all answers is a statement about all streams. For the asynchronous types an answer may also be
  that nothing is ready yet: the future is pending, and is polled again or dropped. All state that
  survives is in the reader or writer, so both continue with a new call.

  The specification is a function of the bytes of the stream alone, \<open>take_frame\<close>.
\<close>

section \<open>Errors\<close>

text \<open>The errors of the standard library: the kinds the code names, and others by their text.\<close>

datatype io_error = UnexpectedEof | WriteZero | Interrupted | OtherIo string

datatype frame_error =
    Err_Io io_error
  | Err_Decode decode_error
  | Err_Encode "infallible enc_error"
  | Err_InvalidLen

definition frame_error_display :: "(io_error \<Rightarrow> string) \<Rightarrow> frame_error \<Rightarrow> string" where
  "frame_error_display show_io e = (case e of
       Err_Io e \<Rightarrow> ''i/o error: '' @ show_io e
     | Err_Decode e \<Rightarrow> ''decode error: '' @ decode_error_display e
     | Err_Encode e \<Rightarrow> ''encode error: '' @ enc_error_display e
     | Err_InvalidLen \<Rightarrow> ''invalid length'')"

section \<open>Streams\<close>

datatype answer = Data bytes | Failed io_error

text \<open>One call of \<open>read\<close> with room for \<open>room\<close> bytes. Data that does not fit stays in the stream; at the end of
  the answers the stream is at its end.\<close>

fun stream_read :: "nat \<Rightarrow> answer list \<Rightarrow> (io_error + bytes) \<times> answer list" where
  "stream_read room [] = (Inr [], [])"
| "stream_read room (Data bs # s) =
     (Inr (take room bs), if length bs \<le> room then s else Data (drop room bs) # s)"
| "stream_read room (Failed e # s) = (Inl e, s)"

text \<open>The work left in a stream.\<close>

definition stream_size :: "answer list \<Rightarrow> nat" where
  "stream_size s = sum_list (map (\<lambda>a. case a of Data bs \<Rightarrow> Suc (length bs) | Failed _ \<Rightarrow> 1) s)"

lemma stream_read_decreases:
  assumes "stream_read room s = (r, s')" "0 < room" "r \<noteq> Inr []"
  shows "stream_size s' < stream_size s"
  using assms by (cases "(room, s)" rule: stream_read.cases) (auto simp: stream_size_def split: if_splits)

section \<open>The reader\<close>

record reader =
  rd_stream :: "answer list"
  rd_buffer :: bytes
  rd_max_len :: usize

definition reader_with_buffer :: "answer list \<Rightarrow> bytes \<Rightarrow> reader" where
  "reader_with_buffer s b = \<lparr>rd_stream = s, rd_buffer = b, rd_max_len = 512 * 1024\<rparr>"

definition reader_new :: "answer list \<Rightarrow> reader" where
  "reader_new s = reader_with_buffer s []"

definition reader_set_max_len :: "u32 \<Rightarrow> reader \<Rightarrow> reader" where
  "reader_set_max_len val r = r\<lparr>rd_max_len := unat val\<rparr>"

definition reader_into_parts :: "reader \<Rightarrow> answer list \<times> bytes" where
  "reader_into_parts r = (rd_stream r, rd_buffer r)"

text \<open>The loop over the four bytes of the prefix; \<open>None\<close> is the end of the stream before the first of them.\<close>

function read_prefix :: "bytes \<Rightarrow> answer list \<Rightarrow> (frame_error + bytes option) \<times> answer list" where
  "read_prefix got s =
     (if \<not> length got < 4 then (Inr (Some got), s)
      else case stream_read (4 - length got) s of
          (Inr bs, s') \<Rightarrow>
            if bs = [] then ((if got = [] then Inr None else Inl (Err_Io UnexpectedEof)), s')
            else read_prefix (got @ bs) s'
        | (Inl e, s') \<Rightarrow> if e = Interrupted then read_prefix got s' else (Inl (Err_Io e), s'))"
  by pat_completeness auto
termination
  by (relation "measure (stream_size \<circ> snd)") (auto dest!: stream_read_decreases [OF sym])

text \<open>\<open>read_exact\<close> of the standard library: the bytes read, and whether they fill the buffer.\<close>

function read_exact :: "nat \<Rightarrow> bytes \<Rightarrow> answer list \<Rightarrow> (io_error + unit) \<times> bytes \<times> answer list" where
  "read_exact n got s =
     (if \<not> length got < n then (Inr (), got, s)
      else case stream_read (n - length got) s of
          (Inr bs, s') \<Rightarrow> if bs = [] then (Inl UnexpectedEof, got, s') else read_exact n (got @ bs) s'
        | (Inl e, s') \<Rightarrow> if e = Interrupted then read_exact n got s' else (Inl e, got, s'))"
  by pat_completeness auto
termination
  by (relation "measure (\<lambda>(n, got, s). stream_size s)") (auto dest!: stream_read_decreases [OF sym])

declare read_prefix.simps [simp del] read_exact.simps [simp del]

definition reader_read :: "'a dec \<Rightarrow> reader \<Rightarrow> (frame_error + 'a option) \<times> reader" where
  "reader_read m r = (case read_prefix [] (rd_stream r) of
       (Inl e, s) \<Rightarrow> (Inl e, r\<lparr>rd_stream := s\<rparr>)
     | (Inr None, s) \<Rightarrow> (Inr None, r\<lparr>rd_stream := s\<rparr>)
     | (Inr (Some buf), s) \<Rightarrow>
         let len = unat (of_nat (nat_of_be buf) :: u32) in
         if rd_max_len r < len then (Inl Err_InvalidLen, r\<lparr>rd_stream := s\<rparr>)
         else (case read_exact len [] s of
             (Inl e, got, s') \<Rightarrow>
               (Inl (Err_Io e), r\<lparr>rd_stream := s', rd_buffer := got @ replicate (len - length got) 0\<rparr>)
           | (Inr _, got, s') \<Rightarrow>
               (map_sum Err_Decode Some (minicbor_decode m got), r\<lparr>rd_stream := s', rd_buffer := got\<rparr>)))"

section \<open>Frames\<close>

text \<open>The bytes a stream still holds, and streams that end only at their end and fail only by interruption.\<close>

definition content :: "answer list \<Rightarrow> bytes" where
  "content s = concat (map (\<lambda>a. case a of Data bs \<Rightarrow> bs | Failed _ \<Rightarrow> []) s)"

definition calm :: "answer list \<Rightarrow> bool" where
  "calm s = list_all (\<lambda>a. a \<noteq> Data [] \<and> (\<forall>e. a = Failed e \<longrightarrow> e = Interrupted)) s"

lemma content_simps [simp]:
  "content [] = []" "content (Data bs # s) = bs @ content s" "content (Failed e # s) = content s"
  by (simp_all add: content_def)

lemma stream_read_calm:
  assumes "calm s" "0 < room" "stream_read room s = (r, s')"
  shows "calm s' \<and> (case r of Inr bs \<Rightarrow> content s = bs @ content s' \<and> length bs \<le> room \<and> (bs = [] \<longrightarrow> content s = [])
    | Inl e \<Rightarrow> e = Interrupted \<and> content s' = content s)"
  using assms by (cases "(room, s)" rule: stream_read.cases) (auto simp: calm_def content_def)

text \<open>What a reader makes of the bytes of its stream: the result and the bytes left.\<close>

definition take_frame :: "usize \<Rightarrow> 'a dec \<Rightarrow> bytes \<Rightarrow> (frame_error + 'a option) \<times> bytes" where
  "take_frame mx m c =
     (if c = [] then (Inr None, [])
      else if length c < 4 then (Inl (Err_Io UnexpectedEof), [])
      else let len = nat_of_be (take 4 c); rest = drop 4 c in
        if mx < len then (Inl Err_InvalidLen, rest)
        else if length rest < len then (Inl (Err_Io UnexpectedEof), [])
        else (map_sum Err_Decode Some (minicbor_decode m (take len rest)), drop len rest))"

text \<open>The two loops take what they want from the stream, however it arrives.\<close>

lemma read_exact_calm:
  assumes "calm s" "length got \<le> n" "read_exact n got s = (r, got', s')"
  shows "calm s' \<and> (if n \<le> length (got @ content s) then r = Inr () \<and> got' = take n (got @ content s) \<and> content s' = drop n (got @ content s)
    else content s' = [] \<and> r = Inl UnexpectedEof \<and> got' = got @ content s)"
  using assms
proof (induction n got s arbitrary: r got' s' rule: read_exact.induct)
  case (1 n got s)
  show ?case
  proof (cases "length got < n")
    case False
    with 1(4,5) show ?thesis using 1(3) by (subst (asm) read_exact.simps) auto
  next
    case True
    obtain q t where q: "stream_read (n - length got) s = (q, t)" by (cases "stream_read (n - length got) s")
    from stream_read_calm [OF 1(3) _ q] True have c: "calm t" by simp
    show ?thesis
    proof (cases q)
      case (Inl e)
      with stream_read_calm [OF 1(3) _ q] True have e: "e = Interrupted" "content t = content s" by simp_all
      with 1(5) True q Inl have "read_exact n got t = (r, got', s')" by (subst (asm) read_exact.simps) simp
      from 1(1) [OF _ q [symmetric] Inl e(1) c 1(4) this] True e(2) show ?thesis by simp
    next
      case (Inr bs)
      with stream_read_calm [OF 1(3) _ q] True
      have b: "content s = bs @ content t" "length bs \<le> n - length got" "bs = [] \<longrightarrow> content s = []" by auto
      show ?thesis
      proof (cases "bs = []")
        case True
        with 1(5) q Inr \<open>length got < n\<close> b c show ?thesis by (subst (asm) read_exact.simps) auto
      next
        case False
        with 1(5) q Inr \<open>length got < n\<close> have "read_exact n (got @ bs) t = (r, got', s')" by (subst (asm) read_exact.simps) simp
        from 1(2) [OF _ q [symmetric] Inr False c _ this] b True show ?thesis by simp
      qed
    qed
  qed
qed

lemma read_prefix_as_exact:
  assumes "calm s"
  shows "read_prefix got s = (case read_exact 4 got s of
      (Inr _, b, s') \<Rightarrow> (Inr (Some b), s')
    | (Inl e, b, s') \<Rightarrow> (if b = [] then Inr None else Inl (Err_Io e), s'))"
  using assms
proof (induction got s rule: read_prefix.induct)
  case (1 got s)
  obtain q t where q: "stream_read (4 - length got) s = (q, t)" by (cases "stream_read (4 - length got) s")
  show ?case
  proof (cases "length got < 4")
    case True
    then have "calm t" "\<And>e. q = Inl e \<Longrightarrow> e = Interrupted" using stream_read_calm [OF 1(3) _ q] by auto
    with 1(1,2) [OF _ q [symmetric]] True q show ?thesis
      by (subst read_prefix.simps, subst read_exact.simps) (auto split: sum.splits)
  qed (simp add: read_prefix.simps read_exact.simps)
qed

lemma read_prefix_calm:
  assumes "calm s" "read_prefix [] s = (r, s')"
  shows "calm s' \<and> (if 4 \<le> length (content s) then r = Inr (Some (take 4 (content s))) \<and> content s' = drop 4 (content s)
    else content s' = [] \<and> r = (if content s = [] then Inr None else Inl (Err_Io UnexpectedEof)))"
proof -
  obtain q b t where q: "read_exact 4 [] s = (q, b, t)" by (cases "read_exact 4 [] s")
  from read_exact_calm [OF assms(1) _ q] read_prefix_as_exact [OF assms(1), of "[]"] assms(2) q show ?thesis
    by (cases q) (auto split: if_splits)
qed

text \<open>The blocking reader.\<close>

lemma of_be_prefix: "length b = 4 \<Longrightarrow> unat (of_nat (nat_of_be b) :: u32) = nat_of_be b"
  using nat_of_be_bound [of b] by (simp add: unsigned_of_nat take_bit_nat_eq_self)

lemma reader_read_calm:
  assumes "calm (rd_stream r)" "reader_read m r = (res, r')"
  shows "(res, content (rd_stream r')) = take_frame (rd_max_len r) m (content (rd_stream r)) \<and>
    calm (rd_stream r') \<and> rd_max_len r' = rd_max_len r"
proof -
  let ?c = "content (rd_stream r)" and ?n = "nat_of_be (take 4 (content (rd_stream r)))"
  obtain p s where p: "read_prefix [] (rd_stream r) = (p, s)" by (cases "read_prefix [] (rd_stream r)")
  note pc = read_prefix_calm [OF assms(1) p]
  show ?thesis
  proof (cases "4 \<le> length ?c")
    case False
    with pc p assms(2) show ?thesis by (auto simp: reader_read_def take_frame_def)
  next
    case True
    obtain q b t where q: "read_exact ?n [] s = (q, b, t)" by (cases "read_exact ?n [] s")
    from pc True have s: "calm s" "p = Inr (Some (take 4 ?c))" "content s = drop 4 ?c" by simp_all
    have n: "unat (of_nat ?n :: u32) = ?n" using True by (intro of_be_prefix) simp
    from read_exact_calm [OF s(1) _ q] s p q n True assms(2) show ?thesis
      by (auto simp: reader_read_def take_frame_def Let_def split: if_splits)
  qed
qed

section \<open>The asynchronous reader\<close>

text \<open>\<open>None\<close> among the answers: nothing is ready yet.\<close>

fun poll_read :: "nat \<Rightarrow> answer option list \<Rightarrow> (io_error + bytes) option \<times> answer option list" where
  "poll_read room [] = (Some (Inr []), [])"
| "poll_read room (None # s) = (None, s)"
| "poll_read room (Some a # s) = (case stream_read room [a] of (r, t) \<Rightarrow> (Some r, map Some t @ s))"

datatype read_state = ReadLen bytes nat | ReadVal usize

definition read_state_new :: read_state where
  "read_state_new = ReadLen [0, 0, 0, 0] 0"

record areader =
  ar_stream :: "answer option list"
  ar_buffer :: bytes
  ar_max_len :: usize
  ar_state :: read_state

definition areader_with_buffer :: "answer option list \<Rightarrow> bytes \<Rightarrow> areader" where
  "areader_with_buffer s b = \<lparr>ar_stream = s, ar_buffer = b, ar_max_len = 512 * 1024, ar_state = read_state_new\<rparr>"

definition areader_new :: "answer option list \<Rightarrow> areader" where
  "areader_new s = areader_with_buffer s []"

definition areader_into_parts :: "areader \<Rightarrow> answer option list \<times> bytes" where
  "areader_into_parts r = (ar_stream r, ar_buffer r)"

definition areader_set_max_len :: "u32 \<Rightarrow> areader \<Rightarrow> areader" where
  "areader_set_max_len val r = r\<lparr>ar_max_len := unat val\<rparr>"

definition splice :: "bytes \<Rightarrow> nat \<Rightarrow> bytes \<Rightarrow> bytes" where
  "splice buf k bs = take k buf @ bs @ drop (k + length bs) buf"

text \<open>One round of the loop: \<open>Inl\<close> goes on, \<open>Inr\<close> is the result, where \<open>None\<close> is a future that is still pending.\<close>

type_synonym 'a poll = "(frame_error + 'a option) option"

definition areader_step :: "'a dec \<Rightarrow> areader \<Rightarrow> areader + 'a poll \<times> areader" where
  "areader_step m r = (case ar_state r of
       ReadLen buf k \<Rightarrow>
         if k = 4 then
           let len = unat (of_nat (nat_of_be buf) :: u32) in
           if ar_max_len r < len then Inr (Some (Inl Err_InvalidLen), r)
           else Inl (r\<lparr>ar_buffer := replicate len 0, ar_state := ReadVal 0\<rparr>)
         else (case poll_read (4 - k) (ar_stream r) of
             (None, s) \<Rightarrow> Inr (None, r\<lparr>ar_stream := s\<rparr>)
           | (Some (Inl e), s) \<Rightarrow> Inr (Some (Inl (Err_Io e)), r\<lparr>ar_stream := s\<rparr>)
           | (Some (Inr bs), s) \<Rightarrow>
               if bs = [] then Inr (Some (if k = 0 then Inr None else Inl (Err_Io UnexpectedEof)), r\<lparr>ar_stream := s\<rparr>)
               else Inl (r\<lparr>ar_stream := s, ar_state := ReadLen (splice buf k bs) (k + length bs)\<rparr>))
     | ReadVal k \<Rightarrow>
         if length (ar_buffer r) \<le> k then
           Inr (Some (map_sum Err_Decode Some (minicbor_decode m (ar_buffer r))), r\<lparr>ar_state := read_state_new\<rparr>)
         else (case poll_read (length (ar_buffer r) - k) (ar_stream r) of
             (None, s) \<Rightarrow> Inr (None, r\<lparr>ar_stream := s\<rparr>)
           | (Some (Inl e), s) \<Rightarrow> Inr (Some (Inl (Err_Io e)), r\<lparr>ar_stream := s\<rparr>)
           | (Some (Inr bs), s) \<Rightarrow>
               if bs = [] then Inr (Some (Inl (Err_Io UnexpectedEof)), r\<lparr>ar_stream := s\<rparr>)
               else Inl (r\<lparr>ar_stream := s, ar_buffer := splice (ar_buffer r) k bs, ar_state := ReadVal (k + length bs)\<rparr>)))"

definition poll_size :: "answer option list \<Rightarrow> nat" where
  "poll_size s = stream_size (map (case_option (Data []) id) s)"

lemma poll_read_decreases: "poll_read room s = (Some (Inr bs), s') \<Longrightarrow> bs \<noteq> [] \<Longrightarrow> poll_size s' < poll_size s"
proof (cases "(room, s)" rule: poll_read.cases)
  case (3 room' a t)
  assume "poll_read room s = (Some (Inr bs), s')" "bs \<noteq> []"
  with 3 show ?thesis
    by (cases a) (auto simp: poll_size_def stream_size_def split: if_splits)
qed auto

lemma areader_step_decreases:
  assumes "areader_step m r = Inl r'"
  shows "(r', r) \<in> measures [\<lambda>r. poll_size (ar_stream r), \<lambda>r. case ar_state r of ReadLen _ _ \<Rightarrow> 1 | ReadVal _ \<Rightarrow> 0]"
  using assms
  by (auto simp: areader_step_def Let_def dest!: poll_read_decreases
      split: read_state.splits if_splits prod.splits option.splits sum.splits)

function areader_read :: "'a dec \<Rightarrow> areader \<Rightarrow> 'a poll \<times> areader" where
  "areader_read m r = (case areader_step m r of Inl r' \<Rightarrow> areader_read m r' | Inr res \<Rightarrow> res)"
  by pat_completeness auto
termination
  by (relation "inv_image (measures [\<lambda>r. poll_size (ar_stream r), \<lambda>r. case ar_state r of ReadLen _ _ \<Rightarrow> 1 | ReadVal _ \<Rightarrow> 0]) snd")
    (auto dest!: areader_step_decreases)

declare areader_read.simps [simp del]

text \<open>The bytes of a polled stream; a stream that says it is at its end only there; one that is always ready.\<close>

definition polled :: "answer option list \<Rightarrow> bytes" where
  "polled s = concat (map (\<lambda>a. case a of Some (Data bs) \<Rightarrow> bs | _ \<Rightarrow> []) s)"

definition ends_once :: "answer option list \<Rightarrow> bool" where
  "ends_once s \<longleftrightarrow> Some (Data []) \<notin> set s"

definition ready :: "answer option list \<Rightarrow> bool" where
  "ready s = list_all (\<lambda>a. case a of Some (Data bs) \<Rightarrow> True | _ \<Rightarrow> False) s"

lemma poll_read_polled:
  assumes "ends_once s" "0 < room" "poll_read room s = (r, s')"
  shows "ends_once s' \<and> (ready s \<longrightarrow> ready s' \<and> (\<exists>bs. r = Some (Inr bs))) \<and>
    (case r of Some (Inr bs) \<Rightarrow> polled s = bs @ polled s' \<and> length bs \<le> room \<and> (bs = [] \<longrightarrow> polled s' = [])
     | _ \<Rightarrow> polled s' = polled s)"
proof (cases "(room, s)" rule: poll_read.cases)
  case (3 room' a t)
  with assms show ?thesis by (cases a) (auto simp: ends_once_def ready_def polled_def split: if_splits)
qed (use assms in \<open>auto simp: ends_once_def ready_def polled_def\<close>)

text \<open>The bytes a reader has taken for the frame it is at, and those still in the stream.\<close>

definition ar_bytes :: "areader \<Rightarrow> bytes" where
  "ar_bytes r = (case ar_state r of ReadLen buf k \<Rightarrow> take k buf
     | ReadVal k \<Rightarrow> to_be32 (of_nat (length (ar_buffer r))) @ take k (ar_buffer r)) @ polled (ar_stream r)"

definition ar_ok :: "areader \<Rightarrow> bool" where
  "ar_ok r \<longleftrightarrow> ends_once (ar_stream r) \<and> (case ar_state r of ReadLen buf k \<Rightarrow> length buf = 4 \<and> k \<le> 4
     | ReadVal k \<Rightarrow> k \<le> length (ar_buffer r) \<and> length (ar_buffer r) \<le> ar_max_len r \<and> length (ar_buffer r) < 2 ^ 32)"

text \<open>What a call may do: while it is pending or fails, nothing is lost; otherwise it gives what the bytes stand
  for and leaves the rest, except that it does not leave a frame that is too long.\<close>

definition poll_ok :: "usize \<Rightarrow> 'a dec \<Rightarrow> bytes \<Rightarrow> 'a poll \<Rightarrow> bytes \<Rightarrow> bool" where
  "poll_ok mx m c res c' = (case res of
       None \<Rightarrow> c' = c
     | Some x \<Rightarrow> (case x of Inl (Err_Io e) \<Rightarrow> c' = c
         | _ \<Rightarrow> x = fst (take_frame mx m c) \<and> c' = (if x = Inl Err_InvalidLen then c else snd (take_frame mx m c))))"

lemma take_splice:
  "k \<le> length buf \<Longrightarrow> take (k + length bs) (splice buf k bs) = take k buf @ bs"
  "take (length bs) (splice buf 0 bs) = bs"
  by (simp_all add: splice_def)

lemma length_splice: "k + length bs \<le> length buf \<Longrightarrow> length (splice buf k bs) = length buf"
  by (simp add: splice_def)

lemma be_prefix: "n < 2 ^ 32 \<Longrightarrow> nat_of_be (to_be32 (of_nat n)) = n"
  by (simp add: nat_of_be_be_of_nat unsigned_of_nat take_bit_nat_eq_self)

lemma areader_step_goes_on:
  assumes "ar_ok r" "areader_step m r = Inl r'"
  shows "ar_ok r' \<and> ar_bytes r' = ar_bytes r \<and> ar_max_len r' = ar_max_len r \<and> (ready (ar_stream r) \<longrightarrow> ready (ar_stream r'))"
proof (cases "ar_state r")
  case (ReadLen buf k)
  show ?thesis
  proof (cases "k = 4")
    case True
    with assms ReadLen have b: "length buf = 4" by (simp add: ar_ok_def)
    then have "nat_of_be buf < 2 ^ 32" "to_be32 (of_nat (nat_of_be buf)) = buf"
      using nat_of_be_bound [of buf] be_of_nat_nat_of_be [of buf] by (simp_all add: of_be_prefix)
    with assms ReadLen True b show ?thesis
      by (auto simp: areader_step_def ar_ok_def ar_bytes_def of_be_prefix Let_def split: if_splits)
  next
    case False
    obtain q s where q: "poll_read (4 - k) (ar_stream r) = (q, s)" by (cases "poll_read (4 - k) (ar_stream r)")
    from poll_read_polled [OF _ _ q] assms ReadLen False q show ?thesis
      by (auto simp: areader_step_def ar_ok_def ar_bytes_def take_splice length_splice split: if_splits option.splits sum.splits)
  qed
next
  case (ReadVal k)
  obtain q s where q: "poll_read (length (ar_buffer r) - k) (ar_stream r) = (q, s)"
    by (cases "poll_read (length (ar_buffer r) - k) (ar_stream r)")
  from poll_read_polled [OF _ _ q] assms ReadVal q show ?thesis
    by (auto simp: areader_step_def ar_ok_def ar_bytes_def take_splice length_splice split: if_splits option.splits sum.splits)
qed

lemma take_frame_whole:
  "length b \<le> mx \<Longrightarrow> length b < 2 ^ 32 \<Longrightarrow>
    take_frame mx m (to_be32 (of_nat (length b)) @ b @ rest) = (map_sum Err_Decode Some (minicbor_decode m b), rest)"
  using be_prefix [of "length b"] length_be_of_nat [of 4 "unat (of_nat (length b) :: u32)"]
  by (auto simp: take_frame_def Let_def simp del: length_be_of_nat)

lemma take_frame_cut:
  "length b < n \<Longrightarrow> n \<le> mx \<Longrightarrow> n < 2 ^ 32 \<Longrightarrow>
    take_frame mx m (to_be32 (of_nat n) @ b) = (Inl (Err_Io UnexpectedEof), [])"
  using be_prefix [of n] length_be_of_nat [of 4 "unat (of_nat n :: u32)"]
  by (auto simp: take_frame_def Let_def simp del: length_be_of_nat)

lemma poll_ok_decoded:
  "take_frame mx m c = (map_sum Err_Decode Some z, c') \<Longrightarrow> poll_ok mx m c (Some (map_sum Err_Decode Some z)) c'"
  by (cases z) (simp_all add: poll_ok_def)

lemma areader_step_returns:
  assumes "ar_ok r" "areader_step m r = Inr (res, r')"
  shows "ar_ok r' \<and> ar_max_len r' = ar_max_len r \<and> poll_ok (ar_max_len r) m (ar_bytes r) res (ar_bytes r') \<and>
    (ready (ar_stream r) \<longrightarrow> res = Some (fst (take_frame (ar_max_len r) m (ar_bytes r))))"
proof (cases "ar_state r")
  case (ReadLen buf k)
  show ?thesis
  proof (cases "k = 4")
    case True
    with assms ReadLen have b: "length buf = 4" by (simp add: ar_ok_def)
    with assms ReadLen True show ?thesis
      by (auto simp: areader_step_def ar_ok_def ar_bytes_def of_be_prefix poll_ok_def take_frame_def Let_def split: if_splits)
  next
    case False
    obtain q s where q: "poll_read (4 - k) (ar_stream r) = (q, s)" by (cases "poll_read (4 - k) (ar_stream r)")
    from poll_read_polled [OF _ _ q] assms ReadLen False q show ?thesis
      by (auto simp: areader_step_def ar_ok_def ar_bytes_def poll_ok_def take_frame_def
          split: if_splits option.splits sum.splits)
  qed
next
  case (ReadVal k)
  let ?n = "length (ar_buffer r)"
  have n: "?n < 2 ^ 32" using assms(1) ReadVal by (simp add: ar_ok_def)
  show ?thesis
  proof (cases "?n \<le> k")
    case True
    with assms ReadVal have r: "k = ?n" "?n \<le> ar_max_len r" "ends_once (ar_stream r)"
      "res = Some (map_sum Err_Decode Some (minicbor_decode m (ar_buffer r)))" "r' = r\<lparr>ar_state := read_state_new\<rparr>"
      by (simp_all add: areader_step_def ar_ok_def)
    from poll_ok_decoded [OF take_frame_whole [OF r(2) n, of m "polled (ar_stream r)"]]
      take_frame_whole [OF r(2) n, of m "polled (ar_stream r)"] r ReadVal show ?thesis
      by (simp add: ar_ok_def ar_bytes_def read_state_new_def)
  next
    case False
    obtain q s where q: "poll_read (?n - k) (ar_stream r) = (q, s)" by (cases "poll_read (?n - k) (ar_stream r)")
    from poll_read_polled [OF _ _ q] assms ReadVal q n False take_frame_cut [of "take k (ar_buffer r)" ?n "ar_max_len r" m] show ?thesis
      by (auto simp: areader_step_def ar_ok_def ar_bytes_def poll_ok_def split: if_splits option.splits sum.splits)
  qed
qed

lemma areader_read_ok:
  assumes "ar_ok r" "areader_read m r = (res, r')"
  shows "ar_ok r' \<and> ar_max_len r' = ar_max_len r \<and> poll_ok (ar_max_len r) m (ar_bytes r) res (ar_bytes r') \<and>
    (ready (ar_stream r) \<longrightarrow> res = Some (fst (take_frame (ar_max_len r) m (ar_bytes r))))"
  using assms
proof (induction m r rule: areader_read.induct)
  case (1 m r)
  show ?case
  proof (cases "areader_step m r")
    case (Inl r1)
    with 1(3) have "areader_read m r1 = (res, r')" by (subst (asm) areader_read.simps) simp
    from areader_step_goes_on [OF 1(2) Inl] 1(1) [OF Inl _ this] show ?thesis by simp
  next
    case (Inr x)
    with 1(3) have "areader_step m r = Inr (res, r')" by (subst (asm) areader_read.simps) simp
    from areader_step_returns [OF 1(2) this] show ?thesis .
  qed
qed

section \<open>The writers\<close>

text \<open>The answers of a sink to \<open>write\<close>: how many bytes it takes, or an error. Behind its answers it takes everything.\<close>

datatype w_answer = Accept nat | Refused io_error

fun sink_accepts :: "bytes \<Rightarrow> w_answer list \<Rightarrow> (io_error + nat) \<times> w_answer list" where
  "sink_accepts bs [] = (Inr (length bs), [])"
| "sink_accepts bs (Accept n # s) = (Inr (min n (length bs)), s)"
| "sink_accepts bs (Refused e # s) = (Inl e, s)"

record sink =
  sk_answers :: "w_answer list"
  sk_written :: bytes

text \<open>\<open>write_all\<close> of the standard library.\<close>

function sink_write_all :: "bytes \<Rightarrow> sink \<Rightarrow> (io_error + unit) \<times> sink" where
  "sink_write_all bs k =
     (if bs = [] then (Inr (), k)
      else case sink_accepts bs (sk_answers k) of
          (Inr n, s) \<Rightarrow>
            if n = 0 then (Inl WriteZero, k\<lparr>sk_answers := s\<rparr>)
            else sink_write_all (drop n bs) \<lparr>sk_answers = s, sk_written = sk_written k @ take n bs\<rparr>
        | (Inl e, s) \<Rightarrow>
            if e = Interrupted then sink_write_all bs (k\<lparr>sk_answers := s\<rparr>) else (Inl e, k\<lparr>sk_answers := s\<rparr>))"
  by pat_completeness auto

lemma sink_accepts_less:
  "sink_accepts bs s = (r, s') \<Longrightarrow> length s' < length s \<or> s = [] \<and> s' = [] \<and> r = Inr (length bs)"
  by (cases "(bs, s)" rule: sink_accepts.cases) auto

termination sink_write_all
  by (relation "measures [\<lambda>(bs, k). length (sk_answers k), \<lambda>(bs, k). length bs]") (auto dest!: sink_accepts_less [OF sym])

declare sink_write_all.simps [simp del]

definition resize :: "nat \<Rightarrow> bytes \<Rightarrow> bytes" where
  "resize n b = take n b @ replicate (n - length b) 0"

record writer =
  wt_sink :: sink
  wt_buffer :: bytes
  wt_max_len :: usize

definition writer_with_buffer :: "sink \<Rightarrow> bytes \<Rightarrow> writer" where
  "writer_with_buffer k b = \<lparr>wt_sink = k, wt_buffer = b, wt_max_len = 512 * 1024\<rparr>"

definition writer_new :: "sink \<Rightarrow> writer" where
  "writer_new k = writer_with_buffer k []"

definition writer_into_parts :: "writer \<Rightarrow> sink \<times> bytes" where
  "writer_into_parts w = (wt_sink w, wt_buffer w)"

definition writer_set_max_len :: "u32 \<Rightarrow> writer \<Rightarrow> writer" where
  "writer_set_max_len val w = w\<lparr>wt_max_len := unat val\<rparr>"

text \<open>The value behind four bytes of room, into which its length is put. The subtraction is on \<open>u32\<close>.\<close>

definition fill_buffer :: "('a \<Rightarrow> (bytes, infallible) enc) \<Rightarrow> 'a \<Rightarrow> usize \<Rightarrow> bytes \<Rightarrow> (frame_error + unit) \<times> bytes" where
  "fill_buffer enc x mx buf = (case minicbor_encode enc x (resize 4 buf) of
       (Inl e, b) \<Rightarrow> (Inl (Err_Encode e), b)
     | (Inr _, b) \<Rightarrow>
         if mx < length b - 4 then (Inl Err_InvalidLen, b)
         else (Inr (), splice b 0 (to_be32 (of_nat (length b) - 4))))"

definition writer_write :: "('a \<Rightarrow> (bytes, infallible) enc) \<Rightarrow> 'a \<Rightarrow> writer \<Rightarrow> (frame_error + usize) \<times> writer" where
  "writer_write enc x w = (case fill_buffer enc x (wt_max_len w) (wt_buffer w) of
       (Inl e, b) \<Rightarrow> (Inl e, w\<lparr>wt_buffer := b\<rparr>)
     | (Inr _, b) \<Rightarrow> (case sink_write_all b (wt_sink w) of
           (Inl e, k) \<Rightarrow> (Inl (Err_Io e), w\<lparr>wt_buffer := b, wt_sink := k\<rparr>)
         | (Inr _, k) \<Rightarrow> (Inr (length b - 4), w\<lparr>wt_buffer := b, wt_sink := k\<rparr>)))"

definition writer_flush :: "(sink \<Rightarrow> (io_error + unit) \<times> sink) \<Rightarrow> writer \<Rightarrow> (frame_error + unit) \<times> writer" where
  "writer_flush flush w = (case flush (wt_sink w) of (r, k) \<Rightarrow> (map_sum Err_Io id r, w\<lparr>wt_sink := k\<rparr>))"

datatype write_state = WriteNone | WriteFrom usize

record awriter =
  aw_answers :: "w_answer option list"
  aw_written :: bytes
  aw_buffer :: bytes
  aw_max_len :: usize
  aw_state :: write_state

definition awriter_with_buffer :: "w_answer option list \<Rightarrow> bytes \<Rightarrow> awriter" where
  "awriter_with_buffer s b =
     \<lparr>aw_answers = s, aw_written = [], aw_buffer = b, aw_max_len = 512 * 1024, aw_state = WriteNone\<rparr>"

definition awriter_new :: "w_answer option list \<Rightarrow> awriter" where
  "awriter_new s = awriter_with_buffer s []"

definition awriter_into_parts :: "awriter \<Rightarrow> w_answer option list \<times> bytes \<times> bytes" where
  "awriter_into_parts w = (aw_answers w, aw_written w, aw_buffer w)"

definition awriter_set_max_len :: "u32 \<Rightarrow> awriter \<Rightarrow> awriter" where
  "awriter_set_max_len val w = w\<lparr>aw_max_len := unat val\<rparr>"

fun poll_write :: "bytes \<Rightarrow> w_answer option list \<Rightarrow> (io_error + nat) option \<times> w_answer option list" where
  "poll_write bs [] = (Some (Inr (length bs)), [])"
| "poll_write bs (None # s) = (None, s)"
| "poll_write bs (Some a # s) = (Some (fst (sink_accepts bs [a])), s)"

function awriter_sync :: "awriter \<Rightarrow> (frame_error + unit) option \<times> awriter" where
  "awriter_sync w = (case aw_state w of
       WriteNone \<Rightarrow> (Some (Inr ()), w)
     | WriteFrom k \<Rightarrow>
         if length (aw_buffer w) \<le> k then (Some (Inr ()), w\<lparr>aw_state := WriteNone\<rparr>)
         else (case poll_write (drop k (aw_buffer w)) (aw_answers w) of
             (None, s) \<Rightarrow> (None, w\<lparr>aw_answers := s\<rparr>)
           | (Some (Inl e), s) \<Rightarrow> (Some (Inl (Err_Io e)), w\<lparr>aw_answers := s\<rparr>)
           | (Some (Inr n), s) \<Rightarrow>
               if n = 0 then (Some (Inl (Err_Io WriteZero)), w\<lparr>aw_answers := s\<rparr>)
               else awriter_sync (w\<lparr>aw_answers := s, aw_written := aw_written w @ take n (drop k (aw_buffer w)),
                 aw_state := WriteFrom (k + n)\<rparr>)))"
  by pat_completeness auto
termination
  by (relation "measure (\<lambda>w. case aw_state w of WriteNone \<Rightarrow> 0 | WriteFrom k \<Rightarrow> length (aw_buffer w) - k)") auto

declare awriter_sync.simps [simp del]

definition awriter_write :: "('a \<Rightarrow> (bytes, infallible) enc) \<Rightarrow> 'a \<Rightarrow> awriter \<Rightarrow> (frame_error + usize) option \<times> awriter" where
  "awriter_write enc x w = (case fill_buffer enc x (aw_max_len w) (aw_buffer w) of
       (Inl e, b) \<Rightarrow> (Some (Inl e), w\<lparr>aw_buffer := b\<rparr>)
     | (Inr _, b) \<Rightarrow> (case awriter_sync (w\<lparr>aw_buffer := b, aw_state := WriteFrom 0\<rparr>) of
           (res, w') \<Rightarrow> (map_option (map_sum id (\<lambda>_. length (aw_buffer w') - 4)) res, w')))"

definition awriter_flush ::
  "(w_answer option list \<Rightarrow> (io_error + unit) option \<times> w_answer option list) \<Rightarrow> awriter \<Rightarrow>
     (frame_error + unit) option \<times> awriter" where
  "awriter_flush flush w = (case flush (aw_answers w) of
     (r, s) \<Rightarrow> (map_option (map_sum Err_Io id) r, w\<lparr>aw_answers := s\<rparr>))"

section \<open>What the writers write\<close>

definition frame :: "bytes \<Rightarrow> bytes" where
  "frame bs = to_be32 (of_nat (length bs)) @ bs"

lemma fill_buffer_emits:
  assumes "vec_sink.emits (enc x) bs"
  shows "fill_buffer enc x mx buf = (if mx < length bs then (Inl Err_InvalidLen, resize 4 buf @ bs) else (Inr (), frame bs))"
proof -
  have l: "length (resize 4 buf) = 4" by (simp add: resize_def)
  have "minicbor_encode enc x (resize 4 buf) = (Inr (), resize 4 buf @ bs)"
    by (simp add: minicbor_encode_def run_simps enc_ok_def vec_run [OF assms])
  with l show ?thesis by (simp add: fill_buffer_def frame_def splice_def)
qed

lemma sink_accepts_some: "sink_accepts bs s = (Inr n, s') \<Longrightarrow> n \<le> length bs"
  by (cases "(bs, s)" rule: sink_accepts.cases) auto

lemma sink_write_all_writes:
  "sink_write_all bs k = (r, k') \<Longrightarrow> \<exists>n \<le> length bs. sk_written k' = sk_written k @ take n bs \<and> (r = Inr () \<longrightarrow> n = length bs)"
proof (induction bs k arbitrary: r k' rule: sink_write_all.induct)
  case (1 bs k)
  obtain q s where q: "sink_accepts bs (sk_answers k) = (q, s)" by (cases "sink_accepts bs (sk_answers k)")
  show ?case
  proof (cases "bs = []")
    case False
    show ?thesis
    proof (cases q)
      case (Inl e)
      with 1(1) [OF False q [symmetric] Inl] 1(3) q False show ?thesis
        by (subst (asm) sink_write_all.simps) (auto split: if_splits)
    next
      case (Inr n)
      have n: "n \<le> length bs" using sink_accepts_some q Inr by simp
      show ?thesis
      proof (cases "n = 0")
        case True
        with 1(3) q Inr False show ?thesis by (subst (asm) sink_write_all.simps) auto
      next
        case n0: False
        with 1(3) q Inr False have "sink_write_all (drop n bs) \<lparr>sk_answers = s, sk_written = sk_written k @ take n bs\<rparr> = (r, k')"
          by (subst (asm) sink_write_all.simps) simp
        from 1(2) [OF False q [symmetric] Inr n0 this] obtain j where
          j: "j \<le> length bs - n" "sk_written k' = sk_written k @ take n bs @ take j (drop n bs)" "r = Inr () \<longrightarrow> j = length bs - n"
          by auto
        then show ?thesis using n by (intro exI [of _ "n + j"]) (auto simp: take_add)
      qed
    qed
  qed (use 1(3) in \<open>simp add: sink_write_all.simps\<close>)
qed

text \<open>The bytes the asynchronous writer has yet to commit.\<close>

definition aw_rest :: "awriter \<Rightarrow> bytes" where
  "aw_rest w = (case aw_state w of WriteNone \<Rightarrow> [] | WriteFrom k \<Rightarrow> drop k (aw_buffer w))"

definition willing :: "w_answer option list \<Rightarrow> bool" where
  "willing s = list_all (\<lambda>a. case a of Some (Accept n) \<Rightarrow> n \<noteq> 0 | _ \<Rightarrow> False) s"

lemma poll_write_willing:
  "poll_write bs s = (r, s') \<Longrightarrow> willing s \<Longrightarrow> bs \<noteq> [] \<Longrightarrow> \<exists>n. r = Some (Inr n) \<and> n \<noteq> 0 \<and> willing s'"
  by (cases "(bs, s)" rule: poll_write.cases) (auto simp: willing_def split: option.splits w_answer.splits)

lemma awriter_sync_commits:
  "awriter_sync w = (res, w') \<Longrightarrow> aw_written w' @ aw_rest w' = aw_written w @ aw_rest w \<and> aw_buffer w' = aw_buffer w \<and>
     (res = Some (Inr ()) \<longrightarrow> aw_state w' = WriteNone) \<and> (willing (aw_answers w) \<longrightarrow> res = Some (Inr ()))"
proof (induction w rule: awriter_sync.induct)
  case (1 w)
  show ?case
  proof (cases "aw_state w")
    case WriteNone
    with 1(2) show ?thesis by (subst (asm) awriter_sync.simps) auto
  next
    case (WriteFrom k)
    show ?thesis
    proof (cases "length (aw_buffer w) \<le> k")
      case True
      with 1(2) WriteFrom show ?thesis by (subst (asm) awriter_sync.simps) (auto simp: aw_rest_def)
    next
      case False
      obtain q s where q: "poll_write (drop k (aw_buffer w)) (aw_answers w) = (q, s)"
        by (cases "poll_write (drop k (aw_buffer w)) (aw_answers w)")
      note g = poll_write_willing [OF q]
      show ?thesis
      proof (cases "\<exists>n. q = Some (Inr n) \<and> n \<noteq> 0")
        case True
        then obtain n where n: "q = Some (Inr n)" "n \<noteq> 0" by blast
        with 1(2) q False WriteFrom have "awriter_sync (w\<lparr>aw_answers := s, aw_written := aw_written w @ take n (drop k (aw_buffer w)),
            aw_state := WriteFrom (k + n)\<rparr>) = (res, w')"
          by (subst (asm) awriter_sync.simps) simp
        from 1(1) [OF WriteFrom False q [symmetric] n(1) refl n(2) this] g False WriteFrom n show ?thesis
          by (auto simp: aw_rest_def add.commute) (metis append_take_drop_id drop_drop add.commute)+
      next
        case no: False
        with 1(2) q False WriteFrom g show ?thesis
          by (subst (asm) awriter_sync.simps) (auto simp: aw_rest_def split: option.splits sum.splits if_splits)
      qed
    qed
  qed
qed

lemma awriter_syncs:
  "aw_written (((\<lambda>w. snd (awriter_sync w)) ^^ n) w) @ aw_rest (((\<lambda>w. snd (awriter_sync w)) ^^ n) w) =
     aw_written w @ aw_rest w"
proof (induction n)
  case (Suc n)
  let ?v = "((\<lambda>w. snd (awriter_sync w)) ^^ n) w"
  have "awriter_sync ?v = (fst (awriter_sync ?v), snd (awriter_sync ?v))" by simp
  from awriter_sync_commits [OF this] Suc show ?case by simp
qed simp

lemma awriter_write_commits:
  assumes "vec_sink.emits (enc x) bs" "length bs \<le> aw_max_len w" "awriter_write enc x w = (res, w')"
  shows "aw_written w' @ aw_rest w' = aw_written w @ frame bs \<and>
    (\<forall>n. res = Some (Inr n) \<longrightarrow> n = length bs \<and> aw_rest w' = [])"
proof -
  let ?w = "w\<lparr>aw_buffer := frame bs, aw_state := WriteFrom 0\<rparr>"
  obtain q v where q: "awriter_sync ?w = (q, v)" by (cases "awriter_sync ?w")
  from awriter_sync_commits [OF q] have c: "aw_written v @ aw_rest v = aw_written w @ frame bs" "aw_buffer v = frame bs"
    "q = Some (Inr ()) \<longrightarrow> aw_state v = WriteNone"
    by (simp_all add: aw_rest_def)
  have f: "fill_buffer enc x (aw_max_len w) (aw_buffer w) = (Inr (), frame bs)"
    using fill_buffer_emits [of enc x bs] assms(1,2) by simp
  have "length (frame bs) = 4 + length bs" by (simp add: frame_def)
  moreover have "q = Some (Inr ()) \<and> n = length (frame bs) - 4"
    if "map_option (map_sum id (\<lambda>_. length (aw_buffer v) - 4)) q = Some (Inr n)" for n
    using that c(2) by (cases q; cases "the q") auto
  ultimately show ?thesis using c assms(3) q f by (auto simp: awriter_write_def aw_rest_def)
qed

section \<open>Properties\<close>

text \<open>C39: however the bytes of a stream arrive, in whatever chunks and with interruptions anywhere, the
  blocking reader gives what the bytes stand for: nothing at the end of the stream, the decoded value of a
  whole frame, and an error for a cut frame and for one longer than the limit. Behind a frame within the limit it leaves
  exactly the bytes behind that frame; of a longer one it takes the prefix only, so that its payload is left.\<close>

theorem reader_takes_frames:
  assumes "calm (rd_stream r)"
  shows "case reader_read m r of (res, r') \<Rightarrow>
    (res, content (rd_stream r')) = take_frame (rd_max_len r) m (content (rd_stream r)) \<and>
    calm (rd_stream r') \<and> rd_max_len r' = rd_max_len r"
  using reader_read_calm [OF assms, of m "fst (reader_read m r)" "snd (reader_read m r)"] by (simp add: case_prod_beta)

lemma reader_takes_frames_witness:
  "fst (reader_read dec_u8 (reader_new [Data [0, 0], Failed Interrupted, Data [0, 1, 7], Data [0]])) = Inr (Some 7)"
proof -
  let ?r = "reader_new [Data [0, 0], Failed Interrupted, Data [0, 1, 7], Data [0]]"
  have r: "calm (rd_stream ?r)" "content (rd_stream ?r) = [0, 0, 0, 1, 7, 0]" "rd_max_len ?r = 524288"
    by (simp_all add: calm_def reader_new_def reader_with_buffer_def)
  have "minicbor_decode dec_u8 [7] = Inr 7"
    by (simp add: minicbor_decode_def dec_u8_def dec_new_def run_simps with_pos_def dec_read_def index_get_def)
  then have "take_frame 524288 dec_u8 [0, 0, 0, 1, 7, 0] = (Inr (Some 7), [0])"
    using take_frame_whole [of "[7]" 524288 dec_u8 "[0]"] by (simp add: be_of_nat_unfold)
  with reader_takes_frames [OF r(1), of dec_u8] r(2,3) show ?thesis by (simp add: case_prod_beta)
qed

text \<open>C38: the asynchronous reader loses and invents nothing: when a call is still pending, whether it is then
  polled again or dropped, and when the stream fails, the bytes it has taken and those in the stream are
  together the same as before, so the next call goes on where it stopped; when it gives a result, this is
  what the bytes stand for, and a stream that is always ready gives one. A frame that is too long is refused
  by every later call too.\<close>

theorem areader_resumes:
  assumes "ar_ok r"
  shows "case areader_read m r of (res, r') \<Rightarrow> ar_ok r' \<and> ar_max_len r' = ar_max_len r \<and>
    poll_ok (ar_max_len r) m (ar_bytes r) res (ar_bytes r') \<and>
    (ready (ar_stream r) \<longrightarrow> res = Some (fst (take_frame (ar_max_len r) m (ar_bytes r))))"
  using areader_read_ok [OF assms, of m "fst (areader_read m r)" "snd (areader_read m r)"] by (simp add: case_prod_beta)

lemma areader_resumes_witness:
  "fst (areader_read dec_u8 (areader_new [Some (Data [0, 0]), None, Some (Data [0, 1, 7])])) = None \<and>
   ar_bytes (snd (areader_read dec_u8 (areader_new [Some (Data [0, 0]), None, Some (Data [0, 1, 7])]))) = [0, 0, 0, 1, 7]"
proof -
  let ?r = "areader_new [Some (Data [0, 0]), None, Some (Data [0, 1, 7])]"
  have r: "ar_ok ?r" "ar_bytes ?r = [0, 0, 0, 1, 7]"
    by (simp_all add: ar_ok_def ar_bytes_def areader_new_def areader_with_buffer_def read_state_new_def ends_once_def polled_def)
  have n: "fst (areader_read dec_u8 ?r) = None"
    by (simp add: areader_new_def areader_with_buffer_def areader_read.simps areader_step_def read_state_new_def)
  from areader_resumes [OF r(1), of dec_u8] r(2) n show ?thesis by (simp add: case_prod_beta poll_ok_def)
qed

text \<open>C40: a value that keeps the contract of its codec is written as one frame and read back. The blocking
  writer, when it succeeds, has written the frame; the asynchronous one has committed, or holds ready to be
  committed, exactly the frame, whatever the sink answers and however often its transfer is dropped and
  resumed; and a reader that finds these bytes at the front of its stream gives the value and leaves the
  rest.\<close>

theorem frames_round_trip:
  assumes "carries T enc len m x y" "len x \<le> mx" "mx < 2 ^ 32" "to_vec enc x = Inr bs"
  shows "(\<forall>w w' n. wt_max_len w = mx \<longrightarrow> writer_write enc x w = (Inr n, w') \<longrightarrow>
      n = len x \<and> sk_written (wt_sink w') = sk_written (wt_sink w) @ frame bs) \<and>
    (\<forall>w w' res n. aw_max_len w = mx \<longrightarrow> awriter_write enc x w = (res, w') \<longrightarrow>
      (let v = ((\<lambda>w. snd (awriter_sync w)) ^^ n) w' in aw_written v @ aw_rest v = aw_written w @ frame bs)) \<and>
    (\<forall>r rest. calm (rd_stream r) \<longrightarrow> rd_max_len r = mx \<longrightarrow> content (rd_stream r) = frame bs @ rest \<longrightarrow>
      fst (reader_read m r) = Inr (Some y) \<and> content (rd_stream (snd (reader_read m r))) = rest)"
proof -
  from assms(1) obtain v where v: "vec_sink.emits (enc x) v" "length v = len x" "length v < usize_bound \<longrightarrow> reads m v y"
    by (rule carries_payload)
  have "v = bs" using assms(4) vec_run [OF v(1), of "[]"] by (simp add: to_vec_def)
  note b = v [unfolded this]
  have l: "length bs \<le> mx" "length bs < 2 ^ 32" using b(2) assms(2,3) by simp_all
  have d: "minicbor_decode m bs = Inr y"
    using yieldsD [of m bs "\<lambda>_. Inr y" "[]" "[]"] b(3) l(2) by (simp add: minicbor_decode_def dec_new_def usize_bound_def)
  have f: "fill_buffer enc x mx buf = (Inr (), frame bs)" for buf
    using fill_buffer_emits [of enc x bs, OF b(1)] l(1) by simp
  have w: "n = len x \<and> sk_written (wt_sink w') = sk_written (wt_sink w) @ frame bs"
    if "wt_max_len w = mx" "writer_write enc x w = (Inr n, w')" for w w' n
    using that f sink_write_all_writes [of "frame bs" "wt_sink w"] b(2)
    by (auto simp: writer_write_def frame_def split: prod.splits sum.splits)
  have a: "let v = ((\<lambda>w. snd (awriter_sync w)) ^^ n) w' in aw_written v @ aw_rest v = aw_written w @ frame bs"
    if "aw_max_len w = mx" "awriter_write enc x w = (res, w')" for w w' res n
    using awriter_syncs [of n w'] awriter_write_commits [OF b(1) _ that(2)] l(1) that(1) by (simp add: Let_def)
  have r: "fst (reader_read m r) = Inr (Some y) \<and> content (rd_stream (snd (reader_read m r))) = rest"
    if "calm (rd_stream r)" "rd_max_len r = mx" "content (rd_stream r) = frame bs @ rest" for r rest
    using reader_read_calm [OF that(1), of m "fst (reader_read m r)" "snd (reader_read m r)"] that
      take_frame_whole [OF l, of m rest] d by (simp add: frame_def)
  from w a r show ?thesis by blast
qed

lemma frames_round_trip_witness:
  "fst (reader_read dec_u8 (reader_new [Data [0, 0], Data [0, 1, 7]])) = Inr (Some 7)"
proof -
  have v: "to_vec (enc_u8 vec_write_all) 7 = Inr [7]"
    using vec_run [OF vec_sink.emits_u8 [of 7], of "[]"] by (simp add: to_vec_def head_bytes_def)
  have r: "calm (rd_stream (reader_new [Data [0, 0], Data [0, 1, 7]]))"
    "content (rd_stream (reader_new [Data [0, 0], Data [0, 1, 7]])) = frame [7] @ []"
    "rd_max_len (reader_new [Data [0, 0], Data [0, 1, 7]]) = 512 * 1024"
    by (simp_all add: calm_def reader_new_def reader_with_buffer_def frame_def be_of_nat_unfold)
  have "len_u8 7 \<le> 512 * 1024" "(512 * 1024 :: nat) < 2 ^ 32" by (simp_all add: len_u8_def)
  from frames_round_trip [OF carries_integers(1) this v] r show ?thesis by blast
qed

text \<open>
  A write that is refused has already replaced the buffer of a transfer that was dropped, without ending
  it; \<open>sync\<close> then commits the rest of the new buffer behind the part of the old frame that was written.
\<close>

lemma refused_write_committed:
  fixes w :: awriter
  assumes "w = \<lparr>aw_answers = [Some (Accept 2), None], aw_written = [], aw_buffer = [], aw_max_len = 3, aw_state = WriteNone\<rparr>"
  shows "let (r1, w1) = awriter_write (enc_bytes vec_write_all) [1, 2] w;
      (r2, w2) = awriter_write (enc_bytes vec_write_all) [1, 2, 3, 4] w1;
      (r3, w3) = awriter_sync w2
    in r1 = None \<and> r2 = Some (Inl Err_InvalidLen) \<and> r3 = Some (Inr ()) \<and>
      aw_written w3 = [0, 0, 0, 3, 0x44, 1, 2, 3, 4]"
proof -
  have e: "vec_sink.emits (enc_bytes vec_write_all [1, 2]) [0x42, 1, 2]"
    "vec_sink.emits (enc_bytes vec_write_all [1, 2, 3, 4]) [0x44, 1, 2, 3, 4]"
    using vec_sink.emits_bytes [of "[1, 2]"] vec_sink.emits_bytes [of "[1, 2, 3, 4]"] by (simp_all add: head_bytes_def)
  note f = fill_buffer_emits [of "enc_bytes vec_write_all", OF e(1)] fill_buffer_emits [of "enc_bytes vec_write_all", OF e(2)]
  show ?thesis
    by (simp add: assms awriter_write_def f frame_def resize_def be_of_nat_unfold awriter_sync.simps)
qed

end
