(* ===== verification/Cbor_Std.thy ===== *)
theory Cbor_Std
  imports Cbor_Io
begin

text \<open>
  The writer of minicbor for the streams of the standard library (\<open>minicbor/src/encode/write.rs\<close>, feature \<open>std\<close>), over the
  sinks of the length-delimited writers. On a sink that takes something whenever it is asked, with
  interruptions at any place, it keeps the contract of a byte sink, so everything the encoder does on a sink holds for it.
\<close>

record std_writer =
  std_inner :: sink

definition std_writer_new :: "sink \<Rightarrow> std_writer" where
  "std_writer_new w = \<lparr>std_inner = w\<rparr>"

definition std_into_inner :: "std_writer \<Rightarrow> sink" where
  "std_into_inner w = std_inner w"

definition std_write_all :: "(std_writer, io_error) write_all" where
  "std_write_all buf w = (case sink_write_all buf (std_inner w) of (r, k) \<Rightarrow> (r, w\<lparr>std_inner := k\<rparr>))"

text \<open>A sink that never ends the writing.\<close>

definition takes_all :: "w_answer list \<Rightarrow> bool" where
  "takes_all s \<longleftrightarrow> (\<forall>a \<in> set s. case a of Accept n \<Rightarrow> 0 < n | Refused e \<Rightarrow> e = Interrupted)"

lemma sink_accepts_takes:
  "takes_all s \<Longrightarrow> sink_accepts bs s = (q, s') \<Longrightarrow> bs \<noteq> [] \<Longrightarrow>
     takes_all s' \<and> (q = Inl Interrupted \<or> (\<exists>n. q = Inr n \<and> 0 < n))"
  by (cases "(bs, s)" rule: sink_accepts.cases) (auto simp: takes_all_def)

lemma sink_takes_all:
  "takes_all (sk_answers k) \<Longrightarrow> \<exists>k'. sink_write_all bs k = (Inr (), k') \<and> takes_all (sk_answers k') \<and> sk_written k' = sk_written k @ bs"
proof (induction bs k rule: sink_write_all.induct)
  case (1 bs k)
  show ?case
  proof (cases "bs = []")
    case False
    obtain q s where q: "sink_accepts bs (sk_answers k) = (q, s)" by (cases "sink_accepts bs (sk_answers k)")
    note t = sink_accepts_takes [OF 1(3) q False]
    then consider "q = Inl Interrupted" | n where "q = Inr n" "n \<noteq> 0" by auto
    then show ?thesis
    proof cases
      case 1
      with "1.IH"(1) [OF False q [symmetric] 1] t q False show ?thesis by (subst sink_write_all.simps) simp
    next
      case (2 n)
      from 1(2) [OF False q [symmetric] 2] t 2 q False show ?thesis by (subst sink_write_all.simps) auto
    qed
  qed (use 1(3) in \<open>simp add: sink_write_all.simps\<close>)
qed

interpretation std_sink: byte_sink std_write_all "\<lambda>w. sk_written (std_into_inner w)" "\<lambda>_ _. True"
  "\<lambda>w. takes_all (sk_answers (std_into_inner w))"
proof
  fix w :: std_writer and b
  assume "takes_all (sk_answers (std_into_inner w))"
  then obtain k where "sink_write_all b (std_inner w) = (Inr (), k)" "takes_all (sk_answers k)" "sk_written k = sk_written (std_inner w) @ b"
    using sink_takes_all by (auto simp: std_into_inner_def)
  then show "\<exists>w'. std_write_all b w = (Inr (), w') \<and> takes_all (sk_answers (std_into_inner w')) \<and>
      sk_written (std_into_inner w') = sk_written (std_into_inner w) @ b \<and> (\<forall>n. True \<longleftrightarrow> True)"
    by (simp add: std_write_all_def std_into_inner_def)
qed simp_all

text \<open>For instance text: the head and the bytes are written, however the sink takes them.\<close>

lemma std_text:
  assumes "takes_all (sk_answers k)"
  shows "\<exists>w. enc_str std_write_all s (std_writer_new k) = (Inr (), w) \<and>
    sk_written (std_into_inner w) = sk_written k @ head_bytes TEXT (unat (of_nat (length s) :: u64)) @ s"
  using std_sink.emitsD [OF std_sink.emits_str [of s], of "std_writer_new k"] assms
  by (auto simp: std_writer_new_def std_into_inner_def)

end
