(* ===== verification/Derive_Attrs.thy ===== *)
theory Derive_Attrs
  imports Cbor_Types "HOL-Library.Product_Lexorder"
begin

text \<open>
  The attributes of the derive macros (\<open>minicbor-derive/src/attrs.rs\<close> and \<open>attrs/\<close>): index numbers,
  encodings, custom codecs, type parameters, and how the attributes of one item are collected. Tokens
  are lexed by \<open>syn\<close>: an attribute is its path with its arguments, and \<open>syn\<close>'s parsers of paths, lifetimes,
  type parameters and trait bounds are a parameter. Source positions of errors are left out, and so is which error is reported of an attribute with several.
\<close>

datatype derive_error = SynError | Msg string

type_synonym ident = string
type_synonym path = "ident list"

section \<open>Index numbers and encodings\<close>

datatype idx = IdxN i64 | IdxB i64

definition idx_is_b :: "idx \<Rightarrow> bool" where
  "idx_is_b i = (case i of IdxB _ \<Rightarrow> True | IdxN _ \<Rightarrow> False)"

definition idx_val :: "idx \<Rightarrow> i64" where
  "idx_val i = (case i of IdxN n \<Rightarrow> n | IdxB n \<Rightarrow> n)"

definition unsigned_abs :: "i64 \<Rightarrow> nat" where
  "unsigned_abs n = nat \<bar>sint n\<bar>"

definition bytewise_lexicographic :: "idx \<Rightarrow> bool \<times> nat" where
  "bytewise_lexicographic i = (sint (idx_val i) < 0, unsigned_abs (idx_val i))"

definition check_uniq :: "idx list \<Rightarrow> derive_error + unit" where
  "check_uniq is =
     (if length is \<noteq> card (set (map idx_val is)) then Inl (Msg ''duplicate index numbers'') else Inr ())"

datatype encoding = EncArray | EncMap

definition default_encoding :: encoding where
  "default_encoding = EncArray"

definition is_array_encoding :: "encoding \<Rightarrow> bool" where
  "is_array_encoding e = (e = EncArray)"

definition is_map_encoding :: "encoding \<Rightarrow> bool" where
  "is_map_encoding e = (e = EncMap)"

section \<open>Custom codecs\<close>

record encode_with =
  ew_encode :: path
  ew_is_nil :: "path option"

record decode_with =
  dw_decode :: path
  dw_nil :: "path option"

datatype custom_codec =
    CodecEncode encode_with
  | CodecDecode decode_with
  | CodecBoth encode_with decode_with
  | CodecModule path bool

definition codec_is_encode :: "custom_codec \<Rightarrow> bool" where
  "codec_is_encode c = (case c of CodecDecode _ \<Rightarrow> False | _ \<Rightarrow> True)"

definition codec_is_decode :: "custom_codec \<Rightarrow> bool" where
  "codec_is_decode c = (case c of CodecEncode _ \<Rightarrow> False | _ \<Rightarrow> True)"

definition codec_is_module :: "custom_codec \<Rightarrow> bool" where
  "codec_is_module c = (case c of CodecModule _ _ \<Rightarrow> True | _ \<Rightarrow> False)"

definition codec_is_is_nil :: "custom_codec \<Rightarrow> bool" where
  "codec_is_is_nil c = (case c of
      CodecEncode e \<Rightarrow> ew_is_nil e \<noteq> None
    | CodecBoth e _ \<Rightarrow> ew_is_nil e \<noteq> None
    | CodecModule _ t \<Rightarrow> t
    | CodecDecode _ \<Rightarrow> False)"

definition to_encode_path :: "custom_codec \<Rightarrow> path option" where
  "to_encode_path c = (case c of
      CodecEncode e \<Rightarrow> Some (ew_encode e)
    | CodecBoth e _ \<Rightarrow> Some (ew_encode e)
    | CodecDecode _ \<Rightarrow> None
    | CodecModule p _ \<Rightarrow> Some (p @ [''encode'']))"

definition to_decode_path :: "custom_codec \<Rightarrow> path option" where
  "to_decode_path c = (case c of
      CodecDecode d \<Rightarrow> Some (dw_decode d)
    | CodecBoth _ d \<Rightarrow> Some (dw_decode d)
    | CodecEncode _ \<Rightarrow> None
    | CodecModule p _ \<Rightarrow> Some (p @ [''decode'']))"

definition to_is_nil_path :: "custom_codec \<Rightarrow> path option" where
  "to_is_nil_path c = (case c of
      CodecEncode e \<Rightarrow> ew_is_nil e
    | CodecBoth e _ \<Rightarrow> ew_is_nil e
    | CodecModule p b \<Rightarrow> if b then Some (p @ [''is_nil'']) else None
    | CodecDecode _ \<Rightarrow> None)"

definition to_nil_path :: "custom_codec \<Rightarrow> path option" where
  "to_nil_path c = (case c of
      CodecDecode d \<Rightarrow> dw_nil d
    | CodecBoth _ d \<Rightarrow> dw_nil d
    | CodecModule p b \<Rightarrow> if b then Some (p @ [''nil'']) else None
    | CodecEncode _ \<Rightarrow> None)"

definition to_cbor_len_path :: "custom_codec \<Rightarrow> path option" where
  "to_cbor_len_path c = (case c of CodecModule p _ \<Rightarrow> Some (p @ [''cbor_len'']) | _ \<Rightarrow> None)"

section \<open>Type parameters\<close>

text \<open>A type parameter is its name with its bounds; a hash map of them is the list of its entries.\<close>

type_synonym type_param = "ident \<times> string list"
type_synonym param_map = "(ident \<times> type_param) list"

datatype type_params =
    ParamsEncode param_map
  | ParamsDecode param_map
  | ParamsLength param_map
  | ParamsAll param_map param_map param_map

fun merge_params :: "param_map \<Rightarrow> param_map \<Rightarrow> derive_error + param_map" where
  "merge_params a [] = Inr a"
| "merge_params a ((k, v) # b) =
     (if k \<in> fst ` set a then Inl (Msg ''duplicate type parameter'') else merge_params ((k, v) # a) b)"

definition try_merge :: "type_params \<Rightarrow> type_params \<Rightarrow> derive_error + type_params" where
  "try_merge p q = (case p of
      ParamsEncode e1 \<Rightarrow> (case q of
          ParamsEncode e2 \<Rightarrow> bind_r (merge_params e1 e2) (\<lambda>e. Inr (ParamsEncode e))
        | ParamsDecode d \<Rightarrow> Inr (ParamsAll e1 d [])
        | ParamsLength l \<Rightarrow> Inr (ParamsAll e1 [] l)
        | ParamsAll e2 d l \<Rightarrow> bind_r (merge_params e1 e2) (\<lambda>e. Inr (ParamsAll e d l)))
    | ParamsDecode d1 \<Rightarrow> (case q of
          ParamsDecode d2 \<Rightarrow> bind_r (merge_params d1 d2) (\<lambda>d. Inr (ParamsDecode d))
        | ParamsEncode e \<Rightarrow> Inr (ParamsAll e d1 [])
        | ParamsLength l \<Rightarrow> Inr (ParamsAll [] d1 l)
        | ParamsAll e d2 l \<Rightarrow> bind_r (merge_params d1 d2) (\<lambda>d. Inr (ParamsAll e d l)))
    | ParamsLength l1 \<Rightarrow> (case q of
          ParamsLength l2 \<Rightarrow> bind_r (merge_params l1 l2) (\<lambda>l. Inr (ParamsLength l))
        | ParamsEncode e \<Rightarrow> Inr (ParamsAll e [] l1)
        | ParamsDecode d \<Rightarrow> Inr (ParamsAll [] d l1)
        | ParamsAll e d l2 \<Rightarrow> bind_r (merge_params l1 l2) (\<lambda>l. Inr (ParamsAll e d l)))
    | ParamsAll e1 d1 l1 \<Rightarrow> (case q of
          ParamsEncode e2 \<Rightarrow> bind_r (merge_params e1 e2) (\<lambda>e. Inr (ParamsAll e d1 l1))
        | ParamsDecode d2 \<Rightarrow> bind_r (merge_params d1 d2) (\<lambda>d. Inr (ParamsAll e1 d l1))
        | ParamsLength l2 \<Rightarrow> bind_r (merge_params l1 l2) (\<lambda>l. Inr (ParamsAll e1 d1 l))
        | ParamsAll e2 d2 l2 \<Rightarrow> bind_r (merge_params e1 e2) (\<lambda>e. bind_r (merge_params d1 d2) (\<lambda>d.
            bind_r (merge_params l1 l2) (\<lambda>l. Inr (ParamsAll e d l))))))"

definition get_encode :: "type_params \<Rightarrow> ident \<Rightarrow> type_param option" where
  "get_encode p k = (case p of ParamsEncode e \<Rightarrow> map_of e k | ParamsAll e _ _ \<Rightarrow> map_of e k | _ \<Rightarrow> None)"

definition get_decode :: "type_params \<Rightarrow> ident \<Rightarrow> type_param option" where
  "get_decode p k = (case p of ParamsDecode d \<Rightarrow> map_of d k | ParamsAll _ d _ \<Rightarrow> map_of d k | _ \<Rightarrow> None)"

definition get_length :: "type_params \<Rightarrow> ident \<Rightarrow> type_param option" where
  "get_length p k = (case p of ParamsLength l \<Rightarrow> map_of l k | ParamsAll _ _ l \<Rightarrow> map_of l k | _ \<Rightarrow> None)"

section \<open>Attributes\<close>

datatype attr_kind =
    KBorrow | KCodec | KEncoding | KIndex | KIndexOnly | KTransparent | KTypeParam | KNil | KIsNil
  | KHasNil | KContextBound | KCborLen | KTag | KSkip | KFlat | KDefault

definition all_kinds :: "attr_kind list" where
  "all_kinds = [KBorrow, KCodec, KEncoding, KIndex, KIndexOnly, KTransparent, KTypeParam, KNil, KIsNil,
     KHasNil, KContextBound, KCborLen, KTag, KSkip, KFlat, KDefault]"

datatype attr_value =
    VBorrow "string set"
  | VCodec custom_codec
  | VEncoding encoding
  | VIndex idx
  | VIndexOnly
  | VTransparent
  | VTypeParam type_params
  | VNil path
  | VIsNil path
  | VHasNil
  | VContextBound "string set"
  | VCborLen path
  | VTag u64
  | VSkip
  | VFlat
  | VDefault

datatype level = LEnum | LStruct | LVariant | LField

definition level_display :: "level \<Rightarrow> string" where
  "level_display l = (case l of LEnum \<Rightarrow> ''enum'' | LStruct \<Rightarrow> ''struct'' | LVariant \<Rightarrow> ''variant'' | LField \<Rightarrow> ''field'')"

record attributes =
  at_level :: level
  at_attrs :: "attr_kind \<Rightarrow> attr_value option"

definition attributes_new :: "level \<Rightarrow> attributes" where
  "attributes_new l = \<lparr>at_level = l, at_attrs = (\<lambda>_. None)\<rparr>"

definition at_get :: "attributes \<Rightarrow> attr_kind \<Rightarrow> attr_value option" where
  "at_get a k = at_attrs a k"

definition contains_key :: "attributes \<Rightarrow> attr_kind \<Rightarrow> bool" where
  "contains_key a k = (at_attrs a k \<noteq> None)"

definition at_insert :: "attr_kind \<Rightarrow> attr_value \<Rightarrow> attributes \<Rightarrow> attributes" where
  "at_insert k v a = a\<lparr>at_attrs := (at_attrs a)(k := Some v)\<rparr>"

definition at_remove :: "attr_kind \<Rightarrow> attributes \<Rightarrow> attributes" where
  "at_remove k a = a\<lparr>at_attrs := (at_attrs a)(k := None)\<rparr>"

definition at_size :: "attributes \<Rightarrow> nat" where
  "at_size a = length (filter (contains_key a) all_kinds)"

definition at_borrow :: "attributes \<Rightarrow> string set option" where
  "at_borrow a = Option.bind (at_get a KBorrow) (\<lambda>v. case v of VBorrow l \<Rightarrow> Some l | _ \<Rightarrow> None)"

definition at_encoding :: "attributes \<Rightarrow> encoding option" where
  "at_encoding a = Option.bind (at_get a KEncoding) (\<lambda>v. case v of VEncoding e \<Rightarrow> Some e | _ \<Rightarrow> None)"

definition at_index :: "attributes \<Rightarrow> idx option" where
  "at_index a = Option.bind (at_get a KIndex) (\<lambda>v. case v of VIndex i \<Rightarrow> Some i | _ \<Rightarrow> None)"

definition at_codec :: "attributes \<Rightarrow> custom_codec option" where
  "at_codec a = Option.bind (at_get a KCodec) (\<lambda>v. case v of VCodec c \<Rightarrow> Some c | _ \<Rightarrow> None)"

definition at_type_params :: "attributes \<Rightarrow> type_params option" where
  "at_type_params a = Option.bind (at_get a KTypeParam) (\<lambda>v. case v of VTypeParam p \<Rightarrow> Some p | _ \<Rightarrow> None)"

definition at_context_bound :: "attributes \<Rightarrow> string set option" where
  "at_context_bound a = Option.bind (at_get a KContextBound) (\<lambda>v. case v of VContextBound b \<Rightarrow> Some b | _ \<Rightarrow> None)"

definition at_cbor_len :: "attributes \<Rightarrow> path option" where
  "at_cbor_len a = Option.bind (at_get a KCborLen) (\<lambda>v. case v of VCborLen p \<Rightarrow> Some p | _ \<Rightarrow> None)"

definition at_tag :: "attributes \<Rightarrow> u64 option" where
  "at_tag a = Option.bind (at_get a KTag) (\<lambda>v. case v of VTag t \<Rightarrow> Some t | _ \<Rightarrow> None)"

definition at_transparent :: "attributes \<Rightarrow> bool" where "at_transparent a = contains_key a KTransparent"
definition at_index_only :: "attributes \<Rightarrow> bool" where "at_index_only a = contains_key a KIndexOnly"
definition at_skip :: "attributes \<Rightarrow> bool" where "at_skip a = contains_key a KSkip"
definition at_flat :: "attributes \<Rightarrow> bool" where "at_flat a = contains_key a KFlat"
definition at_default :: "attributes \<Rightarrow> bool" where "at_default a = contains_key a KDefault"

section \<open>Collecting attributes\<close>

text \<open>The attributes an item of a level supports: the first match of \<open>try_insert\<close>.\<close>

definition supported :: "level \<Rightarrow> attr_kind \<Rightarrow> bool" where
  "supported l k = (k \<in> (case l of
      LStruct \<Rightarrow> {KEncoding, KTransparent, KContextBound, KTag}
    | LField \<Rightarrow> {KTypeParam, KBorrow, KCodec, KIndex, KNil, KIsNil, KHasNil, KCborLen, KTag, KSkip, KDefault}
    | LEnum \<Rightarrow> {KEncoding, KIndexOnly, KContextBound, KTag, KFlat}
    | LVariant \<Rightarrow> {KEncoding, KIndex, KTag}))"

definition duplicate_attribute :: derive_error where
  "duplicate_attribute = Msg ''duplicate attribute''"

text \<open>An attribute that is there already: codecs, type parameters and context bounds are merged.\<close>

definition insert_again :: "attr_kind \<Rightarrow> attr_value \<Rightarrow> attr_value \<Rightarrow> attributes \<Rightarrow> derive_error + attributes" where
  "insert_again key old val a = (case old of
      VCodec cc \<Rightarrow> (case (val, cc) of
          (VCodec (CodecEncode e), CodecDecode d) \<Rightarrow> Inr (at_insert key (VCodec (CodecBoth e d)) a)
        | (VCodec (CodecDecode d), CodecEncode e) \<Rightarrow> Inr (at_insert key (VCodec (CodecBoth e d)) a)
        | _ \<Rightarrow> Inl duplicate_attribute)
    | VTypeParam cb \<Rightarrow> (case val of
          VTypeParam p \<Rightarrow> bind_r (try_merge cb p) (\<lambda>r. Inr (at_insert key (VTypeParam r) a))
        | _ \<Rightarrow> Inl duplicate_attribute)
    | VContextBound cb \<Rightarrow> (case val of
          VContextBound x \<Rightarrow> Inr (at_insert key (VContextBound (cb \<union> x)) a)
        | _ \<Rightarrow> Inl duplicate_attribute)
    | _ \<Rightarrow> Inl duplicate_attribute)"

text \<open>
  Setting \<open>is_nil\<close> and \<open>nil\<close> of a codec that is there, and taking over a pending one.
\<close>

definition set_is_nil :: "path \<Rightarrow> encode_with \<Rightarrow> derive_error + encode_with" where
  "set_is_nil p e = (if ew_is_nil e \<noteq> None then Inl duplicate_attribute else Inr (e\<lparr>ew_is_nil := Some p\<rparr>))"

definition set_nil :: "path \<Rightarrow> decode_with \<Rightarrow> derive_error + decode_with" where
  "set_nil p d = (if dw_nil d \<noteq> None then Inl duplicate_attribute else Inr (d\<lparr>dw_nil := Some p\<rparr>))"

definition take_is_nil :: "attributes \<Rightarrow> encode_with \<Rightarrow> derive_error + encode_with" where
  "take_is_nil a e = (case at_get a KIsNil of Some (VIsNil p) \<Rightarrow> set_is_nil p e | _ \<Rightarrow> Inr e)"

definition take_nil :: "attributes \<Rightarrow> decode_with \<Rightarrow> derive_error + decode_with" where
  "take_nil a d = (case at_get a KNil of Some (VNil p) \<Rightarrow> set_nil p d | _ \<Rightarrow> Inr d)"

definition insert_codec :: "custom_codec \<Rightarrow> attributes \<Rightarrow> derive_error + attributes" where
  "insert_codec c a = (case c of
      CodecEncode e \<Rightarrow> bind_r (take_is_nil a e) (\<lambda>e.
        Inr (at_insert KCodec (VCodec (CodecEncode e)) (at_remove KIsNil a)))
    | CodecDecode d \<Rightarrow> bind_r (take_nil a d) (\<lambda>d.
        Inr (at_insert KCodec (VCodec (CodecDecode d)) (at_remove KNil a)))
    | CodecBoth e d \<Rightarrow> bind_r (take_is_nil a e) (\<lambda>e. bind_r (take_nil a d) (\<lambda>d.
        Inr (at_insert KCodec (VCodec (CodecBoth e d)) (at_remove KNil (at_remove KIsNil a)))))
    | CodecModule p b \<Rightarrow>
        if contains_key a KHasNil \<and> b then Inl duplicate_attribute
        else if contains_key a KCborLen then Inl (Msg ''`with` and `cbor_len` are mutually exclusive'')
        else Inr (at_insert KCodec (VCodec (CodecModule p (b \<or> contains_key a KHasNil))) (at_remove KHasNil a)))"

definition insert_new :: "attr_kind \<Rightarrow> attr_value \<Rightarrow> attributes \<Rightarrow> derive_error + attributes" where
  "insert_new key val a = (case val of
      VIsNil p \<Rightarrow> (case at_codec a of
          Some (CodecEncode e) \<Rightarrow> bind_r (set_is_nil p e) (\<lambda>e. Inr (at_insert KCodec (VCodec (CodecEncode e)) a))
        | Some (CodecBoth e d) \<Rightarrow> bind_r (set_is_nil p e) (\<lambda>e. Inr (at_insert KCodec (VCodec (CodecBoth e d)) a))
        | _ \<Rightarrow> Inr (at_insert key val a))
    | VNil p \<Rightarrow> (case at_codec a of
          Some (CodecDecode d) \<Rightarrow> bind_r (set_nil p d) (\<lambda>d. Inr (at_insert KCodec (VCodec (CodecDecode d)) a))
        | Some (CodecBoth e d) \<Rightarrow> bind_r (set_nil p d) (\<lambda>d. Inr (at_insert KCodec (VCodec (CodecBoth e d)) a))
        | _ \<Rightarrow> Inr (at_insert key val a))
    | VHasNil \<Rightarrow> (case at_codec a of
          Some (CodecModule p b) \<Rightarrow>
            if b then Inl duplicate_attribute else Inr (at_insert KCodec (VCodec (CodecModule p True)) a)
        | _ \<Rightarrow> Inr (at_insert key val a))
    | VCodec c \<Rightarrow> insert_codec c a
    | VCborLen _ \<Rightarrow>
        if (case at_codec a of Some c \<Rightarrow> codec_is_module c | None \<Rightarrow> False)
        then Inl (Msg ''`cbor_len` and `with` are mutually exclusive'') else Inr (at_insert key val a)
    | VBorrow _ \<Rightarrow>
        if (case at_index a of Some i \<Rightarrow> idx_is_b i | None \<Rightarrow> False)
        then Inl (Msg ''`borrow` and `b` are mutually exclusive'') else Inr (at_insert key val a)
    | VIndex i \<Rightarrow>
        if idx_is_b i \<and> contains_key a KBorrow
        then Inl (Msg ''`b` and `borrow` are mutually exclusive'') else Inr (at_insert key val a)
    | _ \<Rightarrow> Inr (at_insert key val a))"

definition try_insert :: "attr_kind \<Rightarrow> attr_value \<Rightarrow> attributes \<Rightarrow> derive_error + attributes" where
  "try_insert key val a =
     (if \<not> supported (at_level a) key
      then Inl (Msg (''attribute is not supported on '' @ level_display (at_level a) @ ''-level''))
      else case at_get a key of Some old \<Rightarrow> insert_again key old val a | None \<Rightarrow> insert_new key val a)"

section \<open>Parsing attributes\<close>

text \<open>
  An attribute is the name of its path with an argument list; the items of a \<open>cbor\<close> attribute are names with
  nothing, a string literal or an integer in parentheses behind them.
\<close>

datatype meta_arg = NoArg | StrArg string | IntArg int

record meta =
  meta_path :: ident
  meta_arg :: meta_arg

record syn_attribute =
  attr_path :: ident
  attr_metas :: "meta list"

text \<open>The parsers of \<open>syn\<close> for the contents of string literals.\<close>

record syn =
  syn_expr_path :: "string \<Rightarrow> path option"
  syn_lifetime :: "string \<Rightarrow> string option"
  syn_type_param :: "string \<Rightarrow> type_param option"
  syn_trait_bound :: "string \<Rightarrow> string option"

definition syn_result :: "'a option \<Rightarrow> derive_error + 'a" where
  "syn_result r = ok_or SynError r"

definition parse_int :: "int \<Rightarrow> derive_error + i64" where
  "parse_int n = (if - (2 ^ 63) \<le> n \<and> n < 2 ^ 63 then Inr (word_of_int n) else Inl (Msg ''expected `i64` value''))"

definition parse_u64 :: "int \<Rightarrow> derive_error + u64" where
  "parse_u64 n = (if 0 \<le> n \<and> n < 2 ^ 64 then Inr (word_of_int n) else Inl SynError)"

definition lit_str :: "meta_arg \<Rightarrow> derive_error + string" where
  "lit_str m = (case m of StrArg s \<Rightarrow> Inr s | _ \<Rightarrow> Inl SynError)"

definition lit_int :: "meta_arg \<Rightarrow> derive_error + int" where
  "lit_int m = (case m of IntArg n \<Rightarrow> Inr n | _ \<Rightarrow> Inl SynError)"

definition no_arg :: "meta_arg \<Rightarrow> 'a \<Rightarrow> derive_error + 'a" where
  "no_arg m x = (case m of NoArg \<Rightarrow> Inr x | _ \<Rightarrow> Inl SynError)"

text \<open>\<open>s.split('+').filter(|b| !b.is_empty())\<close>, each part trimmed and parsed into a set.\<close>

fun split_plus :: "string \<Rightarrow> string \<Rightarrow> string list" where
  "split_plus acc [] = [rev acc]"
| "split_plus acc (c # s) = (if c = CHR ''+'' then rev acc # split_plus [] s else split_plus (c # acc) s)"

definition trim :: "string \<Rightarrow> string" where
  "trim s = (let d = dropWhile (\<lambda>c. c \<in> {CHR '' '', CHR 0x09, CHR 0x0A, CHR 0x0B, CHR 0x0C, CHR 0x0D})
     in rev (d (rev (d s))))"

fun parse_all :: "(string \<Rightarrow> string option) \<Rightarrow> string list \<Rightarrow> derive_error + string set" where
  "parse_all f [] = Inr {}"
| "parse_all f (x # xs) = bind_r (syn_result (f (trim x))) (\<lambda>y. bind_r (parse_all f xs) (\<lambda>ys. Inr (insert y ys)))"

definition parse_sum :: "(string \<Rightarrow> string option) \<Rightarrow> string \<Rightarrow> derive_error + string set" where
  "parse_sum f s = parse_all f (filter (\<lambda>b. b \<noteq> []) (split_plus [] s))"

definition parse_bound :: "syn \<Rightarrow> (param_map \<Rightarrow> type_params) \<Rightarrow> meta_arg \<Rightarrow> derive_error + attr_value" where
  "parse_bound S f m = bind_r (lit_str m) (\<lambda>s. bind_r (syn_result (syn_type_param S s)) (\<lambda>t.
     Inr (VTypeParam (f [(fst t, t)]))))"

definition parse_path :: "syn \<Rightarrow> (path \<Rightarrow> attr_value) \<Rightarrow> meta_arg \<Rightarrow> derive_error + attr_value" where
  "parse_path S f m = bind_r (lit_str m) (\<lambda>s. bind_r (syn_result (syn_expr_path S s)) (\<lambda>p. Inr (f p)))"

text \<open>One item of \<open>#[cbor(...)]\<close>: its kind and its value.\<close>

definition parse_meta :: "syn \<Rightarrow> meta \<Rightarrow> derive_error + attr_kind \<times> attr_value" where
  "parse_meta S i = (let m = meta_arg i; flag = (\<lambda>k v. no_arg m (k, v)); put = (\<lambda>k r. bind_r r (\<lambda>v. Inr (k, v))) in
     if meta_path i = ''index_only'' then flag KIndexOnly VIndexOnly
     else if meta_path i = ''transparent'' then flag KTransparent VTransparent
     else if meta_path i = ''map'' then flag KEncoding (VEncoding EncMap)
     else if meta_path i = ''array'' then flag KEncoding (VEncoding EncArray)
     else if meta_path i = ''has_nil'' then flag KHasNil VHasNil
     else if meta_path i = ''encode_with''
       then put KCodec (parse_path S (\<lambda>p. VCodec (CodecEncode \<lparr>ew_encode = p, ew_is_nil = None\<rparr>)) m)
     else if meta_path i = ''is_nil'' then put KIsNil (parse_path S VIsNil m)
     else if meta_path i = ''decode_with''
       then put KCodec (parse_path S (\<lambda>p. VCodec (CodecDecode \<lparr>dw_decode = p, dw_nil = None\<rparr>)) m)
     else if meta_path i = ''nil'' then put KNil (parse_path S VNil m)
     else if meta_path i = ''with'' then put KCodec (parse_path S (\<lambda>p. VCodec (CodecModule p False)) m)
     else if meta_path i = ''borrow''
       then put KBorrow (case m of NoArg \<Rightarrow> Inr (VBorrow {})
         | _ \<Rightarrow> bind_r (lit_str m) (\<lambda>s. bind_r (parse_sum (syn_lifetime S) s) (\<lambda>l. Inr (VBorrow l))))
     else if meta_path i = ''encode_bound'' then put KTypeParam (parse_bound S ParamsEncode m)
     else if meta_path i = ''decode_bound'' then put KTypeParam (parse_bound S ParamsDecode m)
     else if meta_path i = ''cbor_len_bound'' then put KTypeParam (parse_bound S ParamsLength m)
     else if meta_path i = ''bound'' then put KTypeParam (parse_bound S (\<lambda>x. ParamsAll x x x) m)
     else if meta_path i = ''context_bound''
       then put KContextBound (bind_r (lit_str m) (\<lambda>s. bind_r (parse_sum (syn_trait_bound S) s) (\<lambda>b. Inr (VContextBound b))))
     else if meta_path i = ''cbor_len'' then put KCborLen (parse_path S VCborLen m)
     else if meta_path i = ''n''
       then put KIndex (bind_r (lit_int m) (\<lambda>n. bind_r (parse_int n) (\<lambda>n. Inr (VIndex (IdxN n)))))
     else if meta_path i = ''b''
       then put KIndex (bind_r (lit_int m) (\<lambda>n. bind_r (parse_int n) (\<lambda>n. Inr (VIndex (IdxB n)))))
     else if meta_path i = ''tag'' then put KTag (bind_r (lit_int m) (\<lambda>n. bind_r (parse_u64 n) (\<lambda>n. Inr (VTag n))))
     else if meta_path i = ''skip'' then flag KSkip VSkip
     else if meta_path i = ''flat'' then flag KFlat VFlat
     else if meta_path i = ''default'' then flag KDefault VDefault
     else Inl (Msg ''unsupported attribute''))"

text \<open>Insert one by one, stopping at the first error.\<close>

fun insert_all :: "('a \<Rightarrow> derive_error + attr_kind \<times> attr_value) \<Rightarrow> 'a list \<Rightarrow> attributes \<Rightarrow> derive_error + attributes" where
  "insert_all f [] a = Inr a"
| "insert_all f (x # xs) a = bind_r (f x) (\<lambda>(k, v). bind_r (try_insert k v a) (insert_all f xs))"

definition parse_i64_arg :: "syn_attribute \<Rightarrow> derive_error + i64" where
  "parse_i64_arg t = (case attr_metas t of
      [i] \<Rightarrow> if meta_path i = [] then bind_r (lit_int (meta_arg i)) parse_int else Inl SynError
    | _ \<Rightarrow> Inl SynError)"

definition attributes_try_from :: "syn \<Rightarrow> level \<Rightarrow> syn_attribute \<Rightarrow> derive_error + attributes" where
  "attributes_try_from S l t =
     (if attr_path t = ''n'' then bind_r (parse_i64_arg t) (\<lambda>n. try_insert KIndex (VIndex (IdxN n)) (attributes_new l))
      else if attr_path t = ''b'' then bind_r (parse_i64_arg t) (\<lambda>n. try_insert KIndex (VIndex (IdxB n)) (attributes_new l))
      else if attr_path t \<noteq> ''cbor'' then Inr (attributes_new l)
      else insert_all (parse_meta S) (attr_metas t) (attributes_new l))"

text \<open>
  The attributes of one \<open>#[...]\<close> are a hash map, whose iteration order is unspecified: \<open>order\<close> enumerates the
  kinds of a map in the order the iterator gives them.
\<close>

fun merge_attributes :: "syn \<Rightarrow> (attributes \<Rightarrow> attr_kind list) \<Rightarrow> syn_attribute list \<Rightarrow> attributes \<Rightarrow> derive_error + attributes" where
  "merge_attributes S order [] a = Inr a"
| "merge_attributes S order (t # ts) a = bind_r (attributes_try_from S (at_level a) t) (\<lambda>m.
     bind_r (insert_all (\<lambda>k. Inr (k, the (at_get m k))) (order m) a) (merge_attributes S order ts))"

text \<open>The checks of \<open>try_from_iter\<close> behind the loop.\<close>

definition check_attributes :: "attributes \<Rightarrow> derive_error + attributes" where
  "check_attributes a =
     (if contains_key a KIsNil then Inl (Msg ''`is_nil` requires `encode_with`'')
      else if contains_key a KNil then Inl (Msg ''`nil` requires `decode_with`'')
      else if contains_key a KHasNil then Inl (Msg ''`has_nil` requires `with`'')
      else if contains_key a KTag \<and> contains_key a KIndexOnly
        then Inl (Msg ''`tag` and `index_only` are mutually exclusive'')
      else if contains_key a KTag \<and> contains_key a KTransparent
        then Inl (Msg ''`tag` and `transparent` are mutually exclusive'')
      else if contains_key a KSkip \<and> 1 < at_size a then Inl (Msg ''`skip` does not allow other attributes'')
      else if contains_key a KFlat \<and> at_get a KEncoding = Some (VEncoding EncMap)
        then Inl (Msg ''flat enum does not support map encoding'')
      else Inr a)"

definition try_from_iter ::
  "syn \<Rightarrow> (attributes \<Rightarrow> attr_kind list) \<Rightarrow> level \<Rightarrow> syn_attribute list \<Rightarrow> derive_error + attributes" where
  "try_from_iter S order l ts = bind_r (merge_attributes S order ts (attributes_new l)) check_attributes"

section \<open>Accepted attributes are consistent\<close>

fun kind_of :: "attr_value \<Rightarrow> attr_kind" where
  "kind_of (VBorrow _) = KBorrow"
| "kind_of (VCodec _) = KCodec"
| "kind_of (VEncoding _) = KEncoding"
| "kind_of (VIndex _) = KIndex"
| "kind_of VIndexOnly = KIndexOnly"
| "kind_of VTransparent = KTransparent"
| "kind_of (VTypeParam _) = KTypeParam"
| "kind_of (VNil _) = KNil"
| "kind_of (VIsNil _) = KIsNil"
| "kind_of VHasNil = KHasNil"
| "kind_of (VContextBound _) = KContextBound"
| "kind_of (VCborLen _) = KCborLen"
| "kind_of (VTag _) = KTag"
| "kind_of VSkip = KSkip"
| "kind_of VFlat = KFlat"
| "kind_of VDefault = KDefault"

text \<open>What every insertion keeps.\<close>

definition attrs_inv :: "attributes \<Rightarrow> bool" where
  "attrs_inv a \<longleftrightarrow> (\<forall>k v. at_attrs a k = Some v \<longrightarrow> kind_of v = k \<and> supported (at_level a) k) \<and>
     \<not> ((\<exists>p b. at_attrs a KCodec = Some (VCodec (CodecModule p b))) \<and> contains_key a KCborLen) \<and>
     \<not> ((\<exists>n. at_attrs a KIndex = Some (VIndex (IdxB n))) \<and> contains_key a KBorrow)"

lemma attrs_inv_new [simp]: "attrs_inv (attributes_new l)"
  by (simp add: attrs_inv_def attributes_new_def contains_key_def)

lemma at_update [simp]:
  "at_attrs (at_insert k v a) = (at_attrs a)(k := Some v)" "at_level (at_insert k v a) = at_level a"
  "at_attrs (at_remove k a) = (at_attrs a)(k := None)" "at_level (at_remove k a) = at_level a"
  by (simp_all add: at_insert_def at_remove_def)

lemma at_codec_get: "at_codec a = Some c \<longleftrightarrow> at_attrs a KCodec = Some (VCodec c)"
  by (cases "at_attrs a KCodec") (auto simp: at_codec_def at_get_def split: attr_value.split)

lemma at_index_get: "at_index a = Some i \<longleftrightarrow> at_attrs a KIndex = Some (VIndex i)"
  by (cases "at_attrs a KIndex") (auto simp: at_index_def at_get_def split: attr_value.split)

lemma attrs_inv_remove: "attrs_inv a \<Longrightarrow> attrs_inv (at_remove k a)"
  by (auto simp: attrs_inv_def contains_key_def)

lemma attrs_inv_insert:
  assumes "attrs_inv a" "kind_of v = k" "supported (at_level a) k"
    "\<And>p b. v = VCodec (CodecModule p b) \<Longrightarrow> \<not> contains_key a KCborLen"
    "\<And>p b. k = KCborLen \<Longrightarrow> at_codec a \<noteq> Some (CodecModule p b)"
    "\<And>n. v = VIndex (IdxB n) \<Longrightarrow> \<not> contains_key a KBorrow"
    "\<And>n. k = KBorrow \<Longrightarrow> at_index a \<noteq> Some (IdxB n)"
  shows "attrs_inv (at_insert k v a)"
  using assms unfolding attrs_inv_def at_codec_get at_index_get
  by (auto simp: contains_key_def split: if_splits)

lemma attrs_inv_codec:
  assumes "attrs_inv a" "at_codec a \<noteq> None \<or> supported (at_level a) KCodec" "\<not> codec_is_module c \<or> \<not> contains_key a KCborLen"
  shows "attrs_inv (at_insert KCodec (VCodec c) a)"
proof (rule attrs_inv_insert [OF assms(1)])
  show "supported (at_level a) KCodec"
    using assms(1,2) by (auto simp: attrs_inv_def at_codec_get)
qed (use assms(3) in \<open>auto simp: codec_is_module_def\<close>)

lemma insert_codec_inv:
  assumes "attrs_inv a" "supported (at_level a) KCodec" "insert_codec c a = Inr b"
  shows "attrs_inv b \<and> at_level b = at_level a"
proof -
  have keep: "\<not> contains_key a KCborLen \<Longrightarrow> \<not> contains_key (at_remove k a) KCborLen" for k
    by (auto simp: contains_key_def)
  show ?thesis
  proof (cases c)
    case (CodecModule p d)
    with assms keep show ?thesis
      by (auto simp: insert_codec_def codec_is_module_def split: if_splits
          intro!: attrs_inv_codec attrs_inv_remove)
  qed (use assms in \<open>auto simp: insert_codec_def bind_r_Inr codec_is_module_def
      intro!: attrs_inv_codec attrs_inv_remove\<close>)
qed

lemma insert_again_inv:
  assumes "attrs_inv a" "supported (at_level a) k" "kind_of v = k" "at_attrs a k = Some old" "insert_again k old v a = Inr b"
  shows "attrs_inv b \<and> at_level b = at_level a"
proof -
  have k: "kind_of old = k" using assms(1,4) by (simp add: attrs_inv_def)
  show ?thesis
    using assms k
    by (auto simp: insert_again_def bind_r_Inr codec_is_module_def
        split: attr_value.splits custom_codec.splits intro!: attrs_inv_codec attrs_inv_insert)
qed

lemma insert_new_inv:
  assumes "attrs_inv a" "supported (at_level a) k" "kind_of v = k" "at_attrs a k = None" "insert_new k v a = Inr b"
  shows "attrs_inv b \<and> at_level b = at_level a"
proof (cases v)
  case (VCodec c)
  with assms show ?thesis using insert_codec_inv [of a c b] by (auto simp: insert_new_def)
next
  case VHasNil
  have "\<not> contains_key a KCborLen" if "at_codec a = Some (CodecModule p d)" for p d
    using assms(1) that by (auto simp: attrs_inv_def at_codec_get)
  with VHasNil assms show ?thesis
    by (auto simp: insert_new_def codec_is_module_def split: option.splits custom_codec.splits if_splits
        intro!: attrs_inv_codec attrs_inv_insert)
next
  case (VCborLen p)
  with assms show ?thesis
    by (auto simp: insert_new_def codec_is_module_def split: option.splits if_splits intro!: attrs_inv_insert)
next
  case (VBorrow l)
  with assms show ?thesis
    by (auto simp: insert_new_def idx_is_b_def split: option.splits if_splits intro!: attrs_inv_insert)
next
  case (VIndex i)
  with assms show ?thesis
    by (auto simp: insert_new_def idx_is_b_def split: if_splits intro!: attrs_inv_insert)
qed (use assms in \<open>auto simp: insert_new_def bind_r_Inr codec_is_module_def
    split: option.splits custom_codec.splits intro!: attrs_inv_codec attrs_inv_insert\<close>)

lemma try_insert_inv:
  assumes "attrs_inv a" "kind_of v = k" "try_insert k v a = Inr b"
  shows "attrs_inv b \<and> at_level b = at_level a"
  using assms insert_new_inv [of a k v b] insert_again_inv [of a k v _ b]
  by (auto simp: try_insert_def at_get_def split: if_splits option.splits)

lemma insert_all_inv:
  assumes "\<And>x k v. x \<in> set xs \<Longrightarrow> f x = Inr (k, v) \<Longrightarrow> kind_of v = k"
  shows "attrs_inv a \<Longrightarrow> insert_all f xs a = Inr b \<Longrightarrow> attrs_inv b \<and> at_level b = at_level a"
  using assms
proof (induction xs arbitrary: a)
  case (Cons x xs)
  then obtain k v c where c: "f x = Inr (k, v)" "try_insert k v a = Inr c" "insert_all f xs c = Inr b"
    by (auto simp: bind_r_Inr)
  have "kind_of v = k" using Cons.prems(3) [of x k v] c(1) by simp
  with c Cons.prems(1) have "attrs_inv c \<and> at_level c = at_level a" using try_insert_inv by blast
  with Cons.IH [of c] c(3) Cons.prems(3) show ?case by auto
qed simp

lemma parse_meta_kind: "parse_meta S i = Inr (k, v) \<Longrightarrow> kind_of v = k"
  unfolding parse_meta_def Let_def
  by (auto simp: bind_r_Inr no_arg_def parse_path_def parse_bound_def split: if_splits meta_arg.splits)

lemma attributes_try_from_inv:
  assumes "attributes_try_from S l t = Inr a"
  shows "attrs_inv a \<and> at_level a = l"
proof -
  have l: "at_level (attributes_new l) = l" by (simp add: attributes_new_def)
  have all: "insert_all (parse_meta S) xs (attributes_new l) = Inr a \<Longrightarrow> attrs_inv a \<and> at_level a = l" for xs
    using insert_all_inv [OF parse_meta_kind attrs_inv_new] l by fastforce
  have one: "try_insert KIndex (VIndex i) (attributes_new l) = Inr a \<Longrightarrow> attrs_inv a \<and> at_level a = l" for i
    using try_insert_inv [of "attributes_new l" "VIndex i" KIndex a] l by simp
  have none: "a = attributes_new l \<Longrightarrow> attrs_inv a \<and> at_level a = l" by (simp add: l)
  show ?thesis
    using assms all one none unfolding attributes_try_from_def by (auto simp only: bind_r_Inr sum.inject split: if_splits)
qed

text \<open>\<open>order\<close> is an iteration order of hash maps: each key of a map exactly once.\<close>

definition iteration_order :: "(attributes \<Rightarrow> attr_kind list) \<Rightarrow> bool" where
  "iteration_order order \<longleftrightarrow> (\<forall>a. distinct (order a) \<and> set (order a) = {k. contains_key a k})"

lemma merge_attributes_inv:
  assumes "iteration_order order"
  shows "attrs_inv a \<Longrightarrow> merge_attributes S order ts a = Inr b \<Longrightarrow> attrs_inv b \<and> at_level b = at_level a"
proof (induction ts arbitrary: a)
  case (Cons t ts)
  then obtain m c where m: "attributes_try_from S (at_level a) t = Inr m"
    and c: "insert_all (\<lambda>k. Inr (k, the (at_get m k))) (order m) a = Inr c" "merge_attributes S order ts c = Inr b"
    by (auto simp: bind_r_Inr)
  have "kind_of (the (at_get m k)) = k" if "k \<in> set (order m)" for k
    using attributes_try_from_inv [OF m] that assms
    by (auto simp: attrs_inv_def iteration_order_def contains_key_def at_get_def)
  with insert_all_inv [of "order m" "\<lambda>k. Inr (k, the (at_get m k))" a c] c(1) Cons.prems(1)
  have "attrs_inv c \<and> at_level c = at_level a" by auto
  with Cons.IH [of c] c(2) show ?case by simp
qed simp

definition hash_order :: "attributes \<Rightarrow> attr_kind list" where
  "hash_order a = filter (contains_key a) all_kinds"

lemma all_kinds: "k \<in> set all_kinds" "distinct all_kinds"
  by (cases k; simp add: all_kinds_def) (simp add: all_kinds_def)

lemma hash_order: "iteration_order hash_order"
  using all_kinds by (auto simp: iteration_order_def hash_order_def)

lemma at_size_two:
  assumes "contains_key a k" "contains_key a j" "k \<noteq> j" shows "1 < at_size a"
proof -
  let ?ks = "filter (contains_key a) all_kinds"
  have "{k, j} \<subseteq> set ?ks" using assms all_kinds(1) by auto
  then have "card {k, j} \<le> card (set ?ks)" by (intro card_mono) auto
  also have "\<dots> = length ?ks" by (intro distinct_card distinct_filter all_kinds(2))
  finally show ?thesis using assms(3) by (simp add: at_size_def)
qed

text \<open>C28: Whatever attributes are written, if the macros accept them then every attribute is one the item supports
  and has a value of its own kind; \<open>is_nil\<close>, \<open>nil\<close> and \<open>has_nil\<close> have been joined with a custom codec; a skipped
  field has no other attribute of any kind; and none of the combinations the macros call mutually exclusive is left:
  \<open>with\<close> and \<open>cbor_len\<close>, \<open>borrow\<close> and \<open>b\<close>, \<open>tag\<close> with \<open>index_only\<close> or \<open>transparent\<close>, \<open>flat\<close> with \<open>map\<close>. This holds in
  whatever order the attributes are given and the hash maps are iterated.
\<close>

theorem accepted_attributes_consistent:
  assumes "iteration_order order" "try_from_iter S order l ts = Inr a"
  shows "at_level a = l \<and> (\<forall>k v. at_attrs a k = Some v \<longrightarrow> kind_of v = k \<and> supported l k) \<and>
    (\<forall>k\<in>{KIsNil, KNil, KHasNil}. \<not> contains_key a k) \<and>
    (at_skip a \<longrightarrow> (\<forall>k. contains_key a k \<longrightarrow> k = KSkip)) \<and>
    \<not> ((\<exists>c. at_codec a = Some c \<and> codec_is_module c) \<and> at_cbor_len a \<noteq> None) \<and>
    \<not> ((\<exists>i. at_index a = Some i \<and> idx_is_b i) \<and> at_borrow a \<noteq> None) \<and>
    \<not> (at_tag a \<noteq> None \<and> (at_index_only a \<or> at_transparent a)) \<and>
    \<not> (at_flat a \<and> at_encoding a = Some EncMap)"
proof -
  from assms(2) obtain b where b: "merge_attributes S order ts (attributes_new l) = Inr b" "check_attributes b = Inr a"
    by (auto simp: try_from_iter_def bind_r_Inr)
  then have ab: "a = b" by (auto simp: check_attributes_def split: if_splits)
  have l: "at_level (attributes_new l) = l" by (simp add: attributes_new_def)
  from merge_attributes_inv [OF assms(1) attrs_inv_new b(1)] have inv: "attrs_inv a" "at_level a = l"
    by (auto simp: ab l)
  have one: "contains_key a KSkip \<Longrightarrow> k \<noteq> KSkip \<Longrightarrow> \<not> contains_key a k" for k
    using b(2) at_size_two [of a KSkip k] unfolding ab by (auto simp: check_attributes_def split: if_splits)
  have keys: "at_tag a \<noteq> None \<Longrightarrow> contains_key a KTag" "at_cbor_len a \<noteq> None \<Longrightarrow> contains_key a KCborLen"
    "at_borrow a \<noteq> None \<Longrightarrow> contains_key a KBorrow"
    by (auto simp: contains_key_def at_tag_def at_cbor_len_def at_borrow_def at_get_def
        split: Option.bind_splits)
  have enc: "at_encoding a = Some EncMap \<Longrightarrow> at_get a KEncoding = Some (VEncoding EncMap)"
    by (cases "at_get a KEncoding") (auto simp: at_encoding_def split: attr_value.splits)
  show ?thesis
  proof (intro conjI)
    show "at_skip a \<longrightarrow> (\<forall>k. contains_key a k \<longrightarrow> k = KSkip)"
      using one unfolding at_skip_def by blast
    show "\<not> ((\<exists>c. at_codec a = Some c \<and> codec_is_module c) \<and> at_cbor_len a \<noteq> None)"
      using inv(1) keys(2) by (auto simp: attrs_inv_def at_codec_get codec_is_module_def split: custom_codec.splits)
    show "\<not> ((\<exists>i. at_index a = Some i \<and> idx_is_b i) \<and> at_borrow a \<noteq> None)"
      using inv(1) keys(3) by (auto simp: attrs_inv_def at_index_get idx_is_b_def split: idx.splits)
  qed (use inv b(2) keys enc in \<open>auto simp: attrs_inv_def check_attributes_def at_index_only_def
    at_transparent_def at_flat_def ab split: if_splits\<close>)
qed

definition plain_syn :: syn where
  "plain_syn = \<lparr>syn_expr_path = (\<lambda>s. Some [s]), syn_lifetime = Some, syn_type_param = (\<lambda>s. Some (s, [])),
     syn_trait_bound = Some\<rparr>"

definition str_attribute :: "ident \<Rightarrow> string \<Rightarrow> syn_attribute" where
  "str_attribute n s = \<lparr>attr_path = ''cbor'', attr_metas = [\<lparr>meta_path = n, meta_arg = StrArg s\<rparr>]\<rparr>"

text \<open>
  The attributes \<open>decode_with\<close>, \<open>encode_with\<close> and \<open>is_nil\<close> are accepted in this order. With \<open>is_nil\<close> first they are refused
  with the claim that \<open>encode_with\<close> is missing: an \<open>encode_with\<close> that joins a \<open>decode_with\<close> leaves a pending \<open>is_nil\<close> behind.
\<close>

lemma codec_attributes_order:
  "(case try_from_iter plain_syn hash_order LField
       [str_attribute ''is_nil'' ''f'', str_attribute ''decode_with'' ''d'', str_attribute ''encode_with'' ''e'']
      of Inl e \<Rightarrow> e = Msg ''`is_nil` requires `encode_with`'' | Inr _ \<Rightarrow> False)"
  "(case try_from_iter plain_syn hash_order LField
       [str_attribute ''decode_with'' ''d'', str_attribute ''encode_with'' ''e'', str_attribute ''is_nil'' ''f'']
      of Inl _ \<Rightarrow> False | Inr a \<Rightarrow>
        at_codec a = Some (CodecBoth \<lparr>ew_encode = [''e''], ew_is_nil = Some [''f'']\<rparr> \<lparr>dw_decode = [''d''], dw_nil = None\<rparr>))"
  by code_simp+

lemma accepted_attributes_consistent_witness:
  "\<exists>a. try_from_iter plain_syn hash_order LField
     [str_attribute ''is_nil'' ''f'', str_attribute ''encode_with'' ''e''] = Inr a \<and>
     \<not> contains_key a KIsNil \<and> \<not> at_skip a"
proof -
  let ?t = "[str_attribute ''is_nil'' ''f'', str_attribute ''encode_with'' ''e'']"
  have "(case try_from_iter plain_syn hash_order LField ?t of Inr a \<Rightarrow> contains_key a KCodec | Inl _ \<Rightarrow> False) = True" by code_simp
  then obtain a where a: "try_from_iter plain_syn hash_order LField ?t = Inr a" "contains_key a KCodec"
    by (auto split: sum.splits)
  from accepted_attributes_consistent [OF hash_order a(1)] a(2) have "\<not> contains_key a KIsNil \<and> \<not> at_skip a" by blast
  with a show ?thesis by blast
qed

end
