(* ===== verification/Derive_Fields.thy ===== *)
theory Derive_Fields
  imports Derive_Attrs
begin

text \<open>
  The fields and variants of a derived type (\<open>minicbor-derive/src/fields.rs\<close>, \<open>variants.rs\<close>) and the test of
  \<open>lib.rs\<close> for optional types. Fields are sorted by their index numbers in bytewise lexicographic order.
\<close>

section \<open>Types of fields\<close>

text \<open>
  The part of \<open>syn::Type\<close> the macros look into. A path has the type of its \<open>qself\<close> and whether it begins with a colon;
  function pointers, trait objects, macros and the like are \<open>TyOther\<close>, with the types inside of them, and so are
  constants and constraints among the arguments of a path. Macros and lengths of arrays mention no type parameters.
\<close>

datatype ty =
    TyPath "ty option" bool "(ident \<times> path_args) list"
  | TySlice ty | TyArray ty | TyParen ty | TyGroup ty | TyPtr ty
  | TyRef "string option" ty
  | TyTuple "ty list"
  | TyOther string "ty list"
  and path_args = PathPlain | PathAngle "generic_arg list" | PathParen "ty list"
  and generic_arg = GenType ty | GenLifetime string | GenAssoc "ty list" ty | GenOther "ty list"

definition is_option :: "ty \<Rightarrow> bool" where
  "is_option t = (case t of
      TyPath _ _ ss \<Rightarrow> (case rev ss of
          (s, PathAngle [GenType _]) # _ \<Rightarrow> s = ''Option''
        | _ \<Rightarrow> False)
    | _ \<Rightarrow> False)"

section \<open>Fields\<close>

datatype fields_kind = FieldsNamed | FieldsUnnamed | FieldsUnit

record syn_field =
  sf_ident :: "ident option"
  sf_ty :: ty
  sf_attrs :: "syn_attribute list"

record field =
  f_pos :: usize
  f_ident :: ident
  f_is_name :: bool
  f_index :: idx
  f_typ :: ty
  f_attrs :: attributes

record fields =
  fl_fields :: "field list"
  fl_skipped :: "field list"

definition i64_max :: i64 where
  "i64_max = 0x7fffffffffffffff"

definition missing_index :: derive_error where
  "missing_index = Msg ''missing `#[n(...)]` or `#[b(...)]` attribute''"

text \<open>The index of a field.\<close>

definition index_of :: "bool \<Rightarrow> attributes \<Rightarrow> derive_error + idx" where
  "index_of transparent attrs =
     (if at_skip attrs then Inr (IdxN i64_max)
      else case at_index attrs of
          Some i \<Rightarrow> Inr i
        | None \<Rightarrow> if transparent then Inr (IdxN i64_max) else Inl missing_index)"

text \<open>One round of the loop.\<close>

definition field_from ::
  "syn \<Rightarrow> (attributes \<Rightarrow> attr_kind list) \<Rightarrow> encoding \<Rightarrow> bool \<Rightarrow> usize \<Rightarrow> syn_field \<Rightarrow> derive_error + field" where
  "field_from S order encd transparent pos f =
     bind_r (try_from_iter S order LField (sf_attrs f)) (\<lambda>attrs.
     bind_r (index_of transparent attrs) (\<lambda>index.
       if sint (idx_val index) < 0 \<and> is_array_encoding encd
       then Inl (Msg ''array encoding does not support fields with negative indices'')
       else Inr \<lparr>f_pos = pos,
         f_ident = (case sf_ident f of Some n \<Rightarrow> n | None \<Rightarrow> CHR ''_'' # nat_str pos),
         f_is_name = (sf_ident f \<noteq> None), f_index = index, f_typ = sf_ty f, f_attrs = attrs\<rparr>))"

fun fields_from ::
  "syn \<Rightarrow> (attributes \<Rightarrow> attr_kind list) \<Rightarrow> encoding \<Rightarrow> bool \<Rightarrow> usize \<Rightarrow> syn_field list \<Rightarrow> derive_error + field list" where
  "fields_from S order encd transparent pos [] = Inr []"
| "fields_from S order encd transparent pos (f # fs) =
     bind_r (field_from S order encd transparent pos f) (\<lambda>x.
     bind_r (fields_from S order encd transparent (Suc pos) fs) (\<lambda>xs. Inr (x # xs)))"

definition parent_encoding :: "attributes list \<Rightarrow> encoding" where
  "parent_encoding parents = (case List.map_filter at_encoding parents of e # _ \<Rightarrow> e | [] \<Rightarrow> default_encoding)"

definition fields_try_from ::
  "syn \<Rightarrow> (attributes \<Rightarrow> attr_kind list) \<Rightarrow> attributes list \<Rightarrow> syn_field list \<Rightarrow> derive_error + fields" where
  "fields_try_from S order parents fs =
     bind_r (fields_from S order (parent_encoding parents) (parents \<noteq> [] \<and> at_transparent (last parents)) 0 fs) (\<lambda>xs.
       let fields = sort_key (\<lambda>f. bytewise_lexicographic (f_index f)) (filter (\<lambda>f. \<not> at_skip (f_attrs f)) xs);
           skipped = filter (\<lambda>f. at_skip (f_attrs f)) xs
       in bind_r (check_uniq (map f_index fields)) (\<lambda>_. Inr \<lparr>fl_fields = fields, fl_skipped = skipped\<rparr>))"

section \<open>Variants\<close>

record syn_variant =
  sv_ident :: ident
  sv_attrs :: "syn_attribute list"
  sv_kind :: fields_kind
  sv_fields :: "syn_field list"

definition variant_from ::
  "syn \<Rightarrow> (attributes \<Rightarrow> attr_kind list) \<Rightarrow> attributes \<Rightarrow> syn_variant \<Rightarrow> derive_error + idx \<times> attributes" where
  "variant_from S order parent v =
     bind_r (try_from_iter S order LVariant (sv_attrs v)) (\<lambda>attr.
     bind_r (ok_or missing_index (at_index attr)) (\<lambda>i.
       if at_flat parent \<and> at_tag attr \<noteq> None
       then Inl (Msg ''flat enum does not support tags on constructors'')
       else if at_flat parent \<and> is_map_encoding (case at_encoding attr of Some e \<Rightarrow> e
           | None \<Rightarrow> (case at_encoding parent of Some e \<Rightarrow> e | None \<Rightarrow> default_encoding))
       then Inl (Msg ''flat enum does not support map encoding'')
       else Inr (i, attr)))"

fun map_r :: "('a \<Rightarrow> 'e + 'b) \<Rightarrow> 'a list \<Rightarrow> 'e + 'b list" where
  "map_r f [] = Inr []"
| "map_r f (x # xs) = bind_r (f x) (\<lambda>y. bind_r (map_r f xs) (\<lambda>ys. Inr (y # ys)))"

definition variants_try_from ::
  "syn \<Rightarrow> (attributes \<Rightarrow> attr_kind list) \<Rightarrow> attributes \<Rightarrow> syn_variant list \<Rightarrow> derive_error + (idx \<times> attributes) list" where
  "variants_try_from S order parent vs =
     bind_r (map_r (variant_from S order parent) vs) (\<lambda>xs.
     bind_r (check_uniq (map fst xs)) (\<lambda>_. Inr xs))"

section \<open>Accepted fields\<close>

text \<open>Field indices as numbers.\<close>

definition field_key :: "field \<Rightarrow> int" where
  "field_key f = sint (idx_val (f_index f))"

definition key_less :: "int \<Rightarrow> int \<Rightarrow> bool" where
  "key_less a b \<longleftrightarrow> (if a < 0 then b < 0 \<and> b < a else b < 0 \<or> a < b)"

text \<open>
  \<open>fields_ok e F\<close>: the fields are sorted by index, without duplicates, and not negative in an array.
\<close>

definition fields_ok :: "encoding \<Rightarrow> field list \<Rightarrow> bool" where
  "fields_ok e fs \<longleftrightarrow> sorted_wrt key_less (map field_key fs) \<and> (e = EncArray \<longrightarrow> (\<forall>f\<in>set fs. 0 \<le> field_key f))"

lemma bytewise_less:
  "bytewise_lexicographic i < bytewise_lexicographic j \<longleftrightarrow> key_less (sint (idx_val i)) (sint (idx_val j))"
  by (auto simp: bytewise_lexicographic_def unsigned_abs_def key_less_def less_prod_def)

lemma bytewise_eq:
  "bytewise_lexicographic i = bytewise_lexicographic j \<longleftrightarrow> idx_val i = idx_val j"
proof
  assume "bytewise_lexicographic i = bytewise_lexicographic j"
  then have "sint (idx_val i) = sint (idx_val j)" by (auto simp: bytewise_lexicographic_def unsigned_abs_def)
  then show "idx_val i = idx_val j" by (rule signed_word_eqI)
qed (simp add: bytewise_lexicographic_def)

lemma check_uniq_distinct: "check_uniq is = Inr u \<longleftrightarrow> distinct (map idx_val is)"
proof -
  have "card (set (map idx_val is)) = length (map idx_val is) \<longleftrightarrow> distinct (map idx_val is)"
    using card_distinct distinct_card by blast
  then show ?thesis by (auto simp: check_uniq_def)
qed

lemma sorted_unique_fields:
  assumes "distinct (map (\<lambda>f. idx_val (f_index f)) fs)"
  shows "sorted_wrt key_less (map field_key (sort_key (\<lambda>f. bytewise_lexicographic (f_index f)) fs))"
proof -
  let ?k = "\<lambda>f. bytewise_lexicographic (f_index f)"
  let ?s = "sort_key ?k fs"
  have m: "mset (map (\<lambda>f. idx_val (f_index f)) ?s) = mset (map (\<lambda>f. idx_val (f_index f)) fs)"
    by (metis mset_map mset_sort)
  have d: "distinct (map (\<lambda>f. idx_val (f_index f)) ?s)"
    using assms mset_eq_imp_distinct_iff [OF m] by simp
  then have "distinct (map ?k ?s)"
    by (auto simp: distinct_map inj_on_def bytewise_eq)
  then have "sorted_wrt (<) (map ?k ?s)" by (simp add: strict_sorted_iff)
  then show ?thesis by (simp add: sorted_wrt_map bytewise_less field_key_def)
qed

lemma fields_from_Inr:
  "fields_from S order e t p fs = Inr xs \<Longrightarrow>
     map f_pos xs = [p..<p + length fs] \<and> map f_typ xs = map sf_ty fs \<and>
     list_all (\<lambda>x. e = EncArray \<longrightarrow> 0 \<le> field_key x) xs"
proof (induction fs arbitrary: p xs)
  case (Cons f fs)
  from Cons.prems obtain x ys where x: "field_from S order e t p f = Inr x"
    and ys: "fields_from S order e t (Suc p) fs = Inr ys" "xs = x # ys"
    by (auto simp: bind_r_Inr)
  from x have "f_pos x = p" "f_typ x = sf_ty f" "e = EncArray \<longrightarrow> 0 \<le> field_key x"
    by (auto simp: field_from_def bind_r_Inr field_key_def is_array_encoding_def split: if_splits)
  with Cons.IH [OF ys(1)] ys(2) show ?case by (simp add: upt_conv_Cons del: upt_Suc)
qed simp

lemma accepted_fields:
  assumes "fields_try_from S order parents fs = Inr F"
  shows "fields_ok (parent_encoding parents) (fl_fields F)"
    "mset (map f_pos (fl_fields F @ fl_skipped F)) = mset [0..<length fs]"
    "\<forall>f\<in>set (fl_fields F). \<not> at_skip (f_attrs f)"
proof -
  let ?e = "parent_encoding parents"
  let ?P = "\<lambda>f. at_skip (f_attrs f)"
  from assms obtain xs where xs: "fields_from S order ?e (parents \<noteq> [] \<and> at_transparent (last parents)) 0 fs = Inr xs"
    and F: "fl_fields F = sort_key (\<lambda>f. bytewise_lexicographic (f_index f)) (filter (\<lambda>f. \<not> ?P f) xs)"
    "fl_skipped F = filter ?P xs"
    and u: "distinct (map (\<lambda>f. idx_val (f_index f)) (fl_fields F))"
    by (auto simp: fields_try_from_def bind_r_Inr Let_def check_uniq_distinct comp_def)
  note p = fields_from_Inr [OF xs]
  have "mset (map (\<lambda>f. idx_val (f_index f)) (filter (\<lambda>f. \<not> ?P f) xs)) = mset (map (\<lambda>f. idx_val (f_index f)) (fl_fields F))"
    by (simp add: F(1))
  from mset_eq_imp_distinct_iff [OF this] u
  have "sorted_wrt key_less (map field_key (fl_fields F))" unfolding F(1) by (intro sorted_unique_fields) simp
  moreover have "?e = EncArray \<Longrightarrow> f \<in> set (fl_fields F) \<Longrightarrow> 0 \<le> field_key f" for f
    using p F(1) by (auto simp: list_all_iff)
  ultimately show "fields_ok ?e (fl_fields F)" by (auto simp: fields_ok_def)
  have "mset (fl_fields F @ fl_skipped F) = mset xs" by (simp add: F multiset_partition [symmetric] add.commute)
  then have "image_mset f_pos (mset (fl_fields F @ fl_skipped F)) = image_mset f_pos (mset xs)" by simp
  then show "mset (map f_pos (fl_fields F @ fl_skipped F)) = mset [0..<length fs]"
    using p by (metis mset_map add_0)
  show "\<forall>f\<in>set (fl_fields F). \<not> ?P f" by (simp add: F(1))
qed

end
