(* ===== verification/Derive_Code.thy ===== *)
theory Derive_Code
  imports Derive_Fields
begin

text \<open>
  The code the derive macros generate (\<open>minicbor-derive/src/encode.rs\<close>, \<open>decode.rs\<close>, \<open>cbor_len.rs\<close>), as what it
  does when it runs. The names in the generated code stand for trait implementations of the types of
  the fields and for functions named by attributes: the record \<open>impls\<close>, a parameter. The value of a
  structure is the list of its fields in declaration order, the value of an enumeration the number of
  its variant with the fields of that variant.
\<close>

record ('v, 'w, 'e) impls =
  im_encode :: "ty \<Rightarrow> 'v \<Rightarrow> ('w, 'e) enc"
  im_is_nil :: "ty \<Rightarrow> 'v \<Rightarrow> bool"
  im_decode :: "ty \<Rightarrow> 'v dec"
  im_nil :: "ty \<Rightarrow> 'v option"
  im_cbor_len :: "ty \<Rightarrow> 'v \<Rightarrow> usize"
  im_default :: "ty \<Rightarrow> 'v"
  fn_encode :: "path \<Rightarrow> 'v \<Rightarrow> ('w, 'e) enc"
  fn_is_nil :: "path \<Rightarrow> 'v \<Rightarrow> bool"
  fn_decode :: "path \<Rightarrow> 'v dec"
  fn_nil :: "path \<Rightarrow> 'v option"
  fn_cbor_len :: "path \<Rightarrow> 'v \<Rightarrow> usize"
  opt_none :: 'v
  opt_is_none :: "'v \<Rightarrow> bool"

record syn_struct =
  ss_ident :: ident
  ss_attrs :: "syn_attribute list"
  ss_kind :: fields_kind
  ss_fields :: "syn_field list"

record syn_enum =
  se_ident :: ident
  se_attrs :: "syn_attribute list"
  se_variants :: "syn_variant list"

definition encoding_or :: "encoding \<Rightarrow> attributes \<Rightarrow> encoding" where
  "encoding_or e a = (case at_encoding a of Some x \<Rightarrow> x | None \<Rightarrow> e)"

section \<open>Encoding\<close>

definition gen_is_nil :: "('v, 'w, 'e) impls \<Rightarrow> field \<Rightarrow> 'v \<Rightarrow> bool" where
  "gen_is_nil R f = (case at_codec (f_attrs f) of
      Some c \<Rightarrow> (case to_is_nil_path c of
          Some p \<Rightarrow> fn_is_nil R p
        | None \<Rightarrow> if is_option (f_typ f) then opt_is_none R else (\<lambda>_. False))
    | None \<Rightarrow> im_is_nil R (f_typ f))"

definition gen_encode_fn :: "('v, 'w, 'e) impls \<Rightarrow> field \<Rightarrow> 'v \<Rightarrow> ('w, 'e) enc" where
  "gen_encode_fn R f = (case Option.bind (at_codec (f_attrs f)) to_encode_path of
      Some p \<Rightarrow> fn_encode R p | None \<Rightarrow> im_encode R (f_typ f))"

definition gen_encode_tag :: "('w, 'e) write_all \<Rightarrow> attributes \<Rightarrow> ('w, 'e) enc" where
  "gen_encode_tag wr a = (case at_tag a of Some t \<Rightarrow> enc_tag wr (tag_new t) | None \<Rightarrow> ret_m ())"

text \<open>\<open>self.field\<close>, and the variable bound to the field of a variant.\<close>

definition value_of :: "'v list \<Rightarrow> field \<Rightarrow> 'v" where
  "value_of vs f = vs ! f_pos f"

text \<open>The tests: the highest index of a value that is not nil, and the number of such values.\<close>

definition max_index :: "('v, 'w, 'e) impls \<Rightarrow> field list \<Rightarrow> 'v list \<Rightarrow> u64 option" where
  "max_index R fs vs =
     foldl (\<lambda>m f. if \<not> gen_is_nil R f (value_of vs f) then Some (idx_val (f_index f)) else m) None fs"

definition max_fields :: "('v, 'w, 'e) impls \<Rightarrow> field list \<Rightarrow> 'v list \<Rightarrow> u32" where
  "max_fields R fs vs =
     foldl (\<lambda>n f. if gen_is_nil R f (value_of vs f) then n - 1 else n) (of_nat (length fs)) fs"

fun gen_nulls :: "('w, 'e) write_all \<Rightarrow> nat \<Rightarrow> ('w, 'e) enc" where
  "gen_nulls wr 0 = ret_m ()"
| "gen_nulls wr (Suc n) = seq_m (enc_null wr) (gen_nulls wr n)"

text \<open>The statements of the array encoding, with the counters the macro runs along the fields.\<close>

fun gen_array_statements ::
  "('v, 'w, 'e) impls \<Rightarrow> ('w, 'e) write_all \<Rightarrow> u64 \<Rightarrow> bool \<Rightarrow> int \<Rightarrow> field list \<Rightarrow> 'v list \<Rightarrow> ('w, 'e) enc" where
  "gen_array_statements R wr i first k [] vs = ret_m ()"
| "gen_array_statements R wr i first k (f # fs) vs =
     (let n = sint (idx_val (f_index f)); gaps = (if first then n - k else n - k - 1) in
      seq_m
        (if idx_val (f_index f) \<le> i
         then seq_m (gen_nulls wr (nat gaps))
           (seq_m (gen_encode_tag wr (f_attrs f)) (gen_encode_fn R f (value_of vs f)))
         else ret_m ())
        (gen_array_statements R wr i False n fs vs))"

fun gen_map_statements ::
  "('v, 'w, 'e) impls \<Rightarrow> ('w, 'e) write_all \<Rightarrow> field list \<Rightarrow> 'v list \<Rightarrow> ('w, 'e) enc" where
  "gen_map_statements R wr [] vs = ret_m ()"
| "gen_map_statements R wr (f # fs) vs =
     seq_m
       (if \<not> gen_is_nil R f (value_of vs f)
        then seq_m (enc_i64 wr (idx_val (f_index f)))
          (seq_m (gen_encode_tag wr (f_attrs f)) (gen_encode_fn R f (value_of vs f)))
        else ret_m ())
       (gen_map_statements R wr fs vs)"

definition gen_encode_fields ::
  "('v, 'w, 'e) impls \<Rightarrow> ('w, 'e) write_all \<Rightarrow> encoding \<Rightarrow> bool \<Rightarrow> field list \<Rightarrow> 'v list \<Rightarrow> ('w, 'e) enc" where
  "gen_encode_fields R wr e flat fs vs = (case e of
      EncArray \<Rightarrow> (case max_index R fs vs of
          Some i \<Rightarrow>
            if flat then gen_array_statements R wr i True 0 fs vs
            else seq_m (enc_array wr (i + 1)) (gen_array_statements R wr i True 0 fs vs)
        | None \<Rightarrow> if flat then ret_m () else enc_array wr 0)
    | EncMap \<Rightarrow> seq_m (enc_map wr (ucast (max_fields R fs vs))) (gen_map_statements R wr fs vs))"

definition check_max_fields :: "field list \<Rightarrow> derive_error + unit" where
  "check_max_fields fs = (if length fs < 2 ^ 32 then Inr () else Inl (Msg ''more than 2^32 fields are not supported''))"

definition transparent_check :: "fields \<Rightarrow> derive_error + field" where
  "transparent_check F = (case fl_fields F of
      [f] \<Rightarrow> Inr f | _ \<Rightarrow> Inl (Msg ''#[cbor(transparent)] requires a struct with one field''))"

definition encode_on_struct ::
  "syn \<Rightarrow> (attributes \<Rightarrow> attr_kind list) \<Rightarrow> ('v, 'w, 'e) impls \<Rightarrow> ('w, 'e) write_all \<Rightarrow> syn_struct \<Rightarrow>
     derive_error + ('v list \<Rightarrow> ('w, 'e) enc)" where
  "encode_on_struct S order R wr s =
     bind_r (try_from_iter S order LStruct (ss_attrs s)) (\<lambda>attrs.
     bind_r (fields_try_from S order [attrs] (ss_fields s)) (\<lambda>F.
       if at_transparent attrs
       then bind_r (transparent_check F) (\<lambda>f. Inr (\<lambda>vs. gen_encode_fn R f (value_of vs f)))
       else bind_r (check_max_fields (fl_fields F)) (\<lambda>_. Inr (\<lambda>vs.
         seq_m (gen_encode_tag wr attrs)
           (gen_encode_fields R wr (encoding_or default_encoding attrs) False (fl_fields F) vs)))))"

text \<open>\<open>is_nil\<close> of the derived implementation: the default unless the type is transparent.\<close>

definition is_nil_on_struct ::
  "syn \<Rightarrow> (attributes \<Rightarrow> attr_kind list) \<Rightarrow> ('v, 'w, 'e) impls \<Rightarrow> syn_struct \<Rightarrow> derive_error + ('v list \<Rightarrow> bool)" where
  "is_nil_on_struct S order R s =
     bind_r (try_from_iter S order LStruct (ss_attrs s)) (\<lambda>attrs.
     bind_r (fields_try_from S order [attrs] (ss_fields s)) (\<lambda>F.
       if at_transparent attrs
       then bind_r (transparent_check F) (\<lambda>f. Inr (\<lambda>vs. case at_codec (f_attrs f) of
           Some c \<Rightarrow>
             if codec_is_encode c
             then (case to_is_nil_path c of Some p \<Rightarrow> fn_is_nil R p (value_of vs f) | None \<Rightarrow> False)
             else im_is_nil R (f_typ f) (value_of vs f)
         | None \<Rightarrow> im_is_nil R (f_typ f) (value_of vs f)))
       else Inr (\<lambda>_. False)))"

text \<open>One arm of the \<open>match\<close> over the variants of an enumeration.\<close>

definition encode_row ::
  "('v, 'w, 'e) impls \<Rightarrow> ('w, 'e) write_all \<Rightarrow> attributes \<Rightarrow> fields_kind \<Rightarrow> idx \<Rightarrow> attributes \<Rightarrow> field list \<Rightarrow>
     'v list \<Rightarrow> ('w, 'e) enc" where
  "encode_row R wr enum_attrs kind i attrs fs vs =
     (let e = encoding_or (encoding_or default_encoding enum_attrs) attrs;
          put_index = enc_i64 wr (idx_val i); put_tag = gen_encode_tag wr attrs in
      if kind = FieldsUnit then
        (if at_index_only enum_attrs then put_index
         else if e = EncArray \<and> at_flat enum_attrs then seq_m (enc_array wr 1) put_index
         else seq_m (enc_array wr 2) (seq_m put_index (seq_m put_tag
           (case e of EncArray \<Rightarrow> enc_array wr 0 | EncMap \<Rightarrow> enc_map wr 0))))
      else if at_flat enum_attrs then
        seq_m (case max_index R fs vs of Some m \<Rightarrow> enc_array wr (m + 2) | None \<Rightarrow> enc_array wr 1)
          (seq_m put_index (gen_encode_fields R wr e True fs vs))
      else seq_m (enc_array wr 2) (seq_m put_index (seq_m put_tag (gen_encode_fields R wr e False fs vs))))"

text \<open>
  The variants with their indices, attributes and fields. \<open>check\<close> is what a macro requires of the fields of a
  variant; encoding and length refuse fields in an \<open>index_only\<close> enumeration.
\<close>

definition variant_fields ::
  "syn \<Rightarrow> (attributes \<Rightarrow> attr_kind list) \<Rightarrow> attributes \<Rightarrow> (fields_kind \<Rightarrow> field list \<Rightarrow> derive_error + unit) \<Rightarrow>
     syn_variant \<times> idx \<times> attributes \<Rightarrow> derive_error + (syn_variant \<times> idx \<times> attributes \<times> fields)" where
  "variant_fields S order enum_attrs check v = (case v of (sv, i, attrs) \<Rightarrow>
     bind_r (fields_try_from S order [attrs, enum_attrs] (sv_fields sv)) (\<lambda>F.
     bind_r (check (sv_kind sv) (fl_fields F)) (\<lambda>_. Inr (sv, i, attrs, F))))"

definition index_only_check :: "attributes \<Rightarrow> fields_kind \<Rightarrow> derive_error + unit" where
  "index_only_check enum_attrs kind =
     (if at_index_only enum_attrs \<and> kind \<noteq> FieldsUnit
      then Inl (Msg ''index_only enums must not have fields'') else Inr ())"

definition enum_rows ::
  "syn \<Rightarrow> (attributes \<Rightarrow> attr_kind list) \<Rightarrow> (attributes \<Rightarrow> fields_kind \<Rightarrow> field list \<Rightarrow> derive_error + unit) \<Rightarrow> syn_enum \<Rightarrow>
     derive_error + attributes \<times> (syn_variant \<times> idx \<times> attributes \<times> fields) list" where
  "enum_rows S order check s =
     bind_r (try_from_iter S order LEnum (se_attrs s)) (\<lambda>attrs.
     bind_r (variants_try_from S order attrs (se_variants s)) (\<lambda>vs.
     bind_r (map_r (variant_fields S order attrs (check attrs)) (zip (se_variants s) vs)) (\<lambda>rows. Inr (attrs, rows))))"

definition encode_check :: "attributes \<Rightarrow> fields_kind \<Rightarrow> field list \<Rightarrow> derive_error + unit" where
  "encode_check enum_attrs kind fs = bind_r (index_only_check enum_attrs kind) (\<lambda>_.
     if kind = FieldsUnit then Inr () else check_max_fields fs)"

definition encode_on_enum ::
  "syn \<Rightarrow> (attributes \<Rightarrow> attr_kind list) \<Rightarrow> ('v, 'w, 'e) impls \<Rightarrow> ('w, 'e) write_all \<Rightarrow> syn_enum \<Rightarrow>
     derive_error + (nat \<times> 'v list \<Rightarrow> ('w, 'e) enc)" where
  "encode_on_enum S order R wr s =
     bind_r (enum_rows S order encode_check s) (\<lambda>(attrs, rows). Inr (\<lambda>(n, vs). case rows ! n of (sv, i, va, F) \<Rightarrow>
       seq_m (gen_encode_tag wr attrs) (encode_row R wr attrs (sv_kind sv) i va (fl_fields F) vs)))"

section \<open>Decoding\<close>

definition gen_decode_fn :: "('v, 'w, 'e) impls \<Rightarrow> field \<Rightarrow> 'v dec" where
  "gen_decode_fn R f = (case Option.bind (at_codec (f_attrs f)) to_decode_path of
      Some p \<Rightarrow> fn_decode R p | None \<Rightarrow> im_decode R (f_typ f))"

definition gen_nil :: "('v, 'w, 'e) impls \<Rightarrow> field \<Rightarrow> 'v option" where
  "gen_nil R f = (case at_codec (f_attrs f) of
      Some d \<Rightarrow> (case to_nil_path d of
          Some p \<Rightarrow> fn_nil R p
        | None \<Rightarrow> if is_option (f_typ f) then Some (opt_none R) else None)
    | None \<Rightarrow> im_nil R (f_typ f))"

text \<open>Whether an unknown variant in the value of a field is skipped instead of being an error.\<close>

definition gen_skips_unknown :: "('v, 'w, 'e) impls \<Rightarrow> field \<Rightarrow> bool" where
  "gen_skips_unknown R f = (case at_codec (f_attrs f) of
      Some d \<Rightarrow> (case to_nil_path d of Some p \<Rightarrow> fn_nil R p \<noteq> None | None \<Rightarrow> is_option (f_typ f))
    | None \<Rightarrow> is_option (f_typ f) \<or> im_nil R (f_typ f) \<noteq> None)"

definition gen_decode_tag :: "attributes \<Rightarrow> unit dec" where
  "gen_decode_tag a = (case at_tag a of
      None \<Rightarrow> ret_m ()
    | Some t \<Rightarrow> with_pos (\<lambda>p. bind_m dec_tag (\<lambda>x.
        if t \<noteq> tag_as_u64 x
        then fail_m (err_at p (with_message (''expected tag '' @ nat_str (unat t)) (tag_mismatch x)))
        else ret_m ())))"

text \<open>The local variables of the fields, in the order of the fields: what they start with, and one action.\<close>

definition gen_slots :: "('v, 'w, 'e) impls \<Rightarrow> field list \<Rightarrow> 'v option list" where
  "gen_slots R fs = map (\<lambda>f. if is_option (f_typ f) then Some (opt_none R) else None) fs"

definition gen_action :: "('v, 'w, 'e) impls \<Rightarrow> field list \<Rightarrow> nat \<Rightarrow> 'v option list \<Rightarrow> 'v option list dec" where
  "gen_action R fs j slots = seq_m (gen_decode_tag (f_attrs (fs ! j))) (\<lambda>d.
     case gen_decode_fn R (fs ! j) d of
       (Inr v, d1) \<Rightarrow> (Inr (slots[j := Some v]), d1)
     | (Inl e, d1) \<Rightarrow>
         if is_unknown_variant e \<and> gen_skips_unknown R (fs ! j) then seq_m dec_skip (ret_m slots) d1 else (Inl e, d1))"

definition field_at :: "int \<Rightarrow> field list \<Rightarrow> nat option" where
  "field_at i fs = List.find (\<lambda>j. sint (idx_val (f_index (fs ! j))) = i) [0..<length fs]"

definition gen_match :: "('v, 'w, 'e) impls \<Rightarrow> field list \<Rightarrow> int \<Rightarrow> 'v option list \<Rightarrow> 'v option list dec" where
  "gen_match R fs i slots = (case field_at i fs of
      Some j \<Rightarrow> gen_action R fs j slots | None \<Rightarrow> seq_m dec_skip (ret_m slots))"

text \<open>
  The loops over the elements of an array: beyond the largest index every element is skipped, so the loop
  without a length ends.
\<close>

definition index_bound :: "field list \<Rightarrow> nat" where
  "index_bound fs = foldr (\<lambda>f m. max (Suc (nat (sint (idx_val (f_index f))))) m) fs 0"

definition gen_array_def :: "('v, 'w, 'e) impls \<Rightarrow> field list \<Rightarrow> nat \<Rightarrow> 'v option list \<Rightarrow> 'v option list dec" where
  "gen_array_def R fs n = fields_def (index_bound fs) (\<lambda>i. gen_match R fs (int i)) 0 n"

definition gen_array_indef :: "('v, 'w, 'e) impls \<Rightarrow> field list \<Rightarrow> 'v option list \<Rightarrow> 'v option list dec" where
  "gen_array_indef R fs = fields_indef (index_bound fs) (\<lambda>i. gen_match R fs (int i)) 0"

definition gen_map_entry :: "('v, 'w, 'e) impls \<Rightarrow> field list \<Rightarrow> 'v option list \<Rightarrow> 'v option list dec" where
  "gen_map_entry R fs slots = bind_m dec_i64 (\<lambda>i. gen_match R fs (sint i) slots)"

fun gen_map_def :: "('v, 'w, 'e) impls \<Rightarrow> field list \<Rightarrow> nat \<Rightarrow> 'v option list \<Rightarrow> 'v option list dec" where
  "gen_map_def R fs 0 slots = ret_m slots"
| "gen_map_def R fs (Suc n) slots = bind_m (gen_map_entry R fs slots) (gen_map_def R fs n)"

partial_function (option) gen_map_indef ::
  "('v, 'w, 'e) impls \<Rightarrow> field list \<Rightarrow> 'v option list \<Rightarrow> decoder \<Rightarrow> ((decode_error + 'v option list) \<times> decoder) option" where
  "gen_map_indef R fs slots d =
     (case dec_datatype d of
        (Inl e, d1) \<Rightarrow> Some (Inl e, d1)
      | (Inr t, d1) \<Rightarrow>
          if t = TyBreak then Some (seq_m dec_skip (ret_m slots) d1)
          else case gen_map_entry R fs slots d1 of
              (Inl e, d2) \<Rightarrow> Some (Inl e, d2)
            | (Inr slots', d2) \<Rightarrow> gen_map_indef R fs slots' d2)"

text \<open>\<open>len\<close> is the length of the array a flat enumeration has read.\<close>

definition gen_statements :: "('v, 'w, 'e) impls \<Rightarrow> encoding \<Rightarrow> bool \<Rightarrow> u64 \<Rightarrow> field list \<Rightarrow> 'v option list dec" where
  "gen_statements R e flat len fs = (case e of
      EncArray \<Rightarrow>
        if flat then gen_array_def R fs (unat len - 1) (gen_slots R fs)
        else bind_m dec_array (\<lambda>n. case n of
            Some n \<Rightarrow> gen_array_def R fs (unat n) (gen_slots R fs)
          | None \<Rightarrow> gen_array_indef R fs (gen_slots R fs))
    | EncMap \<Rightarrow> bind_m dec_map (\<lambda>n. case n of
            Some n \<Rightarrow> gen_map_def R fs (unat n) (gen_slots R fs)
          | None \<Rightarrow> (\<lambda>d. the (gen_map_indef R fs (gen_slots R fs) d))))"

text \<open>The initialisers of the fields, in the order they are written, and the value they build.\<close>

definition gen_init :: "('v, 'w, 'e) impls \<Rightarrow> usize \<Rightarrow> string \<Rightarrow> field \<Rightarrow> 'v option \<Rightarrow> 'v dec" where
  "gen_init R p name f slot = (case slot of
      Some x \<Rightarrow> ret_m x
    | None \<Rightarrow>
        if at_default (f_attrs f) then ret_m (im_default R (f_typ f))
        else case gen_nil R f of
            Some z \<Rightarrow> ret_m z
          | None \<Rightarrow> fail_m (err_at p (with_message (name @ ''::'' @ f_ident f) (missing_value (idx_val (f_index f))))))"

fun run_inits :: "(usize \<times> 'v dec) list \<Rightarrow> (usize \<times> 'v) list dec" where
  "run_inits [] = ret_m []"
| "run_inits ((k, m) # ms) = bind_m m (\<lambda>x. map_m (\<lambda>xs. (k, x) # xs) (run_inits ms))"

definition gen_inits ::
  "('v, 'w, 'e) impls \<Rightarrow> usize \<Rightarrow> string \<Rightarrow> fields_kind \<Rightarrow> fields \<Rightarrow> 'v option list \<Rightarrow> 'v list dec" where
  "gen_inits R p name kind F slots =
     (let fragments = map2 (\<lambda>f slot. (f_pos f, gen_init R p name f slot)) (fl_fields F) slots
        @ map (\<lambda>f. (f_pos f, ret_m (im_default R (f_typ f)))) (fl_skipped F)
      in map_m (\<lambda>xs. map snd (sort_key fst xs))
           (run_inits (if kind = FieldsNamed then fragments else sort_key fst fragments)))"

definition decode_on_struct ::
  "syn \<Rightarrow> (attributes \<Rightarrow> attr_kind list) \<Rightarrow> ('v, 'w, 'e) impls \<Rightarrow> syn_struct \<Rightarrow> derive_error + 'v list dec" where
  "decode_on_struct S order R s =
     bind_r (try_from_iter S order LStruct (ss_attrs s)) (\<lambda>attrs.
     bind_r (fields_try_from S order [attrs] (ss_fields s)) (\<lambda>F.
       if at_transparent attrs
       then bind_r (transparent_check F) (\<lambda>f. Inr (map_m (\<lambda>v. [v]) (gen_decode_fn R f)))
       else Inr (seq_m (gen_decode_tag attrs) (with_pos (\<lambda>p.
         bind_m (gen_statements R (encoding_or default_encoding attrs) False 0 (fl_fields F))
           (gen_inits R p (ss_ident s) (ss_kind s) F))))))"

definition nil_on_struct ::
  "syn \<Rightarrow> (attributes \<Rightarrow> attr_kind list) \<Rightarrow> ('v, 'w, 'e) impls \<Rightarrow> syn_struct \<Rightarrow> derive_error + 'v list option" where
  "nil_on_struct S order R s =
     bind_r (try_from_iter S order LStruct (ss_attrs s)) (\<lambda>attrs.
     bind_r (fields_try_from S order [attrs] (ss_fields s)) (\<lambda>F.
       if at_transparent attrs
       then bind_r (transparent_check F) (\<lambda>f. Inr (map_option (\<lambda>v. [v]) (case at_codec (f_attrs f) of
           Some c \<Rightarrow>
             if codec_is_decode c
             then (case to_nil_path c of Some p \<Rightarrow> fn_nil R p | None \<Rightarrow> None)
             else im_nil R (f_typ f)
         | None \<Rightarrow> im_nil R (f_typ f))))
       else Inr None))"

text \<open>One arm of the \<open>match\<close> over the variant indices; \<open>p\<close> is the position errors of the fields carry.\<close>

definition decode_row ::
  "('v, 'w, 'e) impls \<Rightarrow> string \<Rightarrow> attributes \<Rightarrow> usize \<Rightarrow> u64 \<Rightarrow> nat \<Rightarrow> syn_variant \<times> idx \<times> attributes \<times> fields \<Rightarrow>
     (nat \<times> 'v list) dec" where
  "decode_row R name enum_attrs p len n row = (case row of (sv, i, va, F) \<Rightarrow>
     let e = encoding_or (encoding_or default_encoding enum_attrs) va;
         flat = at_flat enum_attrs;
         body = (\<lambda>q. bind_m (gen_statements R e flat len (fl_fields F)) (\<lambda>slots.
           map_m (Pair n) (gen_inits R q (name @ ''::'' @ sv_ident sv) (sv_kind sv) F slots)))
     in if sv_kind sv = FieldsUnit then
          (if at_index_only enum_attrs \<or> flat then ret_m (n, [])
           else seq_m (gen_decode_tag va) (seq_m dec_skip (ret_m (n, []))))
        else case at_tag va of
            None \<Rightarrow> body p
          | Some _ \<Rightarrow> with_pos (\<lambda>q. seq_m (gen_decode_tag va) (body q)))"

definition row_at :: "int \<Rightarrow> (syn_variant \<times> idx \<times> attributes \<times> fields) list \<Rightarrow> nat option" where
  "row_at i rows = List.find (\<lambda>n. sint (idx_val (fst (snd (rows ! n)))) = i) [0..<length rows]"

text \<open>What stands in front of the index: nothing, an array of two elements, or one of the right length.\<close>

definition enum_head :: "attributes \<Rightarrow> (usize \<times> u64) dec" where
  "enum_head a = with_pos (\<lambda>p.
     if at_index_only a then ret_m (p, 0)
     else bind_m dec_array (\<lambda>n.
       if at_flat a then (case n of
           None \<Rightarrow> fail_m (err_at p (err_message ''flat enum requires definite-length array''))
         | Some k \<Rightarrow>
             if k = 0 then fail_m (err_at p (err_message ''flat enum requires non-empty array'')) else ret_m (p, k))
       else if n \<noteq> Some 2 then fail_m (err_at p (err_message ''expected enum (2-element array)''))
       else ret_m (p, 2)))"

definition decode_on_enum ::
  "syn \<Rightarrow> (attributes \<Rightarrow> attr_kind list) \<Rightarrow> ('v, 'w, 'e) impls \<Rightarrow> syn_enum \<Rightarrow> derive_error + (nat \<times> 'v list) dec" where
  "decode_on_enum S order R s =
     bind_r (enum_rows S order (\<lambda>_ _ _. Inr ()) s) (\<lambda>(attrs, rows). Inr (
       seq_m (gen_decode_tag attrs) (bind_m (enum_head attrs) (\<lambda>(p, len).
         with_pos (\<lambda>q. bind_m dec_i64 (\<lambda>i. case row_at (sint i) rows of
             Some n \<Rightarrow> decode_row R (se_ident s) attrs p len n (rows ! n)
           | None \<Rightarrow> fail_m (err_at q (unknown_variant i))))))))"

section \<open>Lengths\<close>

definition gen_cbor_len_fn :: "('v, 'w, 'e) impls \<Rightarrow> field \<Rightarrow> 'v \<Rightarrow> usize" where
  "gen_cbor_len_fn R f = (case at_cbor_len (f_attrs f) of
      Some p \<Rightarrow> fn_cbor_len R p
    | None \<Rightarrow> (case Option.bind (at_codec (f_attrs f)) to_cbor_len_path of
          Some p \<Rightarrow> fn_cbor_len R p | None \<Rightarrow> im_cbor_len R (f_typ f)))"

definition gen_tag_len :: "attributes \<Rightarrow> usize" where
  "gen_tag_len a = (case at_tag a of Some t \<Rightarrow> len_tag (tag_new t) | None \<Rightarrow> 0)"

fun gen_map_len :: "('v, 'w, 'e) impls \<Rightarrow> field list \<Rightarrow> 'v list \<Rightarrow> usize" where
  "gen_map_len R [] vs = 0"
| "gen_map_len R (f # fs) vs =
     (if gen_is_nil R f (value_of vs f) then 0
      else len_i64 (idx_val (f_index f)) + gen_tag_len (f_attrs f) + gen_cbor_len_fn R f (value_of vs f))
     + gen_map_len R fs vs"

fun gen_array_len :: "('v, 'w, 'e) impls \<Rightarrow> usize \<Rightarrow> usize \<Rightarrow> field list \<Rightarrow> 'v list \<Rightarrow> usize" where
  "gen_array_len R num len [] vs = len_usize num + len"
| "gen_array_len R num len (f # fs) vs =
     (if \<not> gen_is_nil R f (value_of vs f)
      then let n = nat (sint (idx_val (f_index f))) in
        gen_array_len R (n + 1) (len + ((n - num) + gen_tag_len (f_attrs f) + gen_cbor_len_fn R f (value_of vs f))) fs vs
      else gen_array_len R num len fs vs)"

definition gen_fields_len :: "('v, 'w, 'e) impls \<Rightarrow> encoding \<Rightarrow> field list \<Rightarrow> 'v list \<Rightarrow> usize" where
  "gen_fields_len R e fs vs = (case e of
      EncMap \<Rightarrow> len_usize (length fs) + gen_map_len R fs vs
    | EncArray \<Rightarrow> gen_array_len R 0 0 fs vs)"

definition len_on_struct ::
  "syn \<Rightarrow> (attributes \<Rightarrow> attr_kind list) \<Rightarrow> ('v, 'w, 'e) impls \<Rightarrow> syn_struct \<Rightarrow> derive_error + ('v list \<Rightarrow> usize)" where
  "len_on_struct S order R s =
     bind_r (try_from_iter S order LStruct (ss_attrs s)) (\<lambda>attrs.
     bind_r (fields_try_from S order [attrs] (ss_fields s)) (\<lambda>F.
       if at_transparent attrs
       then bind_r (transparent_check F) (\<lambda>f. Inr (\<lambda>vs. gen_cbor_len_fn R f (value_of vs f)))
       else Inr (\<lambda>vs. gen_tag_len attrs
         + gen_fields_len R (encoding_or default_encoding attrs) (fl_fields F) vs)))"

definition len_row ::
  "('v, 'w, 'e) impls \<Rightarrow> attributes \<Rightarrow> fields_kind \<Rightarrow> idx \<Rightarrow> attributes \<Rightarrow> field list \<Rightarrow> 'v list \<Rightarrow> usize" where
  "len_row R enum_attrs kind i va fs vs =
     (let e = encoding_or (encoding_or default_encoding enum_attrs) va; li = len_i64 (idx_val i) in
      if kind = FieldsUnit then
        (if at_index_only enum_attrs then li
         else if at_flat enum_attrs then 1 + li
         else 1 + li + gen_tag_len va + 1)
      else case e of
          EncMap \<Rightarrow> 1 + li + gen_tag_len va + gen_fields_len R e fs vs
        | EncArray \<Rightarrow>
            if at_flat enum_attrs then gen_fields_len R e fs vs + li
            else gen_fields_len R e fs vs + gen_tag_len va + 1 + li)"

definition len_on_enum ::
  "syn \<Rightarrow> (attributes \<Rightarrow> attr_kind list) \<Rightarrow> ('v, 'w, 'e) impls \<Rightarrow> syn_enum \<Rightarrow> derive_error + (nat \<times> 'v list \<Rightarrow> usize)" where
  "len_on_enum S order R s =
     bind_r (enum_rows S order (\<lambda>a k _. index_only_check a k) s) (\<lambda>(attrs, rows). Inr (\<lambda>(n, vs).
       case rows ! n of (sv, i, va, F) \<Rightarrow>
         gen_tag_len attrs + len_row R attrs (sv_kind sv) i va (fl_fields F) vs))"

end
