(* ===== verification/Derive_Write.thy ===== *)
theory Derive_Write
  imports Derive_Code Cbor_Codec
begin

text \<open>
  What the derived encoders write. The locale \<open>field_impls\<close> is the contract between the generated code and the
  implementations of the field types: a value is written as one well-formed item, which is read back, and
  a nil value is the one a missing field is initialised with. In it, the encoded structure is given
  element by element.
\<close>

section \<open>The contract of the field types\<close>

text \<open>What a field is initialised with when nothing was read for it.\<close>

definition absent :: "('v, 'w, 'e) impls \<Rightarrow> field \<Rightarrow> 'v option" where
  "absent R f =
     (if is_option (f_typ f) then Some (opt_none R)
      else if at_default (f_attrs f) then Some (im_default R (f_typ f)) else gen_nil R f)"

definition tag_bytes :: "attributes \<Rightarrow> bytes" where
  "tag_bytes a = (case at_tag a of Some t \<Rightarrow> head_bytes TAGGED (unat t) | None \<Rightarrow> [])"

locale field_impls =
  fixes R :: "('v, bytes, infallible) impls"
    and ok :: "field \<Rightarrow> 'v \<Rightarrow> bool"
    and item :: "field \<Rightarrow> 'v \<Rightarrow> bytes"
  assumes item_written: "ok f v \<Longrightarrow> vec_sink.emits (gen_encode_fn R f v) (item f v)"
    and item_wellformed: "ok f v \<Longrightarrow> length (item f v) < usize_bound \<Longrightarrow> \<exists>c. encodes c (item f v)"
    and item_read: "ok f v \<Longrightarrow> length (item f v) < usize_bound \<Longrightarrow> reads (gen_decode_fn R f) (item f v) v"
    and nil_absent: "ok f v \<Longrightarrow> gen_is_nil R f v \<Longrightarrow> absent R f = Some v"

section \<open>Tags\<close>

lemma emits_tag: "vec_sink.emits (gen_encode_tag vec_write_all a) (tag_bytes a)"
  using vec_sink.emits_type_len [of TAGGED] vec_sink.emits_ret
  by (auto simp: gen_encode_tag_def tag_bytes_def enc_tag_def tag_new_def split: option.splits)

lemma reads_tag_bytes: "reads (gen_decode_tag a) (tag_bytes a) ()"
proof (cases "at_tag a")
  case (Some t)
  have "is_head TAGGED (unat t) (head_bytes TAGGED (unat t))" using unat_lt [of t] by (intro is_head_head_bytes) simp
  from reads_tag [OF this] have "reads dec_tag (head_bytes TAGGED (unat t)) (tag_new t)" by simp
  then have "reads (bind_m dec_tag (\<lambda>x. if t \<noteq> tag_as_u64 x
        then fail_m (err_at p (with_message (''expected tag '' @ nat_str (unat t)) (tag_mismatch x))) else ret_m ()))
      (head_bytes TAGGED (unat t)) ()" for p
    by (rule yields_then) (simp add: tag_new_def reads_ret)
  then show ?thesis unfolding gen_decode_tag_def tag_bytes_def Some by (simp add: yields_with_pos)
qed (simp add: gen_decode_tag_def tag_bytes_def reads_ret)

lemma encodes_tagged: "encodes c bs \<Longrightarrow> \<exists>c. encodes c (tag_bytes a @ bs)"
proof (cases "at_tag a")
  case (Some t)
  assume "encodes c bs"
  moreover have "is_head TAGGED (unat t) (head_bytes TAGGED (unat t))" using unat_lt [of t] by (intro is_head_head_bytes) simp
  ultimately have "encodes (CTag (unat t) c) (head_bytes TAGGED (unat t) @ bs)" by (intro enc_tagged)
  then show ?thesis unfolding tag_bytes_def Some by auto
qed (auto simp: tag_bytes_def)

lemma length_tag_bytes: "length (tag_bytes a) = gen_tag_len a"
  by (simp add: tag_bytes_def gen_tag_len_def len_tag_def tag_new_def len_unsigned split: option.splits)

section \<open>Indices\<close>

lemma nonneg_index:
  assumes "0 \<le> field_key f"
  shows "unat (idx_val (f_index f)) = nat (field_key f)" "nat (field_key f) < 2 ^ 63"
proof -
  have "uint (idx_val (f_index f)) = field_key f"
    using assms uint_of_sint [of "idx_val (f_index f)"] by (simp add: field_key_def)
  then show "unat (idx_val (f_index f)) = nat (field_key f)" by (simp add: unat_eq_nat_uint)
  show "nat (field_key f) < 2 ^ 63" using sint_lt [of "idx_val (f_index f)"] assms by (simp add: field_key_def)
qed

lemma field_key_range: "- (2 ^ 63) \<le> field_key f" "field_key f < 2 ^ 63"
  using sint_ge [of "idx_val (f_index f)"] sint_lt [of "idx_val (f_index f)"] by (simp_all add: field_key_def)

lemma fields_ok_Cons:
  "fields_ok EncArray (f # fs) \<longleftrightarrow> 0 \<le> field_key f \<and> (\<forall>g\<in>set fs. field_key f < field_key g) \<and> fields_ok EncArray fs"
  by (fastforce simp: fields_ok_def key_less_def)

lemma key_less_irrefl: "\<not> key_less a a"
  by (auto simp: key_less_def)

lemma fields_ok_distinct: "fields_ok e fs \<Longrightarrow> distinct (map field_key fs)"
proof -
  assume "fields_ok e fs"
  then have "sorted_wrt key_less (map field_key fs)" by (simp add: fields_ok_def)
  then show ?thesis by (induction fs) (auto simp: key_less_irrefl)
qed

section \<open>Array encoding\<close>

text \<open>The elements from position \<open>s\<close> on, up to the field with index \<open>i\<close>; \<open>B\<close> is what is written for a field.\<close>

fun array_elems :: "(field \<Rightarrow> bytes) \<Rightarrow> nat \<Rightarrow> nat \<Rightarrow> field list \<Rightarrow> bytes list" where
  "array_elems B i s [] = []"
| "array_elems B i s (f # fs) =
     (if nat (field_key f) \<le> i
      then replicate (nat (field_key f) - s) [0xf6] @ B f # array_elems B i (Suc (nat (field_key f))) fs
      else [])"

definition elem_at :: "(field \<Rightarrow> bytes) \<Rightarrow> field list \<Rightarrow> nat \<Rightarrow> bytes" where
  "elem_at B fs j = (case List.find (\<lambda>f. field_key f = int j) fs of Some f \<Rightarrow> B f | None \<Rightarrow> [0xf6])"

lemma elem_at_Cons: "elem_at B (f # fs) j = (if field_key f = int j then B f else elem_at B fs j)"
  by (simp add: elem_at_def)

lemma elem_at_gap: "(\<And>f. f \<in> set fs \<Longrightarrow> field_key f \<noteq> int j) \<Longrightarrow> elem_at B fs j = [0xf6]"
  by (auto simp: elem_at_def find_None_iff split: option.splits dest: find_Some_iff [THEN iffD1])

lemma upt_split: "a \<le> b \<Longrightarrow> b < c \<Longrightarrow> [a..<c] = [a..<b] @ b # [Suc b..<c]"
  by (metis le_add_diff_inverse less_imp_le upt_add_eq_append upt_conv_Cons)

lemma array_elems_positions:
  assumes "fields_ok EncArray fs" "\<And>f. f \<in> set fs \<Longrightarrow> int s \<le> field_key f" "g \<in> set fs" "field_key g = int i"
  shows "array_elems B i s fs = map (elem_at B fs) [s..<Suc i]"
  using assms
proof (induction fs arbitrary: s)
  case (Cons f fs)
  let ?k = "nat (field_key f)"
  have ok: "0 \<le> field_key f" "\<And>h. h \<in> set fs \<Longrightarrow> field_key f < field_key h" "fields_ok EncArray fs"
    using Cons.prems(1) by (auto simp: fields_ok_Cons)
  have k: "int ?k = field_key f" "s \<le> ?k" using ok(1) Cons.prems(2) [of f] by auto
  have i: "?k \<le> i" using Cons.prems(3,4) ok(1) ok(2) [of g] by auto
  have gap: "map (elem_at B (f # fs)) [s..<?k] = replicate (?k - s) [0xf6]"
  proof (rule nth_equalityI)
    fix j assume "j < length (map (elem_at B (f # fs)) [s..<?k])"
    then have j: "s + j < ?k" by simp
    then have "elem_at B (f # fs) (s + j) = [0xf6]"
      using ok(1,2) k by (intro elem_at_gap) fastforce
    with j show "map (elem_at B (f # fs)) [s..<?k] ! j = replicate (?k - s) [0xf6] ! j" by simp
  qed simp
  have rest: "array_elems B i (Suc ?k) fs = map (elem_at B (f # fs)) [Suc ?k..<Suc i]"
  proof (cases "g \<in> set fs")
    case True
    have "array_elems B i (Suc ?k) fs = map (elem_at B fs) [Suc ?k..<Suc i]"
      using ok(2) k by (intro Cons.IH ok(3) True Cons.prems(4)) fastforce
    then show ?thesis using k by (auto simp: elem_at_Cons)
  next
    case False
    then have "g = f" using Cons.prems(3) by simp
    then have "?k = i" using Cons.prems(4) by simp
    moreover have "array_elems B i s' fs = []" for s'
      using ok(2) [of "hd fs"] \<open>?k = i\<close> k(1) by (cases fs) auto
    ultimately show ?thesis by simp
  qed
  have "[s..<Suc i] = [s..<?k] @ ?k # [Suc ?k..<Suc i]"
    using upt_split [of s ?k "Suc i"] k(2) i by simp
  moreover have "elem_at B (f # fs) ?k = B f" using k by (simp add: elem_at_Cons)
  ultimately show ?case using i gap rest by simp
qed simp

lemma emits_nulls: "vec_sink.emits (gen_nulls vec_write_all n) (concat (replicate n [0xf6]))"
proof (induction n)
  case (Suc n)
  have "vec_sink.emits (enc_null vec_write_all) [0xf6]"
    using vec_sink.emits_put [of "[0xf6]"] by (simp add: enc_null_def)
  from vec_sink.emits_seq [OF this Suc] show ?case by simp
qed (simp add: vec_sink.emits_ret)

context field_impls begin

definition field_bytes :: "'v list \<Rightarrow> field \<Rightarrow> bytes" where
  "field_bytes vs f = tag_bytes (f_attrs f) @ item f (value_of vs f)"

abbreviation ok_in :: "'v list \<Rightarrow> field \<Rightarrow> bool" where
  "ok_in vs f \<equiv> ok f (value_of vs f)"

lemma emits_field:
  "ok_in vs f \<Longrightarrow> vec_sink.emits (seq_m (gen_encode_tag vec_write_all (f_attrs f)) (gen_encode_fn R f (value_of vs f)))
     (field_bytes vs f)"
  unfolding field_bytes_def by (intro vec_sink.emits_seq emits_tag item_written)

lemma field_bytes_wellformed:
  "ok_in vs f \<Longrightarrow> length (field_bytes vs f) < usize_bound \<Longrightarrow> \<exists>c. encodes c (field_bytes vs f)"
  unfolding field_bytes_def using item_wellformed [of f "value_of vs f"] encodes_tagged by fastforce

lemma emits_array_none:
  "(\<And>f. f \<in> set fs \<Longrightarrow> \<not> idx_val (f_index f) \<le> i) \<Longrightarrow>
     vec_sink.emits (gen_array_statements R vec_write_all i b k fs vs) []"
proof (induction fs arbitrary: b k)
  case (Cons f fs)
  from vec_sink.emits_seq [OF vec_sink.emits_ret Cons.IH] Cons.prems show ?case by (auto simp: Let_def)
qed (simp add: vec_sink.emits_ret)

lemma emits_array_statements:
  assumes "fields_ok EncArray fs" "\<And>f. f \<in> set fs \<Longrightarrow> ok_in vs f" "\<And>f. f \<in> set fs \<Longrightarrow> int s \<le> field_key f"
    "int s = (if first then k else k + 1)"
  shows "vec_sink.emits (gen_array_statements R vec_write_all i first k fs vs)
    (concat (array_elems (field_bytes vs) (unat i) s fs))"
  using assms
proof (induction fs arbitrary: s first k)
  case (Cons f fs)
  let ?k = "nat (field_key f)"
  have ok: "0 \<le> field_key f" "\<And>h. h \<in> set fs \<Longrightarrow> field_key f < field_key h" "fields_ok EncArray fs"
    using Cons.prems(1) by (auto simp: fields_ok_Cons)
  have le: "idx_val (f_index g) \<le> i \<longleftrightarrow> nat (field_key g) \<le> unat i" if "g \<in> set (f # fs)" for g
    using that ok(1) ok(2) [of g] nonneg_index(1) [of g] by (auto simp: word_le_nat_alt)
  show ?case
  proof (cases "?k \<le> unat i")
    case True
    have gaps: "(if first then field_key f - k else field_key f - k - 1) = field_key f - int s"
      "nat (field_key f - int s) = ?k - s"
      using Cons.prems(4) by auto
    have "vec_sink.emits (gen_array_statements R vec_write_all i False (field_key f) fs vs)
        (concat (array_elems (field_bytes vs) (unat i) (Suc ?k) fs))"
      using Cons.prems(2) ok by (intro Cons.IH) fastforce+
    from vec_sink.emits_seq [OF vec_sink.emits_seq [OF emits_nulls emits_field [of f vs]] this]
    show ?thesis
      using True le [of f] Cons.prems(2)
      unfolding gen_array_statements.simps Let_def field_key_def [symmetric] gaps by simp
  next
    case False
    have "\<not> idx_val (f_index g) \<le> i" if "g \<in> set (f # fs)" for g
      using that False ok(1) ok(2) [of g] le [OF that] by auto
    then show ?thesis using False by (simp only: array_elems.simps if_False concat.simps) (rule emits_array_none)
  qed
qed (simp add: vec_sink.emits_ret)

end

section \<open>The number of elements and entries\<close>

definition present :: "('v, 'w, 'e) impls \<Rightarrow> 'v list \<Rightarrow> field list \<Rightarrow> field list" where
  "present R vs fs = filter (\<lambda>f. \<not> gen_is_nil R f (value_of vs f)) fs"

definition elem_count :: "('v, 'w, 'e) impls \<Rightarrow> 'v list \<Rightarrow> field list \<Rightarrow> nat" where
  "elem_count R vs fs = (if present R vs fs = [] then 0 else Suc (nat (field_key (last (present R vs fs)))))"

lemma present_subset: "set (present R vs fs) \<subseteq> set fs"
  by (auto simp: present_def)

lemma max_index_present:
  "max_index R fs vs = (if present R vs fs = [] then None else Some (idx_val (f_index (last (present R vs fs)))))"
  by (induction fs rule: rev_induct) (auto simp: max_index_def present_def)

lemma max_index_count:
  assumes "fields_ok EncArray fs" "max_index R fs vs = Some i"
  shows "elem_count R vs fs = Suc (unat i)" "unat (i + 1) = Suc (unat i)" "unat (i + 2) = Suc (Suc (unat i))"
    "\<exists>g\<in>set fs. field_key g = int (unat i)"
proof -
  let ?g = "last (present R vs fs)"
  from assms(2) have p: "present R vs fs \<noteq> []" "i = idx_val (f_index ?g)"
    by (auto simp: max_index_present split: if_splits)
  then have g: "?g \<in> set fs" using present_subset last_in_set by blast
  with assms(1) have k: "0 \<le> field_key ?g" by (simp add: fields_ok_def)
  from nonneg_index [OF k] p(2) have i: "unat i = nat (field_key ?g)" "unat i < 2 ^ 63" by auto
  show "elem_count R vs fs = Suc (unat i)" using p(1) i(1) by (simp add: elem_count_def)
  show "unat (i + 1) = Suc (unat i)" "unat (i + 2) = Suc (Suc (unat i))"
    using i(2) by (simp_all add: unat_word_ariths)
  show "\<exists>g\<in>set fs. field_key g = int (unat i)" using g i(1) k by (intro bexI [of _ ?g]) auto
qed

lemma elem_count_None: "max_index R fs vs = None \<Longrightarrow> elem_count R vs fs = 0"
  by (simp add: max_index_present elem_count_def split: if_splits)

lemma elem_count_bound: "fields_ok EncArray fs \<Longrightarrow> elem_count R vs fs < 2 ^ 64"
proof (cases "max_index R fs vs")
  case (Some i)
  assume "fields_ok EncArray fs"
  from max_index_count [OF this Some] show ?thesis using unat_lt [of "i + 1"] by simp
qed (simp add: elem_count_None)

lemma max_fields_present:
  assumes "length fs < 2 ^ 32"
  shows "unat (max_fields R fs vs) = length (present R vs fs)"
proof -
  have "unat (foldl (\<lambda>n f. if gen_is_nil R f (value_of vs f) then n - 1 else n) (m :: u32) gs) + length gs =
      unat m + length (present R vs gs)" if "length gs \<le> unat m" for m gs
    using that
  proof (induction gs arbitrary: m)
    case (Cons g gs)
    have "unat (m - 1) = unat m - 1" using Cons.prems by (intro unat_minus_one) auto
    with Cons.IH [of "m - 1"] Cons.IH [of m] Cons.prems show ?case by (auto simp: present_def)
  qed (simp add: present_def)
  from this [of fs "of_nat (length fs)"] assms show ?thesis
    by (simp add: max_fields_def unsigned_of_nat take_bit_nat_eq_self)
qed

lemma emits_map_head:
  "vec_sink.emits (enc_map vec_write_all (ucast (n :: u32))) (head_bytes MAP (unat n))"
  using vec_sink.emits_type_len [of MAP "ucast n"] unat_lt [of n]
  by (simp add: enc_map_def unat_ucast_less)

context field_impls begin

definition entry_bytes :: "'v list \<Rightarrow> field \<Rightarrow> bytes" where
  "entry_bytes vs f = int_head (field_key f) @ field_bytes vs f"

lemma emits_map_statements:
  "(\<And>f. f \<in> set fs \<Longrightarrow> ok_in vs f) \<Longrightarrow>
     vec_sink.emits (gen_map_statements R vec_write_all fs vs) (concat (map (entry_bytes vs) (present R vs fs)))"
proof (induction fs)
  case (Cons f fs)
  have e: "vec_sink.emits (seq_m (enc_i64 vec_write_all (idx_val (f_index f)))
      (seq_m (gen_encode_tag vec_write_all (f_attrs f)) (gen_encode_fn R f (value_of vs f)))) (entry_bytes vs f)"
    unfolding entry_bytes_def field_key_def
    using Cons.prems by (intro vec_sink.emits_seq [OF vec_sink.emits_i64] emits_field) simp
  have r: "vec_sink.emits (gen_map_statements R vec_write_all fs vs) (concat (map (entry_bytes vs) (present R vs fs)))"
    using Cons by simp
  show ?case
    using vec_sink.emits_seq [OF e r] vec_sink.emits_seq [OF vec_sink.emits_ret r] by (simp add: present_def)
qed (simp add: present_def vec_sink.emits_ret)

text \<open>What is written for the fields: the elements at their positions, or the present fields with their indices.\<close>

definition elem_bytes :: "'v list \<Rightarrow> field list \<Rightarrow> bytes list" where
  "elem_bytes vs fs = map (elem_at (field_bytes vs) fs) [0..<elem_count R vs fs]"

lemma length_elem_bytes [simp]: "length (elem_bytes vs fs) = elem_count R vs fs"
  by (simp add: elem_bytes_def)

lemma emits_elem_bytes:
  assumes "fields_ok EncArray fs" "\<And>f. f \<in> set fs \<Longrightarrow> ok_in vs f" "max_index R fs vs = Some i"
  shows "vec_sink.emits (gen_array_statements R vec_write_all i True 0 fs vs) (concat (elem_bytes vs fs))"
proof -
  from max_index_count [OF assms(1,3)] obtain g where g: "g \<in> set fs" "field_key g = int (unat i)"
    and c: "elem_count R vs fs = Suc (unat i)" by blast
  have "array_elems (field_bytes vs) (unat i) 0 fs = elem_bytes vs fs"
    unfolding elem_bytes_def c
    using assms(1) by (intro array_elems_positions [OF assms(1) _ g]) (auto simp: fields_ok_def)
  moreover have "vec_sink.emits (gen_array_statements R vec_write_all i True 0 fs vs)
      (concat (array_elems (field_bytes vs) (unat i) 0 fs))"
    using assms by (intro emits_array_statements) (auto simp: fields_ok_def)
  ultimately show ?thesis by simp
qed

lemma emits_fields_array:
  assumes "fields_ok EncArray fs" "\<And>f. f \<in> set fs \<Longrightarrow> ok_in vs f"
  shows "vec_sink.emits (gen_encode_fields R vec_write_all EncArray False fs vs)
    (head_bytes ARRAY (elem_count R vs fs) @ concat (elem_bytes vs fs))"
proof (cases "max_index R fs vs")
  case None
  then show ?thesis using emits_array_small(1) elem_count_None [OF None]
    by (simp add: gen_encode_fields_def elem_bytes_def head_bytes_def)
next
  case (Some i)
  have "vec_sink.emits (enc_array vec_write_all (i + 1)) (head_bytes ARRAY (elem_count R vs fs))"
    using emits_array [of "i + 1"] max_index_count [OF assms(1) Some] by simp
  from vec_sink.emits_seq [OF this emits_elem_bytes [OF assms Some]] Some show ?thesis
    by (simp add: gen_encode_fields_def)
qed

lemma emits_fields_flat:
  assumes "fields_ok EncArray fs" "\<And>f. f \<in> set fs \<Longrightarrow> ok_in vs f"
  shows "vec_sink.emits (gen_encode_fields R vec_write_all EncArray True fs vs) (concat (elem_bytes vs fs))"
  using emits_elem_bytes [OF assms] vec_sink.emits_ret elem_count_None [of R fs vs]
  by (cases "max_index R fs vs") (auto simp: gen_encode_fields_def elem_bytes_def)

lemma emits_fields_map:
  assumes "length fs < 2 ^ 32" "\<And>f. f \<in> set fs \<Longrightarrow> ok_in vs f"
  shows "vec_sink.emits (gen_encode_fields R vec_write_all EncMap flat fs vs)
    (head_bytes MAP (length (present R vs fs)) @ concat (map (entry_bytes vs) (present R vs fs)))"
  using vec_sink.emits_seq [OF emits_map_head emits_map_statements, of fs vs "max_fields R fs vs"] assms(2)
    max_fields_present [OF assms(1), of R vs]
  by (simp add: gen_encode_fields_def)

end

end
