(* ===== verification/Derive_Read.thy ===== *)
theory Derive_Read
  imports Derive_Write
begin

text \<open>
  What the derived decoders make of encoded elements and entries: the local variable of a field gets the
  value of the element with its index, elements with other indices are skipped, and a field without an
  element keeps the value it was initialised with.
\<close>

section \<open>One element\<close>

definition gen_value :: "('v, 'w, 'e) impls \<Rightarrow> field \<Rightarrow> 'v dec" where
  "gen_value R g = seq_m (gen_decode_tag (f_attrs g)) (gen_decode_fn R g)"

text \<open>\<open>readable R G val j e\<close>: the element \<open>e\<close> with index \<open>j\<close> is read by its field as \<open>val\<close>, or skipped.\<close>

definition readable :: "('v, 'w, 'e) impls \<Rightarrow> field list \<Rightarrow> (field \<Rightarrow> 'v) \<Rightarrow> int \<Rightarrow> bytes \<Rightarrow> bool" where
  "readable R G val j e \<longleftrightarrow> (\<forall>g\<in>set G. field_key g = j \<longrightarrow> reads (gen_value R g) e (val g)) \<and>
     ((\<forall>g\<in>set G. field_key g \<noteq> j) \<longrightarrow> reads dec_skip e ())"

lemma find_SomeD: "List.find P xs = Some x \<Longrightarrow> x \<in> set xs \<and> P x"
  by (auto simp: find_Some_iff)

lemma field_at_Some: "field_at j G = Some i \<Longrightarrow> i < length G \<and> field_key (G ! i) = j"
  unfolding field_at_def field_key_def by (drule find_SomeD) simp

lemma field_at_None: "field_at j G = None \<Longrightarrow> g \<in> set G \<Longrightarrow> field_key g \<noteq> j"
  by (auto simp: field_at_def field_key_def find_None_iff in_set_conv_nth)

lemma reads_action:
  assumes "reads (gen_value R (G ! i)) e v"
  shows "reads (gen_action R G i slots) e (slots[i := Some v])"
proof (rule yieldsI_at)
  fix pre post assume len: "length (pre @ e @ post) < usize_bound"
  let ?d = "at_bytes pre (e @ post)"
  from yields_at [OF assms len] have "gen_value R (G ! i) ?d = (Inr v, at_bytes (pre @ e) post)" .
  then obtain u d1 where "gen_decode_tag (f_attrs (G ! i)) ?d = (Inr u, d1)"
    "gen_decode_fn R (G ! i) d1 = (Inr v, at_bytes (pre @ e) post)"
    by (auto simp: gen_value_def run_simps split: prod.splits sum.splits)
  then show "gen_action R G i slots ?d = (Inr (slots[i := Some v]), at_bytes (pre @ e) post)"
    by (simp add: gen_action_def run_simps)
qed

lemma update_slot:
  assumes "distinct (map field_key G)" "i < length G"
  shows "(map \<sigma> G)[i := x] = map (\<lambda>g. if field_key g = field_key (G ! i) then x else \<sigma> g) G"
proof (rule nth_equalityI)
  fix k assume "k < length ((map \<sigma> G)[i := x])"
  then have k: "k < length G" by simp
  have "field_key (G ! k) = field_key (G ! i) \<longleftrightarrow> k = i"
    using assms k by (metis length_map nth_eq_iff_index_eq nth_map)
  with k assms(2) show "(map \<sigma> G)[i := x] ! k = map (\<lambda>g. if field_key g = field_key (G ! i) then x else \<sigma> g) G ! k"
    by (simp add: nth_list_update)
qed simp

lemma reads_gen_match:
  assumes "distinct (map field_key G)" "readable R G val j e"
  shows "reads (gen_match R G j (map \<sigma> G)) e (map (\<lambda>g. if field_key g = j then Some (val g) else \<sigma> g) G)"
proof (cases "field_at j G")
  case None
  then have none: "\<And>g. g \<in> set G \<Longrightarrow> field_key g \<noteq> j" by (rule field_at_None)
  with assms(2) have "reads dec_skip e ()" by (simp add: readable_def)
  from reads_done [OF this] none None show ?thesis by (simp add: gen_match_def cong: map_cong)
next
  case (Some i)
  then have i: "i < length G" "field_key (G ! i) = j" by (auto dest: field_at_Some)
  with assms(2) have "reads (gen_value R (G ! i)) e (val (G ! i))" by (simp add: readable_def)
  from reads_action [OF this] have
    "reads (gen_match R G j (map \<sigma> G)) e ((map \<sigma> G)[i := Some (val (G ! i))])" by (simp add: gen_match_def Some)
  moreover have "(map \<sigma> G)[i := Some (val (G ! i))] = map (\<lambda>g. if field_key g = j then Some (val g) else \<sigma> g) G"
  proof -
    have "g = G ! i" if "g \<in> set G" "field_key g = j" for g
      using assms(1) i that by (auto simp: distinct_map dest: inj_onD)
    then show ?thesis unfolding update_slot [OF assms(1) i(1)] i(2) by (intro map_cong) auto
  qed
  ultimately show ?thesis by simp
qed

section \<open>All elements\<close>

lemma index_bound_less: "g \<in> set G \<Longrightarrow> nat (field_key g) < index_bound G"
  by (induction G) (auto simp: index_bound_def field_key_def)

lemma reads_array_loop:
  assumes "distinct (map field_key G)" "\<And>j. j < length es \<Longrightarrow> readable R G val (int (s + j)) (es ! j)"
  shows "reads (fields_def (index_bound G) (\<lambda>i. gen_match R G (int i)) s (length es) (map \<sigma> G)) (concat es)
    (map (\<lambda>g. if int s \<le> field_key g \<and> field_key g < int (s + length es) then Some (val g) else \<sigma> g) G)"
  using assms(2)
proof (induction es arbitrary: s \<sigma>)
  case Nil
  have "(\<lambda>g. if int s \<le> field_key g \<and> field_key g < int s then Some (val g) else \<sigma> g) = \<sigma>" by (rule ext) auto
  then show ?case by (simp add: reads_ret)
next
  case (Cons e es)
  let ?t = "\<lambda>g. if field_key g = int s then Some (val g) else \<sigma> g"
  have r: "readable R G val (int s) e" using Cons.prems [of 0] by simp
  have step: "reads (if s < index_bound G then gen_match R G (int s) (map \<sigma> G) else seq_m dec_skip (ret_m (map \<sigma> G)))
      e (map ?t G)"
  proof (cases "s < index_bound G")
    case True
    then show ?thesis using reads_gen_match [OF assms(1) r, of \<sigma>] by simp
  next
    case False
    have none: "field_key g \<noteq> int s" if "g \<in> set G" for g using index_bound_less [OF that] False by auto
    with r have "reads dec_skip e ()" by (simp add: readable_def)
    from reads_done [OF this] False none show ?thesis by (simp cong: map_cong)
  qed
  have "readable R G val (int (Suc s + j)) (es ! j)" if "j < length es" for j
    using Cons.prems [of "Suc j"] that by simp
  from Cons.IH [OF this, of ?t] have rest:
    "reads (fields_def (index_bound G) (\<lambda>i. gen_match R G (int i)) (Suc s) (length es) (map ?t G)) (concat es)
      (map (\<lambda>g. if int (Suc s) \<le> field_key g \<and> field_key g < int (Suc s + length es) then Some (val g) else ?t g) G)" .
  have "(\<lambda>g. if int (Suc s) \<le> field_key g \<and> field_key g < int (Suc s + length es) then Some (val g) else ?t g) =
      (\<lambda>g. if int s \<le> field_key g \<and> field_key g < int (s + length (e # es)) then Some (val g) else \<sigma> g)"
    by (rule ext) auto
  with rest show ?case
    unfolding length_Cons fields_def.simps concat.simps by (intro yields_bind [OF step]) simp
qed

lemma reads_array_statements:
  assumes "distinct (map field_key G)" "\<And>j. j < length es \<Longrightarrow> readable R G val (int j) (es ! j)" "length es < 2 ^ 64"
  shows "reads (gen_statements R EncArray False len G) (head_bytes ARRAY (length es) @ concat es)
    (map (\<lambda>g. if 0 \<le> field_key g \<and> field_key g < int (length es) then Some (val g)
              else if is_option (f_typ g) then Some (opt_none R) else None) G)"
proof -
  have h: "reads dec_array (head_bytes ARRAY (length es)) (Some (of_nat (length es)))"
    by (rule reads_array [OF is_head_head_bytes [OF assms(3)]])
  show ?thesis
    unfolding gen_statements_def encoding.case if_False
    by (rule yields_bind [OF h])
      (use reads_array_loop [of G es R val 0 "\<lambda>g. if is_option (f_typ g) then Some (opt_none R) else None"] assms in
        \<open>simp add: unat_of_nat_u64 gen_slots_def gen_array_def_def\<close>)
qed

lemma reads_flat_statements:
  assumes "distinct (map field_key G)" "\<And>j. j < length es \<Longrightarrow> readable R G val (int j) (es ! j)" "unat len = Suc (length es)"
  shows "reads (gen_statements R EncArray True len G) (concat es)
    (map (\<lambda>g. if 0 \<le> field_key g \<and> field_key g < int (length es) then Some (val g)
              else if is_option (f_typ g) then Some (opt_none R) else None) G)"
  using reads_array_loop [of G es R val 0 "\<lambda>g. if is_option (f_typ g) then Some (opt_none R) else None"] assms
  by (simp add: gen_statements_def gen_slots_def gen_array_def_def)

lemma reads_map_loop:
  assumes "distinct (map field_key G)" "\<And>f. f \<in> set fs \<Longrightarrow> readable R G val (field_key f) (B f)"
  shows "reads (gen_map_def R G (length fs) (map \<sigma> G)) (concat (map (\<lambda>f. int_head (field_key f) @ B f) fs))
    (map (\<lambda>g. if field_key g \<in> field_key ` set fs then Some (val g) else \<sigma> g) G)"
  using assms(2)
proof (induction fs arbitrary: \<sigma>)
  case (Cons f fs)
  let ?t = "\<lambda>g. if field_key g = field_key f then Some (val g) else \<sigma> g"
  have "reads (gen_match R G (sint (idx_val (f_index f))) (map \<sigma> G)) (B f) (map ?t G)"
    using reads_gen_match [OF assms(1) Cons.prems [of f], of \<sigma>] by (simp add: field_key_def)
  then have step: "reads (gen_map_entry R G (map \<sigma> G)) (int_head (field_key f) @ B f) (map ?t G)"
    unfolding gen_map_entry_def field_key_def by (rule yields_bind [OF reads_int_head(8)])
  have rest: "reads (gen_map_def R G (length fs) (map ?t G)) (concat (map (\<lambda>f. int_head (field_key f) @ B f) fs))
      (map (\<lambda>g. if field_key g \<in> field_key ` set fs then Some (val g) else ?t g) G)"
    using Cons.prems by (intro Cons.IH) simp
  have "(\<lambda>g. if field_key g \<in> field_key ` set fs then Some (val g) else ?t g) =
      (\<lambda>g. if field_key g \<in> field_key ` set (f # fs) then Some (val g) else \<sigma> g)"
    by (rule ext) auto
  with rest show ?case
    unfolding length_Cons gen_map_def.simps list.map concat.simps by (intro yields_bind [OF step]) simp
qed (simp add: reads_ret)

lemma reads_map_statements:
  assumes "distinct (map field_key G)" "\<And>f. f \<in> set fs \<Longrightarrow> readable R G val (field_key f) (B f)" "length fs < 2 ^ 64"
  shows "reads (gen_statements R EncMap flat len G)
    (head_bytes MAP (length fs) @ concat (map (\<lambda>f. int_head (field_key f) @ B f) fs))
    (map (\<lambda>g. if field_key g \<in> field_key ` set fs then Some (val g)
              else if is_option (f_typ g) then Some (opt_none R) else None) G)"
proof -
  have h: "reads dec_map (head_bytes MAP (length fs)) (Some (of_nat (length fs)))"
    by (rule reads_map_head [OF is_head_head_bytes [OF assms(3)]])
  show ?thesis
    unfolding gen_statements_def encoding.case
    by (rule yields_bind [OF h])
      (use reads_map_loop [of G fs R val B "\<lambda>g. if is_option (f_typ g) then Some (opt_none R) else None"] assms in
        \<open>simp add: unat_of_nat_u64 gen_slots_def\<close>)
qed

section \<open>Building the value\<close>

lemma run_inits_ret: "run_inits (map (\<lambda>p. (p, ret_m (w p))) ps) = ret_m (map (\<lambda>p. (p, w p)) ps)"
  by (induction ps) (auto simp: bind_m_def map_m_def ret_m_def)

lemma sort_positions:
  assumes "mset ps = mset [0..<n]"
  shows "sort_key fst (map (\<lambda>p. (p, w p)) ps) = map (\<lambda>p. (p, w p)) [0..<n]"
proof (rule sort_key_inj_key_eq)
  show "mset (map (\<lambda>p. (p, w p)) ps) = mset (map (\<lambda>p. (p, w p)) [0..<n])"
    using arg_cong [OF assms, of "image_mset (\<lambda>p. (p, w p))"] by (simp only: mset_map)
qed (auto simp: inj_on_def comp_def)

lemma map2_slots: "map2 h xs (map \<tau> xs) = map (\<lambda>x. h x (\<tau> x)) xs"
  by (induction xs) auto

lemma reads_inits:
  assumes p: "mset (map f_pos (fl_fields F @ fl_skipped F)) = mset [0..<length us]"
    and f: "\<And>g. g \<in> set (fl_fields F) \<Longrightarrow> gen_init R q name g (\<tau> g) = ret_m (value_of us g)"
    and k: "\<And>g. g \<in> set (fl_skipped F) \<Longrightarrow> im_default R (f_typ g) = value_of us g"
  shows "reads (gen_inits R q name kind F (map \<tau> (fl_fields F))) [] us"
proof -
  let ?ps = "map f_pos (fl_fields F @ fl_skipped F)"
  have fr: "map2 (\<lambda>f slot. (f_pos f, gen_init R q name f slot)) (fl_fields F) (map \<tau> (fl_fields F))
      @ map (\<lambda>f. (f_pos f, ret_m (im_default R (f_typ f)))) (fl_skipped F) = map (\<lambda>p. (p, ret_m (us ! p))) ?ps"
    using f k by (simp add: map2_slots value_of_def comp_def cong: map_cong)
  have ret: "map_m h (ret_m x) = ret_m (h x)" for h and x :: "(usize \<times> 'a) list"
    by (rule ext) (simp add: run_simps)
  have "gen_inits R q name kind F (map \<tau> (fl_fields F)) = ret_m (map snd (map (\<lambda>p. (p, us ! p)) [0..<length us]))"
    unfolding gen_inits_def fr Let_def sort_positions [OF p]
    by (cases "kind = FieldsNamed")
      (simp_all only: simp_thms if_True if_False run_inits_ret ret sort_positions [OF p] sort_positions [OF refl])
  then show ?thesis by (simp add: comp_def map_nth reads_ret)
qed

lemma gen_init_absent:
  assumes "absent R g = Some v"
  shows "gen_init R q name g (if is_option (f_typ g) then Some (opt_none R) else None) = ret_m v"
  using assms by (auto simp: absent_def gen_init_def split: if_splits)

end
