(* ===== verification/Derive_Impls.thy ===== *)
theory Derive_Impls
  imports Derive_Write
begin

text \<open>
  The contract \<open>field_impls\<close> holds for implementations of minicbor: numbers, optional numbers, strings, and
  byte strings with the codec module \<open>minicbor::bytes\<close>.
\<close>

datatype lib_value = LU64 u64 | LOpt "u64 option" | LStr bytes | LBytes bytes

definition ty_u64 :: ty where "ty_u64 = TyPath None False [(''u64'', PathPlain)]"
definition ty_opt :: ty where "ty_opt = TyPath None False [(''Option'', PathAngle [GenType ty_u64])]"
definition ty_str :: ty where "ty_str = TyPath None False [(''String'', PathPlain)]"
definition ty_vec :: ty where
  "ty_vec = TyPath None False [(''Vec'', PathAngle [GenType (TyPath None False [(''u8'', PathPlain)])])]"

definition lib_encode :: "lib_value \<Rightarrow> (bytes, infallible) enc" where
  "lib_encode v = (case v of
      LU64 x \<Rightarrow> enc_u64 vec_write_all x
    | LOpt x \<Rightarrow> encode_option vec_write_all (enc_u64 vec_write_all) x
    | LStr s \<Rightarrow> enc_str vec_write_all s
    | LBytes s \<Rightarrow> enc_bytes vec_write_all s)"

definition lib_decode :: "ty \<Rightarrow> lib_value dec" where
  "lib_decode t =
     (if t = ty_u64 then map_m LU64 dec_u64
      else if t = ty_opt then map_m LOpt (decode_option dec_u64)
      else map_m LStr dec_str)"

definition lib_len :: "lib_value \<Rightarrow> usize" where
  "lib_len v = (case v of
      LU64 x \<Rightarrow> len_u64 x | LOpt x \<Rightarrow> len_option len_u64 x | LStr s \<Rightarrow> len_str s | LBytes s \<Rightarrow> len_byte_slice s)"

definition lib_impls :: "(lib_value, bytes, infallible) impls" where
  "lib_impls = \<lparr>im_encode = (\<lambda>_. lib_encode), im_is_nil = (\<lambda>_ v. v = LOpt None), im_decode = lib_decode,
     im_nil = (\<lambda>t. if t = ty_opt then Some (LOpt None) else None), im_cbor_len = (\<lambda>_. lib_len),
     im_default = (\<lambda>t. if t = ty_u64 then LU64 0 else if t = ty_opt then LOpt None else if t = ty_vec then LBytes [] else LStr []),
     fn_encode = (\<lambda>_. lib_encode), fn_is_nil = (\<lambda>_ _. False), fn_decode = (\<lambda>_. map_m LBytes dec_bytes),
     fn_nil = (\<lambda>_. None), fn_cbor_len = (\<lambda>_. lib_len), opt_none = LOpt None, opt_is_none = (\<lambda>v. v = LOpt None)\<rparr>"

text \<open>The values of a field: by its type, or byte strings with a codec module.\<close>

definition lib_ok :: "field \<Rightarrow> lib_value \<Rightarrow> bool" where
  "lib_ok f v = (case at_codec (f_attrs f) of
      None \<Rightarrow> (case v of
          LU64 _ \<Rightarrow> f_typ f = ty_u64 | LOpt _ \<Rightarrow> f_typ f = ty_opt
        | LStr s \<Rightarrow> f_typ f = ty_str \<and> valid_utf8 s | LBytes _ \<Rightarrow> False)
    | Some c \<Rightarrow> f_typ f = ty_vec \<and> (case c of CodecModule _ b \<Rightarrow> \<not> b | _ \<Rightarrow> False) \<and>
        (case v of LBytes _ \<Rightarrow> True | _ \<Rightarrow> False))"

definition lib_item :: "field \<Rightarrow> lib_value \<Rightarrow> bytes" where
  "lib_item f v = (case v of
      LU64 x \<Rightarrow> head_bytes UNSIGNED (unat x)
    | LOpt x \<Rightarrow> (case x of None \<Rightarrow> [0xf6] | Some y \<Rightarrow> head_bytes UNSIGNED (unat y))
    | LStr s \<Rightarrow> head_bytes TEXT (unat (of_nat (length s) :: u64)) @ s
    | LBytes s \<Rightarrow> head_bytes BYTES (unat (of_nat (length s) :: u64)) @ s)"

lemma lib_types [simp]: "ty_opt \<noteq> ty_u64" "ty_u64 \<noteq> ty_opt" "ty_str \<noteq> ty_u64" "ty_str \<noteq> ty_opt" "ty_vec \<noteq> ty_u64" "ty_vec \<noteq> ty_opt"
  "\<not> is_option ty_u64" "is_option ty_opt" "\<not> is_option ty_str" "\<not> is_option ty_vec"
  by (simp_all add: ty_opt_def ty_u64_def ty_str_def ty_vec_def is_option_def)

lemma gen_fns:
  "lib_ok f v \<Longrightarrow> gen_encode_fn lib_impls f v = lib_encode v"
  "gen_is_nil lib_impls f v \<Longrightarrow> lib_ok f v \<Longrightarrow> v = LOpt None \<and> f_typ f = ty_opt"
  by (auto simp: gen_encode_fn_def gen_is_nil_def lib_impls_def lib_ok_def to_is_nil_path_def
      split: option.splits custom_codec.splits lib_value.splits if_splits)

lemma gen_decode_lib:
  "lib_ok f v \<Longrightarrow> gen_decode_fn lib_impls f = (case v of
     LU64 _ \<Rightarrow> map_m LU64 dec_u64 | LOpt _ \<Rightarrow> map_m LOpt (decode_option dec_u64)
   | LStr _ \<Rightarrow> map_m LStr dec_str | LBytes _ \<Rightarrow> map_m LBytes dec_bytes)"
  by (auto simp: gen_decode_fn_def lib_impls_def lib_ok_def lib_decode_def to_decode_path_def
      split: option.splits custom_codec.splits lib_value.splits)

lemma lib_written: "lib_ok f v \<Longrightarrow> vec_sink.emits (gen_encode_fn lib_impls f v) (lib_item f v)"
  using vec_sink.emits_put [of "[0xf6]"] vec_sink.emits_str vec_sink.emits_bytes vec_sink.emits_u64
  by (cases v) (auto simp: gen_fns lib_encode_def lib_item_def encode_option_def enc_null_def split: option.splits)

lemma lib_wellformed:
  assumes "lib_ok f v" "length (lib_item f v) < usize_bound" shows "\<exists>c. encodes c (lib_item f v)"
proof -
  have u: "encodes (CUInt (unat x)) (head_bytes UNSIGNED (unat x))" for x :: u64
    using unat_lt [of x] by (intro enc_unsigned is_head_head_bytes) simp
  have h: "is_head t (length s) (head_bytes t (unat (of_nat (length s) :: u64)))" if "length s < 2 ^ 64" for t and s :: bytes
    using that by (simp add: unat_of_nat_u64 is_head_head_bytes)
  have l: "length s < 2 ^ 64" if "v = LStr s \<or> v = LBytes s" for s
    using that assms(2) by (auto simp: lib_item_def usize_bound_def)
  show ?thesis
  proof (cases v)
    case (LU64 x)
    then show ?thesis using u [of x] by (auto simp: lib_item_def)
  next
    case (LOpt x)
    then show ?thesis using u encodes_null by (cases x) (auto simp: lib_item_def)
  next
    case (LStr s)
    then have "encodes (CText s) (lib_item f v)"
      using enc_text [OF h [of s TEXT]] l [of s] assms(1) by (auto simp: lib_item_def lib_ok_def split: option.splits custom_codec.splits)
    then show ?thesis by blast
  next
    case (LBytes s)
    then have "encodes (CBytes s) (lib_item f v)"
      using enc_bytestring [OF h [of s BYTES]] l [of s] by (auto simp: lib_item_def)
    then show ?thesis by blast
  qed
qed

lemma lib_read:
  assumes "lib_ok f v" "length (lib_item f v) < usize_bound" shows "reads (gen_decode_fn lib_impls f) (lib_item f v) v"
proof -
  have u: "reads dec_u64 (head_bytes UNSIGNED (unat x)) x" "typed_value (head_bytes UNSIGNED (unat x))" for x
    using reads_int_head(4) [of x] typed_head_bytes [of "unat x" UNSIGNED] unat_lt [of x] by (simp_all add: int_head_uint)
  have h: "is_head t (length s) (head_bytes t (unat (of_nat (length s) :: u64)))" if "length s < 2 ^ 64" for t and s :: bytes
    using that by (simp add: unat_of_nat_u64 is_head_head_bytes)
  have l: "length s < 2 ^ 64" if "v = LStr s \<or> v = LBytes s" for s
    using that assms(2) by (auto simp: lib_item_def usize_bound_def)
  show ?thesis
  proof (cases v)
    case (LOpt x)
    then show ?thesis using u
      by (cases x) (auto simp: gen_decode_lib [OF assms(1)] lib_item_def intro!: reads_map reads_option)
  next
    case (LStr s)
    then have "valid_utf8 s" using assms(1) by (simp add: lib_ok_def split: option.splits custom_codec.splits)
    from reads_str [OF h this] l [of s] LStr show ?thesis
      by (auto simp: gen_decode_lib [OF assms(1)] lib_item_def intro: reads_map)
  next
    case (LBytes s)
    from reads_bytes [OF h] l [of s] LBytes show ?thesis
      by (auto simp: gen_decode_lib [OF assms(1)] lib_item_def intro: reads_map)
  qed (use u in \<open>auto simp: gen_decode_lib [OF assms(1)] lib_item_def intro: reads_map\<close>)
qed

interpretation lib: field_impls lib_impls lib_ok lib_item
proof (unfold_locales, rule lib_written, assumption, rule lib_wellformed, assumption, assumption,
    rule lib_read, assumption, assumption)
  fix f v assume "lib_ok f v" "gen_is_nil lib_impls f v"
  then have "v = LOpt None" "f_typ f = ty_opt" using gen_fns(2) by auto
  then show "absent lib_impls f = Some v" by (simp add: absent_def) (simp add: lib_impls_def)
qed

section \<open>Example structures\<close>

definition n_attr :: "int \<Rightarrow> syn_attribute" where
  "n_attr i = \<lparr>attr_path = ''n'', attr_metas = [\<lparr>meta_path = [], meta_arg = IntArg i\<rparr>]\<rparr>"

definition demo_field :: "ident \<Rightarrow> int \<Rightarrow> ty \<Rightarrow> syn_attribute list \<Rightarrow> syn_field" where
  "demo_field name i t as = \<lparr>sf_ident = Some name, sf_ty = t, sf_attrs = n_attr i # as\<rparr>"

definition cbor_flag :: "ident \<Rightarrow> syn_attribute" where
  "cbor_flag n = \<lparr>attr_path = ''cbor'', attr_metas = [\<lparr>meta_path = n, meta_arg = NoArg\<rparr>]\<rparr>"

definition cbor_tag :: "int \<Rightarrow> syn_attribute" where
  "cbor_tag n = \<lparr>attr_path = ''cbor'', attr_metas = [\<lparr>meta_path = ''tag'', meta_arg = IntArg n\<rparr>]\<rparr>"

definition demo_struct :: "syn_attribute list \<Rightarrow> syn_field list \<Rightarrow> syn_struct" where
  "demo_struct as fs = \<lparr>ss_ident = ''T'', ss_attrs = as, ss_kind = FieldsNamed, ss_fields = fs\<rparr>"

text \<open>What is known of the fields of an accepted structure, as an executable value.\<close>

definition field_spec :: "field \<Rightarrow> usize \<times> int \<times> ty \<times> u64 option \<times> custom_codec option \<times> bool" where
  "field_spec f = (f_pos f, field_key f, f_typ f, at_tag (f_attrs f), at_codec (f_attrs f), at_default (f_attrs f))"

end
