(* ===== verification/Derive_Versions.thy ===== *)
theory Derive_Versions
  imports Derive_Read Derive_Impls
begin

text \<open>
  Versions of a derived structure: what one version writes, another one reads. Fields are identified by
  their index numbers; names and order are free. A version reading its own encoding is the round trip.
\<close>

section \<open>Versions\<close>

text \<open>Fields with the same index have the same type, tag, codec and default.\<close>

definition same_field :: "field \<Rightarrow> field \<Rightarrow> bool" where
  "same_field f g \<longleftrightarrow> f_typ f = f_typ g \<and> at_tag (f_attrs f) = at_tag (f_attrs g) \<and>
     at_codec (f_attrs f) = at_codec (f_attrs g) \<and> at_default (f_attrs f) = at_default (f_attrs g)"

definition same_fields :: "field list \<Rightarrow> field list \<Rightarrow> bool" where
  "same_fields fs gs \<longleftrightarrow> (\<forall>f\<in>set fs. \<forall>g\<in>set gs. field_key f = field_key g \<longrightarrow> same_field f g)"

text \<open>
  A field that other versions may lack: it has a value to start with, and in an array it reads the
  \<open>null\<close> of a gap as this value.
\<close>

definition may_be_missing :: "('v, 'w, 'e) impls \<Rightarrow> encoding \<Rightarrow> field \<Rightarrow> bool" where
  "may_be_missing R e g \<longleftrightarrow> (\<exists>v. absent R g = Some v \<and>
     (e = EncArray \<longrightarrow> at_tag (f_attrs g) = None \<and> reads (gen_decode_fn R g) [0xf6] v))"

text \<open>What a field reads from the encoding of \<open>vs\<close>.\<close>

definition read_back :: "('v, 'w, 'e) impls \<Rightarrow> field list \<Rightarrow> 'v list \<Rightarrow> field \<Rightarrow> 'v" where
  "read_back R fs vs g = (case List.find (\<lambda>f. field_key f = field_key g) fs of
      Some f \<Rightarrow> value_of vs f | None \<Rightarrow> the (absent R g))"

lemma same_impls:
  assumes "same_field f g"
  shows "gen_decode_fn R f = gen_decode_fn R g" "absent R f = absent R g"
    "gen_decode_tag (f_attrs f) = gen_decode_tag (f_attrs g)"
  using assms
  by (auto simp: same_field_def gen_decode_fn_def absent_def gen_nil_def gen_decode_tag_def split: option.splits)

lemma same_key: "distinct (map field_key fs) \<Longrightarrow> f \<in> set fs \<Longrightarrow> h \<in> set fs \<Longrightarrow> field_key f = field_key h \<Longrightarrow> f = h"
  unfolding distinct_map by (blast dest: inj_onD)

lemma read_back_shared:
  assumes "f \<in> set fs" "distinct (map field_key fs)" "field_key f = field_key g"
  shows "read_back R fs vs g = value_of vs f"
proof -
  have "List.find (\<lambda>f. field_key f = field_key g) fs \<noteq> None" using assms(1,3) by (auto simp: find_None_iff)
  then obtain h where h: "List.find (\<lambda>f. field_key f = field_key g) fs = Some h" by blast
  then have "h \<in> set fs" "field_key f = field_key h" using find_SomeD [OF h] assms(3) by auto
  from same_key [OF assms(2,1) this] h show ?thesis by (simp add: read_back_def)
qed

lemma read_back_new: "(\<And>f. f \<in> set fs \<Longrightarrow> field_key f \<noteq> field_key g) \<Longrightarrow> read_back R fs vs g = the (absent R g)"
  by (auto simp: read_back_def find_None_iff split: option.splits dest: find_SomeD)

lemma length_concat_member: "x \<in> set xss \<Longrightarrow> length x \<le> length (concat xss)"
  by (induction xss) auto

context field_impls begin

lemma reads_shared:
  assumes "f \<in> set F" "ok_in vs f" "length (field_bytes vs f) < usize_bound" "same_fields F G" "g \<in> set G"
    "field_key f = field_key g" "distinct (map field_key F)"
  shows "reads (gen_value R g) (field_bytes vs f) (read_back R F vs g)"
proof -
  from assms(1,4,5,6) have same: "same_field f g" by (simp add: same_fields_def)
  from assms(3) have "length (item f (value_of vs f)) < usize_bound" by (simp add: field_bytes_def)
  from item_read [OF assms(2) this] have "reads (gen_decode_fn R g) (item f (value_of vs f)) (value_of vs f)"
    by (simp add: same_impls(1) [OF same])
  then show ?thesis
    unfolding gen_value_def field_bytes_def read_back_shared [OF assms(1,7,6)] same_impls(3) [OF same, symmetric]
    by (rule yields_seq [OF reads_tag_bytes])
qed

lemma readable_elements:
  assumes F: "fields_ok EncArray F" "same_fields F G" "\<And>f. f \<in> set F \<Longrightarrow> ok_in vs f"
    and new: "\<And>g. g \<in> set G \<Longrightarrow> \<forall>f\<in>set F. field_key f \<noteq> field_key g \<Longrightarrow> may_be_missing R EncArray g"
    and len: "length (concat (elem_bytes vs F)) < usize_bound" and j: "j < length (elem_bytes vs F)"
  shows "readable R G (read_back R F vs) (int j) (elem_bytes vs F ! j)"
proof -
  let ?e = "elem_bytes vs F ! j"
  have e: "?e = elem_at (field_bytes vs) F j" using j by (simp add: elem_bytes_def)
  have small: "length ?e < usize_bound"
    using length_concat_member [OF nth_mem [OF j]] len by simp
  show ?thesis
  proof (cases "List.find (\<lambda>f. field_key f = int j) F")
    case (Some f)
    then have f: "f \<in> set F" "field_key f = int j" by (auto dest: find_SomeD)
    have eb: "?e = field_bytes vs f" using Some e by (simp add: elem_at_def)
    have "reads dec_skip ?e ()"
      using field_bytes_wellformed [of f vs] F(3) [OF f(1)] small reads_skip unfolding eb by blast
    then show ?thesis
      using reads_shared [OF f(1) F(3) [OF f(1)] _ F(2)] f small fields_ok_distinct [OF F(1)]
      by (auto simp: readable_def eb)
  next
    case None
    then have none: "\<forall>f\<in>set F. field_key f \<noteq> int j" by (auto simp: find_None_iff)
    have eb: "?e = [0xf6]" using None e by (simp add: elem_at_def)
    have "reads (gen_value R g) [0xf6] (read_back R F vs g)" if g: "g \<in> set G" "field_key g = int j" for g
    proof -
      from new [OF g(1)] none g(2) obtain v where v: "absent R g = Some v" "at_tag (f_attrs g) = None"
        "reads (gen_decode_fn R g) [0xf6] v" by (auto simp: may_be_missing_def)
      have "read_back R F vs g = v" using read_back_new [of F g R vs] none g(2) v(1) by simp
      then show ?thesis
        using yields_seq [OF reads_tag_bytes v(3), of "f_attrs g"] v(2) by (simp add: gen_value_def tag_bytes_def)
    qed
    then show ?thesis using reads_skip [OF encodes_null] by (simp add: readable_def eb)
  qed
qed

text \<open>A field without an element starts with its value.\<close>

lemma init_unread:
  assumes F: "same_fields F G" "\<And>f. f \<in> set F \<Longrightarrow> ok_in vs f" "distinct (map field_key F)" and g: "g \<in> set G"
    and new: "\<forall>f\<in>set F. field_key f \<noteq> field_key g \<Longrightarrow> may_be_missing R e g"
    and nil: "\<And>f. f \<in> set F \<Longrightarrow> field_key f = field_key g \<Longrightarrow> gen_is_nil R f (value_of vs f)"
  shows "gen_init R q name g (if is_option (f_typ g) then Some (opt_none R) else None) = ret_m (read_back R F vs g)"
proof (rule gen_init_absent)
  show "absent R g = Some (read_back R F vs g)"
  proof (cases "\<forall>f\<in>set F. field_key f \<noteq> field_key g")
    case True
    with new obtain v where "absent R g = Some v" by (auto simp: may_be_missing_def)
    with read_back_new [of F g R vs] True show ?thesis by simp
  next
    case False
    then obtain f where f: "f \<in> set F" "field_key f = field_key g" by blast
    with F(1) g have same: "same_field f g" by (simp add: same_fields_def)
    from nil_absent [OF F(2) [OF f(1)] nil [OF f]] have "absent R g = Some (value_of vs f)"
      by (simp add: same_impls(2) [OF same])
    then show ?thesis by (simp add: read_back_shared [OF f(1) F(3) f(2)])
  qed
qed

lemma last_greatest:
  "sorted_wrt (\<lambda>a b. field_key a < field_key b) fs \<Longrightarrow> f \<in> set fs \<Longrightarrow> field_key f \<le> field_key (last fs)"
  by (induction fs rule: rev_induct) (auto simp: sorted_wrt_append less_imp_le)

lemma beyond_count_nil:
  assumes "fields_ok EncArray F" "f \<in> set F" "int (elem_count R vs F) \<le> field_key f"
  shows "gen_is_nil R f (value_of vs f)"
proof (rule ccontr)
  assume "\<not> ?thesis"
  then have p: "f \<in> set (present R vs F)" using assms(2) by (simp add: present_def)
  then have ne: "present R vs F \<noteq> []" by auto
  have "sorted_wrt (\<lambda>a b. field_key a < field_key b) F"
    using assms(1) by (induction F) (auto simp: fields_ok_Cons)
  then have "sorted_wrt (\<lambda>a b. field_key a < field_key b) (present R vs F)"
    unfolding present_def by (rule sorted_wrt_filter)
  from last_greatest [OF this p] have "field_key f \<le> field_key (last (present R vs F))" .
  moreover have "0 \<le> field_key f" using assms(1,2) by (simp add: fields_ok_def)
  ultimately show False using assms(3) ne by (simp add: elem_count_def split: if_splits)
qed

text \<open>
  What the statements leave in the local variables: every initialiser gives the expected value.
\<close>

definition slots_ready :: "field list \<Rightarrow> 'v list \<Rightarrow> field list \<Rightarrow> (field \<Rightarrow> 'v option) \<Rightarrow> bool" where
  "slots_ready F vs G \<tau> \<longleftrightarrow> (\<forall>g\<in>set G. \<forall>q name. gen_init R q name g (\<tau> g) = ret_m (read_back R F vs g))"

lemma slots_readyI:
  assumes F: "same_fields F G" "\<And>f. f \<in> set F \<Longrightarrow> ok_in vs f" "distinct (map field_key F)"
    and new: "\<And>g. g \<in> set G \<Longrightarrow> \<forall>f\<in>set F. field_key f \<noteq> field_key g \<Longrightarrow> may_be_missing R e g"
    and nil: "\<And>f g. f \<in> set F \<Longrightarrow> g \<in> set G \<Longrightarrow> field_key f = field_key g \<Longrightarrow> \<not> P g \<Longrightarrow> gen_is_nil R f (value_of vs f)"
  shows "slots_ready F vs G (\<lambda>g. if P g then Some (read_back R F vs g)
    else if is_option (f_typ g) then Some (opt_none R) else None)"
  unfolding slots_ready_def
proof (intro ballI allI)
  fix g q name assume g: "g \<in> set G"
  show "gen_init R q name g (if P g then Some (read_back R F vs g)
      else if is_option (f_typ g) then Some (opt_none R) else None) = ret_m (read_back R F vs g)"
  proof (cases "P g")
    case False
    show ?thesis unfolding if_not_P [OF False]
      using False g new nil by (intro init_unread [OF F]) auto
  qed (simp add: gen_init_def)
qed

lemma array_read:
  assumes F: "fields_ok EncArray F" "same_fields F G" "\<And>f. f \<in> set F \<Longrightarrow> ok_in vs f"
    and G: "fields_ok EncArray G"
    and new: "\<And>g. g \<in> set G \<Longrightarrow> \<forall>f\<in>set F. field_key f \<noteq> field_key g \<Longrightarrow> may_be_missing R EncArray g"
    and len: "length (concat (elem_bytes vs F)) < usize_bound"
  shows "\<exists>\<tau>. slots_ready F vs G \<tau> \<and>
    reads (gen_statements R EncArray False n G) (head_bytes ARRAY (elem_count R vs F) @ concat (elem_bytes vs F)) (map \<tau> G) \<and>
    (unat m = Suc (elem_count R vs F) \<longrightarrow> reads (gen_statements R EncArray True m G) (concat (elem_bytes vs F)) (map \<tau> G))"
proof (intro exI conjI impI)
  let ?es = "elem_bytes vs F"
  let ?P = "\<lambda>g. 0 \<le> field_key g \<and> field_key g < int (length ?es)"
  let ?\<tau> = "\<lambda>g. if ?P g then Some (read_back R F vs g) else if is_option (f_typ g) then Some (opt_none R) else None"
  note d = fields_ok_distinct [OF F(1)] fields_ok_distinct [OF G]
  show "slots_ready F vs G ?\<tau>"
  proof (rule slots_readyI [OF F(2,3) d(1) new])
    fix f g assume "f \<in> set F" "g \<in> set G" "field_key f = field_key g" "\<not> ?P g"
    then show "gen_is_nil R f (value_of vs f)"
      using G by (intro beyond_count_nil [OF F(1)]) (auto simp: fields_ok_def)
  qed
  have es: "readable R G (read_back R F vs) (int j) (?es ! j)" if "j < length ?es" for j
    using F new len that by (intro readable_elements) auto
  show "reads (gen_statements R EncArray False n G) (head_bytes ARRAY (elem_count R vs F) @ concat ?es) (map ?\<tau> G)"
    using reads_array_statements [OF d(2) es, where len = n] elem_count_bound [OF F(1), of R vs] by simp
  assume "unat m = Suc (elem_count R vs F)"
  then show "reads (gen_statements R EncArray True m G) (concat ?es) (map ?\<tau> G)"
    by (intro reads_flat_statements d(2) es) simp_all
qed

lemma map_read:
  assumes F: "fields_ok EncMap F" "same_fields F G" "\<And>f. f \<in> set F \<Longrightarrow> ok_in vs f" "length F < 2 ^ 32"
    and G: "fields_ok EncMap G"
    and new: "\<And>g. g \<in> set G \<Longrightarrow> \<forall>f\<in>set F. field_key f \<noteq> field_key g \<Longrightarrow> may_be_missing R EncMap g"
    and len: "length (concat (map (entry_bytes vs) (present R vs F))) < usize_bound"
  shows "\<exists>\<tau>. slots_ready F vs G \<tau> \<and> reads (gen_statements R EncMap b n G)
    (head_bytes MAP (length (present R vs F)) @ concat (map (entry_bytes vs) (present R vs F))) (map \<tau> G)"
proof (intro exI conjI)
  let ?P = "present R vs F"
  let ?\<tau> = "\<lambda>g. if field_key g \<in> field_key ` set ?P then Some (read_back R F vs g)
              else if is_option (f_typ g) then Some (opt_none R) else None"
  note d = fields_ok_distinct [OF F(1)] fields_ok_distinct [OF G]
  show "slots_ready F vs G ?\<tau>"
    by (rule slots_readyI [OF F(2,3) d(1) new]) (auto simp: present_def image_iff)
  have "readable R G (read_back R F vs) (field_key f) (field_bytes vs f)" if f: "f \<in> set ?P" for f
  proof -
    have fF: "f \<in> set F" using f present_subset by blast
    have "length (field_bytes vs f) \<le> length (entry_bytes vs f)" by (simp add: entry_bytes_def)
    also have "\<dots> \<le> length (concat (map (entry_bytes vs) ?P))" using f by (intro length_concat_member) simp
    finally have small: "length (field_bytes vs f) < usize_bound" using len by simp
    have "reads dec_skip (field_bytes vs f) ()"
      using field_bytes_wellformed [of f vs] F(3) [OF fF] small reads_skip by blast
    then show ?thesis
      using reads_shared [OF fF F(3) [OF fF] small F(2) _ _ d(1)] by (simp add: readable_def)
  qed
  moreover have "length ?P < 2 ^ 64"
    unfolding present_def by (rule le_less_trans [OF length_filter_le]) (use F(4) in simp)
  ultimately show "reads (gen_statements R EncMap b n G)
      (head_bytes MAP (length ?P) @ concat (map (entry_bytes vs) ?P)) (map ?\<tau> G)"
    unfolding entry_bytes_def [abs_def] by (intro reads_map_statements d(2))
qed

lemma statements_read:
  assumes F: "fields_ok e F" "same_fields F G" "\<And>f. f \<in> set F \<Longrightarrow> ok_in vs f" "length F < 2 ^ 32"
    and G: "fields_ok e G"
    and new: "\<And>g. g \<in> set G \<Longrightarrow> \<forall>f\<in>set F. field_key f \<noteq> field_key g \<Longrightarrow> may_be_missing R e g"
  obtains bs where "vec_sink.emits (gen_encode_fields R vec_write_all e False F vs) bs"
    "length bs < usize_bound \<Longrightarrow> \<exists>\<tau>. slots_ready F vs G \<tau> \<and> reads (gen_statements R e False n G) bs (map \<tau> G)"
proof (cases e)
  case EncArray
  show ?thesis
  proof (rule that [of "head_bytes ARRAY (elem_count R vs F) @ concat (elem_bytes vs F)"])
    show "vec_sink.emits (gen_encode_fields R vec_write_all e False F vs)
        (head_bytes ARRAY (elem_count R vs F) @ concat (elem_bytes vs F))"
      using emits_fields_array [of F vs] F EncArray by simp
  qed (use array_read [of F G vs n 0] F G new EncArray in fastforce)
next
  case EncMap
  show ?thesis
    by (rule that [of "head_bytes MAP (length (present R vs F)) @ concat (map (entry_bytes vs) (present R vs F))"])
      (use emits_fields_map map_read [of F G vs False n] F G new EncMap in auto)
qed

lemma inits_read:
  assumes "slots_ready F vs (fl_fields G) \<tau>" "reads m bs (map \<tau> (fl_fields G))"
    "mset (map f_pos (fl_fields G @ fl_skipped G)) = mset [0..<length us]"
    "\<And>g. g \<in> set (fl_fields G) \<Longrightarrow> value_of us g = read_back R F vs g"
    "\<And>g. g \<in> set (fl_skipped G) \<Longrightarrow> value_of us g = im_default R (f_typ g)"
  shows "reads (bind_m m (gen_inits R p name kind G)) bs us"
proof (rule yields_then [OF assms(2)])
  have "gen_init R q name g (\<tau> g) = ret_m (value_of us g)" if "g \<in> set (fl_fields G)" for g q name
    using assms(1,4) that by (simp add: slots_ready_def)
  then show "reads (gen_inits R p name kind G (map \<tau> (fl_fields G))) [] us"
    using assms(5) by (intro reads_inits [OF assms(3)]) auto
qed

lemma struct_read:
  assumes F: "fields_ok e (fl_fields F)" "same_fields (fl_fields F) (fl_fields G)"
      "\<And>f. f \<in> set (fl_fields F) \<Longrightarrow> ok_in vs f" "length (fl_fields F) < 2 ^ 32"
    and G: "fields_ok e (fl_fields G)" "mset (map f_pos (fl_fields G @ fl_skipped G)) = mset [0..<length us]"
    and new: "\<And>g. g \<in> set (fl_fields G) \<Longrightarrow> \<forall>f\<in>set (fl_fields F). field_key f \<noteq> field_key g \<Longrightarrow> may_be_missing R e g"
    and us: "\<And>g. g \<in> set (fl_fields G) \<Longrightarrow> value_of us g = read_back R (fl_fields F) vs g"
      "\<And>g. g \<in> set (fl_skipped G) \<Longrightarrow> value_of us g = im_default R (f_typ g)"
  shows "decoded_back (seq_m (gen_decode_tag attrs) (with_pos (\<lambda>p.
      bind_m (gen_statements R e False 0 (fl_fields G)) (gen_inits R p name kind G))))
    (seq_m (gen_encode_tag vec_write_all attrs) (gen_encode_fields R vec_write_all e False (fl_fields F) vs)) us"
proof -
  from statements_read [OF F G(1) new, of 0] obtain bs where
    bs: "vec_sink.emits (gen_encode_fields R vec_write_all e False (fl_fields F) vs) bs" and
    rd: "length bs < usize_bound \<Longrightarrow> \<exists>\<tau>. slots_ready (fl_fields F) vs (fl_fields G) \<tau> \<and>
        reads (gen_statements R e False 0 (fl_fields G)) bs (map \<tau> (fl_fields G))"
    by blast
  show ?thesis
  proof (rule decoded_backI [OF vec_sink.emits_seq [OF emits_tag bs]])
    assume "length (tag_bytes attrs @ bs) < 2 ^ 64"
    then have "length bs < usize_bound" by (simp add: usize_bound_def)
    from rd [OF this] obtain \<tau> where i: "slots_ready (fl_fields F) vs (fl_fields G) \<tau>"
      and r: "reads (gen_statements R e False 0 (fl_fields G)) bs (map \<tau> (fl_fields G))" by blast
    have "reads (with_pos (\<lambda>p. bind_m (gen_statements R e False 0 (fl_fields G)) (gen_inits R p name kind G))) bs us"
      using us by (intro yields_with_pos inits_read [OF i r G(2)]) auto
    then show "reads (seq_m (gen_decode_tag attrs) (with_pos (\<lambda>p.
        bind_m (gen_statements R e False 0 (fl_fields G)) (gen_inits R p name kind G)))) (tag_bytes attrs @ bs) us"
      by (rule yields_seq [OF reads_tag_bytes])
  qed
qed

end

section \<open>Structures\<close>

text \<open>The attributes and the fields the macros see.\<close>

definition struct_parts ::
  "syn \<Rightarrow> (attributes \<Rightarrow> attr_kind list) \<Rightarrow> syn_struct \<Rightarrow> derive_error + attributes \<times> fields" where
  "struct_parts S order s =
     bind_r (try_from_iter S order LStruct (ss_attrs s)) (\<lambda>attrs.
     bind_r (fields_try_from S order [attrs] (ss_fields s)) (\<lambda>F. Inr (attrs, F)))"

lemma struct_parts_fields:
  assumes "struct_parts S order s = Inr (attrs, F)"
  shows "fields_ok (encoding_or default_encoding attrs) (fl_fields F)"
    "mset (map f_pos (fl_fields F @ fl_skipped F)) = mset [0..<length (ss_fields s)]"
proof -
  from assms have f: "fields_try_from S order [attrs] (ss_fields s) = Inr F" by (auto simp: struct_parts_def bind_r_Inr)
  have "parent_encoding [attrs] = encoding_or default_encoding attrs"
    by (simp add: parent_encoding_def encoding_or_def List.map_filter_def split: option.splits)
  with accepted_fields(1,2) [OF f] show "fields_ok (encoding_or default_encoding attrs) (fl_fields F)"
    "mset (map f_pos (fl_fields F @ fl_skipped F)) = mset [0..<length (ss_fields s)]" by simp_all
qed

lemma on_struct_parts:
  assumes "struct_parts S order s = Inr (attrs, F)"
  shows "\<not> at_transparent attrs \<Longrightarrow> length (fl_fields F) < 2 ^ 32 \<Longrightarrow> encode_on_struct S order R wr s = Inr (\<lambda>vs.
      seq_m (gen_encode_tag wr attrs) (gen_encode_fields R wr (encoding_or default_encoding attrs) False (fl_fields F) vs))"
    "\<not> at_transparent attrs \<Longrightarrow> decode_on_struct S order R s = Inr (seq_m (gen_decode_tag attrs) (with_pos (\<lambda>p.
      bind_m (gen_statements R (encoding_or default_encoding attrs) False 0 (fl_fields F)) (gen_inits R p (ss_ident s) (ss_kind s) F))))"
  using assms by (auto simp: struct_parts_def bind_r_Inr encode_on_struct_def decode_on_struct_def check_max_fields_def)

text \<open>C12: Different versions of a derived structure understand each other. Let two versions have the same attributes on
  the structure, and let fields with the same index have the same type, tag, codec and default; names, order and all other
  fields are free. Then the newer or older version \<open>t\<close> decodes whatever \<open>s\<close> encodes, in array and in map encoding:
  each shared field comes back, fields \<open>t\<close> does not know are passed over, and a field \<open>s\<close> does not know gets the value it
  has when it is missing. Such a field must have such a value; in an array it must also be without a tag and read
  \<open>null\<close> as this value, because it may stand in a gap.
\<close>

theorem versions_compatible:
  assumes R: "field_impls R ok item"
    and s: "struct_parts S order s = Inr (attrs, F)" "length (fl_fields F) < 2 ^ 32" "\<not> at_transparent attrs"
    and t: "struct_parts S order t = Inr (attrs, G)"
    and same: "same_fields (fl_fields F) (fl_fields G)"
    and vs: "\<forall>f\<in>set (fl_fields F). ok f (value_of vs f)"
    and new: "\<forall>g\<in>set (fl_fields G). (\<forall>f\<in>set (fl_fields F). field_key f \<noteq> field_key g) \<longrightarrow>
      may_be_missing R (encoding_or default_encoding attrs) g"
    and us: "length us = length (ss_fields t)"
      "\<forall>g\<in>set (fl_fields G). value_of us g = read_back R (fl_fields F) vs g"
      "\<forall>g\<in>set (fl_skipped G). value_of us g = im_default R (f_typ g)"
  shows "\<exists>enc dec. encode_on_struct S order R vec_write_all s = Inr enc \<and> decode_on_struct S order R t = Inr dec \<and>
    decoded_back dec (enc vs) us"
  by (rule exI, rule exI, intro conjI, rule on_struct_parts(1) [OF s(1,3,2)], rule on_struct_parts(2) [OF t s(3)],
    rule field_impls.struct_read [OF R struct_parts_fields(1) [OF s(1)] same _ s(2) struct_parts_fields(1) [OF t]])
    (use vs new us struct_parts_fields(2) [OF t] in auto)

text \<open>C13: What the derived encoder of a structure writes, the derived decoder reads back, with the default value in the
  fields that are skipped: for array and map encoding, with tags, gaps between the indices, custom codecs and
  nil values, and for transparent structures. The implementations of the field types must read back what
  they write, and start a missing field with the nil value.
\<close>

theorem derived_struct_round_trip:
  assumes R: "field_impls R ok item"
    and enc: "encode_on_struct S order R vec_write_all s = Inr enc"
    and s: "struct_parts S order s = Inr (attrs, F)" "length vs = length (ss_fields s)"
    and vs: "\<forall>f\<in>set (fl_fields F). ok f (value_of vs f)"
      "\<forall>f\<in>set (fl_skipped F). value_of vs f = im_default R (f_typ f)"
    and single: "at_transparent attrs \<longrightarrow> fl_skipped F = []"
  shows "\<exists>dec. decode_on_struct S order R s = Inr dec \<and> decoded_back dec (enc vs) vs"
proof (cases "at_transparent attrs")
  case False
  from enc s(1) False have few: "length (fl_fields F) < 2 ^ 32"
    by (auto simp: encode_on_struct_def struct_parts_def bind_r_Inr check_max_fields_def split: if_splits)
  note d = fields_ok_distinct [OF struct_parts_fields(1) [OF s(1)]]
  have same: "same_fields (fl_fields F) (fl_fields F)"
    unfolding same_fields_def using same_key [OF d] by (auto simp: same_field_def)
  have "value_of vs g = read_back R (fl_fields F) vs g" if "g \<in> set (fl_fields F)" for g
    by (rule read_back_shared [OF that d refl, symmetric])
  then have "decoded_back (seq_m (gen_decode_tag attrs) (with_pos (\<lambda>p.
      bind_m (gen_statements R (encoding_or default_encoding attrs) False 0 (fl_fields F))
        (gen_inits R p (ss_ident s) (ss_kind s) F)))) (enc vs) vs"
    unfolding sum.inject(2) [THEN iffD1, OF enc [unfolded on_struct_parts(1) [OF s(1) False few]], symmetric]
    using struct_parts_fields(2) [OF s(1)] s(2) vs
    by (intro field_impls.struct_read [OF R struct_parts_fields(1) [OF s(1)] same _ few struct_parts_fields(1) [OF s(1)]]) auto
  then show ?thesis using on_struct_parts(2) [OF s(1) False] by blast
next
  case True
  from enc s(1) True obtain f where f: "fl_fields F = [f]" "enc = (\<lambda>vs. gen_encode_fn R f (value_of vs f))"
    by (auto simp: encode_on_struct_def struct_parts_def bind_r_Inr transparent_check_def split: list.splits)
  then have dec: "decode_on_struct S order R s = Inr (map_m (\<lambda>v. [v]) (gen_decode_fn R f))"
    using s(1) True by (auto simp: decode_on_struct_def struct_parts_def bind_r_Inr transparent_check_def)
  have p: "mset [f_pos f] = mset [0..<length vs]" using struct_parts_fields(2) [OF s(1)] f(1) single True s(2) by simp
  then have n: "length vs = 1" using mset_eq_length [OF p] by simp
  with p have "f_pos f = 0" by simp
  with n have one: "[value_of vs f] = vs" by (cases vs) (auto simp: value_of_def)
  have ok: "ok f (value_of vs f)" using vs(1) f(1) by simp
  have "decoded_back (map_m (\<lambda>v. [v]) (gen_decode_fn R f)) (enc vs) [value_of vs f]"
    unfolding f(2) using field_impls.item_read [OF R ok]
    by (intro decoded_backI [OF field_impls.item_written [OF R ok]] reads_map) (simp add: usize_bound_def)
  with dec one show ?thesis by simp
qed

definition struct_specs :: "attributes \<times> fields \<Rightarrow>
    bool \<times> encoding option \<times> (usize \<times> int \<times> ty \<times> u64 option \<times> custom_codec option \<times> bool) list \<times> nat" where
  "struct_specs p = (case p of (attrs, F) \<Rightarrow>
     (at_transparent attrs, at_encoding attrs, map field_spec (fl_fields F), length (fl_skipped F)))"

definition parts_match ::
  "syn_struct \<Rightarrow> bool \<times> encoding option \<times> (usize \<times> int \<times> ty \<times> u64 option \<times> custom_codec option \<times> bool) list \<times> nat \<Rightarrow> bool" where
  "parts_match s x = (case struct_parts plain_syn hash_order s of Inr p \<Rightarrow> struct_specs p = x | Inl _ \<Rightarrow> False)"

definition demo_old :: syn_struct where
  "demo_old = demo_struct [] [demo_field ''x'' 0 ty_u64 [], demo_field ''y'' 2 ty_u64 []]"

definition demo_new :: syn_struct where
  "demo_new = demo_struct [] [demo_field ''b'' 2 ty_u64 [], demo_field ''extra'' 5 ty_opt [], demo_field ''a'' 0 ty_u64 [],
     demo_field ''gap'' 1 ty_opt []]"

lemma demo_parts:
  "parts_match demo_old (False, None, [(0, 0, ty_u64, None, None, False), (1, 2, ty_u64, None, None, False)], 0)"
  "parts_match demo_new (False, None, [(2, 0, ty_u64, None, None, False), (3, 1, ty_opt, None, None, False),
     (0, 2, ty_u64, None, None, False), (1, 5, ty_opt, None, None, False)], 0)"
  by code_simp+

lemma parts_matchE:
  assumes "parts_match s (t, e, specs, n)"
  obtains attrs F where "struct_parts plain_syn hash_order s = Inr (attrs, F)" "at_transparent attrs = t"
    "at_encoding attrs = e" "map field_spec (fl_fields F) = specs" "length (fl_skipped F) = n"
  using assms by (auto simp: parts_match_def struct_specs_def split: sum.splits)

lemma lib_optional:
  assumes "f_typ g = ty_opt" "at_codec (f_attrs g) = None" "at_tag (f_attrs g) = None"
  shows "absent lib_impls g = Some (LOpt None)" "may_be_missing lib_impls e g"
proof -
  show a: "absent lib_impls g = Some (LOpt None)" using assms(1) by (simp add: absent_def) (simp add: lib_impls_def)
  have "lib_ok g (LOpt None)" using assms by (simp add: lib_ok_def)
  from lib_read [OF this] have "reads (gen_decode_fn lib_impls g) [0xf6] (LOpt None)"
    by (simp add: lib_item_def usize_bound_def)
  with a assms(3) show "may_be_missing lib_impls e g" by (auto simp: may_be_missing_def)
qed

text \<open>A structure with two numbers, read by a version with other names and order and two new optional fields.\<close>

lemma versions_compatible_witness:
  "\<exists>enc dec. encode_on_struct plain_syn hash_order lib_impls vec_write_all demo_old = Inr enc \<and>
     decode_on_struct plain_syn hash_order lib_impls demo_new = Inr dec \<and>
     decoded_back dec (enc [LU64 1, LU64 2]) [LU64 2, LOpt None, LU64 1, LOpt None]"
proof -
  from demo_parts(1) obtain a F where s: "struct_parts plain_syn hash_order demo_old = Inr (a, F)" "at_transparent a = False"
    "map field_spec (fl_fields F) = [(0, 0, ty_u64, None, None, False), (1, 2, ty_u64, None, None, False)]"
    "length (fl_skipped F) = 0" by (rule parts_matchE) simp
  from demo_parts(2) obtain b G where t: "struct_parts plain_syn hash_order demo_new = Inr (b, G)"
    "map field_spec (fl_fields G) = [(2, 0, ty_u64, None, None, False), (3, 1, ty_opt, None, None, False),
     (0, 2, ty_u64, None, None, False), (1, 5, ty_opt, None, None, False)]" "length (fl_skipped G) = 0"
    by (rule parts_matchE) simp
  have "b = a" using s(1) t(1) by (auto simp: struct_parts_def bind_r_Inr demo_old_def demo_new_def demo_struct_def)
  with t(1) have t1: "struct_parts plain_syn hash_order demo_new = Inr (a, G)" by simp
  from s(3) obtain f0 f1 where F: "fl_fields F = [f0, f1]" "field_spec f0 = (0, 0, ty_u64, None, None, False)"
    "field_spec f1 = (1, 2, ty_u64, None, None, False)" by (auto simp: map_eq_Cons_conv)
  from t(2) obtain g0 g1 g2 g5 where G: "fl_fields G = [g0, g1, g2, g5]" "field_spec g0 = (2, 0, ty_u64, None, None, False)"
    "field_spec g1 = (3, 1, ty_opt, None, None, False)" "field_spec g2 = (0, 2, ty_u64, None, None, False)"
    "field_spec g5 = (1, 5, ty_opt, None, None, False)" by (auto simp: map_eq_Cons_conv)
  show ?thesis
  proof (rule versions_compatible [OF lib.field_impls_axioms s(1) _ _ t1])
    show "length (fl_fields F) < 2 ^ 32" "\<not> at_transparent a" using F(1) s(2) by simp_all
    show "same_fields (fl_fields F) (fl_fields G)"
      using F G by (simp add: same_fields_def same_field_def field_spec_def)
    show "\<forall>f\<in>set (fl_fields F). lib_ok f (value_of [LU64 1, LU64 2] f)"
      using F by (simp add: lib_ok_def value_of_def field_spec_def)
    show "\<forall>g\<in>set (fl_fields G). (\<forall>f\<in>set (fl_fields F). field_key f \<noteq> field_key g) \<longrightarrow>
        may_be_missing lib_impls (encoding_or default_encoding a) g"
      using F G lib_optional(2) by (simp add: field_spec_def)
    show "\<forall>g\<in>set (fl_fields G). value_of [LU64 2, LOpt None, LU64 1, LOpt None] g =
        read_back lib_impls (fl_fields F) [LU64 1, LU64 2] g"
      using F G lib_optional(1) by (simp add: field_spec_def value_of_def read_back_def)
  qed (use t(3) in \<open>simp_all add: demo_new_def demo_struct_def\<close>)
qed

definition demo_full :: syn_struct where
  "demo_full = demo_struct [cbor_flag ''map'', cbor_tag 7] [demo_field ''x'' (- 1) ty_u64 [cbor_tag 9],
     demo_field ''y'' 3 ty_opt []]"

lemma derived_struct_round_trip_witness:
  "\<exists>enc dec. encode_on_struct plain_syn hash_order lib_impls vec_write_all demo_full = Inr enc \<and>
     decode_on_struct plain_syn hash_order lib_impls demo_full = Inr dec \<and>
     decoded_back dec (enc [LU64 300, LOpt None]) [LU64 300, LOpt None]"
proof -
  have "parts_match demo_full (False, Some EncMap,
      [(1, 3, ty_opt, None, None, False), (0, - 1, ty_u64, Some 9, None, False)], 0)" by code_simp
  then obtain a F where s: "struct_parts plain_syn hash_order demo_full = Inr (a, F)" "at_transparent a = False"
    "map field_spec (fl_fields F) = [(1, 3, ty_opt, None, None, False), (0, - 1, ty_u64, Some 9, None, False)]"
    "length (fl_skipped F) = 0" by (rule parts_matchE) simp
  from s(3) obtain f0 f1 where F: "fl_fields F = [f0, f1]" "field_spec f0 = (1, 3, ty_opt, None, None, False)"
    "field_spec f1 = (0, - 1, ty_u64, Some 9, None, False)" by (auto simp: map_eq_Cons_conv)
  have few: "length (fl_fields F) < 2 ^ 32" using F(1) by simp
  let ?enc = "\<lambda>vs. seq_m (gen_encode_tag vec_write_all a)
    (gen_encode_fields lib_impls vec_write_all (encoding_or default_encoding a) False (fl_fields F) vs)"
  have enc: "encode_on_struct plain_syn hash_order lib_impls vec_write_all demo_full = Inr ?enc"
    using on_struct_parts(1) [OF s(1) _ few] s(2) by simp
  have "\<exists>dec. decode_on_struct plain_syn hash_order lib_impls demo_full = Inr dec \<and>
      decoded_back dec (?enc [LU64 300, LOpt None]) [LU64 300, LOpt None]"
  proof (rule derived_struct_round_trip [OF lib.field_impls_axioms enc s(1)])
    show "\<forall>f\<in>set (fl_fields F). lib_ok f (value_of [LU64 300, LOpt None] f)"
      using F by (simp add: lib_ok_def value_of_def field_spec_def)
  qed (use s(2,4) in \<open>simp_all add: demo_full_def demo_struct_def\<close>)
  with enc show ?thesis by blast
qed

end
