(* ===== verification/Derive_Enum.thy ===== *)
theory Derive_Enum
  imports Derive_Versions
begin

text \<open>
  Derived enumerations: the variants the macros accept, the round trip of regular, flat and \<open>index_only\<close>
  enumerations, and variants that the reader does not know.
\<close>

section \<open>Accepted variants\<close>

lemma map_r_Inr: "map_r f xs = Inr ys \<longleftrightarrow> list_all2 (\<lambda>x y. f x = Inr y) xs ys"
  by (induction xs arbitrary: ys) (auto simp: bind_r_Inr list_all2_Cons1)

definition row_encoding :: "attributes \<Rightarrow> attributes \<Rightarrow> encoding" where
  "row_encoding enum_attrs va = encoding_or (encoding_or default_encoding enum_attrs) va"

lemma parent_row_encoding: "parent_encoding [va, enum_attrs] = row_encoding enum_attrs va"
  by (simp add: parent_encoding_def row_encoding_def encoding_or_def List.map_filter_def split: option.splits)

lemma variant_from_Inr:
  assumes "variant_from S order parent v = Inr (i, va)"
  shows "at_flat parent \<Longrightarrow> at_tag va = None \<and> row_encoding parent va = EncArray"
proof -
  have two: "e = EncMap \<or> e = EncArray" for e by (cases e) simp_all
  show "at_flat parent \<Longrightarrow> at_tag va = None \<and> row_encoding parent va = EncArray"
    using assms two
    by (auto simp: variant_from_def bind_r_Inr row_encoding_def encoding_or_def is_map_encoding_def default_encoding_def
        split: if_splits option.splits)
qed

text \<open>What a macro with the weaker check sees of the same enumeration.\<close>

lemma enum_rows_weaken:
  assumes "enum_rows S order check s = Inr (attrs, rows)"
    and "\<And>k fs. check attrs k fs = Inr () \<Longrightarrow> check' attrs k fs = Inr ()"
  shows "enum_rows S order check' s = Inr (attrs, rows)"
proof -
  from assms(1) obtain xs where a: "try_from_iter S order LEnum (se_attrs s) = Inr attrs"
    "variants_try_from S order attrs (se_variants s) = Inr xs"
    and rows: "list_all2 (\<lambda>x y. variant_fields S order attrs (check attrs) x = Inr y) (zip (se_variants s) xs) rows"
    by (auto simp: enum_rows_def bind_r_Inr map_r_Inr)
  have "list_all2 (\<lambda>x y. variant_fields S order attrs (check' attrs) x = Inr y) (zip (se_variants s) xs) rows"
    by (rule list_all2_mono [OF rows]) (auto simp: variant_fields_def bind_r_Inr assms(2) split: prod.splits)
  with a show ?thesis by (auto simp: enum_rows_def bind_r_Inr map_r_Inr)
qed

lemma accepted_rows:
  assumes "enum_rows S order check s = Inr (attrs, rows)"
  shows "length rows = length (se_variants s)"
    "distinct (map (\<lambda>r. idx_val (fst (snd r))) rows)"
    "n < length rows \<Longrightarrow> rows ! n = (sv, i, va, F) \<Longrightarrow>
      sv = se_variants s ! n \<and> fields_try_from S order [va, attrs] (sv_fields sv) = Inr F \<and>
      check attrs (sv_kind sv) (fl_fields F) = Inr () \<and>
      (at_flat attrs \<longrightarrow> at_tag va = None \<and> row_encoding attrs va = EncArray)"
    "enum_rows S order (\<lambda>_ _ _. Inr ()) s = Inr (attrs, rows)"
proof -
  from assms obtain xs where a: "try_from_iter S order LEnum (se_attrs s) = Inr attrs"
    and xs: "list_all2 (\<lambda>v y. variant_from S order attrs v = Inr y) (se_variants s) xs"
    and u: "distinct (map (idx_val \<circ> fst) xs)"
    and rows: "list_all2 (\<lambda>x y. variant_fields S order attrs (check attrs) x = Inr y) (zip (se_variants s) xs) rows"
    by (auto simp: enum_rows_def variants_try_from_def bind_r_Inr map_r_Inr check_uniq_distinct)
  have l: "length xs = length (se_variants s)" using list_all2_lengthD [OF xs] by simp
  with list_all2_lengthD [OF rows] show len: "length rows = length (se_variants s)" by simp
  have row: "variant_fields S order attrs (check attrs) (se_variants s ! n, xs ! n) = Inr (rows ! n)" if "n < length rows" for n
    using list_all2_nthD2 [OF rows that] that len l by simp
  have parts: "sv = se_variants s ! n \<and> (i, va) = xs ! n \<and> fields_try_from S order [va, attrs] (sv_fields sv) = Inr F \<and>
      check attrs (sv_kind sv) (fl_fields F) = Inr ()" if "n < length rows" "rows ! n = (sv, i, va, F)" for n sv i va F
    using row [OF that(1)] that(2) by (cases "xs ! n") (auto simp: variant_fields_def bind_r_Inr)
  have "map (\<lambda>r. idx_val (fst (snd r))) rows = map (idx_val \<circ> fst) xs"
  proof (rule nth_equalityI)
    fix n assume "n < length (map (\<lambda>r. idx_val (fst (snd r))) rows)"
    then have n: "n < length rows" by simp
    obtain sv i va F where r: "rows ! n = (sv, i, va, F)" by (cases "rows ! n") auto
    have "xs ! n = (i, va)" using parts [OF n r] by simp
    then show "map (\<lambda>r. idx_val (fst (snd r))) rows ! n = map (idx_val \<circ> fst) xs ! n" using n r l len by simp
  qed (use l len in simp)
  with u show "distinct (map (\<lambda>r. idx_val (fst (snd r))) rows)" by simp
  show "n < length rows \<Longrightarrow> rows ! n = (sv, i, va, F) \<Longrightarrow>
      sv = se_variants s ! n \<and> fields_try_from S order [va, attrs] (sv_fields sv) = Inr F \<and>
      check attrs (sv_kind sv) (fl_fields F) = Inr () \<and>
      (at_flat attrs \<longrightarrow> at_tag va = None \<and> row_encoding attrs va = EncArray)"
  proof -
    assume n: "n < length rows" "rows ! n = (sv, i, va, F)"
    have "variant_from S order attrs (se_variants s ! n) = Inr (i, va)"
      using list_all2_nthD [OF xs, of n] parts [OF n] n(1) len l by simp
    with parts [OF n] variant_from_Inr [OF this] show ?thesis by blast
  qed
  show "enum_rows S order (\<lambda>_ _ _. Inr ()) s = Inr (attrs, rows)" by (rule enum_rows_weaken [OF assms]) simp
qed

lemma row_at_own:
  assumes "distinct (map (\<lambda>r. idx_val (fst (snd r))) rows)" "n < length rows" "rows ! n = (sv, i, va, F)"
  shows "row_at (sint (idx_val i)) rows = Some n"
proof -
  have "\<exists>k. row_at (sint (idx_val i)) rows = Some k"
    using assms(2,3) unfolding row_at_def by (cases "row_at (sint (idx_val i)) rows")
      (force simp: row_at_def find_None_iff)+
  then obtain k where k: "row_at (sint (idx_val i)) rows = Some k" by blast
  then have "k < length rows" "sint (idx_val (fst (snd (rows ! k)))) = sint (idx_val i)"
    unfolding row_at_def by (auto dest: find_SomeD)
  then have "k < length rows" "idx_val (fst (snd (rows ! k))) = idx_val (fst (snd (rows ! n)))"
    using assms(3) by (auto intro: signed_word_eqI)
  then have "k = n" using assms(1,2) by (simp add: distinct_conv_nth) metis
  with k show ?thesis by simp
qed

section \<open>Round trip\<close>

text \<open>What stands in front of the index, and the length it announces.\<close>

definition head_ok :: "attributes \<Rightarrow> bytes \<Rightarrow> u64 \<Rightarrow> bool" where
  "head_ok attrs h len \<longleftrightarrow>
     (if at_index_only attrs then h = [] \<and> len = 0
      else if at_flat attrs then h = head_bytes ARRAY (unat len) \<and> len \<noteq> 0
      else h = [0x82] \<and> len = 2)"

lemma bind_with_pos: "bind_m (with_pos f) k = with_pos (\<lambda>p. bind_m (f p) k)"
  by (simp add: fun_eq_iff bind_m_def with_pos_def)

lemma map_bind: "map_m g (bind_m m f) = bind_m m (\<lambda>x. map_m g (f x))"
  by (auto simp: fun_eq_iff bind_m_def map_m_def split: prod.splits sum.splits)

text \<open>\<open>m\<close> passes over \<open>bs\<close> and then reports an unknown variant.\<close>

definition refuses :: "'a dec \<Rightarrow> bytes \<Rightarrow> bool" where
  "refuses m bs \<longleftrightarrow> (\<forall>pre post. length (pre @ bs @ post) < usize_bound \<longrightarrow>
     (\<exists>e. is_unknown_variant e \<and> m (at_bytes pre (bs @ post)) = (Inl e, at_bytes (pre @ bs) post)))"

lemma refuses_bind: "reads m bs x \<Longrightarrow> refuses (f x) cs \<Longrightarrow> refuses (bind_m m f) (bs @ cs)"
  unfolding refuses_def
proof (intro allI impI)
  fix pre post
  assume m: "reads m bs x" and f: "\<forall>pre post. length (pre @ cs @ post) < usize_bound \<longrightarrow>
      (\<exists>e. is_unknown_variant e \<and> f x (at_bytes pre (cs @ post)) = (Inl e, at_bytes (pre @ cs) post))"
    and len: "length (pre @ (bs @ cs) @ post) < usize_bound"
  have "m (at_bytes pre (bs @ cs @ post)) = (Inr x, at_bytes (pre @ bs) (cs @ post))"
    using yields_at [OF m, of pre "cs @ post"] len by simp
  moreover from f [rule_format, of "pre @ bs" post] len obtain e where
    "is_unknown_variant e" "f x (at_bytes (pre @ bs) (cs @ post)) = (Inl e, at_bytes ((pre @ bs) @ cs) post)" by auto
  ultimately show "\<exists>e. is_unknown_variant e \<and>
      bind_m m f (at_bytes pre ((bs @ cs) @ post)) = (Inl e, at_bytes (pre @ bs @ cs) post)"
    by (auto simp: bind_m_def)
qed

lemma refuses_with_pos: "(\<And>p. refuses (f p) bs) \<Longrightarrow> refuses (with_pos f) bs"
  by (simp add: refuses_def with_pos_def)

lemma refuses_fail: "is_unknown_variant e \<Longrightarrow> refuses (fail_m e) []"
  by (simp add: refuses_def fail_m_def)

lemma refuses_map: "refuses m bs \<Longrightarrow> refuses (map_m f m) bs"
  unfolding refuses_def map_m_def bind_m_def by fastforce

lemma enum_head_reads:
  assumes "head_ok attrs h len"
  shows "\<exists>m. enum_head attrs = with_pos m \<and> (\<forall>p. reads (m p) h (p, len))"
proof (intro exI conjI allI)
  show "enum_head attrs = with_pos (\<lambda>p. if at_index_only attrs then ret_m (p, 0) else bind_m dec_array (\<lambda>n.
      if at_flat attrs then (case n of
          None \<Rightarrow> fail_m (err_at p (err_message ''flat enum requires definite-length array''))
        | Some k \<Rightarrow> if k = 0 then fail_m (err_at p (err_message ''flat enum requires non-empty array'')) else ret_m (p, k))
      else if n \<noteq> Some 2 then fail_m (err_at p (err_message ''expected enum (2-element array)'')) else ret_m (p, 2)))"
    by (simp add: enum_head_def)
  fix p
  have array: "reads dec_array (head_bytes ARRAY (unat len)) (Some len)"
    using reads_array [OF is_head_head_bytes [of "unat len" ARRAY]] unat_lt [of len] by simp
  consider (index) "at_index_only attrs" | (flat) "\<not> at_index_only attrs" "at_flat attrs"
    | (regular) "\<not> at_index_only attrs" "\<not> at_flat attrs" by blast
  then show "reads (if at_index_only attrs then ret_m (p, 0) else bind_m dec_array (\<lambda>n.
      if at_flat attrs then (case n of
          None \<Rightarrow> fail_m (err_at p (err_message ''flat enum requires definite-length array''))
        | Some k \<Rightarrow> if k = 0 then fail_m (err_at p (err_message ''flat enum requires non-empty array'')) else ret_m (p, k))
      else if n \<noteq> Some 2 then fail_m (err_at p (err_message ''expected enum (2-element array)'')) else ret_m (p, 2))) h (p, len)"
  proof cases
    case index
    then show ?thesis using assms reads_ret [of "(p, 0)"] by (simp add: head_ok_def)
  next
    case flat
    then show ?thesis using assms array reads_ret [of "(p, len)"] by (auto simp: head_ok_def intro!: yields_then)
  next
    case regular
    then show ?thesis using assms reads_array_small(3) reads_ret [of "(p, 2)"] by (auto simp: head_ok_def intro!: yields_then)
  qed
qed

lemma enum_head_then:
  assumes "head_ok attrs h len"
  shows "(\<And>p. reads (k (p, len)) cs x) \<Longrightarrow> reads (bind_m (enum_head attrs) k) (h @ cs) x"
    "(\<And>p. refuses (l (p, len)) cs) \<Longrightarrow> refuses (bind_m (enum_head attrs) l) (h @ cs)"
proof -
  obtain m where m: "enum_head attrs = with_pos m" "\<And>p. reads (m p) h (p, len)"
    using enum_head_reads [OF assms] by blast
  show "(\<And>p. reads (k (p, len)) cs x) \<Longrightarrow> reads (bind_m (enum_head attrs) k) (h @ cs) x"
    unfolding m(1) bind_with_pos by (intro yields_with_pos yields_bind [OF m(2)])
  show "(\<And>p. refuses (l (p, len)) cs) \<Longrightarrow> refuses (bind_m (enum_head attrs) l) (h @ cs)"
    unfolding m(1) bind_with_pos by (intro refuses_with_pos refuses_bind [OF m(2)])
qed

lemma index_then:
  assumes "row_at (sint (x :: i64)) rows = Some n" "reads (f n) cs y"
  shows "reads (with_pos (\<lambda>q. bind_m dec_i64 (\<lambda>i. case row_at (sint i) rows of Some n \<Rightarrow> f n | None \<Rightarrow> g q i)))
    (int_head (sint x) @ cs) y"
proof (rule yields_with_pos)
  fix q
  show "reads (bind_m dec_i64 (\<lambda>i. case row_at (sint i) rows of Some n \<Rightarrow> f n | None \<Rightarrow> g q i)) (int_head (sint x) @ cs) y"
    by (rule yields_bind [OF reads_int_head(8)]) (simp add: assms)
qed

context field_impls begin

lemma own_fields_read:
  assumes F: "fields_ok e (fl_fields F)" "\<And>f. f \<in> set (fl_fields F) \<Longrightarrow> ok_in vs f" "length (fl_fields F) < 2 ^ 32"
    and p: "mset (map f_pos (fl_fields F @ fl_skipped F)) = mset [0..<length vs]"
    and k: "\<And>g. g \<in> set (fl_skipped F) \<Longrightarrow> value_of vs g = im_default R (f_typ g)"
  obtains bs where "vec_sink.emits (gen_encode_fields R vec_write_all e False (fl_fields F) vs) bs"
    "length bs < usize_bound \<Longrightarrow>
      \<forall>p name kind. reads (bind_m (gen_statements R e False n (fl_fields F)) (gen_inits R p name kind F)) bs vs"
proof -
  note d = fields_ok_distinct [OF F(1)]
  have same: "same_fields (fl_fields F) (fl_fields F)"
    unfolding same_fields_def using same_key [OF d] by (auto simp: same_field_def)
  have own: "value_of vs g = read_back R (fl_fields F) vs g" if "g \<in> set (fl_fields F)" for g
    by (rule read_back_shared [OF that d refl, symmetric])
  show ?thesis
    by (rule statements_read [OF F(1) same F(2,3) F(1), where n = n]) (use that inits_read [OF _ _ p own k] in \<open>blast+\<close>)
qed

lemma own_flat_read:
  assumes F: "fields_ok EncArray (fl_fields F)" "\<And>f. f \<in> set (fl_fields F) \<Longrightarrow> ok_in vs f"
    and p: "mset (map f_pos (fl_fields F @ fl_skipped F)) = mset [0..<length vs]"
    and k: "\<And>g. g \<in> set (fl_skipped F) \<Longrightarrow> value_of vs g = im_default R (f_typ g)"
    and len: "length (concat (elem_bytes vs (fl_fields F))) < usize_bound" "unat m = Suc (elem_count R vs (fl_fields F))"
  shows "reads (bind_m (gen_statements R EncArray True m (fl_fields F)) (gen_inits R p name kind F))
    (concat (elem_bytes vs (fl_fields F))) vs"
proof -
  note d = fields_ok_distinct [OF F(1)]
  have same: "same_fields (fl_fields F) (fl_fields F)"
    unfolding same_fields_def using same_key [OF d] by (auto simp: same_field_def)
  have own: "value_of vs g = read_back R (fl_fields F) vs g" if "g \<in> set (fl_fields F)" for g
    by (rule read_back_shared [OF that d refl, symmetric])
  from array_read [OF F(1) same F(2) F(1) _ len(1), of 0 m] len(2) obtain \<tau> where
    "slots_ready (fl_fields F) vs (fl_fields F) \<tau>"
    "reads (gen_statements R EncArray True m (fl_fields F)) (concat (elem_bytes vs (fl_fields F))) (map \<tau> (fl_fields F))"
    by blast
  from inits_read [OF this p own k] show ?thesis by simp
qed

lemma emits_flat_head:
  assumes "fields_ok EncArray fs"
  shows "vec_sink.emits (case max_index R fs vs of Some m \<Rightarrow> enc_array vec_write_all (m + 2) | None \<Rightarrow> enc_array vec_write_all 1)
    (head_bytes ARRAY (Suc (elem_count R vs fs)))" "Suc (elem_count R vs fs) < 2 ^ 64"
proof -
  show "vec_sink.emits (case max_index R fs vs of Some m \<Rightarrow> enc_array vec_write_all (m + 2) | None \<Rightarrow> enc_array vec_write_all 1)
      (head_bytes ARRAY (Suc (elem_count R vs fs)))"
  proof (cases "max_index R fs vs")
    case None
    then show ?thesis using emits_array_small(2) elem_count_None [OF None] by (simp add: head_bytes_def)
  next
    case (Some i)
    then show ?thesis using emits_array [of "i + 2"] max_index_count [OF assms Some] by simp
  qed
  show "Suc (elem_count R vs fs) < 2 ^ 64"
  proof (cases "max_index R fs vs")
    case (Some i)
    from max_index_count [OF assms Some] show ?thesis using unat_lt [of "i + 2"] by simp
  qed (simp add: elem_count_None)
qed

lemma unit_row_read:
  assumes unit: "sv_kind sv = FieldsUnit" and flat: "at_flat attrs \<Longrightarrow> row_encoding attrs va = EncArray"
  obtains h len cs where
    "vec_sink.emits (encode_row R vec_write_all attrs (sv_kind sv) i va fs vs) (h @ int_head (sint (idx_val i)) @ cs)"
    "head_ok attrs h len" "\<And>p name. reads (decode_row R name attrs p len n (sv, i, va, F)) cs (n, [])"
proof -
  have idx: "vec_sink.emits (enc_i64 vec_write_all (idx_val i)) (int_head (sint (idx_val i)))" by (rule vec_sink.emits_i64)
  consider (index) "at_index_only attrs" | (flat) "\<not> at_index_only attrs" "at_flat attrs"
    | (regular) "\<not> at_index_only attrs" "\<not> at_flat attrs" by blast
  then show ?thesis
  proof cases
    case index
    show ?thesis
      by (rule that [of "[]" "[]" 0]) (use index unit idx reads_ret in \<open>simp_all add: encode_row_def decode_row_def head_ok_def\<close>)
  next
    case flat
    show ?thesis
      by (rule that [of "[0x81]" "[]" 1]) (use flat unit assms(2) vec_sink.emits_seq [OF emits_array_small(2) idx] reads_ret in
        \<open>simp_all add: encode_row_def decode_row_def head_ok_def head_bytes_def row_encoding_def\<close>)
  next
    case regular
    define body :: bytes where "body = (if row_encoding attrs va = EncArray then [0x80] else [0xa0])"
    have m: "vec_sink.emits (enc_map vec_write_all 0) [0xa0]"
      using vec_sink.emits_type_len [of MAP 0] by (simp add: enc_map_def head_bytes_def)
    have b: "vec_sink.emits (case row_encoding attrs va of EncArray \<Rightarrow> enc_array vec_write_all 0 | EncMap \<Rightarrow> enc_map vec_write_all 0) body"
      using emits_array_small(1) m by (simp add: body_def split: encoding.split)
    have "encodes (CArray []) ([0x80] @ [])" "encodes (CMap []) ([0xa0] @ [])"
      using is_head_head_bytes [of 0 ARRAY] is_head_head_bytes [of 0 MAP]
      by (intro enc_list enc_dict; simp add: enc_seq_nil head_bytes_def)+
    then have s: "reads dec_skip body ()" using reads_skip by (auto simp: body_def)
    show ?thesis
    proof (rule that [of "[0x82]" "tag_bytes va @ body" 2])
      show "vec_sink.emits (encode_row R vec_write_all attrs (sv_kind sv) i va fs vs)
          ([0x82] @ int_head (sint (idx_val i)) @ tag_bytes va @ body)"
        using vec_sink.emits_seq [OF emits_array_small(3) vec_sink.emits_seq [OF idx vec_sink.emits_seq [OF emits_tag b]]]
          regular unit by (simp add: encode_row_def row_encoding_def)
      show "reads (decode_row R name attrs p 2 n (sv, i, va, F)) (tag_bytes va @ body) (n, [])" for p name
        using yields_seq [OF reads_tag_bytes yields_seq [OF s reads_ret, of "(n, [])"], of va] regular unit
        by (simp add: decode_row_def)
    qed (use regular in \<open>simp add: head_ok_def\<close>)
  qed
qed

lemma row_read:
  assumes unit: "sv_kind sv = FieldsUnit \<Longrightarrow> vs = []" and index_only: "at_index_only attrs \<Longrightarrow> sv_kind sv = FieldsUnit"
    and flat: "at_flat attrs \<Longrightarrow> at_tag va = None \<and> row_encoding attrs va = EncArray"
    and F: "fields_ok (row_encoding attrs va) (fl_fields F)" "\<And>f. f \<in> set (fl_fields F) \<Longrightarrow> ok_in vs f"
      "sv_kind sv \<noteq> FieldsUnit \<Longrightarrow> length (fl_fields F) < 2 ^ 32"
    and p: "mset (map f_pos (fl_fields F @ fl_skipped F)) = mset [0..<length vs]"
    and k: "\<And>g. g \<in> set (fl_skipped F) \<Longrightarrow> value_of vs g = im_default R (f_typ g)"
  obtains h len cs where
    "vec_sink.emits (encode_row R vec_write_all attrs (sv_kind sv) i va (fl_fields F) vs) (h @ int_head (sint (idx_val i)) @ cs)"
    "head_ok attrs h len"
    "length cs < usize_bound \<Longrightarrow> \<forall>p name. reads (decode_row R name attrs p len n (sv, i, va, F)) cs (n, vs)"
proof (cases "sv_kind sv = FieldsUnit")
  case True
  from unit_row_read [OF True conjunct2 [OF flat]] unit [OF True] that show ?thesis by metis
next
  case False
  note idx = vec_sink.emits_i64 [of "idx_val i"]
  from index_only False have io: "\<not> at_index_only attrs" by blast
  let ?fs = "fl_fields F"
  show ?thesis
  proof (cases "at_flat attrs")
    case True
    with flat have e: "row_encoding attrs va = EncArray" and t: "at_tag va = None" by auto
    have fo: "fields_ok EncArray ?fs" using F(1) e by simp
    have m: "unat (of_nat (Suc (elem_count R vs ?fs)) :: u64) = Suc (elem_count R vs ?fs)"
      using emits_flat_head(2) [OF fo, of vs] by (simp add: unat_of_nat_u64 del: of_nat_Suc)
    show ?thesis
    proof (rule that [of "head_bytes ARRAY (Suc (elem_count R vs ?fs))" "concat (elem_bytes vs ?fs)" "of_nat (Suc (elem_count R vs ?fs))"])
      show "vec_sink.emits (encode_row R vec_write_all attrs (sv_kind sv) i va ?fs vs)
          (head_bytes ARRAY (Suc (elem_count R vs ?fs)) @ int_head (sint (idx_val i)) @ concat (elem_bytes vs ?fs))"
        using vec_sink.emits_seq [OF emits_flat_head(1) [OF fo] vec_sink.emits_seq [OF idx emits_fields_flat [OF fo F(2)]]]
          True False e by (simp add: encode_row_def row_encoding_def)
      have "of_nat (Suc (elem_count R vs ?fs)) \<noteq> (0 :: u64)" using m by (metis unsigned_0 nat.distinct(1))
      with m True io show "head_ok attrs (head_bytes ARRAY (Suc (elem_count R vs ?fs))) (of_nat (Suc (elem_count R vs ?fs)))"
        by (simp add: head_ok_def del: of_nat_Suc)
      assume "length (concat (elem_bytes vs ?fs)) < usize_bound"
      from reads_map [OF own_flat_read [OF fo F(2) p k this m], of "Pair n"]
      show "\<forall>p name. reads (decode_row R name attrs p (of_nat (Suc (elem_count R vs ?fs))) n (sv, i, va, F))
          (concat (elem_bytes vs ?fs)) (n, vs)"
        using True False e t by (simp add: decode_row_def row_encoding_def map_bind del: of_nat_Suc)
    qed
  next
    case regular: False
    obtain bs where bs: "vec_sink.emits (gen_encode_fields R vec_write_all (row_encoding attrs va) False ?fs vs) bs"
      and rd: "length bs < usize_bound \<Longrightarrow> \<forall>p name kind. reads (bind_m (gen_statements R (row_encoding attrs va) False 2 ?fs)
        (gen_inits R p name kind F)) bs vs"
      using own_fields_read [OF F(1,2) F(3) [OF False] p k, where n = 2] by blast
    show ?thesis
    proof (rule that [of "[0x82]" "tag_bytes va @ bs" 2])
      show "vec_sink.emits (encode_row R vec_write_all attrs (sv_kind sv) i va ?fs vs)
          ([0x82] @ int_head (sint (idx_val i)) @ tag_bytes va @ bs)"
        using vec_sink.emits_seq [OF emits_array_small(3) vec_sink.emits_seq [OF idx vec_sink.emits_seq [OF emits_tag bs]]]
          regular False by (simp add: encode_row_def row_encoding_def)
      assume "length (tag_bytes va @ bs) < usize_bound"
      then have "length bs < usize_bound" by simp
      from rd [OF this] have r: "reads (bind_m (gen_statements R (row_encoding attrs va) False 2 ?fs)
          (\<lambda>slots. map_m (Pair n) (gen_inits R p name kind F slots))) bs (n, vs)" for p name kind
        unfolding map_bind [symmetric] by (intro reads_map) simp
      show "\<forall>p name. reads (decode_row R name attrs p 2 n (sv, i, va, F)) (tag_bytes va @ bs) (n, vs)"
      proof (cases "at_tag va")
        case None
        then show ?thesis using r regular False by (simp add: decode_row_def row_encoding_def tag_bytes_def)
      next
        case (Some t)
        then show ?thesis using regular False
          by (auto simp: decode_row_def row_encoding_def [symmetric] intro!: yields_with_pos yields_seq [OF reads_tag_bytes] r)
      qed
    qed (use regular io in \<open>simp add: head_ok_def\<close>)
  qed
qed

end

text \<open>The decoder behind its checks.\<close>

definition enum_body :: "('v, 'w, 'e) impls \<Rightarrow> string \<Rightarrow> attributes \<Rightarrow> (syn_variant \<times> idx \<times> attributes \<times> fields) list \<Rightarrow>
    (nat \<times> 'v list) dec" where
  "enum_body R name attrs rows =
     seq_m (gen_decode_tag attrs) (bind_m (enum_head attrs) (\<lambda>(p, len).
       with_pos (\<lambda>q. bind_m dec_i64 (\<lambda>i. case row_at (sint i) rows of
           Some n \<Rightarrow> decode_row R name attrs p len n (rows ! n)
         | None \<Rightarrow> fail_m (err_at q (unknown_variant i))))))"

lemma decode_on_enum_rows:
  "enum_rows S order (\<lambda>_ _ _. Inr ()) s = Inr (attrs, rows) \<Longrightarrow>
     decode_on_enum S order R s = Inr (enum_body R (se_ident s) attrs rows)"
  by (simp add: decode_on_enum_def enum_body_def bind_r_Inr)

text \<open>C14: What the derived encoder of an enumeration writes, the derived decoder reads back as the same variant with the same
  fields: for regular, flat and index only enumerations, unit and tuple variants and variants with named
  fields, array and map encoding, tags on the enumeration, the variants and the fields.
\<close>

theorem derived_enum_round_trip:
  assumes R: "field_impls R ok item"
    and rows: "enum_rows S order encode_check s = Inr (attrs, rows)" "n < length rows" "rows ! n = (sv, i, va, F)"
    and vs: "length vs = length (sv_fields sv)" "\<forall>f\<in>set (fl_fields F). ok f (value_of vs f)"
      "\<forall>f\<in>set (fl_skipped F). value_of vs f = im_default R (f_typ f)"
    and unit: "sv_kind sv = FieldsUnit \<longrightarrow> sv_fields sv = []"
  shows "\<exists>enc dec. encode_on_enum S order R vec_write_all s = Inr enc \<and> decode_on_enum S order R s = Inr dec \<and>
    decoded_back dec (enc (n, vs)) (n, vs)"
proof (intro exI conjI)
  note a = accepted_rows [OF rows(1)]
  from a(3) [OF rows(2,3)] have F: "fields_try_from S order [va, attrs] (sv_fields sv) = Inr F"
    and check: "encode_check attrs (sv_kind sv) (fl_fields F) = Inr ()"
    and flat: "at_flat attrs \<Longrightarrow> at_tag va = None \<and> row_encoding attrs va = EncArray" by auto
  from check have io: "at_index_only attrs \<Longrightarrow> sv_kind sv = FieldsUnit"
    and few: "sv_kind sv \<noteq> FieldsUnit \<Longrightarrow> length (fl_fields F) < 2 ^ 32"
    by (auto simp: encode_check_def index_only_check_def check_max_fields_def bind_r_Inr split: if_splits)
  have F1: "fields_ok (row_encoding attrs va) (fl_fields F)"
    "mset (map f_pos (fl_fields F @ fl_skipped F)) = mset [0..<length vs]"
    using accepted_fields(1,2) [OF F] vs(1) by (simp_all add: parent_row_encoding)
  from row_at_own [OF a(2) rows(2,3)] have at: "row_at (sint (idx_val i)) rows = Some n" .
  show "encode_on_enum S order R vec_write_all s = Inr (\<lambda>(n, vs). case rows ! n of (sv, i, va, F) \<Rightarrow>
      seq_m (gen_encode_tag vec_write_all attrs) (encode_row R vec_write_all attrs (sv_kind sv) i va (fl_fields F) vs))"
    using rows(1) by (simp add: encode_on_enum_def bind_r_Inr)
  show "decode_on_enum S order R s = Inr (enum_body R (se_ident s) attrs rows)" by (rule decode_on_enum_rows [OF a(4)])
  obtain h len cs where
    w: "vec_sink.emits (encode_row R vec_write_all attrs (sv_kind sv) i va (fl_fields F) vs) (h @ int_head (sint (idx_val i)) @ cs)"
    and h: "head_ok attrs h len"
    and rd: "length cs < usize_bound \<Longrightarrow> \<forall>p name. reads (decode_row R name attrs p len n (sv, i, va, F)) cs (n, vs)"
    using field_impls.row_read [OF R _ io flat F1(1) _ few F1(2)] vs unit by (metis length_0_conv)
  show "decoded_back (enum_body R (se_ident s) attrs rows) ((\<lambda>(n, vs). case rows ! n of (sv, i, va, F) \<Rightarrow>
      seq_m (gen_encode_tag vec_write_all attrs) (encode_row R vec_write_all attrs (sv_kind sv) i va (fl_fields F) vs)) (n, vs)) (n, vs)"
    unfolding prod.case rows(3)
  proof (rule decoded_backI [OF vec_sink.emits_seq [OF emits_tag w]])
    assume "length (tag_bytes attrs @ h @ int_head (sint (idx_val i)) @ cs) < 2 ^ 64"
    then have "length cs < usize_bound" by (simp add: usize_bound_def)
    from rd [OF this] show "reads (enum_body R (se_ident s) attrs rows) (tag_bytes attrs @ h @ int_head (sint (idx_val i)) @ cs) (n, vs)"
      unfolding enum_body_def
      by (intro yields_seq [OF reads_tag_bytes] enum_head_then(1) [OF h]) (simp add: index_then [OF at] rows(3))
  qed
qed

section \<open>Unknown variants\<close>

lemma refuses_typed: "typed_value bs \<Longrightarrow> refuses m bs \<Longrightarrow> refuses (decode_option m) bs"
  unfolding typed_value_def
proof (elim exE conjE)
  fix t assume t: "peeks bs t" "t \<noteq> TyNull" and m: "refuses m bs"
  have "refuses (map_m Some m) bs" by (rule refuses_map [OF m])
  then show "refuses (decode_option m) bs"
    using t peeksD [OF t(1)] unfolding refuses_def decode_option_def by (auto simp: bind_m_def)
qed

lemma unknown_refused:
  assumes "head_ok attrs h len" "row_at (sint (x :: i64)) rows = None"
  shows "refuses (enum_body R name attrs rows) (tag_bytes attrs @ h @ int_head (sint x))"
proof -
  have "refuses (with_pos (\<lambda>q. bind_m dec_i64 (\<lambda>i. case row_at (sint i) rows of
        Some n \<Rightarrow> decode_row R name attrs p len n (rows ! n) | None \<Rightarrow> fail_m (err_at q (unknown_variant i)))))
      (int_head (sint x) @ [])" for p
    by (intro refuses_with_pos refuses_bind [OF reads_int_head(8)])
      (simp add: assms(2), rule refuses_fail, simp add: err_at_def unknown_variant_def is_unknown_variant_def err_of_def)
  then show ?thesis
    unfolding enum_body_def seq_m_def
    by (intro refuses_bind [OF reads_tag_bytes] enum_head_then(2) [OF assms(1)]) simp
qed

text \<open>A field that tolerates unknown variants skips exactly one item behind what was refused.\<close>

lemma refused_action:
  assumes "refuses (gen_decode_fn Q (fs ! j)) bs" "gen_skips_unknown Q (fs ! j)" "encodes c item"
  shows "reads (gen_action Q fs j slots) (tag_bytes (f_attrs (fs ! j)) @ bs @ item) slots"
proof -
  let ?m = "\<lambda>d. case gen_decode_fn Q (fs ! j) d of
       (Inr v, d1) \<Rightarrow> (Inr (slots[j := Some v]), d1)
     | (Inl e, d1) \<Rightarrow>
         if is_unknown_variant e \<and> gen_skips_unknown Q (fs ! j) then seq_m dec_skip (ret_m slots) d1 else (Inl e, d1)"
  have "reads ?m (bs @ item) slots"
  proof (rule yieldsI_at)
    fix pre post assume len: "length (pre @ (bs @ item) @ post) < usize_bound"
    from assms(1) len obtain e where "is_unknown_variant e"
      "gen_decode_fn Q (fs ! j) (at_bytes pre (bs @ item @ post)) = (Inl e, at_bytes (pre @ bs) (item @ post))"
      unfolding refuses_def by (metis append.assoc)
    moreover have "seq_m dec_skip (ret_m slots) (at_bytes (pre @ bs) (item @ post)) = (Inr slots, at_bytes ((pre @ bs) @ item) post)"
      using yields_at [OF yields_seq [OF reads_skip [OF assms(3)] reads_ret, of slots], of "pre @ bs" post] len by simp
    ultimately show "?m (at_bytes pre ((bs @ item) @ post)) = (Inr slots, at_bytes (pre @ bs @ item) post)"
      using assms(2) by simp
  qed
  from yields_seq [OF reads_tag_bytes this] show ?thesis by (simp add: gen_action_def)
qed

lemma unknown_action:
  assumes "enum_rows S order (\<lambda>_ _ _. Inr ()) t = Inr (attrs, rows)" "head_ok attrs h len" "row_at (sint (x :: i64)) rows = None"
    and "decode_on_enum S order R t = Inr dec" "gen_decode_fn Q (fs ! j) = map_m w (decode_option dec)"
    and "gen_skips_unknown Q (fs ! j)" "encodes c item"
  shows "reads (gen_action Q fs j slots) (tag_bytes (f_attrs (fs ! j)) @ tag_bytes attrs @ h @ int_head (sint x) @ item) slots"
proof -
  have dec: "dec = enum_body R (se_ident t) attrs rows" using assms(4) decode_on_enum_rows [OF assms(1), of R] by simp
  have "typed_value (h @ int_head (sint x))"
  proof (cases "at_index_only attrs")
    case True
    then show ?thesis using assms(2) sint_ge [of x] sint_lt [of x] typed_int_head [OF is_int_head_canonical, of "sint x"] by (simp add: head_ok_def)
  next
    case False
    have "typed_value (head_bytes ARRAY (unat len))" using unat_lt [of len] by simp
    then show ?thesis using False assms(2) typed_append(2) typed_plain [of "0x82" "int_head (sint x)"]
      by (cases "at_flat attrs") (auto simp: head_ok_def)
  qed
  then have "typed_value (tag_bytes attrs @ h @ int_head (sint x))"
  proof (cases "at_tag attrs")
    case (Some y)
    then show ?thesis using unat_lt [of y] by (simp add: tag_bytes_def typed_append)
  qed (simp add: tag_bytes_def)
  from refuses_map [OF refuses_typed [OF this unknown_refused [OF assms(2,3)]], of w R "se_ident t"]
  have "refuses (gen_decode_fn Q (fs ! j)) (tag_bytes attrs @ h @ int_head (sint x))" by (simp add: assms(5) dec)
  from refused_action [OF this assms(6,7)] show ?thesis by simp
qed

text \<open>C15: A reader that does not know a variant is not lost: when an optional field holds a variant of a regular
  enumeration that the enumeration does not have, whatever the payload of the variant is, exactly the item of the field is
  passed over and the field keeps the value it started with.
\<close>

theorem unknown_variant_skipped:
  assumes t: "enum_rows S order (\<lambda>_ _ _. Inr ()) t = Inr (attrs, rows)" "\<not> at_index_only attrs" "\<not> at_flat attrs"
    and unknown: "row_at (sint (x :: i64)) rows = None" and payload: "encodes c payload"
    and field: "decode_on_enum S order R t = Inr dec" "gen_decode_fn Q (fs ! j) = map_m w (decode_option dec)"
      "gen_skips_unknown Q (fs ! j)"
  shows "reads (gen_action Q fs j slots)
    (tag_bytes (f_attrs (fs ! j)) @ tag_bytes attrs @ [0x82] @ int_head (sint x) @ payload) slots"
  using t(2,3) by (intro unknown_action [OF t(1) _ unknown field payload]) (simp add: head_ok_def)

text \<open>
  For an \<open>index_only\<close> enumeration there is no payload, and the item that is skipped is the one behind the field: in
  an array the value of the next field, in a map the next key.
\<close>

lemma index_only_loses_next:
  assumes "enum_rows S order (\<lambda>_ _ _. Inr ()) t = Inr (attrs, rows)" "at_index_only attrs"
    and "row_at (sint (x :: i64)) rows = None" "encodes c next"
    and "decode_on_enum S order R t = Inr dec" "gen_decode_fn Q (fs ! j) = map_m w (decode_option dec)"
      "gen_skips_unknown Q (fs ! j)"
  shows "reads (gen_action Q fs j slots)
    (tag_bytes (f_attrs (fs ! j)) @ tag_bytes attrs @ int_head (sint x) @ next) slots"
  using unknown_action [OF assms(1) _ assms(3,5,6,7,4), of "[]" 0] assms(2) by (simp add: head_ok_def)

section \<open>Examples\<close>

definition demo_enum :: "syn_attribute list \<Rightarrow> syn_enum" where
  "demo_enum as = \<lparr>se_ident = ''E'', se_attrs = as, se_variants =
     [\<lparr>sv_ident = ''A'', sv_attrs = [n_attr 0], sv_kind = FieldsUnit, sv_fields = []\<rparr>,
      \<lparr>sv_ident = ''B'', sv_attrs = [n_attr 7], sv_kind = FieldsNamed,
        sv_fields = [demo_field ''x'' 0 ty_u64 [], demo_field ''y'' 2 ty_opt []]\<rparr>]\<rparr>"

definition index_attrs :: "level \<Rightarrow> int \<Rightarrow> attributes" where
  "index_attrs l k = at_insert KIndex (VIndex (IdxN (word_of_int k))) (attributes_new l)"

lemma index_attrs_get [simp]:
  "at_index (index_attrs l k) = Some (IdxN (word_of_int k))" "at_encoding (index_attrs l k) = None" "at_tag (index_attrs l k) = None"
  "at_codec (index_attrs l k) = None" "\<not> at_default (index_attrs l k)" "\<not> at_skip (index_attrs l k)" "\<not> at_transparent (index_attrs l k)"
  by (simp_all add: index_attrs_def at_index_def at_encoding_def at_tag_def at_codec_def at_default_def at_skip_def at_transparent_def
      at_get_def contains_key_def attributes_new_def)

lemma n_attr_accepted:
  assumes "supported l KIndex" "- (2 ^ 63) \<le> k" "k < 2 ^ 63"
  shows "try_from_iter plain_syn hash_order l [n_attr k] = Inr (index_attrs l k)"
proof -
  have n: "attributes_try_from plain_syn l (n_attr k) = Inr (index_attrs l k)"
    using assms by (simp add: attributes_try_from_def n_attr_def parse_i64_arg_def lit_int_def parse_int_def  try_insert_def insert_new_def
        at_get_def attributes_new_def index_attrs_def idx_is_b_def)
  have h: "hash_order (index_attrs l k) = [KIndex]"
    by (simp add: hash_order_def all_kinds_def index_attrs_def contains_key_def attributes_new_def)
  have "try_insert KIndex (VIndex (IdxN (word_of_int k))) (attributes_new l) = Inr (index_attrs l k)"
    using assms(1) by (simp add: try_insert_def insert_new_def at_get_def attributes_new_def index_attrs_def idx_is_b_def)
  then have "merge_attributes plain_syn hash_order [n_attr k] (attributes_new l) = Inr (index_attrs l k)"
    using n h by (simp add: ) (simp add: attributes_new_def at_get_def index_attrs_def at_insert_def)
  then show ?thesis
    by (simp add: try_from_iter_def  check_attributes_def contains_key_def index_attrs_def attributes_new_def)
qed
definition demo_made :: "usize \<Rightarrow> ident \<Rightarrow> int \<Rightarrow> ty \<Rightarrow> field" where
  "demo_made p name i t = \<lparr>f_pos = p, f_ident = name, f_is_name = True, f_index = IdxN (word_of_int i), f_typ = t, f_attrs = index_attrs LField i\<rparr>"

definition demo_rows :: "(syn_variant \<times> idx \<times> attributes \<times> fields) list" where
  "demo_rows =
     [(se_variants (demo_enum []) ! 0, IdxN 0, index_attrs LVariant 0, \<lparr>fl_fields = [], fl_skipped = []\<rparr>),
      (se_variants (demo_enum []) ! 1, IdxN 7, index_attrs LVariant 7,
        \<lparr>fl_fields = [demo_made 0 ''x'' 0 ty_u64, demo_made 1 ''y'' 2 ty_opt], fl_skipped = []\<rparr>)]"

lemma demo_made_sel [simp]:
  "f_index (demo_made p name i t) = IdxN (word_of_int i)" "f_attrs (demo_made p name i t) = index_attrs LField i"
  "f_pos (demo_made p name i t) = p" "f_typ (demo_made p name i t) = t"
  by (simp_all add: demo_made_def)

lemma demo_rows:
  assumes "try_from_iter plain_syn hash_order LEnum as = Inr a" "at_encoding a = None" "\<not> at_transparent a" "\<not> at_index_only a"
  shows "enum_rows plain_syn hash_order encode_check (demo_enum as) = Inr (a, demo_rows)"
proof -
  have "field_from plain_syn hash_order EncArray False p (demo_field name i t []) = Inr (demo_made p name i t)"
    if "0 \<le> i" "i < 3" for p name i t
    using that n_attr_accepted [of LField i]
    by (simp add: field_from_def demo_field_def supported_def index_of_def demo_made_def sint_word_of_int idx_val_def
        signed_take_bit_int_eq_self)
  then have fs: "fields_from plain_syn hash_order EncArray False 0 [demo_field ''x'' 0 ty_u64 [], demo_field ''y'' 2 ty_opt []] =
      Inr [demo_made 0 ''x'' 0 ty_u64, demo_made 1 ''y'' 2 ty_opt]" by simp
  have sort: "sort_key (\<lambda>f. bytewise_lexicographic (f_index f)) [demo_made p ''x'' 0 ty_u64, demo_made q ''y'' 2 ty_opt] =
      [demo_made p ''x'' 0 ty_u64, demo_made q ''y'' 2 ty_opt]" for p q
    by (simp add: bytewise_lexicographic_def idx_val_def unsigned_abs_def)
  have uniq: "check_uniq [IdxN 0, IdxN 2] = Inr ()" by (simp add: check_uniq_def idx_val_def)
  have e: "parent_encoding [index_attrs LVariant 7, a] = EncArray"
    using assms(2) by (simp add: parent_encoding_def List.map_filter_def default_encoding_def)
  have f: "fields_try_from plain_syn hash_order [index_attrs LVariant 7, a] [demo_field ''x'' 0 ty_u64 [], demo_field ''y'' 2 ty_opt []] =
      Inr \<lparr>fl_fields = [demo_made 0 ''x'' 0 ty_u64, demo_made 1 ''y'' 2 ty_opt], fl_skipped = []\<rparr>"
    unfolding fields_try_from_def e using assms(3) fs
    by (simp only: list.distinct simp_thms last.simps if_True if_False bind_r.simps Let_def)
      (simp add: sort uniq del: sort_key_simps fields_from.simps bind_r.simps(1))
  have v: "variant_from plain_syn hash_order a \<lparr>sv_ident = n, sv_attrs = [n_attr k], sv_kind = t, sv_fields = fs\<rparr> =
      Inr (IdxN (word_of_int k), index_attrs LVariant k)" if "k = 0 \<or> k = 7" for n k t fs
    using that n_attr_accepted [of LVariant k] assms(2)
    by (auto simp: variant_from_def supported_def ok_or_def is_map_encoding_def default_encoding_def)
  have "variants_try_from plain_syn hash_order a (se_variants (demo_enum as)) =
      Inr [(IdxN 0, index_attrs LVariant 0), (IdxN 7, index_attrs LVariant 7)]"
    using v [of 0] v [of 7] by (simp add: variants_try_from_def demo_enum_def check_uniq_def idx_val_def)
  moreover have "fields_try_from plain_syn hash_order [index_attrs LVariant 0, a] [] = Inr \<lparr>fl_fields = [], fl_skipped = []\<rparr>"
    by (simp add: fields_try_from_def check_uniq_def)
  ultimately show ?thesis
    using f assms(1,4) by (simp add: enum_rows_def demo_rows_def variant_fields_def encode_check_def index_only_check_def
        check_max_fields_def demo_enum_def)
qed

lemma flat_accepted:
  "try_from_iter plain_syn hash_order LEnum [cbor_flag ''flat''] = Inr (at_insert KFlat VFlat (attributes_new LEnum))"
proof -
  have n: "attributes_try_from plain_syn LEnum (cbor_flag ''flat'') = Inr (at_insert KFlat VFlat (attributes_new LEnum))"
    by (simp add: attributes_try_from_def cbor_flag_def parse_meta_def no_arg_def try_insert_def insert_new_def supported_def
        at_get_def attributes_new_def)
  have h: "hash_order (at_insert KFlat VFlat (attributes_new LEnum)) = [KFlat]"
    by (simp add: hash_order_def all_kinds_def contains_key_def attributes_new_def)
  have "try_insert KFlat VFlat (attributes_new LEnum) = Inr (at_insert KFlat VFlat (attributes_new LEnum))"
    by (simp add: try_insert_def insert_new_def at_get_def attributes_new_def supported_def)
  then have "merge_attributes plain_syn hash_order [cbor_flag ''flat''] (attributes_new LEnum) = Inr (at_insert KFlat VFlat (attributes_new LEnum))"
    using n h by simp (simp add: attributes_new_def at_get_def at_insert_def)
  then show ?thesis
    by (simp add: try_from_iter_def check_attributes_def contains_key_def attributes_new_def at_get_def)
qed

lemma plain_accepted: "try_from_iter plain_syn hash_order LEnum [] = Inr (attributes_new LEnum)"
  by (simp add: try_from_iter_def check_attributes_def contains_key_def attributes_new_def at_get_def)

lemmas at_defs = at_encoding_def at_transparent_def at_index_only_def at_flat_def contains_key_def attributes_new_def at_get_def

lemma derived_enum_round_trip_witness:
  "\<exists>enc dec. encode_on_enum plain_syn hash_order lib_impls vec_write_all (demo_enum [cbor_flag ''flat'']) = Inr enc \<and>
     decode_on_enum plain_syn hash_order lib_impls (demo_enum [cbor_flag ''flat'']) = Inr dec \<and>
     decoded_back dec (enc (1, [LU64 5, LOpt (Some 3)])) (1, [LU64 5, LOpt (Some 3)])"
proof -
  have e: "enum_rows plain_syn hash_order encode_check (demo_enum [cbor_flag ''flat'']) =
      Inr (at_insert KFlat VFlat (attributes_new LEnum), demo_rows)"
    by (rule demo_rows [OF flat_accepted]) (simp_all add: at_defs)
  show ?thesis
    by (rule derived_enum_round_trip [OF lib.field_impls_axioms e, of 1 "se_variants (demo_enum []) ! 1" "IdxN 7" "index_attrs LVariant 7"
          "\<lparr>fl_fields = [demo_made 0 ''x'' 0 ty_u64, demo_made 1 ''y'' 2 ty_opt], fl_skipped = []\<rparr>"])
      (simp_all add: demo_rows_def demo_enum_def lib_ok_def value_of_def demo_made_def)
qed

text \<open>A structure with one field of type \<open>Option<E>\<close>; \<open>Dec\<close> is the decoder of \<open>E\<close>.\<close>

definition option_impls :: "'a dec \<Rightarrow> ('a option, bytes, infallible) impls" where
  "option_impls Dec = \<lparr>im_encode = (\<lambda>_ _. ret_m ()), im_is_nil = (\<lambda>_ v. v = None), im_decode = (\<lambda>_. map_m id (decode_option Dec)),
     im_nil = (\<lambda>_. Some None), im_cbor_len = (\<lambda>_ _. 1), im_default = (\<lambda>_. None), fn_encode = (\<lambda>_ _. ret_m ()),
     fn_is_nil = (\<lambda>_ v. v = None), fn_decode = (\<lambda>_. map_m id (decode_option Dec)), fn_nil = (\<lambda>_. Some None),
     fn_cbor_len = (\<lambda>_ _. 1), opt_none = None, opt_is_none = (\<lambda>v. v = None)\<rparr>"

definition option_field :: field where
  "option_field = \<lparr>f_pos = 0, f_ident = ''f'', f_is_name = True, f_index = IdxN 0, f_typ = ty_opt, f_attrs = attributes_new LField\<rparr>"

lemma unknown_variant_skipped_witness:
  "\<exists>dec. decode_on_enum plain_syn hash_order lib_impls (demo_enum []) = Inr dec \<and>
     reads (gen_action (option_impls dec) [option_field] 0 [Some None]) [0x82, 3, 0xf6] [Some None]"
proof -
  note e = demo_rows [OF plain_accepted]
  have d: "enum_rows plain_syn hash_order (\<lambda>_ _ _. Inr ()) (demo_enum []) = Inr (attributes_new LEnum, demo_rows)"
    by (rule accepted_rows(4) [OF e]) (simp_all add: at_defs)
  let ?dec = "enum_body lib_impls (se_ident (demo_enum [])) (attributes_new LEnum) demo_rows"
  have r: "row_at (sint (3 :: i64)) demo_rows = None"
    by (simp add: row_at_def find_None_iff less_Suc_eq demo_rows_def idx_val_def)
  have c: "at_codec (attributes_new LField) = None" by (simp add: at_codec_def attributes_new_def at_get_def)
  have "gen_decode_fn (option_impls ?dec) ([option_field] ! 0) = map_m id (decode_option ?dec)"
    "gen_skips_unknown (option_impls ?dec) ([option_field] ! 0)"
    by (simp_all add: gen_decode_fn_def gen_skips_unknown_def option_field_def c) (simp add: option_impls_def)
  then have "reads (gen_action (option_impls ?dec) [option_field] 0 [Some None])
      (tag_bytes (f_attrs ([option_field] ! 0)) @ tag_bytes (attributes_new LEnum) @ [0x82] @ int_head (sint (3 :: i64)) @ [0xf6]) [Some None]"
    by (intro unknown_variant_skipped [OF d _ _ r encodes_null decode_on_enum_rows [OF d]]) (simp_all add: at_defs)
  moreover have "tag_bytes (attributes_new l) = []" for l by (simp add: tag_bytes_def at_tag_def attributes_new_def at_get_def)
  moreover have "int_head (sint (3 :: i64)) = [3]" by (simp add: int_head_def head_bytes_def UNSIGNED_def)
  ultimately show ?thesis using decode_on_enum_rows [OF d, of lib_impls] by (auto simp: option_field_def)
qed

end
