(* ===== verification/Derive_Len.thy ===== *)
theory Derive_Len
  imports Derive_Enum
begin

text \<open>
  The announced lengths of derived structures, and the order of the keys of the map encoding.
\<close>

section \<open>Lengths\<close>

locale field_lengths = field_impls +
  assumes item_length: "ok f v \<Longrightarrow> gen_cbor_len_fn R f v = length (item f v)"

lemma length_head_usize: "n < 2 ^ 64 \<Longrightarrow> length (head_bytes t n) = len_usize n"
  using len_unsigned(4) [of t "of_nat n"] by (simp add: len_usize_def unat_of_nat_u64)

lemma elem_count_Cons:
  "elem_count R vs (f # fs) =
     (if present R vs fs = [] then if gen_is_nil R f (value_of vs f) then 0 else Suc (nat (field_key f))
      else elem_count R vs fs)"
  by (simp add: elem_count_def present_def)

lemma elem_count_above:
  assumes "fields_ok EncArray fs" "\<And>f. f \<in> set fs \<Longrightarrow> int s \<le> field_key f" "present R vs fs \<noteq> []"
  shows "s < elem_count R vs fs"
proof -
  have "last (present R vs fs) \<in> set fs" using assms(3) present_subset last_in_set by blast
  from assms(2) [OF this] show ?thesis using assms(3) by (simp add: elem_count_def)
qed

definition elem_length :: "(field \<Rightarrow> bytes) \<Rightarrow> field list \<Rightarrow> nat \<Rightarrow> nat \<Rightarrow> nat" where
  "elem_length B fs a b = sum_list (map (\<lambda>j. length (elem_at B fs j)) [a..<b])"

lemma elem_length_cong:
  "(\<And>j. a \<le> j \<Longrightarrow> j < b \<Longrightarrow> length (elem_at B fs j) = length (elem_at B gs j)) \<Longrightarrow>
     elem_length B fs a b = elem_length B gs a b"
  unfolding elem_length_def by (intro arg_cong [where f = sum_list] map_cong) auto

lemma elem_length_gaps:
  assumes "\<And>f j. f \<in> set fs \<Longrightarrow> a \<le> j \<Longrightarrow> j < b \<Longrightarrow> field_key f \<noteq> int j"
  shows "elem_length B fs a b = b - a"
proof -
  have "map (\<lambda>j. length (elem_at B fs j)) [a..<b] = map (\<lambda>j. 1) [a..<b]"
    using elem_at_gap [of fs _ B] assms by (intro map_cong) auto
  then have "elem_length B fs a b = sum_list (map (\<lambda>j. 1) [a..<b])" by (simp only: elem_length_def)
  then show ?thesis by (simp add: sum_list_triv)
qed

context field_lengths begin

lemma field_bytes_length:
  "ok_in vs f \<Longrightarrow> length (field_bytes vs f) = gen_tag_len (f_attrs f) + gen_cbor_len_fn R f (value_of vs f)"
  by (simp add: field_bytes_def length_tag_bytes item_length)

lemma array_len:
  assumes "fields_ok EncArray fs" "\<And>f. f \<in> set fs \<Longrightarrow> ok_in vs f" "\<And>f. f \<in> set fs \<Longrightarrow> int s \<le> field_key f"
    and one: "\<And>f. f \<in> set fs \<Longrightarrow> gen_is_nil R f (value_of vs f) \<Longrightarrow> length (field_bytes vs f) = 1"
  shows "gen_array_len R s l fs vs =
    len_usize (if present R vs fs = [] then s else elem_count R vs fs) + l + elem_length (field_bytes vs) fs s (elem_count R vs fs)"
  using assms
proof (induction fs arbitrary: s l)
  case Nil
  then show ?case by (simp add: present_def elem_count_def elem_length_def)
next
  case (Cons f fs)
  let ?B = "field_bytes vs" and ?k = "nat (field_key f)"
  have ok: "0 \<le> field_key f" "\<And>h. h \<in> set fs \<Longrightarrow> field_key f < field_key h" "fields_ok EncArray fs"
    using Cons.prems(1) by (auto simp: fields_ok_Cons)
  have k: "int ?k = field_key f" "s \<le> ?k" using ok(1) Cons.prems(3) [of f] by auto
  have above: "int (Suc ?k) \<le> field_key h" if "h \<in> set fs" for h using ok(2) [OF that] k by simp
  show ?case
  proof (cases "gen_is_nil R f (value_of vs f)")
    case True
    have gap: "length (elem_at ?B (f # fs) j) = length (elem_at ?B fs j)" for j
    proof (cases "field_key f = int j")
      case j: True
      have "elem_at ?B fs j = [0xf6]" using ok(2) j by (intro elem_at_gap) fastforce
      then show ?thesis using Cons.prems(4) [of f] True j by (simp add: elem_at_Cons)
    qed (simp add: elem_at_Cons)
    have "gen_array_len R s l fs vs = len_usize (if present R vs fs = [] then s else elem_count R vs fs) + l
        + elem_length ?B fs s (elem_count R vs fs)"
      using Cons.prems ok(3) by (intro Cons.IH) auto
    moreover have "elem_length ?B (f # fs) s e = elem_length ?B fs s e" for e by (rule elem_length_cong) (rule gap)
    moreover have "elem_count R vs fs = 0" if "present R vs fs = []" using that by (simp add: elem_count_def)
    ultimately show ?thesis using True by (auto simp: elem_count_Cons present_def)
  next
    case False
    let ?e = "elem_count R vs (f # fs)"
    have e: "Suc ?k \<le> ?e" "?e = (if present R vs fs = [] then Suc ?k else elem_count R vs fs)"
      using False elem_count_above [OF ok(3), of "Suc ?k" R vs] above by (auto simp: elem_count_Cons less_imp_le)
    have "[s..<?e] = [s..<?k] @ ?k # [Suc ?k..<?e]" using upt_split [of s ?k ?e] k(2) e(1) by simp
    then have "elem_length ?B (f # fs) s ?e =
        elem_length ?B (f # fs) s ?k + length (?B f) + elem_length ?B (f # fs) (Suc ?k) ?e"
      using k(1) by (simp add: elem_length_def elem_at_Cons)
    moreover have "elem_length ?B (f # fs) s ?k = ?k - s"
      using ok(2) k(1) by (intro elem_length_gaps) fastforce
    moreover have "elem_length ?B (f # fs) (Suc ?k) ?e = elem_length ?B fs (Suc ?k) (elem_count R vs fs)"
      using k(1) e(2) by (cases "present R vs fs = []")
        (auto simp: elem_length_def elem_at_Cons elem_count_def present_def intro!: arg_cong [where f = sum_list])
    moreover have "gen_array_len R (Suc ?k) m fs vs =
        len_usize (if present R vs fs = [] then Suc ?k else elem_count R vs fs) + m + elem_length ?B fs (Suc ?k) (elem_count R vs fs)" for m
      using Cons.prems(2,4) above by (intro Cons.IH ok(3)) auto
    ultimately show ?thesis
      using False e(2) Cons.prems(2) [of f] field_bytes_length [of f vs]
      by (simp add: Let_def present_def field_key_def [symmetric])
  qed
qed

lemma array_fields_len:
  assumes "fields_ok EncArray fs" "\<And>f. f \<in> set fs \<Longrightarrow> ok_in vs f"
    and "\<And>f. f \<in> set fs \<Longrightarrow> gen_is_nil R f (value_of vs f) \<Longrightarrow> length (field_bytes vs f) = 1"
  shows "gen_fields_len R EncArray fs vs = length (head_bytes ARRAY (elem_count R vs fs) @ concat (elem_bytes vs fs))"
proof -
  have "gen_array_len R 0 0 fs vs = len_usize (elem_count R vs fs) + elem_length (field_bytes vs) fs 0 (elem_count R vs fs)"
    using array_len [of fs vs 0 0] assms by (auto simp: fields_ok_def elem_count_def)
  then show ?thesis
    using length_head_usize [OF elem_count_bound [OF assms(1), of R vs], of ARRAY]
    by (simp add: gen_fields_len_def elem_length_def elem_bytes_def length_concat comp_def)
qed

lemma entries_length:
  "(\<And>f. f \<in> set fs \<Longrightarrow> ok_in vs f) \<Longrightarrow> length (concat (map (entry_bytes vs) (present R vs fs))) = gen_map_len R fs vs"
proof (induction fs)
  case (Cons f fs)
  have "length (int_head (field_key f)) = len_i64 (idx_val (f_index f))" by (simp add: field_key_def len_signed(4))
  with Cons field_bytes_length [of f vs] show ?case by (simp add: present_def entry_bytes_def)
qed (simp add: present_def)

lemma map_fields_len:
  assumes "\<And>f. f \<in> set fs \<Longrightarrow> ok_in vs f" "length fs < 24"
  shows "gen_fields_len R EncMap fs vs =
    length (head_bytes MAP (length (present R vs fs)) @ concat (map (entry_bytes vs) (present R vs fs)))"
proof -
  have "length (present R vs fs) \<le> length fs" by (simp add: present_def)
  with assms(2) have "length (present R vs fs) < 24" by simp
  then have "length (head_bytes MAP (length (present R vs fs))) = 1" by (simp add: head_bytes_def)
  moreover have "len_usize (length fs) = 1"
    using length_head_usize [of "length fs" MAP] assms(2) by (simp add: head_bytes_def)
  ultimately show ?thesis using entries_length [OF assms(1)] by (simp add: gen_fields_len_def)
qed

text \<open>Without the bound, the announced length differs by the size of the head.\<close>

lemma map_length_announced:
  assumes "\<And>f. f \<in> set fs \<Longrightarrow> ok_in vs f" "length fs < 2 ^ 32"
  shows "\<exists>bs. vec_sink.emits (gen_encode_fields R vec_write_all EncMap False fs vs) bs \<and>
    gen_fields_len R EncMap fs vs + length (head_bytes MAP (length (present R vs fs))) =
    length bs + length (head_bytes MAP (length fs))"
  using emits_fields_map [OF assms(2,1), of False] entries_length [OF assms(1)] length_head_usize [of "length fs" MAP] assms(2)
  by (intro exI conjI) (auto simp: gen_fields_len_def)

lemma fields_len:
  assumes "fields_ok e fs" "\<And>f. f \<in> set fs \<Longrightarrow> ok_in vs f" "length fs < 2 ^ 32"
    and "e = EncArray \<Longrightarrow> \<forall>f\<in>set fs. gen_is_nil R f (value_of vs f) \<longrightarrow> length (tag_bytes (f_attrs f) @ item f (value_of vs f)) = 1"
    and "e = EncMap \<Longrightarrow> length fs < 24"
  shows "\<exists>bs. vec_sink.emits (gen_encode_fields R vec_write_all e False fs vs) bs \<and> length bs = gen_fields_len R e fs vs"
proof (cases e)
  case EncArray
  with assms have "gen_fields_len R e fs vs = length (head_bytes ARRAY (elem_count R vs fs) @ concat (elem_bytes vs fs))"
    using array_fields_len [of fs vs] by (auto simp: field_bytes_def)
  then show ?thesis using emits_fields_array [of fs vs] assms EncArray by (intro exI conjI) auto
next
  case EncMap
  with assms have "gen_fields_len R e fs vs =
      length (head_bytes MAP (length (present R vs fs)) @ concat (map (entry_bytes vs) (present R vs fs)))"
    using map_fields_len [of fs vs] by auto
  then show ?thesis using emits_fields_map [of fs vs False] assms EncMap by (intro exI conjI) auto
qed

end

text \<open>C25: The announced length of a derived structure is the number of bytes it is encoded in, if a map has less than 24
  fields, and if in an array the nil values take one byte with their tag. The implementations of the field
  types must announce their lengths exactly.
\<close>

theorem derived_length_exact:
  assumes R: "field_lengths R ok item"
    and enc: "encode_on_struct S order R vec_write_all s = Inr enc"
    and s: "struct_parts S order s = Inr (attrs, F)"
    and vs: "\<forall>f\<in>set (fl_fields F). ok f (value_of vs f)"
    and nils: "encoding_or default_encoding attrs = EncArray \<longrightarrow> (\<forall>f\<in>set (fl_fields F). gen_is_nil R f (value_of vs f) \<longrightarrow>
      length (tag_bytes (f_attrs f) @ item f (value_of vs f)) = 1)"
    and small: "encoding_or default_encoding attrs = EncMap \<longrightarrow> length (fl_fields F) < 24"
  shows "\<exists>len bs. len_on_struct S order R s = Inr len \<and> to_vec enc vs = Inr bs \<and> length bs = len vs"
proof (cases "at_transparent attrs")
  case True
  from enc s True obtain f where f: "fl_fields F = [f]" "enc = (\<lambda>vs. gen_encode_fn R f (value_of vs f))"
    by (auto simp: encode_on_struct_def struct_parts_def bind_r_Inr transparent_check_def split: list.splits)
  with s True have "len_on_struct S order R s = Inr (\<lambda>vs. gen_cbor_len_fn R f (value_of vs f))"
    by (auto simp: len_on_struct_def struct_parts_def bind_r_Inr transparent_check_def)
  moreover have "ok f (value_of vs f)" using vs f(1) by simp
  ultimately show ?thesis
    using vec_run [OF field_impls.item_written [OF field_lengths.axioms(1) [OF R]]]
      field_lengths.item_length [OF R] f(2) by (auto simp: to_vec_def)
next
  case False
  let ?e = "encoding_or default_encoding attrs"
  from enc s False have few: "length (fl_fields F) < 2 ^ 32"
    by (auto simp: encode_on_struct_def struct_parts_def bind_r_Inr check_max_fields_def split: if_splits)
  have "\<exists>bs. vec_sink.emits (gen_encode_fields R vec_write_all ?e False (fl_fields F) vs) bs \<and>
      length bs = gen_fields_len R ?e (fl_fields F) vs"
    using vs nils small few by (intro field_lengths.fields_len [OF R struct_parts_fields(1) [OF s]]) auto
  then obtain bs where bs: "vec_sink.emits (gen_encode_fields R vec_write_all ?e False (fl_fields F) vs) bs"
    "length bs = gen_fields_len R ?e (fl_fields F) vs" by blast
  have "enc = (\<lambda>vs. seq_m (gen_encode_tag vec_write_all attrs) (gen_encode_fields R vec_write_all ?e False (fl_fields F) vs))"
    using enc on_struct_parts(1) [OF s False few, of R vec_write_all] by simp
  moreover have "len_on_struct S order R s = Inr (\<lambda>vs. gen_tag_len attrs + gen_fields_len R ?e (fl_fields F) vs)"
    using s False by (auto simp: len_on_struct_def struct_parts_def bind_r_Inr)
  ultimately show ?thesis
    using vec_run [OF vec_sink.emits_seq [OF emits_tag bs(1)]] bs(2) by (simp add: length_tag_bytes to_vec_def)
qed

section \<open>Enumerations\<close>

context field_lengths begin

lemma unit_row_len:
  assumes "at_flat attrs \<Longrightarrow> row_encoding attrs va = EncArray"
  shows "\<exists>bs. vec_sink.emits (encode_row R vec_write_all attrs FieldsUnit i va fs vs) bs \<and>
    length bs = len_row R attrs FieldsUnit i va fs vs"
proof -
  note idx = vec_sink.emits_i64 [of "idx_val i"]
  have e: "vec_sink.emits (case e of EncArray \<Rightarrow> enc_array vec_write_all 0 | EncMap \<Rightarrow> enc_map vec_write_all 0)
      (case e of EncArray \<Rightarrow> [0x80] | EncMap \<Rightarrow> [0xa0])" for e
    using emits_array_small(1) vec_sink.emits_type_len [of MAP 0] by (simp add: enc_map_def head_bytes_def split: encoding.split)
  have l: "length (int_head (sint (idx_val i))) = len_i64 (idx_val i)" by (rule len_signed(4))
  have r: "length ((case e of EncArray \<Rightarrow> [0x80] | EncMap \<Rightarrow> [0xa0]) :: bytes) = 1" for e by (simp split: encoding.split)
  consider "at_index_only attrs" | "\<not> at_index_only attrs" "at_flat attrs" | "\<not> at_index_only attrs" "\<not> at_flat attrs" by blast
  then show ?thesis
  proof cases
    case 1
    then show ?thesis using idx l by (auto simp: encode_row_def len_row_def)
  next
    case 2
    then show ?thesis using assms l
      by (intro exI [of _ "[0x81] @ int_head (sint (idx_val i))"] conjI)
        (use vec_sink.emits_seq [OF emits_array_small(2) idx] in \<open>simp_all add: encode_row_def len_row_def row_encoding_def\<close>)
  next
    case 3
    from vec_sink.emits_seq [OF emits_array_small(3) vec_sink.emits_seq [OF idx vec_sink.emits_seq
          [OF emits_tag [of va] e [of "row_encoding attrs va"]]]]
    have "vec_sink.emits (encode_row R vec_write_all attrs FieldsUnit i va fs vs) ([0x82] @ int_head (sint (idx_val i)) @
        tag_bytes va @ (case row_encoding attrs va of EncArray \<Rightarrow> [0x80] | EncMap \<Rightarrow> [0xa0]))"
      using 3 by (simp add: encode_row_def row_encoding_def)
    moreover have "length ([0x82] @ int_head (sint (idx_val i)) @ tag_bytes va @
        (case row_encoding attrs va of EncArray \<Rightarrow> [0x80] | EncMap \<Rightarrow> [0xa0])) = len_row R attrs FieldsUnit i va fs vs"
      using 3 l by (simp add: len_row_def length_tag_bytes r)
    ultimately show ?thesis by blast
  qed
qed

lemma row_len:
  assumes kind: "kind \<noteq> FieldsUnit" "\<not> at_index_only attrs" and flat: "at_flat attrs \<Longrightarrow> row_encoding attrs va = EncArray"
    and F: "fields_ok (row_encoding attrs va) fs" "\<And>f. f \<in> set fs \<Longrightarrow> ok_in vs f" "length fs < 2 ^ 32"
    and nils: "row_encoding attrs va = EncArray \<Longrightarrow>
      \<forall>f\<in>set fs. gen_is_nil R f (value_of vs f) \<longrightarrow> length (tag_bytes (f_attrs f) @ item f (value_of vs f)) = 1"
    and small: "row_encoding attrs va = EncMap \<Longrightarrow> length fs < 24" "at_flat attrs \<Longrightarrow> elem_count R vs fs < 23"
  shows "\<exists>bs. vec_sink.emits (encode_row R vec_write_all attrs kind i va fs vs) bs \<and> length bs = len_row R attrs kind i va fs vs"
proof (cases "at_flat attrs")
  case False
  from fields_len [OF F(1,2,3) nils small(1)] obtain bs where
    bs: "vec_sink.emits (gen_encode_fields R vec_write_all (row_encoding attrs va) False fs vs) bs"
    "length bs = gen_fields_len R (row_encoding attrs va) fs vs" by blast
  have "vec_sink.emits (encode_row R vec_write_all attrs kind i va fs vs) ([0x82] @ int_head (sint (idx_val i)) @ tag_bytes va @ bs)"
    using vec_sink.emits_seq [OF emits_array_small(3) vec_sink.emits_seq [OF vec_sink.emits_i64 vec_sink.emits_seq [OF emits_tag bs(1)]]]
      kind False by (simp add: encode_row_def row_encoding_def)
  then show ?thesis using kind False bs(2)
    by (intro exI conjI) (auto simp: len_row_def row_encoding_def length_tag_bytes len_signed(4) Let_def split: encoding.split)
next
  case True
  then have e: "row_encoding attrs va = EncArray" by (rule flat)
  have fo: "fields_ok EncArray fs" using F(1) e by simp
  have "gen_fields_len R EncArray fs vs = length (head_bytes ARRAY (elem_count R vs fs) @ concat (elem_bytes vs fs))"
    using nils [OF e] F(2) by (intro array_fields_len fo) (auto simp: field_bytes_def)
  moreover have "length (head_bytes ARRAY (elem_count R vs fs)) = length (head_bytes ARRAY (Suc (elem_count R vs fs)))"
    using small(2) [OF True] by (simp add: head_bytes_def)
  moreover have "vec_sink.emits (encode_row R vec_write_all attrs kind i va fs vs)
      (head_bytes ARRAY (Suc (elem_count R vs fs)) @ int_head (sint (idx_val i)) @ concat (elem_bytes vs fs))"
    using vec_sink.emits_seq [OF emits_flat_head(1) [OF fo] vec_sink.emits_seq [OF vec_sink.emits_i64 emits_fields_flat [OF fo F(2)]]]
      True kind e by (simp add: encode_row_def row_encoding_def)
  ultimately show ?thesis using kind True e
    by (intro exI conjI) (auto simp: len_row_def row_encoding_def len_signed(4))
qed

end

text \<open>C26: The announced length of a value of a derived enumeration is the number of bytes it is encoded in, under the same
  conditions on its fields, and in a flat enumeration if the variant writes less than 23 elements.
\<close>

theorem derived_enum_length_exact:
  assumes R: "field_lengths R ok item"
    and rows: "enum_rows S order encode_check s = Inr (attrs, rows)" "n < length rows" "rows ! n = (sv, i, va, F)"
    and vs: "\<forall>f\<in>set (fl_fields F). ok f (value_of vs f)"
    and nils: "row_encoding attrs va = EncArray \<longrightarrow> (\<forall>f\<in>set (fl_fields F). gen_is_nil R f (value_of vs f) \<longrightarrow>
      length (tag_bytes (f_attrs f) @ item f (value_of vs f)) = 1)"
    and small: "row_encoding attrs va = EncMap \<longrightarrow> length (fl_fields F) < 24"
      "at_flat attrs \<longrightarrow> elem_count R vs (fl_fields F) < 23"
  shows "\<exists>enc len bs. encode_on_enum S order R vec_write_all s = Inr enc \<and> len_on_enum S order R s = Inr len \<and>
    to_vec enc (n, vs) = Inr bs \<and> length bs = len (n, vs)"
proof -
  note a = accepted_rows(3) [OF rows]
  from a have F: "fields_try_from S order [va, attrs] (sv_fields sv) = Inr F"
    and check: "encode_check attrs (sv_kind sv) (fl_fields F) = Inr ()"
    and flat: "at_flat attrs \<Longrightarrow> row_encoding attrs va = EncArray" by auto
  have fo: "fields_ok (row_encoding attrs va) (fl_fields F)" using accepted_fields(1) [OF F] by (simp add: parent_row_encoding)
  have "\<exists>bs. vec_sink.emits (encode_row R vec_write_all attrs (sv_kind sv) i va (fl_fields F) vs) bs \<and>
      length bs = len_row R attrs (sv_kind sv) i va (fl_fields F) vs"
  proof (cases "sv_kind sv = FieldsUnit")
    case True
    then show ?thesis using field_lengths.unit_row_len [OF R flat] by simp
  next
    case False
    with check have "\<not> at_index_only attrs" "length (fl_fields F) < 2 ^ 32"
      by (auto simp: encode_check_def index_only_check_def check_max_fields_def bind_r_Inr split: if_splits)
    then show ?thesis using False vs nils small by (intro field_lengths.row_len [OF R] fo flat) auto
  qed
  then obtain bs where bs: "vec_sink.emits (encode_row R vec_write_all attrs (sv_kind sv) i va (fl_fields F) vs) bs"
    "length bs = len_row R attrs (sv_kind sv) i va (fl_fields F) vs" by blast
  have "enum_rows S order (\<lambda>a k _. index_only_check a k) s = Inr (attrs, rows)"
    by (rule enum_rows_weaken [OF rows(1)]) (auto simp: encode_check_def bind_r_Inr)
  then have "len_on_enum S order R s = Inr (\<lambda>(n, vs). case rows ! n of (sv, i, va, F) \<Rightarrow>
      gen_tag_len attrs + len_row R attrs (sv_kind sv) i va (fl_fields F) vs)" by (simp add: len_on_enum_def)
  moreover have "encode_on_enum S order R vec_write_all s = Inr (\<lambda>(n, vs). case rows ! n of (sv, i, va, F) \<Rightarrow>
      seq_m (gen_encode_tag vec_write_all attrs) (encode_row R vec_write_all attrs (sv_kind sv) i va (fl_fields F) vs))"
    using rows(1) by (simp add: encode_on_enum_def)
  ultimately show ?thesis
    using vec_run [OF vec_sink.emits_seq [OF emits_tag bs(1)], of attrs "[]"] bs(2) rows(3)
    by (simp add: to_vec_def length_tag_bytes)
qed

section \<open>The implementations of minicbor\<close>

lemma lib_cbor_len: "gen_cbor_len_fn lib_impls f v = lib_len v"
  by (simp add: gen_cbor_len_fn_def lib_impls_def split: option.splits)

interpretation lib_len: field_lengths lib_impls lib_ok lib_item
proof
  fix f v assume ok: "lib_ok f v"
  have l: "length (head_bytes t (unat (of_nat (length s) :: u64))) = len_u64 (of_nat (length s))" for t and s :: bytes
    by (simp add: len_unsigned)
  show "gen_cbor_len_fn lib_impls f v = length (lib_item f v)"
    by (auto simp: lib_cbor_len lib_len_def lib_item_def len_unsigned l len_option_def len_str_def len_byte_slice_def len_usize_def
        split: lib_value.splits option.splits)
qed

lemma derived_length_exact_witness:
  "\<exists>enc len bs. encode_on_struct plain_syn hash_order lib_impls vec_write_all demo_old = Inr enc \<and>
     len_on_struct plain_syn hash_order lib_impls demo_old = Inr len \<and>
     to_vec enc [LU64 300, LU64 2] = Inr bs \<and> length bs = len [LU64 300, LU64 2]"
proof -
  from demo_parts(1) obtain a F where s: "struct_parts plain_syn hash_order demo_old = Inr (a, F)" "at_transparent a = False"
    "at_encoding a = None" "map field_spec (fl_fields F) = [(0, 0, ty_u64, None, None, False), (1, 2, ty_u64, None, None, False)]"
    by (rule parts_matchE) simp
  from s(4) obtain f0 f1 where F: "fl_fields F = [f0, f1]" "field_spec f0 = (0, 0, ty_u64, None, None, False)"
    "field_spec f1 = (1, 2, ty_u64, None, None, False)" by (auto simp: map_eq_Cons_conv)
  have few: "length (fl_fields F) < 2 ^ 32" using F(1) by simp
  let ?enc = "\<lambda>vs. seq_m (gen_encode_tag vec_write_all a)
    (gen_encode_fields lib_impls vec_write_all (encoding_or default_encoding a) False (fl_fields F) vs)"
  have enc: "encode_on_struct plain_syn hash_order lib_impls vec_write_all demo_old = Inr ?enc"
    using on_struct_parts(1) [OF s(1) _ few] s(2) by simp
  have "\<exists>len bs. len_on_struct plain_syn hash_order lib_impls demo_old = Inr len \<and>
      to_vec ?enc [LU64 300, LU64 2] = Inr bs \<and> length bs = len [LU64 300, LU64 2]"
  proof (rule derived_length_exact [OF lib_len.field_lengths_axioms enc s(1)])
    show "\<forall>f\<in>set (fl_fields F). lib_ok f (value_of [LU64 300, LU64 2] f)"
      using F by (simp add: lib_ok_def value_of_def field_spec_def)
    show "encoding_or default_encoding a = EncArray \<longrightarrow> (\<forall>f\<in>set (fl_fields F).
        gen_is_nil lib_impls f (value_of [LU64 300, LU64 2] f) \<longrightarrow>
        length (tag_bytes (f_attrs f) @ lib_item f (value_of [LU64 300, LU64 2] f)) = 1)"
      using F by (simp add: value_of_def field_spec_def gen_is_nil_def lib_impls_def)
  qed (use F s in \<open>simp add: encoding_or_def default_encoding_def\<close>)
  with enc show ?thesis by blast
qed

lemma derived_enum_length_exact_witness:
  "\<exists>enc len bs. encode_on_enum plain_syn hash_order lib_impls vec_write_all (demo_enum [cbor_flag ''flat'']) = Inr enc \<and>
     len_on_enum plain_syn hash_order lib_impls (demo_enum [cbor_flag ''flat'']) = Inr len \<and>
     to_vec enc (1, [LU64 5, LOpt (Some 3)]) = Inr bs \<and> length bs = len (1, [LU64 5, LOpt (Some 3)])"
proof -
  have e: "enum_rows plain_syn hash_order encode_check (demo_enum [cbor_flag ''flat'']) =
      Inr (at_insert KFlat VFlat (attributes_new LEnum), demo_rows)"
    by (rule demo_rows [OF flat_accepted]) (simp_all add: at_defs)
  have "\<not> gen_is_nil lib_impls f (LU64 5)" "\<not> gen_is_nil lib_impls f (LOpt (Some 3))" if "at_codec (f_attrs f) = None" for f
    using that by (simp_all add: gen_is_nil_def lib_impls_def)
  then show ?thesis
    by (intro derived_enum_length_exact [OF lib_len.field_lengths_axioms e, of 1 "se_variants (demo_enum []) ! 1" "IdxN 7" "index_attrs LVariant 7"
          "\<lparr>fl_fields = [demo_made 0 ''x'' 0 ty_u64, demo_made 1 ''y'' 2 ty_opt], fl_skipped = []\<rparr>"])
      (simp_all add: demo_rows_def lib_ok_def value_of_def at_defs row_encoding_def encoding_or_def default_encoding_def
        elem_count_def present_def field_key_def idx_val_def)
qed

section \<open>Where the announced length is wrong\<close>

text \<open>
  The hypotheses cannot be dropped. The head of a map is announced for all its fields, though only the present
  ones are counted in the encoding; and a nil value with a tag in front of a later field takes two bytes and is
  announced as one.
\<close>

definition demo_tagged_nil :: syn_struct where
  "demo_tagged_nil = demo_struct [] [demo_field ''a'' 0 ty_opt [cbor_tag 9], demo_field ''b'' 1 ty_u64 []]"

lemma tagged_nil_length:
  "\<exists>enc len bs. encode_on_struct plain_syn hash_order lib_impls vec_write_all demo_tagged_nil = Inr enc \<and>
     len_on_struct plain_syn hash_order lib_impls demo_tagged_nil = Inr len \<and>
     to_vec enc [LOpt None, LU64 1] = Inr bs \<and> length bs = len [LOpt None, LU64 1] + 1"
proof -
  have "parts_match demo_tagged_nil (False, None, [(0, 0, ty_opt, Some 9, None, False), (1, 1, ty_u64, None, None, False)], 0)"
    by code_simp
  then obtain a F where s: "struct_parts plain_syn hash_order demo_tagged_nil = Inr (a, F)" "at_transparent a = False"
    "at_encoding a = None" "map field_spec (fl_fields F) = [(0, 0, ty_opt, Some 9, None, False), (1, 1, ty_u64, None, None, False)]"
    by (rule parts_matchE) simp
  from s(4) obtain f0 f1 where F: "fl_fields F = [f0, f1]" "field_spec f0 = (0, 0, ty_opt, Some 9, None, False)"
    "field_spec f1 = (1, 1, ty_u64, None, None, False)" by (auto simp: map_eq_Cons_conv)
  let ?fs = "fl_fields F" and ?vs = "[LOpt None, LU64 1]"
  have few: "length ?fs < 2 ^ 32" "\<not> at_transparent a" using F(1) s(2) by simp_all
  have e: "encoding_or default_encoding a = EncArray" using s(3) by (simp add: encoding_or_def default_encoding_def)
  have "\<forall>f\<in>set ?fs. lib_ok f (value_of ?vs f)" using F by (simp add: lib_ok_def value_of_def field_spec_def)
  with struct_parts_fields(1) [OF s(1)] e
  have "vec_sink.emits (gen_encode_fields lib_impls vec_write_all EncArray False ?fs ?vs)
      (head_bytes ARRAY (elem_count lib_impls ?vs ?fs) @ concat (lib.elem_bytes ?vs ?fs))"
    by (intro lib.emits_fields_array) simp_all
  from vec_run [OF vec_sink.emits_seq [OF emits_tag this], of a "[]"]
  have w: "to_vec (\<lambda>vs. seq_m (gen_encode_tag vec_write_all a) (gen_encode_fields lib_impls vec_write_all EncArray False ?fs vs)) ?vs =
      Inr (tag_bytes a @ head_bytes ARRAY (elem_count lib_impls ?vs ?fs) @ concat (lib.elem_bytes ?vs ?fs))"
    by (simp add: to_vec_def)
  have "elem_count lib_impls ?vs ?fs = 2"
    using F by (simp add: elem_count_def present_def value_of_def field_spec_def gen_is_nil_def lib_impls_def)
  then have l: "length (head_bytes ARRAY (elem_count lib_impls ?vs ?fs) @ concat (lib.elem_bytes ?vs ?fs)) = 4"
    using F by (simp add: lib.elem_bytes_def elem_at_def upt_rec lib.field_bytes_def tag_bytes_def lib_item_def value_of_def
        field_spec_def head_bytes_def)
  have "gen_is_nil lib_impls f0 (LOpt None)" "\<not> gen_is_nil lib_impls f1 (LU64 1)"
    using F by (simp_all add: field_spec_def gen_is_nil_def lib_impls_def)
  then have "gen_fields_len lib_impls EncArray ?fs ?vs = 3"
    using F by (simp add: gen_fields_len_def value_of_def field_spec_def lib_cbor_len field_key_def gen_tag_len_def
        lib_len_def len_u64_def len_usize_def)
  moreover have "len_on_struct plain_syn hash_order lib_impls demo_tagged_nil = Inr (\<lambda>vs. gen_tag_len a + gen_fields_len lib_impls EncArray ?fs vs)"
    using s few e by (auto simp: len_on_struct_def struct_parts_def bind_r_Inr)
  ultimately show ?thesis
    using on_struct_parts(1) [OF s(1) few(2,1), of lib_impls vec_write_all] w l e by (simp add: length_tag_bytes)
qed

end
