(* ===== verification/Derive_Keys.thy ===== *)
theory Derive_Keys
  imports Derive_Versions
begin

text \<open>
  The order of the keys: a derived map is written in the order of core deterministic encoding, the
  bytewise lexicographic order of the encoded keys (RFC 8949, 4.2.1), which \<open>Idx::bytewise_lexicographic\<close> is named
  after and has to agree with.
\<close>

fun bytes_less :: "bytes \<Rightarrow> bytes \<Rightarrow> bool" where
  "bytes_less (x # xs) (y # ys) \<longleftrightarrow> x < y \<or> x = y \<and> bytes_less xs ys"
| "bytes_less [] (y # ys) \<longleftrightarrow> True"
| "bytes_less xs [] \<longleftrightarrow> False"

lemma bytes_less_lexord: "bytes_less xs ys \<longleftrightarrow> (xs, ys) \<in> lexord {(x, y). x < y}"
  by (induction xs ys rule: bytes_less.induct) auto

lemma bytes_less_append: "bytes_less xs ys \<Longrightarrow> length xs = length ys \<Longrightarrow> bytes_less (xs @ us) (ys @ ws)"
  by (induction xs ys rule: bytes_less.induct) auto

lemma bytes_less_same [simp]: "bytes_less (xs @ us) (xs @ ws) \<longleftrightarrow> bytes_less us ws"
  by (induction xs) auto

lemma be_of_nat_less: "a < b \<Longrightarrow> b < 256 ^ n \<Longrightarrow> bytes_less (be_of_nat n a) (be_of_nat n b)"
proof (induction n arbitrary: a b)
  case (Suc n)
  show ?case
  proof (cases "a div 256 = b div 256")
    case True
    then have "a mod 256 < b mod 256" using Suc.prems(1) div_mult_mod_eq [of a 256] div_mult_mod_eq [of b 256] by linarith
    then have "(of_nat a :: u8) < of_nat b" by (simp add: word_less_nat_alt unsigned_of_nat take_bit_eq_mod)
    with True show ?thesis by simp
  next
    case False
    have "a div 256 \<le> b div 256" using Suc.prems(1) by (simp add: div_le_mono)
    with False have "a div 256 < b div 256" by simp
    moreover have "b div 256 < 256 ^ n" using Suc.prems(2) by (simp add: less_mult_imp_div_less mult.commute)
    ultimately show ?thesis using Suc.IH by (simp add: bytes_less_append)
  qed
qed simp

lemma head_byte:
  assumes "n < 32" shows "unat (UNSIGNED OR of_nat n :: u8) = n" "unat (SIGNED OR of_nat n :: u8) = 32 + n"
proof -
  have n: "unat (of_nat n :: u8) = n" using assms by (simp add: unsigned_of_nat take_bit_nat_eq_self)
  then show "unat (UNSIGNED OR of_nat n :: u8) = n" by (simp add: UNSIGNED_def)
  have "n \<in> set [0..<32]" using assms by simp
  then have "unat (0x20 OR of_nat n :: u8) = 32 + n" by (simp add: upt_rec) (elim disjE; simp)
  then show "unat (SIGNED OR of_nat n :: u8) = 32 + n" by (simp add: SIGNED_def)
qed

lemma head_bytes_less:
  assumes "t = UNSIGNED \<or> t = SIGNED" "a < b" "b < 2 ^ 64"
  shows "bytes_less (head_bytes t a) (head_bytes t b)"
proof -
  have less: "t OR of_nat m < t OR of_nat n" if "m < n" "n < 32" for m n
    using assms(1) that head_byte [of m] head_byte [of n] by (auto simp: word_less_nat_alt)
  have be: "bytes_less (be_of_nat n a) (be_of_nat n b)" if "b < 256 ^ n" for n using be_of_nat_less [OF assms(2) that] .
  note l = less [of 24 25] less [of 24 26] less [of 24 27] less [of 25 26] less [of 25 27] less [of 26 27]
    less [of a b] less [of a 24] less [of a 25] less [of a 26] less [of a 27]
  from assms(2,3) l be [of 1] be [of 2] be [of 4] be [of 8] show ?thesis by (auto simp: head_bytes_def)
qed

lemma head_types_less: "a < 2 ^ 64 \<Longrightarrow> b < 2 ^ 64 \<Longrightarrow> bytes_less (head_bytes UNSIGNED a) (head_bytes SIGNED b)"
proof -
  assume "a < 2 ^ 64" "b < 2 ^ 64"
  then have "is_head UNSIGNED a (head_bytes UNSIGNED a)" "is_head SIGNED b (head_bytes SIGNED b)"
    by (simp_all add: is_head_head_bytes)
  then obtain m as n bs where "head_bytes UNSIGNED a = (UNSIGNED OR of_nat m) # as" "m < 28"
    "head_bytes SIGNED b = (SIGNED OR of_nat n) # bs" "n < 28" by (metis head_cases)
  then show ?thesis using head_byte(1) [of m] head_byte(2) [of n] by (simp add: word_less_nat_alt)
qed

lemma int_head_less:
  assumes "key_less a b" "- (2 ^ 63) \<le> a" "a < 2 ^ 63" "- (2 ^ 63) \<le> b" "b < 2 ^ 63"
  shows "bytes_less (int_head a) (int_head b)"
proof -
  have "nat (- 1 - a) < nat (- 1 - b)" if "a < 0" "b < 0" using assms(1) that by (simp add: key_less_def)
  then show ?thesis
    using assms head_bytes_less [of UNSIGNED "nat a" "nat b"] head_bytes_less [of SIGNED "nat (- 1 - a)" "nat (- 1 - b)"]
      head_types_less [of "nat a" "nat (- 1 - b)"]
    by (auto simp: int_head_def key_less_def split: if_splits)
qed

text \<open>C27: A structure with map encoding is written deterministically: after the tag comes a map of the fields that are not
  nil, and the encoded keys are strictly ascending in the bytewise lexicographic order, also with negative index
  numbers and with keys of different lengths. In particular no key occurs twice.
\<close>

theorem derived_map_deterministic:
  assumes R: "field_impls R ok item"
    and s: "struct_parts S order s = Inr (attrs, F)" "length (fl_fields F) < 2 ^ 32" "\<not> at_transparent attrs"
      "at_encoding attrs = Some EncMap"
    and vs: "\<forall>f\<in>set (fl_fields F). ok f (value_of vs f)"
  shows "\<exists>enc entries. encode_on_struct S order R vec_write_all s = Inr enc \<and>
    to_vec enc vs = Inr (tag_bytes attrs @ head_bytes MAP (length entries) @ concat (map (\<lambda>(k, x). int_head k @ x) entries)) \<and>
    map fst entries = map field_key (present R vs (fl_fields F)) \<and>
    sorted_wrt bytes_less (map (\<lambda>(k, x). int_head k) entries)"
proof -
  let ?entries = "map (\<lambda>f. (field_key f, tag_bytes (f_attrs f) @ item f (value_of vs f))) (present R vs (fl_fields F))"
  have e: "encoding_or default_encoding attrs = EncMap" using s(4) by (simp add: encoding_or_def)
  have "vec_sink.emits (gen_encode_fields R vec_write_all EncMap False (fl_fields F) vs)
      (head_bytes MAP (length ?entries) @ concat (map (\<lambda>(k, x). int_head k @ x) ?entries))"
    using field_impls.emits_fields_map [OF R s(2), of vs False] vs
    by (simp add: field_impls.entry_bytes_def [OF R, abs_def] field_impls.field_bytes_def [OF R] comp_def)
  from vec_run [OF vec_sink.emits_seq [OF emits_tag this], of attrs "[]"]
  have "to_vec (\<lambda>vs. seq_m (gen_encode_tag vec_write_all attrs) (gen_encode_fields R vec_write_all EncMap False (fl_fields F) vs)) vs =
      Inr (tag_bytes attrs @ head_bytes MAP (length ?entries) @ concat (map (\<lambda>(k, x). int_head k @ x) ?entries))"
    by (simp add: to_vec_def)
  moreover have "sorted_wrt key_less (map field_key (present R vs (fl_fields F)))"
    using struct_parts_fields(1) [OF s(1)] sorted_wrt_filter
    by (force simp: fields_ok_def present_def sorted_wrt_map)
  then have "sorted_wrt bytes_less (map (\<lambda>(k, x). int_head k) ?entries)"
    unfolding map_map sorted_wrt_map
    by (rule sorted_wrt_mono_rel [rotated]) (use int_head_less field_key_range in \<open>auto simp: comp_def\<close>)
  ultimately show ?thesis
    using on_struct_parts(1) [OF s(1,3,2), of R vec_write_all] by (intro exI [of _ ?entries] exI conjI) (auto simp: e)
qed

lemma derived_map_deterministic_witness:
  "\<exists>enc t entries. encode_on_struct plain_syn hash_order lib_impls vec_write_all demo_full = Inr enc \<and>
     to_vec enc [LU64 300, LOpt (Some 1)] = Inr (t @ head_bytes MAP (length entries) @
       concat (map (\<lambda>(k, x). int_head k @ x) entries)) \<and>
     map fst entries = [3, - 1] \<and> sorted_wrt bytes_less (map (\<lambda>(k, x). int_head k) entries)"
proof -
  have "parts_match demo_full (False, Some EncMap,
      [(1, 3, ty_opt, None, None, False), (0, - 1, ty_u64, Some 9, None, False)], 0)" by code_simp
  then obtain a F where s: "struct_parts plain_syn hash_order demo_full = Inr (a, F)" "at_transparent a = False"
    "at_encoding a = Some EncMap"
    "map field_spec (fl_fields F) = [(1, 3, ty_opt, None, None, False), (0, - 1, ty_u64, Some 9, None, False)]"
    by (rule parts_matchE) simp
  from s(4) obtain f0 f1 where F: "fl_fields F = [f0, f1]" "field_spec f0 = (1, 3, ty_opt, None, None, False)"
    "field_spec f1 = (0, - 1, ty_u64, Some 9, None, False)" by (auto simp: map_eq_Cons_conv)
  have ok: "length (fl_fields F) < 2 ^ 32" "\<not> at_transparent a" "\<forall>f\<in>set (fl_fields F). lib_ok f (value_of [LU64 300, LOpt (Some 1)] f)"
    using F s(2) by (simp_all add: lib_ok_def value_of_def field_spec_def)
  have "map field_key (present lib_impls [LU64 300, LOpt (Some 1)] (fl_fields F)) = [3, - 1]"
    using F by (simp add: present_def value_of_def field_spec_def gen_is_nil_def lib_impls_def)
  with derived_map_deterministic [OF lib.field_impls_axioms s(1) ok(1,2) s(3) ok(3)] show ?thesis by fastforce
qed

end
