(* ===== verification/Derive_Bounds.thy ===== *)
theory Derive_Bounds
  imports Derive_Fields
begin

text \<open>
  The bounds of the generated implementations (\<open>minicbor-derive/src/blacklist.rs\<close>, \<open>lifetimes.rs\<close> and the helpers of
  \<open>lib.rs\<close>): which type parameters get the bound of the derived trait, and which lifetimes the input of a decoder
  has to outlive.
\<close>

section \<open>What a type mentions\<close>

text \<open>The type parameters \<open>Collector\<close> finds, in the order it visits the paths.\<close>

fun visit_ty :: "ident set \<Rightarrow> ty \<Rightarrow> ident list"
  and visit_args :: "ident set \<Rightarrow> path_args \<Rightarrow> ident list"
  and visit_arg :: "ident set \<Rightarrow> generic_arg \<Rightarrow> ident list" where
  "visit_ty all (TyPath qself colon ss) =
     (if \<not> colon \<and> length ss = 1 \<and> fst (hd ss) \<in> all then [fst (hd ss)] else []) @
     (case qself of None \<Rightarrow> [] | Some t \<Rightarrow> visit_ty all t) @ concat (map (\<lambda>(_, a). visit_args all a) ss)"
| "visit_ty all (TySlice t) = visit_ty all t"
| "visit_ty all (TyArray t) = visit_ty all t"
| "visit_ty all (TyParen t) = visit_ty all t"
| "visit_ty all (TyGroup t) = visit_ty all t"
| "visit_ty all (TyPtr t) = visit_ty all t"
| "visit_ty all (TyRef _ t) = visit_ty all t"
| "visit_ty all (TyTuple ts) = concat (map (visit_ty all) ts)"
| "visit_ty all (TyOther _ ts) = concat (map (visit_ty all) ts)"
| "visit_args all PathPlain = []"
| "visit_args all (PathAngle as) = concat (map (visit_arg all) as)"
| "visit_args all (PathParen ts) = concat (map (visit_ty all) ts)"
| "visit_arg all (GenType t) = visit_ty all t"
| "visit_arg all (GenLifetime _) = []"
| "visit_arg all (GenAssoc ts t) = concat (map (visit_ty all) ts) @ visit_ty all t"
| "visit_arg all (GenOther ts) = concat (map (visit_ty all) ts)"

text \<open>The generics of the derived type.\<close>

datatype generic_param = LifetimeParam string "string set" | TypeParam ident "string list" | ConstParam ident

type_synonym generics = "generic_param list"

definition type_idents :: "generics \<Rightarrow> ident set" where
  "type_idents g = set (List.map_filter (\<lambda>p. case p of TypeParam i _ \<Rightarrow> Some i | _ \<Rightarrow> None) g)"

definition collect_type_params :: "generics \<Rightarrow> field list \<Rightarrow> ident set" where
  "collect_type_params g fs = set (concat (map (\<lambda>f. visit_ty (type_idents g) (f_typ f)) fs))"

definition is_phantom_data :: "ty \<Rightarrow> bool" where
  "is_phantom_data t = (case t of
      TyPath _ _ ss \<Rightarrow> (case rev ss of
          (i, PathAngle _) # prefix \<Rightarrow>
            i = ''PhantomData'' \<and>
            (list_all (\<lambda>(p, a). p = a) (zip (map fst prefix) [''marker'', ''std'']) \<or>
             list_all (\<lambda>(p, a). p = a) (zip (map fst prefix) [''marker'', ''core'']))
        | _ \<Rightarrow> False)
    | _ \<Rightarrow> False)"

definition is_cow :: "(ty \<Rightarrow> bool) \<Rightarrow> ty \<Rightarrow> bool" where
  "is_cow P t = (case t of
      TyPath _ _ ss \<Rightarrow> (case rev ss of
          (i, PathAngle [GenLifetime _, GenType t']) # _ \<Rightarrow> i = ''Cow'' \<and> P t'
        | _ \<Rightarrow> False)
    | _ \<Rightarrow> False)"

definition is_str :: "ty \<Rightarrow> bool" where
  "is_str t = (case t of TyPath qself _ ss \<Rightarrow> qself = None \<and> map fst ss = [''str''] | _ \<Rightarrow> False)"

definition is_byte_slice :: "ty \<Rightarrow> bool" where
  "is_byte_slice t = (case t of
      TyPath qself _ ss \<Rightarrow> qself = None \<and> map fst ss \<in>
        {[''ByteSlice''], [''bytes'', ''ByteSlice''], [''minicbor'', ''bytes'', ''ByteSlice'']}
    | TySlice (TyPath qself _ ss) \<Rightarrow> qself = None \<and> map fst ss = [''u8'']
    | _ \<Rightarrow> False)"

section \<open>Parameters without bounds\<close>

datatype derive_mode = ModeEncode | ModeDecode | ModeLength

text \<open>Fields with a function of their own for a mode, and those without; the two closures of \<open>Blacklist::new\<close>.\<close>

definition custom_for :: "derive_mode \<Rightarrow> field \<Rightarrow> bool" where
  "custom_for m f = (let codec = at_codec (f_attrs f) in case m of
      ModeEncode \<Rightarrow> (case codec of Some c \<Rightarrow> codec_is_encode c | None \<Rightarrow> False)
    | ModeDecode \<Rightarrow> (case codec of Some c \<Rightarrow> codec_is_decode c | None \<Rightarrow> False)
    | ModeLength \<Rightarrow> at_cbor_len (f_attrs f) \<noteq> None \<or> (case codec of Some c \<Rightarrow> codec_is_module c | None \<Rightarrow> False))"

definition default_for :: "derive_mode \<Rightarrow> field \<Rightarrow> bool" where
  "default_for m f = (let codec = at_codec (f_attrs f) in case m of
      ModeEncode \<Rightarrow> (case codec of Some c \<Rightarrow> \<not> codec_is_encode c | None \<Rightarrow> True)
    | ModeDecode \<Rightarrow> (case codec of Some c \<Rightarrow> \<not> codec_is_decode c | None \<Rightarrow> True)
    | ModeLength \<Rightarrow> at_cbor_len (f_attrs f) = None \<and> (case codec of Some c \<Rightarrow> \<not> codec_is_module c | None \<Rightarrow> True))"

definition blacklist_new :: "derive_mode \<Rightarrow> fields \<Rightarrow> generics \<Rightarrow> ident set" where
  "blacklist_new m fs g =
     (let regular = fl_fields fs; every = regular @ fl_skipped fs;
          custom = collect_type_params g (filter (custom_for m) regular);
          b1 = (if custom \<noteq> {} then custom - collect_type_params g (filter (default_for m) regular) else custom);
          skipped = collect_type_params g (fl_skipped fs);
          b2 = (if skipped \<noteq> {} then b1 \<union> (skipped - collect_type_params g regular) else b1);
          phantoms = collect_type_params g (filter (\<lambda>f. is_phantom_data (f_typ f)) every)
      in if phantoms \<noteq> {}
         then b2 \<union> (phantoms - collect_type_params g (filter (\<lambda>f. \<not> is_phantom_data (f_typ f)) every))
         else b2)"

definition blacklist_merge :: "derive_mode \<Rightarrow> fields \<Rightarrow> generics \<Rightarrow> ident set \<Rightarrow> ident set" where
  "blacklist_merge m fs g s =
     (let b = blacklist_new m fs g in (s - (collect_type_params g (fl_fields fs) - b)) \<union> b)"

definition blacklist_add :: "ident set \<Rightarrow> ident set \<Rightarrow> ident set" where
  "blacklist_add it s = s \<union> it"

definition blacklist_is_nil_params :: "generics \<Rightarrow> fields \<Rightarrow> ident set" where
  "blacklist_is_nil_params g fs =
     blacklist_add
       (collect_type_params g (filter (\<lambda>f. case at_codec (f_attrs f) of Some c \<Rightarrow> codec_is_is_nil c | None \<Rightarrow> False) (fl_fields fs)) -
        collect_type_params g (filter (\<lambda>f. case at_codec (f_attrs f) of Some c \<Rightarrow> \<not> codec_is_is_nil c | None \<Rightarrow> True) (fl_fields fs)))
       {}"

text \<open>The bounds of all parameters, from the attributes of the fields or the mode, and those of some.\<close>

definition find_type_param :: "derive_mode \<Rightarrow> attributes list \<Rightarrow> ident \<Rightarrow> type_param option" where
  "find_type_param m attrs i =
     (case List.map_filter (\<lambda>a. Option.bind (at_type_params a) (\<lambda>p. case m of
         ModeEncode \<Rightarrow> get_encode p i | ModeDecode \<Rightarrow> get_decode p i | ModeLength \<Rightarrow> get_length p i)) attrs of
        t # _ \<Rightarrow> Some t | [] \<Rightarrow> None)"

fun push_missing :: "string list \<Rightarrow> string list \<Rightarrow> string list" where
  "push_missing bs [] = bs"
| "push_missing bs (b # new) = push_missing (if b \<in> set bs then bs else bs @ [b]) new"

definition param_bounds ::
  "string \<Rightarrow> ident set \<Rightarrow> attributes list \<Rightarrow> derive_mode \<Rightarrow> ident \<Rightarrow> string list \<Rightarrow> string list" where
  "param_bounds bound blacklist attrs m i bs = (case find_type_param m attrs i of
      Some t \<Rightarrow> push_missing bs (snd t)
    | None \<Rightarrow> if i \<notin> blacklist then bs @ [bound] else bs)"

fun add_bound_to_type_params ::
  "string \<Rightarrow> ident set \<Rightarrow> attributes list \<Rightarrow> derive_mode \<Rightarrow> generics \<Rightarrow> generics" where
  "add_bound_to_type_params bound blacklist attrs m [] = []"
| "add_bound_to_type_params bound blacklist attrs m (p # ps) =
     (case p of TypeParam i bs \<Rightarrow> TypeParam i (param_bounds bound blacklist attrs m i bs) | _ \<Rightarrow> p) #
     add_bound_to_type_params bound blacklist attrs m ps"

fun add_bound_to_matching_type_params :: "string \<Rightarrow> ident set \<Rightarrow> generics \<Rightarrow> generics" where
  "add_bound_to_matching_type_params bound whitelist [] = []"
| "add_bound_to_matching_type_params bound whitelist (p # ps) =
     (case p of TypeParam i bs \<Rightarrow> TypeParam i (if i \<in> whitelist then bs @ [bound] else bs) | _ \<Rightarrow> p) #
     add_bound_to_matching_type_params bound whitelist ps"

text \<open>The parameter for the context, with its bounds in the order of their iterator.\<close>

definition add_typeparam :: "ident \<Rightarrow> string list option \<Rightarrow> generics \<Rightarrow> generics" where
  "add_typeparam t b g = TypeParam t (case b of Some bs \<Rightarrow> bs | None \<Rightarrow> []) # g"

definition add_lifetime :: "string \<Rightarrow> string set \<Rightarrow> generics \<Rightarrow> generics" where
  "add_lifetime l bounds g = LifetimeParam l bounds # g"

section \<open>Lifetimes of the input\<close>

definition tyref_lifetime :: "(ty \<Rightarrow> bool) \<Rightarrow> ty \<Rightarrow> string option" where
  "tyref_lifetime P t = (case t of TyRef l e \<Rightarrow> if P e then l else None | _ \<Rightarrow> None)"

definition option_lifetime :: "(ty \<Rightarrow> bool) \<Rightarrow> ty \<Rightarrow> string option" where
  "option_lifetime P t = (case t of
      TyPath _ _ ss \<Rightarrow> (case rev ss of
          (i, PathAngle [GenType (TyRef l e)]) # _ \<Rightarrow> if i = ''Option'' \<and> P e then l else None
        | _ \<Rightarrow> None)
    | _ \<Rightarrow> None)"

definition allowed :: "string set \<Rightarrow> string \<Rightarrow> string list" where
  "allowed only l = (if only = {} \<or> l \<in> only then [l] else [])"

fun get_lifetimes :: "string set \<Rightarrow> ty \<Rightarrow> string list"
  and arg_lifetimes :: "string set \<Rightarrow> generic_arg \<Rightarrow> string list" where
  "get_lifetimes only (TyArray t) = get_lifetimes only t"
| "get_lifetimes only (TySlice t) = get_lifetimes only t"
| "get_lifetimes only (TyParen t) = get_lifetimes only t"
| "get_lifetimes only (TyGroup t) = get_lifetimes only t"
| "get_lifetimes only (TyPtr t) = get_lifetimes only t"
| "get_lifetimes only (TyRef l t) = (case l of Some l \<Rightarrow> allowed only l | None \<Rightarrow> []) @ get_lifetimes only t"
| "get_lifetimes only (TyTuple ts) = concat (map (get_lifetimes only) ts)"
| "get_lifetimes only (TyPath _ _ ss) =
     concat (map (\<lambda>(_, a). case a of PathAngle as \<Rightarrow> concat (map (arg_lifetimes only) as) | _ \<Rightarrow> []) ss)"
| "get_lifetimes only (TyOther _ _) = []"
| "arg_lifetimes only (GenType t) = get_lifetimes only t"
| "arg_lifetimes only (GenAssoc _ t) = get_lifetimes only t"
| "arg_lifetimes only (GenLifetime l) = allowed only l"
| "arg_lifetimes only (GenOther _) = []"

definition field_lifetimes :: "idx \<times> string set option \<times> ty \<Rightarrow> string list" where
  "field_lifetimes x = (case x of (i, l, t) \<Rightarrow>
     (case tyref_lifetime is_str t of Some l \<Rightarrow> [l]
      | None \<Rightarrow> (case tyref_lifetime is_byte_slice t of Some l \<Rightarrow> [l]
      | None \<Rightarrow> (case option_lifetime is_str t of Some l \<Rightarrow> [l]
      | None \<Rightarrow> (case option_lifetime is_byte_slice t of Some l \<Rightarrow> [l]
      | None \<Rightarrow> (case l of Some only \<Rightarrow> get_lifetimes only t | None \<Rightarrow> []) @ (if idx_is_b i then get_lifetimes {} t else []))))))"

definition lifetimes_to_constrain :: "(idx \<times> string set option \<times> ty) list \<Rightarrow> string set" where
  "lifetimes_to_constrain types = set (concat (map field_lifetimes types))"

section \<open>The generics of the implementations\<close>

definition gen_encode_bound :: string where "gen_encode_bound = ''minicbor::Encode<Ctx>''"
definition gen_decode_bound :: string where "gen_decode_bound = ''minicbor::Decode<'' @ [CHR 0x27] @ ''bytes, Ctx>''"
definition gen_default_bound :: string where "gen_default_bound = ''Default''"
definition gen_cbor_len_bound :: string where "gen_cbor_len_bound = ''minicbor::CborLen<Ctx>''"
definition gen_lifetime :: string where "gen_lifetime = [CHR 0x27] @ ''bytes''"

definition encode_struct_generics :: "string list option \<Rightarrow> fields \<Rightarrow> generics \<Rightarrow> generics" where
  "encode_struct_generics ctx fs g =
     add_typeparam ''Ctx'' ctx
       (add_bound_to_type_params gen_encode_bound (blacklist_new ModeEncode fs g) (map f_attrs (fl_fields fs)) ModeEncode g)"

definition len_struct_generics :: "string list option \<Rightarrow> fields \<Rightarrow> generics \<Rightarrow> generics" where
  "len_struct_generics ctx fs g =
     (let attrs = map f_attrs (fl_fields fs);
          g1 = add_bound_to_type_params gen_cbor_len_bound (blacklist_new ModeLength fs g) attrs ModeLength g;
          g2 = add_bound_to_type_params gen_encode_bound (blacklist_is_nil_params g1 fs) attrs ModeLength g1
      in add_typeparam ''Ctx'' ctx g2)"

definition input_lifetimes :: "fields \<Rightarrow> string set" where
  "input_lifetimes fs = lifetimes_to_constrain (map (\<lambda>f. (f_index f, at_borrow (f_attrs f), f_typ f)) (fl_fields fs))"

definition default_types :: "generics \<Rightarrow> fields \<Rightarrow> ident set" where
  "default_types g fs = collect_type_params g
     (filter (\<lambda>f. (at_default (f_attrs f) \<or> at_skip (f_attrs f)) \<and> \<not> is_phantom_data (f_typ f)) (fl_fields fs @ fl_skipped fs))"

definition decode_struct_generics :: "string list option \<Rightarrow> fields \<Rightarrow> generics \<Rightarrow> generics" where
  "decode_struct_generics ctx fs g =
     (let g1 = add_bound_to_type_params gen_decode_bound (blacklist_new ModeDecode fs g) (map f_attrs (fl_fields fs)) ModeDecode g;
          g2 = add_bound_to_matching_type_params gen_default_bound (default_types g fs) g1
      in add_typeparam ''Ctx'' ctx (add_lifetime gen_lifetime (input_lifetimes fs) g2))"

text \<open>Of an enumeration the fields of all variants, for \<open>Decode\<close> without the unit variants.\<close>

definition merge_all :: "derive_mode \<Rightarrow> generics \<Rightarrow> fields list \<Rightarrow> ident set" where
  "merge_all m g fss = foldl (\<lambda>s fs. blacklist_merge m fs g s) {} fss"

definition all_attrs :: "fields list \<Rightarrow> attributes list" where
  "all_attrs fss = concat (map (\<lambda>fs. map f_attrs (fl_fields fs)) fss)"

definition encode_enum_generics :: "string list option \<Rightarrow> fields list \<Rightarrow> generics \<Rightarrow> generics" where
  "encode_enum_generics ctx fss g =
     add_typeparam ''Ctx'' ctx
       (add_bound_to_type_params gen_encode_bound (merge_all ModeEncode g fss) (all_attrs fss) ModeEncode g)"

definition len_enum_generics :: "string list option \<Rightarrow> fields list \<Rightarrow> generics \<Rightarrow> generics" where
  "len_enum_generics ctx fss g =
     (let g1 = add_bound_to_type_params gen_cbor_len_bound (merge_all ModeLength g fss) (all_attrs fss) ModeLength g;
          b = foldl (\<lambda>s fs. blacklist_add (blacklist_is_nil_params g fs) s) {} fss
      in add_typeparam ''Ctx'' ctx (add_bound_to_type_params gen_encode_bound b (all_attrs fss) ModeLength g1))"

definition decode_enum_generics :: "string list option \<Rightarrow> fields list \<Rightarrow> generics \<Rightarrow> generics" where
  "decode_enum_generics ctx fss g =
     (let g1 = add_bound_to_type_params gen_decode_bound (merge_all ModeDecode g fss) (all_attrs fss) ModeDecode g;
          g2 = add_bound_to_matching_type_params gen_default_bound (\<Union>fs \<in> set fss. default_types g fs) g1
      in add_typeparam ''Ctx'' ctx (add_lifetime gen_lifetime (\<Union>fs \<in> set fss. input_lifetimes fs) g2))"

section \<open>Bounds that are needed\<close>

definition has_bound :: "string \<Rightarrow> ident \<Rightarrow> generics \<Rightarrow> bool" where
  "has_bound b i g \<longleftrightarrow> (\<exists>bs. TypeParam i bs \<in> set g \<and> b \<in> set bs)"

text \<open>
  The types that occur in a type, wherever in it; a field mentions a parameter when the parameter occurs as
  a type of its own. This is independent of the collector, which turns out to find exactly these parameters.
\<close>

inductive part_of :: "ty \<Rightarrow> ty \<Rightarrow> bool" and part_of_arg :: "ty \<Rightarrow> generic_arg \<Rightarrow> bool" for s :: ty where
  part_self: "part_of s s"
| part_qself: "part_of s t \<Longrightarrow> part_of s (TyPath (Some t) c ss)"
| part_angle: "(j, PathAngle as) \<in> set ss \<Longrightarrow> a \<in> set as \<Longrightarrow> part_of_arg s a \<Longrightarrow> part_of s (TyPath q c ss)"
| part_args: "(j, PathParen ts) \<in> set ss \<Longrightarrow> t \<in> set ts \<Longrightarrow> part_of s t \<Longrightarrow> part_of s (TyPath q c ss)"
| part_slice: "part_of s t \<Longrightarrow> part_of s (TySlice t)"
| part_array: "part_of s t \<Longrightarrow> part_of s (TyArray t)"
| part_paren: "part_of s t \<Longrightarrow> part_of s (TyParen t)"
| part_group: "part_of s t \<Longrightarrow> part_of s (TyGroup t)"
| part_ptr: "part_of s t \<Longrightarrow> part_of s (TyPtr t)"
| part_ref: "part_of s t \<Longrightarrow> part_of s (TyRef l t)"
| part_tuple: "t \<in> set ts \<Longrightarrow> part_of s t \<Longrightarrow> part_of s (TyTuple ts)"
| part_other: "t \<in> set ts \<Longrightarrow> part_of s t \<Longrightarrow> part_of s (TyOther k ts)"
| part_gen_type: "part_of s t \<Longrightarrow> part_of_arg s (GenType t)"
| part_assoc: "part_of s t \<Longrightarrow> part_of_arg s (GenAssoc ts t)"
| part_assoc_args: "t \<in> set ts \<Longrightarrow> part_of s t \<Longrightarrow> part_of_arg s (GenAssoc ts u)"
| part_gen_other: "t \<in> set ts \<Longrightarrow> part_of s t \<Longrightarrow> part_of_arg s (GenOther ts)"

inductive_simps part_simps:
  "part_of s (TyPath q c ss)" "part_of s (TySlice t)" "part_of s (TyArray t)" "part_of s (TyParen t)" "part_of s (TyGroup t)"
  "part_of s (TyPtr t)" "part_of s (TyRef l t)" "part_of s (TyTuple ts)" "part_of s (TyOther k ts)"
  "part_of_arg s (GenType t)" "part_of_arg s (GenLifetime l)" "part_of_arg s (GenAssoc ts t)" "part_of_arg s (GenOther ts)"

definition mentions :: "generics \<Rightarrow> field \<Rightarrow> ident \<Rightarrow> bool" where
  "mentions g f i \<longleftrightarrow> i \<in> type_idents g \<and> (\<exists>q a. part_of (TyPath q False [(i, a)]) (f_typ f))"

definition named_in :: "ident \<Rightarrow> ty \<Rightarrow> bool" where
  "named_in i t \<longleftrightarrow> (\<exists>q a. part_of (TyPath q False [(i, a)]) t)"

definition named_in_arg :: "ident \<Rightarrow> generic_arg \<Rightarrow> bool" where
  "named_in_arg i x \<longleftrightarrow> (\<exists>q a. part_of_arg (TyPath q False [(i, a)]) x)"

definition named_in_args :: "ident \<Rightarrow> path_args \<Rightarrow> bool" where
  "named_in_args i as \<longleftrightarrow> (case as of PathPlain \<Rightarrow> False
     | PathAngle xs \<Rightarrow> (\<exists>x \<in> set xs. named_in_arg i x) | PathParen ts \<Rightarrow> (\<exists>t \<in> set ts. named_in i t))"

lemma named_path:
  "named_in i (TyPath q c ss) \<longleftrightarrow> (\<not> c \<and> map fst ss = [i]) \<or> (\<exists>t. q = Some t \<and> named_in i t) \<or>
     (\<exists>x \<in> set ss. named_in_args i (snd x))"
proof
  assume "named_in i (TyPath q c ss)"
  then show "(\<not> c \<and> map fst ss = [i]) \<or> (\<exists>t. q = Some t \<and> named_in i t) \<or> (\<exists>x \<in> set ss. named_in_args i (snd x))"
    unfolding named_in_def part_simps by (force simp: named_in_args_def named_in_def named_in_arg_def)
next
  have "named_in i (TyPath q c ss)" if "\<not> c" "map fst ss = [i]"
  proof -
    from that(2) obtain a where "ss = [(i, a)]" by (cases ss) auto
    then show ?thesis using that(1) part_self unfolding named_in_def by auto
  qed
  moreover have "named_in i (TyPath q c ss)" if "(j, as) \<in> set ss" "named_in_args i as" for j as
    using that unfolding named_in_args_def named_in_def named_in_arg_def
    by (auto split: path_args.splits intro: part_angle part_args)
  moreover have "named_in i (TyPath (Some t) c ss)" if "named_in i t" for t
    using that part_qself unfolding named_in_def by blast
  ultimately show "(\<not> c \<and> map fst ss = [i]) \<or> (\<exists>t. q = Some t \<and> named_in i t) \<or> (\<exists>x \<in> set ss. named_in_args i (snd x)) \<Longrightarrow>
      named_in i (TyPath q c ss)"
    by (auto simp: case_prod_beta)
qed

lemma named_simps [simp]:
  "named_in i (TySlice t) \<longleftrightarrow> named_in i t" "named_in i (TyArray t) \<longleftrightarrow> named_in i t" "named_in i (TyParen t) \<longleftrightarrow> named_in i t"
  "named_in i (TyGroup t) \<longleftrightarrow> named_in i t" "named_in i (TyPtr t) \<longleftrightarrow> named_in i t" "named_in i (TyRef l t) \<longleftrightarrow> named_in i t"
  "named_in i (TyTuple ts) \<longleftrightarrow> (\<exists>t \<in> set ts. named_in i t)" "named_in i (TyOther n ts) \<longleftrightarrow> (\<exists>t \<in> set ts. named_in i t)"
  "named_in_arg i (GenType t) \<longleftrightarrow> named_in i t" "\<not> named_in_arg i (GenLifetime k)"
  "named_in_arg i (GenAssoc ts t) \<longleftrightarrow> named_in i t \<or> (\<exists>t \<in> set ts. named_in i t)"
  "named_in_arg i (GenOther ts) \<longleftrightarrow> (\<exists>t \<in> set ts. named_in i t)"
  by (auto simp: named_in_def named_in_arg_def part_simps)

text \<open>The collector is exact.\<close>

lemma visit_named:
  "i \<in> set (visit_ty all t) \<longleftrightarrow> i \<in> all \<and> named_in i t"
  "i \<in> set (visit_args all' as) \<longleftrightarrow> i \<in> all' \<and> named_in_args i as"
  "i \<in> set (visit_arg all'' a) \<longleftrightarrow> i \<in> all'' \<and> named_in_arg i a"
proof (induction all t and all' as and all'' a rule: visit_ty_visit_args_visit_arg.induct)
  case (1 all q c ss)
  have "(\<exists>x \<in> set ss. i \<in> set (visit_args all (snd x))) \<longleftrightarrow> i \<in> all \<and> (\<exists>x \<in> set ss. named_in_args i (snd x))"
    using 1(2) by (metis prod.collapse)
  moreover have "i \<in> set (case q of None \<Rightarrow> [] | Some t \<Rightarrow> visit_ty all t) \<longleftrightarrow> i \<in> all \<and> (\<exists>t. q = Some t \<and> named_in i t)"
    using 1(1) by (cases q) auto
  moreover have "length ss = 1 \<and> fst (hd ss) = i \<longleftrightarrow> map fst ss = [i]" by (cases ss) auto
  ultimately show ?case by (auto simp: named_path case_prod_beta)
qed (auto simp: named_in_args_def)

lemma mentions_visit: "mentions g f i \<longleftrightarrow> i \<in> set (visit_ty (type_idents g) (f_typ f))"
  by (simp add: mentions_def visit_named named_in_def)

lemma collect_mentions: "i \<in> collect_type_params g fs \<longleftrightarrow> (\<exists>f \<in> set fs. mentions g f i)"
  by (auto simp: collect_type_params_def mentions_visit)

lemma default_for_custom: "default_for m f \<longleftrightarrow> \<not> custom_for m f"
  by (auto simp: default_for_def custom_for_def Let_def split: derive_mode.split option.split)

lemma mentions_ident: "mentions g f i \<Longrightarrow> i \<in> type_idents g"
  by (simp add: mentions_def)

lemma type_idents_param: "i \<in> type_idents g \<longleftrightarrow> (\<exists>bs. TypeParam i bs \<in> set g)"
  by (induction g) (auto simp: type_idents_def List.map_filter_simps split: generic_param.splits)

lemma blacklist_not_needed:
  assumes "i \<in> blacklist_new m fs g" "f \<in> set (fl_fields fs)" "mentions g f i"
  shows "custom_for m f \<or> is_phantom_data (f_typ f)"
  using assms
  by (auto simp: blacklist_new_def Let_def collect_mentions default_for_custom split: if_splits)

lemma blacklist_covers:
  "(\<exists>f \<in> set (fl_fields fs). mentions g f i) \<Longrightarrow> \<forall>f \<in> set (fl_fields fs). mentions g f i \<longrightarrow> custom_for m f \<Longrightarrow>
     i \<in> blacklist_new m fs g"
  "(\<exists>f \<in> set (fl_skipped fs). mentions g f i) \<Longrightarrow> \<forall>f \<in> set (fl_fields fs). \<not> mentions g f i \<Longrightarrow> i \<in> blacklist_new m fs g"
  "(\<exists>f \<in> set (fl_fields fs @ fl_skipped fs). mentions g f i) \<Longrightarrow>
     \<forall>f \<in> set (fl_fields fs @ fl_skipped fs). mentions g f i \<longrightarrow> is_phantom_data (f_typ f) \<Longrightarrow> i \<in> blacklist_new m fs g"
proof -
  show "i \<in> blacklist_new m fs g" if "\<exists>f \<in> set (fl_fields fs). mentions g f i"
    "\<forall>f \<in> set (fl_fields fs). mentions g f i \<longrightarrow> custom_for m f"
  proof -
    have "i \<in> collect_type_params g (filter (custom_for m) (fl_fields fs))"
      "i \<notin> collect_type_params g (filter (default_for m) (fl_fields fs))"
      using that by (auto simp: collect_mentions default_for_custom)
    then show ?thesis by (auto simp: blacklist_new_def Let_def)
  qed
  show "i \<in> blacklist_new m fs g" if "\<exists>f \<in> set (fl_skipped fs). mentions g f i" "\<forall>f \<in> set (fl_fields fs). \<not> mentions g f i"
  proof -
    have "i \<in> collect_type_params g (fl_skipped fs)" "i \<notin> collect_type_params g (fl_fields fs)"
      using that by (auto simp: collect_mentions)
    then show ?thesis by (auto simp: blacklist_new_def Let_def)
  qed
  show "i \<in> blacklist_new m fs g" if "\<exists>f \<in> set (fl_fields fs @ fl_skipped fs). mentions g f i"
    "\<forall>f \<in> set (fl_fields fs @ fl_skipped fs). mentions g f i \<longrightarrow> is_phantom_data (f_typ f)"
  proof -
    let ?every = "fl_fields fs @ fl_skipped fs"
    have "i \<in> collect_type_params g (filter (\<lambda>f. is_phantom_data (f_typ f)) ?every)"
      "i \<notin> collect_type_params g (filter (\<lambda>f. \<not> is_phantom_data (f_typ f)) ?every)"
      using that by (auto simp: collect_mentions)
    then show ?thesis by (auto simp only: blacklist_new_def Let_def split: if_splits)
  qed
qed

text \<open>The passes over the generics keep every parameter and its bounds.\<close>

lemma set_push_missing [simp]: "set (push_missing bs new) = set bs \<union> set new"
  by (induction bs new rule: push_missing.induct) auto

lemma add_bound_params:
  "TypeParam i bs \<in> set g \<Longrightarrow> TypeParam i (param_bounds b black attrs m i bs) \<in> set (add_bound_to_type_params b black attrs m g)"
  by (induction g) auto

lemma add_matching_params:
  "TypeParam i bs \<in> set g \<Longrightarrow>
     TypeParam i (if i \<in> white then bs @ [b] else bs) \<in> set (add_bound_to_matching_type_params b white g)"
  by (induction g) auto

lemma type_idents_add [simp]:
  "type_idents (add_bound_to_type_params b black attrs m g) = type_idents g"
  by (induction g) (auto simp: type_idents_def List.map_filter_simps split: generic_param.splits option.splits)

lemma mentions_add [simp]: "mentions (add_bound_to_type_params b black attrs m g) = mentions g"
  by (simp add: fun_eq_iff mentions_def)

lemma has_bound_kept:
  "has_bound c i g \<Longrightarrow> has_bound c i (add_bound_to_type_params b black attrs m g)"
  "has_bound c i g \<Longrightarrow> has_bound c i (add_bound_to_matching_type_params b white g)"
  "has_bound c i g \<Longrightarrow> has_bound c i (add_typeparam t ctx g)" "has_bound c i g \<Longrightarrow> has_bound c i (add_lifetime l ls g)"
proof -
  assume "has_bound c i g"
  then obtain bs where bs: "TypeParam i bs \<in> set g" "c \<in> set bs" by (auto simp: has_bound_def)
  show "has_bound c i (add_bound_to_type_params b black attrs m g)"
    using add_bound_params [OF bs(1), of b black attrs m] bs(2)
    by (fastforce simp: has_bound_def param_bounds_def split: option.splits if_splits)
  show "has_bound c i (add_bound_to_matching_type_params b white g)"
    using add_matching_params [OF bs(1), of white b] bs(2) by (fastforce simp: has_bound_def split: if_splits)
qed (auto simp: has_bound_def add_typeparam_def add_lifetime_def)

lemma bound_added:
  assumes "i \<in> type_idents g" "find_type_param m attrs i = None" "i \<notin> black"
  shows "has_bound b i (add_bound_to_type_params b black attrs m g)"
proof -
  obtain bs where "TypeParam i bs \<in> set g" using assms(1) by (auto simp: type_idents_param)
  from add_bound_params [OF this, of b black attrs m] assms(2,3) show ?thesis by (auto simp: has_bound_def param_bounds_def)
qed

lemma matching_bound_added:
  assumes "i \<in> type_idents g" "i \<in> white" shows "has_bound b i (add_bound_to_matching_type_params b white g)"
proof -
  obtain bs where "TypeParam i bs \<in> set g" using assms(1) by (auto simp: type_idents_param)
  from add_matching_params [OF this, of white b] assms(2) show ?thesis by (auto simp: has_bound_def)
qed

text \<open>The attributes of the fields say nothing of a parameter.\<close>

definition unspecified :: "derive_mode \<Rightarrow> fields \<Rightarrow> ident \<Rightarrow> bool" where
  "unspecified m fs i \<longleftrightarrow> find_type_param m (map f_attrs (fl_fields fs)) i = None"

lemma is_nil_params_needed:
  "i \<in> blacklist_is_nil_params g fs \<Longrightarrow> f \<in> set (fl_fields fs) \<Longrightarrow> mentions g f i \<Longrightarrow> at_codec (f_attrs f) \<noteq> None"
  by (auto simp: blacklist_is_nil_params_def blacklist_add_def collect_mentions split: option.splits)


text \<open>A parameter that only occurs in fields with functions of their own, skipped fields or \<open>PhantomData\<close> keeps its bounds.\<close>

lemma needless_bounds_left_out:
  assumes "TypeParam i bs \<in> set g" "unspecified ModeEncode fs i"
    "(\<exists>f \<in> set (fl_fields fs). mentions g f i) \<and> (\<forall>f \<in> set (fl_fields fs). mentions g f i \<longrightarrow> custom_for ModeEncode f) \<or>
     (\<exists>f \<in> set (fl_skipped fs). mentions g f i) \<and> (\<forall>f \<in> set (fl_fields fs). \<not> mentions g f i) \<or>
     (\<exists>f \<in> set (fl_fields fs @ fl_skipped fs). mentions g f i) \<and>
       (\<forall>f \<in> set (fl_fields fs @ fl_skipped fs). mentions g f i \<longrightarrow> is_phantom_data (f_typ f))"
  shows "TypeParam i bs \<in> set (encode_struct_generics ctx fs g)"
proof -
  have "i \<in> blacklist_new ModeEncode fs g" 
    using assms(3) by (elim disjE conjE) (rule blacklist_covers, assumption, assumption)+
  then show ?thesis
    using add_bound_params [OF assms(1), of gen_encode_bound "blacklist_new ModeEncode fs g" "map f_attrs (fl_fields fs)" ModeEncode] assms(2)
    by (simp add: encode_struct_generics_def add_typeparam_def unspecified_def param_bounds_def)
qed

section \<open>Bounds of enumerations\<close>

text \<open>
  The lists of the variants are merged in their order, so a parameter that the last variant to mention it
  does not need has no bound, even where another variant does. Where no variant lists it, the bound is there.
\<close>

lemma merge_all_none:
  "\<forall>fs \<in> set fss. i \<notin> blacklist_new m fs g \<Longrightarrow> i \<notin> merge_all m g fss"
proof -
  have "i \<notin> foldl (\<lambda>s fs. blacklist_merge m fs g s) b fss" if "\<forall>fs \<in> set fss. i \<notin> blacklist_new m fs g" "i \<notin> b" for b
    using that by (induction fss arbitrary: b) (auto simp: blacklist_merge_def Let_def)
  then show "\<forall>fs \<in> set fss. i \<notin> blacklist_new m fs g \<Longrightarrow> i \<notin> merge_all m g fss" by (simp add: merge_all_def)
qed

lemma enum_bound_kept:
  assumes "i \<in> type_idents g" "\<forall>fs \<in> set fss. i \<notin> blacklist_new ModeEncode fs g" "find_type_param ModeEncode (all_attrs fss) i = None"
  shows "has_bound gen_encode_bound i (encode_enum_generics ctx fss g)"
  unfolding encode_enum_generics_def by (intro has_bound_kept(3) bound_added assms merge_all_none)

definition plain_field :: "ty \<Rightarrow> field" where
  "plain_field t = \<lparr>f_pos = 0, f_ident = ''_0'', f_is_name = False, f_index = IdxN 0, f_typ = t, f_attrs = attributes_new LField\<rparr>"

definition holding :: "ty \<Rightarrow> fields" where
  "holding t = \<lparr>fl_fields = [plain_field t], fl_skipped = []\<rparr>"

definition ty_T :: ty where "ty_T = TyPath None False [(''T'', PathPlain)]"
definition ty_phantom_T :: ty where "ty_phantom_T = TyPath None False [(''PhantomData'', PathAngle [GenType ty_T])]"

lemma enum_bound_lost:
  "encode_enum_generics None [holding ty_T, holding ty_phantom_T] [TypeParam ''T'' []] = [TypeParam ''Ctx'' [], TypeParam ''T'' []]"
  "encode_enum_generics None [holding ty_phantom_T, holding ty_T] [TypeParam ''T'' []] =
     [TypeParam ''Ctx'' [], TypeParam ''T'' [gen_encode_bound]]"
  by code_simp+


section \<open>Lifetimes of a type\<close>

text \<open>The lifetimes in the places of a type a decoded value can borrow with.\<close>

inductive lifetime_in :: "string \<Rightarrow> ty \<Rightarrow> bool" and lifetime_arg :: "string \<Rightarrow> generic_arg \<Rightarrow> bool" where
  in_array: "lifetime_in l t \<Longrightarrow> lifetime_in l (TyArray t)"
| in_slice: "lifetime_in l t \<Longrightarrow> lifetime_in l (TySlice t)"
| in_paren: "lifetime_in l t \<Longrightarrow> lifetime_in l (TyParen t)"
| in_group: "lifetime_in l t \<Longrightarrow> lifetime_in l (TyGroup t)"
| in_ptr: "lifetime_in l t \<Longrightarrow> lifetime_in l (TyPtr t)"
| in_ref: "lifetime_in l (TyRef (Some l) t)"
| behind_ref: "lifetime_in l t \<Longrightarrow> lifetime_in l (TyRef k t)"
| in_tuple: "t \<in> set ts \<Longrightarrow> lifetime_in l t \<Longrightarrow> lifetime_in l (TyTuple ts)"
| in_path: "(i, PathAngle as) \<in> set ss \<Longrightarrow> a \<in> set as \<Longrightarrow> lifetime_arg l a \<Longrightarrow> lifetime_in l (TyPath q c ss)"
| arg_type: "lifetime_in l t \<Longrightarrow> lifetime_arg l (GenType t)"
| arg_assoc: "lifetime_in l t \<Longrightarrow> lifetime_arg l (GenAssoc ts t)"
| arg_lifetime: "lifetime_arg l (GenLifetime l)"

inductive_simps lifetime_simps [simp]:
  "lifetime_in l (TyArray t)" "lifetime_in l (TySlice t)" "lifetime_in l (TyParen t)" "lifetime_in l (TyGroup t)"
  "lifetime_in l (TyPtr t)" "lifetime_in l (TyRef k t)" "lifetime_in l (TyTuple ts)" "lifetime_in l (TyPath q c ss)"
  "lifetime_in l (TyOther s ts)" "lifetime_arg l (GenType t)" "lifetime_arg l (GenAssoc ts t)"
  "lifetime_arg l (GenLifetime k)" "lifetime_arg l (GenOther ts)"

definition permits :: "string set \<Rightarrow> string \<Rightarrow> bool" where
  "permits only l \<longleftrightarrow> only = {} \<or> l \<in> only"

lemma allowed_iff [simp]: "l \<in> set (allowed only k) \<longleftrightarrow> l = k \<and> permits only l"
  by (auto simp: allowed_def permits_def)

lemma get_lifetimes_in:
  "l \<in> set (get_lifetimes only t) \<longleftrightarrow> lifetime_in l t \<and> permits only l"
  "l \<in> set (arg_lifetimes only' a) \<longleftrightarrow> lifetime_arg l a \<and> permits only' l"
proof (induction only t and only' a rule: get_lifetimes_arg_lifetimes.induct)
  case (6 only k t)
  then show ?case by (cases k) auto
next
  case (8 only q c ss)
  have "l \<in> set (case y of PathAngle as \<Rightarrow> concat (map (arg_lifetimes only) as) | _ \<Rightarrow> []) \<longleftrightarrow>
      (\<exists>as a. y = PathAngle as \<and> a \<in> set as \<and> lifetime_arg l a) \<and> permits only l" if "(i, y) \<in> set ss" for i y
    using 8 [OF that refl] by (cases y) auto
  then have "(\<exists>(i, y) \<in> set ss. l \<in> set (case y of PathAngle as \<Rightarrow> concat (map (arg_lifetimes only) as) | _ \<Rightarrow> [])) \<longleftrightarrow>
      (\<exists>i as a. (i, PathAngle as) \<in> set ss \<and> a \<in> set as \<and> lifetime_arg l a) \<and> permits only l"
    by fastforce
  then show ?case by (simp add: case_prod_beta Bex_def)
qed auto

text \<open>A reference to text or bytes, or an option of one; these types take no arguments of their own.\<close>

definition text_or_bytes :: "ty \<Rightarrow> bool" where
  "text_or_bytes e \<longleftrightarrow> is_str e \<or> is_byte_slice e"

definition borrowed_text :: "ty \<Rightarrow> string option" where
  "borrowed_text t = (case t of
      TyRef l e \<Rightarrow> if text_or_bytes e then l else None
    | TyPath _ _ ss \<Rightarrow> (case rev ss of
          (i, PathAngle [GenType (TyRef l e)]) # _ \<Rightarrow> if i = ''Option'' \<and> text_or_bytes e then l else None
        | _ \<Rightarrow> None)
    | _ \<Rightarrow> None)"

definition plain_text :: "ty \<Rightarrow> bool" where
  "plain_text t \<longleftrightarrow> (\<forall>l. borrowed_text t = Some l \<longrightarrow> (\<forall>k. lifetime_in k t \<longleftrightarrow> k = l))"

lemma borrowed_text_cases:
  "borrowed_text t =
     (case tyref_lifetime is_str t of Some l \<Rightarrow> Some l
      | None \<Rightarrow> (case tyref_lifetime is_byte_slice t of Some l \<Rightarrow> Some l
      | None \<Rightarrow> (case option_lifetime is_str t of Some l \<Rightarrow> Some l
      | None \<Rightarrow> option_lifetime is_byte_slice t)))"
proof (cases t)
  case (TyPath q c ss)
  have "tyref_lifetime P t = None" for P by (simp add: tyref_lifetime_def TyPath)
  then show ?thesis
    unfolding TyPath borrowed_text_def option_lifetime_def text_or_bytes_def
    by (auto split: list.split prod.split path_args.split generic_arg.split ty.split option.split)
qed (auto simp: borrowed_text_def tyref_lifetime_def option_lifetime_def text_or_bytes_def split: option.split)

lemma field_lifetimes_in:
  assumes "plain_text t"
  shows "l \<in> set (field_lifetimes (i, only, t)) \<longleftrightarrow>
    lifetime_in l t \<and> (borrowed_text t = Some l \<or> idx_is_b i \<or> (\<exists>ls. only = Some ls \<and> permits ls l))"
proof (cases "borrowed_text t")
  case None
  then have "field_lifetimes (i, only, t) =
      (case only of Some ls \<Rightarrow> get_lifetimes ls t | None \<Rightarrow> []) @ (if idx_is_b i then get_lifetimes {} t else [])"
    by (auto simp: field_lifetimes_def borrowed_text_cases split: option.splits)
  then show ?thesis using None by (auto simp: get_lifetimes_in permits_def split: option.splits)
next
  case (Some k)
  then have "field_lifetimes (i, only, t) = [k]"
    by (auto simp: field_lifetimes_def borrowed_text_cases split: option.splits)
  then show ?thesis using assms Some by (auto simp: plain_text_def)
qed

text \<open>C30: The input of a derived decoder has to outlive exactly the lifetimes that decoded values borrow with: of a field
  with a borrowing index all lifetimes of its type, of one with a borrow attribute those the attribute permits,
  and that of a reference to text or bytes, also in an option. Nothing else is constrained, so owned values may be decoded from
  any input.
\<close>

theorem input_lifetimes_exact:
  assumes "\<forall>f \<in> set (fl_fields fs). plain_text (f_typ f)"
  shows "l \<in> input_lifetimes fs \<longleftrightarrow>
    (\<exists>f \<in> set (fl_fields fs). lifetime_in l (f_typ f) \<and>
       (borrowed_text (f_typ f) = Some l \<or> idx_is_b (f_index f) \<or> (\<exists>ls. at_borrow (f_attrs f) = Some ls \<and> permits ls l)))"
  using assms by (auto simp: input_lifetimes_def lifetimes_to_constrain_def field_lifetimes_in)

definition ty_with :: "string \<Rightarrow> ty" where
  "ty_with l = TyPath None False [(''V'', PathAngle [GenLifetime l])]"

definition ty_ref_str :: "string \<Rightarrow> ty" where
  "ty_ref_str l = TyRef (Some l) (TyPath None False [(''str'', PathPlain)])"

definition three_lifetimes :: fields where
  "three_lifetimes = \<lparr>fl_fields = [(plain_field (ty_with ''a''))\<lparr>f_index := IdxB 0\<rparr>, plain_field (ty_with ''b''), plain_field (ty_ref_str ''c'')],
     fl_skipped = []\<rparr>"

lemma three_lifetimes_fields:
  "borrowed_text (ty_with k) = None" "lifetime_in l (ty_with k) \<longleftrightarrow> l = k"
  "borrowed_text (ty_ref_str k) = Some k" "lifetime_in l (ty_ref_str k) \<longleftrightarrow> l = k"
  by (auto simp: ty_with_def ty_ref_str_def borrowed_text_def text_or_bytes_def is_str_def)

theorem input_lifetimes_exact_witness: "input_lifetimes three_lifetimes = {''a'', ''c''}"
proof -
  have "\<forall>f \<in> set (fl_fields three_lifetimes). plain_text (f_typ f)"
    by (simp add: three_lifetimes_def plain_field_def plain_text_def three_lifetimes_fields)
  moreover have "at_borrow (attributes_new LField) = None" by code_simp
  ultimately show ?thesis
    by (intro set_eqI, subst input_lifetimes_exact)
      (auto simp: three_lifetimes_def plain_field_def three_lifetimes_fields idx_is_b_def)
qed

end
