(* ===== verification/Serde_Code.thy ===== *)
theory Serde_Code
  imports Cbor_Codec
begin

text \<open>
  The adapter to the traits of \<open>serde\<close> (\<open>minicbor-serde/src\<close>): \<open>Serializer\<close>, \<open>Deserializer\<close> and the access types behind
  them. A value that implements \<open>Serialize\<close> is the operation it runs on the serializer; a visitor is the
  record of its methods, and a seed the operation it runs on the deserializer. What visitors and seeds do
  is theirs: \<open>visit_seq\<close>, \<open>visit_map\<close> and \<open>visit_enum\<close> get the deserializer through the access types, as the length they were
  made with.
\<close>

section \<open>Features and errors\<close>

record serde_features =
  ft_half :: bool
  ft_alloc :: bool

text \<open>The error types wrap those of minicbor, and keep what they say.\<close>

definition de_custom :: "serde_features \<Rightarrow> string \<Rightarrow> decode_error" where
  "de_custom ft msg = (if ft_alloc ft then err_message msg else err_message ''custom error'')"

definition ser_custom :: "serde_features \<Rightarrow> string \<Rightarrow> 'e enc_error" where
  "ser_custom ft msg = (if ft_alloc ft then enc_error_message msg else enc_error_message ''custom error'')"

section \<open>Serializer\<close>

type_synonym ('w, 'e) ser = "('w, 'e) enc"

record 'w serializer =
  ser_writer :: 'w
  ser_unit_as_null :: bool

definition serializer_new :: "'w \<Rightarrow> 'w serializer" where
  "serializer_new w = \<lparr>ser_writer = w, ser_unit_as_null = False\<rparr>"

definition serialize_unit_as_null :: "bool \<Rightarrow> 'w serializer \<Rightarrow> 'w serializer" where
  "serialize_unit_as_null enable s = s\<lparr>ser_unit_as_null := enable\<rparr>"

definition serialize_bool :: "('w, 'e) write_all \<Rightarrow> bool \<Rightarrow> ('w, 'e) ser" where "serialize_bool wr v = enc_bool wr v"
definition serialize_i8 :: "('w, 'e) write_all \<Rightarrow> i8 \<Rightarrow> ('w, 'e) ser" where "serialize_i8 wr v = enc_i8 wr v"
definition serialize_i16 :: "('w, 'e) write_all \<Rightarrow> i16 \<Rightarrow> ('w, 'e) ser" where "serialize_i16 wr v = enc_i16 wr v"
definition serialize_i32 :: "('w, 'e) write_all \<Rightarrow> i32 \<Rightarrow> ('w, 'e) ser" where "serialize_i32 wr v = enc_i32 wr v"
definition serialize_i64 :: "('w, 'e) write_all \<Rightarrow> i64 \<Rightarrow> ('w, 'e) ser" where "serialize_i64 wr v = enc_i64 wr v"
definition serialize_u8 :: "('w, 'e) write_all \<Rightarrow> u8 \<Rightarrow> ('w, 'e) ser" where "serialize_u8 wr v = enc_u8 wr v"
definition serialize_u16 :: "('w, 'e) write_all \<Rightarrow> u16 \<Rightarrow> ('w, 'e) ser" where "serialize_u16 wr v = enc_u16 wr v"
definition serialize_u32 :: "('w, 'e) write_all \<Rightarrow> u32 \<Rightarrow> ('w, 'e) ser" where "serialize_u32 wr v = enc_u32 wr v"
definition serialize_u64 :: "('w, 'e) write_all \<Rightarrow> u64 \<Rightarrow> ('w, 'e) ser" where "serialize_u64 wr v = enc_u64 wr v"
definition serialize_f32 :: "('w, 'e) write_all \<Rightarrow> f32 \<Rightarrow> ('w, 'e) ser" where "serialize_f32 wr v = enc_f32 wr v"
definition serialize_f64 :: "('w, 'e) write_all \<Rightarrow> f64 \<Rightarrow> ('w, 'e) ser" where "serialize_f64 wr v = enc_f64 wr v"
definition serialize_char :: "('w, 'e) write_all \<Rightarrow> u32 \<Rightarrow> ('w, 'e) ser" where "serialize_char wr v = enc_char wr v"
definition serialize_str :: "('w, 'e) write_all \<Rightarrow> bytes \<Rightarrow> ('w, 'e) ser" where "serialize_str wr v = enc_str wr v"
definition serialize_bytes :: "('w, 'e) write_all \<Rightarrow> bytes \<Rightarrow> ('w, 'e) ser" where "serialize_bytes wr v = enc_bytes wr v"

definition serialize_none :: "('w, 'e) write_all \<Rightarrow> ('w, 'e) ser" where "serialize_none wr = enc_null wr"
definition serialize_some :: "('w, 'e) ser \<Rightarrow> ('w, 'e) ser" where "serialize_some m = m"

definition serialize_unit :: "bool \<Rightarrow> ('w, 'e) write_all \<Rightarrow> ('w, 'e) ser" where
  "serialize_unit unit_as_null wr = (if unit_as_null then enc_null wr else encode_unit wr ())"

definition serialize_unit_struct :: "bool \<Rightarrow> ('w, 'e) write_all \<Rightarrow> bytes \<Rightarrow> ('w, 'e) ser" where
  "serialize_unit_struct unit_as_null wr name = serialize_unit unit_as_null wr"

definition serialize_unit_variant :: "('w, 'e) write_all \<Rightarrow> bytes \<Rightarrow> u32 \<Rightarrow> bytes \<Rightarrow> ('w, 'e) ser" where
  "serialize_unit_variant wr name index variant = serialize_str wr variant"

definition serialize_newtype_struct :: "bytes \<Rightarrow> ('w, 'e) ser \<Rightarrow> ('w, 'e) ser" where
  "serialize_newtype_struct name m = m"

definition serialize_newtype_variant :: "('w, 'e) write_all \<Rightarrow> bytes \<Rightarrow> u32 \<Rightarrow> bytes \<Rightarrow> ('w, 'e) ser \<Rightarrow> ('w, 'e) ser" where
  "serialize_newtype_variant wr name index variant m = seq_m (enc_map wr 1) (seq_m (enc_str wr variant) m)"

text \<open>\<open>to_vec\<close> runs a value on a new serializer over an empty vector.\<close>

definition serde_to_vec :: "(bytes, infallible) ser \<Rightarrow> infallible enc_error + bytes" where
  "serde_to_vec m = (case m (ser_writer (serializer_new [])) of (Inl e, _) \<Rightarrow> Inl e | (Inr _, v) \<Rightarrow> Inr v)"

text \<open>The compound serializers are what is left to know about them: whether the length is indefinite.\<close>

type_synonym ('w, 'e) ser_compound = "('w, 'e enc_error, bool) fallible"

definition serialize_seq :: "('w, 'e) write_all \<Rightarrow> usize option \<Rightarrow> ('w, 'e) ser_compound" where
  "serialize_seq wr len =
     seq_m (case len of Some n \<Rightarrow> enc_array wr (of_nat n) | None \<Rightarrow> enc_begin_array wr) (ret_m (len = None))"

definition serialize_tuple :: "('w, 'e) write_all \<Rightarrow> usize \<Rightarrow> ('w, 'e) ser_compound" where
  "serialize_tuple wr len = seq_m (enc_array wr (of_nat len)) (ret_m False)"

definition serialize_tuple_struct :: "('w, 'e) write_all \<Rightarrow> bytes \<Rightarrow> usize \<Rightarrow> ('w, 'e) ser_compound" where
  "serialize_tuple_struct wr name len = serialize_tuple wr len"

definition serialize_tuple_variant :: "('w, 'e) write_all \<Rightarrow> bytes \<Rightarrow> u32 \<Rightarrow> bytes \<Rightarrow> usize \<Rightarrow> ('w, 'e) ser_compound" where
  "serialize_tuple_variant wr name index variant len =
     seq_m (enc_map wr 1) (seq_m (enc_str wr variant) (serialize_tuple wr len))"

definition serialize_map :: "('w, 'e) write_all \<Rightarrow> usize option \<Rightarrow> ('w, 'e) ser_compound" where
  "serialize_map wr len =
     seq_m (case len of Some n \<Rightarrow> enc_map wr (of_nat n) | None \<Rightarrow> enc_begin_map wr) (ret_m (len = None))"

definition serialize_struct :: "('w, 'e) write_all \<Rightarrow> bytes \<Rightarrow> usize \<Rightarrow> ('w, 'e) ser_compound" where
  "serialize_struct wr name len = seq_m (enc_map wr (of_nat len)) (ret_m False)"

definition serialize_struct_variant :: "('w, 'e) write_all \<Rightarrow> bytes \<Rightarrow> u32 \<Rightarrow> bytes \<Rightarrow> usize \<Rightarrow> ('w, 'e) ser_compound" where
  "serialize_struct_variant wr name index variant len =
     seq_m (enc_map wr 1) (seq_m (enc_str wr variant) (serialize_struct wr name len))"

text \<open>\<open>SeqSerializer\<close>: the elements of sequences and tuples, keys and values of maps, fields of structures, and the ends.\<close>

definition serialize_element :: "('w, 'e) ser \<Rightarrow> ('w, 'e) ser" where "serialize_element m = m"
definition serialize_key :: "('w, 'e) ser \<Rightarrow> ('w, 'e) ser" where "serialize_key m = m"
definition serialize_value :: "('w, 'e) ser \<Rightarrow> ('w, 'e) ser" where "serialize_value m = m"

definition serialize_field :: "('w, 'e) write_all \<Rightarrow> bytes \<Rightarrow> ('w, 'e) ser \<Rightarrow> ('w, 'e) ser" where
  "serialize_field wr key m = seq_m (serialize_str wr key) m"

definition seq_end :: "('w, 'e) write_all \<Rightarrow> bool \<Rightarrow> ('w, 'e) ser" where
  "seq_end wr indefinite = (if indefinite then enc_end wr else ret_m ())"

definition tuple_end :: "('w, 'e) ser" where "tuple_end = ret_m ()"
definition struct_end :: "('w, 'e) ser" where "struct_end = ret_m ()"

definition map_end :: "('w, 'e) write_all \<Rightarrow> bool \<Rightarrow> ('w, 'e) ser" where
  "map_end wr indefinite = (if indefinite then enc_end wr else ret_m ())"

section \<open>Deserializer\<close>

record 'v visitor =
  visit_bool :: "bool \<Rightarrow> decode_error + 'v"
  visit_i8 :: "i8 \<Rightarrow> decode_error + 'v"
  visit_i16 :: "i16 \<Rightarrow> decode_error + 'v"
  visit_i32 :: "i32 \<Rightarrow> decode_error + 'v"
  visit_i64 :: "i64 \<Rightarrow> decode_error + 'v"
  visit_u8 :: "u8 \<Rightarrow> decode_error + 'v"
  visit_u16 :: "u16 \<Rightarrow> decode_error + 'v"
  visit_u32 :: "u32 \<Rightarrow> decode_error + 'v"
  visit_u64 :: "u64 \<Rightarrow> decode_error + 'v"
  visit_f32 :: "f32 \<Rightarrow> decode_error + 'v"
  visit_f64 :: "f64 \<Rightarrow> decode_error + 'v"
  visit_char :: "u32 \<Rightarrow> decode_error + 'v"
  visit_str :: "bytes \<Rightarrow> decode_error + 'v"
  visit_borrowed_str :: "bytes \<Rightarrow> decode_error + 'v"
  visit_string :: "bytes \<Rightarrow> decode_error + 'v"
  visit_bytes :: "bytes \<Rightarrow> decode_error + 'v"
  visit_borrowed_bytes :: "bytes \<Rightarrow> decode_error + 'v"
  visit_byte_buf :: "bytes \<Rightarrow> decode_error + 'v"
  visit_none :: "decode_error + 'v"
  visit_unit :: "decode_error + 'v"
  visit_some :: "'v dec"
  visit_newtype_struct :: "'v dec"
  visit_seq :: "u64 option \<Rightarrow> 'v dec"
  visit_map :: "u64 option \<Rightarrow> 'v dec"
  visit_enum :: "'v dec"

definition from_slice :: "'v dec \<Rightarrow> bytes \<Rightarrow> decode_error + 'v" where
  "from_slice m b = fst (m (dec_new b))"

text \<open>\<open>current\<close> and \<open>read\<close> of the deserializer, through the public operations of the decoder.\<close>

definition serde_current :: "u8 dec" where
  "serde_current = (\<lambda>d. case index_get (dec_input d) (dec_position d) of
      Some b \<Rightarrow> (Inr b, d) | None \<Rightarrow> (Inl end_of_input, d))"

definition serde_read :: "u8 dec" where
  "serde_read = (\<lambda>d. case index_get (dec_input d) (dec_position d) of
      Some b \<Rightarrow> (Inr b, dec_set_position (dec_position d + 1) d) | None \<Rightarrow> (Inl end_of_input, d))"

definition deserialize_bool :: "'v visitor \<Rightarrow> 'v dec" where "deserialize_bool v = bind_m dec_bool (\<lambda>x. res_m (visit_bool v x))"
definition deserialize_i8 :: "'v visitor \<Rightarrow> 'v dec" where "deserialize_i8 v = bind_m dec_i8 (\<lambda>x. res_m (visit_i8 v x))"
definition deserialize_i16 :: "'v visitor \<Rightarrow> 'v dec" where "deserialize_i16 v = bind_m dec_i16 (\<lambda>x. res_m (visit_i16 v x))"
definition deserialize_i32 :: "'v visitor \<Rightarrow> 'v dec" where "deserialize_i32 v = bind_m dec_i32 (\<lambda>x. res_m (visit_i32 v x))"
definition deserialize_i64 :: "'v visitor \<Rightarrow> 'v dec" where "deserialize_i64 v = bind_m dec_i64 (\<lambda>x. res_m (visit_i64 v x))"
definition deserialize_u8 :: "'v visitor \<Rightarrow> 'v dec" where "deserialize_u8 v = bind_m dec_u8 (\<lambda>x. res_m (visit_u8 v x))"
definition deserialize_u16 :: "'v visitor \<Rightarrow> 'v dec" where "deserialize_u16 v = bind_m dec_u16 (\<lambda>x. res_m (visit_u16 v x))"
definition deserialize_u32 :: "'v visitor \<Rightarrow> 'v dec" where "deserialize_u32 v = bind_m dec_u32 (\<lambda>x. res_m (visit_u32 v x))"
definition deserialize_u64 :: "'v visitor \<Rightarrow> 'v dec" where "deserialize_u64 v = bind_m dec_u64 (\<lambda>x. res_m (visit_u64 v x))"

text \<open>The conversion from half precision is the \<open>half\<close> crate's, a parameter.\<close>

definition deserialize_f32 :: "(u16 \<Rightarrow> f32) \<Rightarrow> 'v visitor \<Rightarrow> 'v dec" where
  "deserialize_f32 h v = bind_m (dec_f32 h) (\<lambda>x. res_m (visit_f32 v x))"

definition deserialize_f64 :: "(u16 \<Rightarrow> f32) \<Rightarrow> 'v visitor \<Rightarrow> 'v dec" where
  "deserialize_f64 h v = bind_m (dec_f64 h) (\<lambda>x. res_m (visit_f64 v x))"

definition deserialize_char :: "'v visitor \<Rightarrow> 'v dec" where "deserialize_char v = bind_m dec_char (\<lambda>x. res_m (visit_char v x))"
definition deserialize_str :: "'v visitor \<Rightarrow> 'v dec" where "deserialize_str v = bind_m dec_str (\<lambda>x. res_m (visit_borrowed_str v x))"
definition deserialize_string :: "'v visitor \<Rightarrow> 'v dec" where "deserialize_string v = bind_m dec_str (\<lambda>x. res_m (visit_str v x))"
definition deserialize_bytes :: "'v visitor \<Rightarrow> 'v dec" where "deserialize_bytes v = bind_m dec_bytes (\<lambda>x. res_m (visit_borrowed_bytes v x))"
definition deserialize_byte_buf :: "'v visitor \<Rightarrow> 'v dec" where "deserialize_byte_buf v = bind_m dec_bytes (\<lambda>x. res_m (visit_bytes v x))"

definition deserialize_option :: "'v visitor \<Rightarrow> 'v dec" where
  "deserialize_option v = bind_m dec_datatype (\<lambda>t.
     if TyNull = t then seq_m dec_skip (res_m (visit_none v)) else visit_some v)"

definition deserialize_unit :: "'v visitor \<Rightarrow> 'v dec" where
  "deserialize_unit v = seq_m decode_unit (res_m (visit_unit v))"

definition deserialize_unit_struct :: "bytes \<Rightarrow> 'v visitor \<Rightarrow> 'v dec" where
  "deserialize_unit_struct name v = deserialize_unit v"

definition deserialize_newtype_struct :: "bytes \<Rightarrow> 'v visitor \<Rightarrow> 'v dec" where
  "deserialize_newtype_struct name v = visit_newtype_struct v"

definition deserialize_seq :: "'v visitor \<Rightarrow> 'v dec" where
  "deserialize_seq v = bind_m dec_array (visit_seq v)"

definition debug_len :: "u64 option \<Rightarrow> string" where
  "debug_len n = (case n of Some n \<Rightarrow> ''Some('' @ nat_str (unat n) @ '')'' | None \<Rightarrow> ''None'')"

definition deserialize_tuple :: "serde_features \<Rightarrow> usize \<Rightarrow> 'v visitor \<Rightarrow> 'v dec" where
  "deserialize_tuple ft len v = with_pos (\<lambda>p. bind_m dec_array (\<lambda>n.
     if Some (of_nat len) \<noteq> n
     then fail_m (err_at p (err_message (if ft_alloc ft
       then ''invalid length '' @ debug_len n @ '', was expecting: '' @ nat_str len else ''invalid length'')))
     else visit_seq v n))"

definition deserialize_tuple_struct :: "serde_features \<Rightarrow> bytes \<Rightarrow> usize \<Rightarrow> 'v visitor \<Rightarrow> 'v dec" where
  "deserialize_tuple_struct ft name len v = deserialize_tuple ft len v"

definition deserialize_map :: "'v visitor \<Rightarrow> 'v dec" where
  "deserialize_map v = bind_m dec_map (visit_map v)"

definition deserialize_struct :: "bytes \<Rightarrow> bytes list \<Rightarrow> 'v visitor \<Rightarrow> 'v dec" where
  "deserialize_struct name field_names v = deserialize_map v"

definition deserialize_enum :: "bytes \<Rightarrow> bytes list \<Rightarrow> 'v visitor \<Rightarrow> 'v dec" where
  "deserialize_enum name variants v = with_pos (\<lambda>p. bind_m dec_datatype (\<lambda>t.
     seq_m
       (if TyMap = t
        then bind_m dec_map (\<lambda>m. if m \<noteq> Some 1 then fail_m (err_at p (err_message ''invalid enum map length'')) else ret_m ())
        else ret_m ())
       (visit_enum v)))"

definition deserialize_identifier :: "'v visitor \<Rightarrow> 'v dec" where
  "deserialize_identifier v = deserialize_str v"

definition deserialize_ignored_any :: "'v visitor \<Rightarrow> 'v dec" where
  "deserialize_ignored_any v = seq_m dec_skip (res_m (visit_unit v))"

definition unexpected_type :: "cbor_type \<Rightarrow> 'v dec" where
  "unexpected_type t = with_pos (\<lambda>p. fail_m (err_at p (with_message ''unexpected type'' (type_mismatch t))))"

definition deserialize_any :: "serde_features \<Rightarrow> (u16 \<Rightarrow> f32) \<Rightarrow> 'v visitor \<Rightarrow> 'v dec" where
  "deserialize_any ft h v = bind_m dec_datatype (\<lambda>t. case t of
      TyBool \<Rightarrow> deserialize_bool v
    | TyU8 \<Rightarrow> deserialize_u8 v | TyU16 \<Rightarrow> deserialize_u16 v | TyU32 \<Rightarrow> deserialize_u32 v | TyU64 \<Rightarrow> deserialize_u64 v
    | TyI8 \<Rightarrow> deserialize_i8 v | TyI16 \<Rightarrow> deserialize_i16 v | TyI32 \<Rightarrow> deserialize_i32 v | TyI64 \<Rightarrow> deserialize_i64 v
    | TyF32 \<Rightarrow> deserialize_f32 h v | TyF64 \<Rightarrow> deserialize_f64 h v
    | TyBytes \<Rightarrow> bind_m dec_bytes (\<lambda>x. res_m (visit_borrowed_bytes v x))
    | TyString \<Rightarrow> bind_m dec_str (\<lambda>x. res_m (visit_borrowed_str v x))
    | TyNull \<Rightarrow> seq_m dec_skip (res_m (visit_none v))
    | TyArray \<Rightarrow> deserialize_seq v | TyArrayIndef \<Rightarrow> deserialize_seq v
    | TyMap \<Rightarrow> deserialize_map v | TyMapIndef \<Rightarrow> deserialize_map v
    | TyF16 \<Rightarrow> if ft_half ft then bind_m (dec_f16 h) (\<lambda>x. res_m (visit_f32 v x)) else unexpected_type TyF16
    | TyBytesIndef \<Rightarrow>
        if ft_alloc ft then bind_m bytes_chunks (\<lambda>bs. res_m (visit_byte_buf v (concat bs))) else unexpected_type t
    | TyStringIndef \<Rightarrow>
        if ft_alloc ft then bind_m str_chunks (\<lambda>bs. res_m (visit_string v (concat bs))) else unexpected_type t
    | _ \<Rightarrow> unexpected_type t)"

section \<open>Access types\<close>

text \<open>\<open>Seq\<close> is the length that is left, or \<open>None\<close> before a break.\<close>

definition size_hint :: "u64 option \<Rightarrow> usize option" where
  "size_hint len = map_option unat len"

definition next_element :: "'a dec \<Rightarrow> u64 option \<Rightarrow> ('a option \<times> u64 option) dec" where
  "next_element seed len = (case len of
      None \<Rightarrow> bind_m serde_current (\<lambda>b.
        if BREAK = b then seq_m serde_read (ret_m (None, len)) else map_m (\<lambda>x. (Some x, len)) seed)
    | Some n \<Rightarrow> if n = 0 then ret_m (None, len) else map_m (\<lambda>x. (Some x, Some (n - 1))) seed)"

definition next_key :: "'a dec \<Rightarrow> u64 option \<Rightarrow> 'a option dec" where
  "next_key seed len = (case len of
      None \<Rightarrow> bind_m serde_current (\<lambda>b. if BREAK = b then seq_m serde_read (ret_m None) else map_m Some seed)
    | Some n \<Rightarrow> if n = 0 then ret_m None else map_m Some seed)"

definition next_value :: "'a dec \<Rightarrow> u64 option \<Rightarrow> ('a \<times> u64 option) dec" where
  "next_value seed len = (case len of
      Some n \<Rightarrow> map_m (\<lambda>x. (x, Some (n - 1))) seed
    | None \<Rightarrow> map_m (\<lambda>x. (x, None)) seed)"

definition variant_seed :: "'a dec \<Rightarrow> 'a dec" where "variant_seed seed = seed"
definition unit_variant :: "unit dec" where "unit_variant = ret_m ()"
definition newtype_variant_seed :: "'a dec \<Rightarrow> 'a dec" where "newtype_variant_seed seed = seed"

definition tuple_variant :: "serde_features \<Rightarrow> usize \<Rightarrow> 'v visitor \<Rightarrow> 'v dec" where
  "tuple_variant ft len v = deserialize_tuple ft len v"

definition struct_variant :: "bytes list \<Rightarrow> 'v visitor \<Rightarrow> 'v dec" where
  "struct_variant field_names v = deserialize_map v"

end
