(* ===== verification/Serde_Any.thy ===== *)
theory Serde_Any
  imports Serde_Code Cbor_Token
begin

text \<open>
  Self-describing input: what \<open>deserialize_any\<close> gives to a visitor is the next token, as the tokens of minicbor itself
  define it.
\<close>

section \<open>First bytes\<close>

lemma datatype_run:
  assumes "dec_datatype d = (Inr ty, d')"
  obtains b where "dec_current d = (Inr b, d)" "dec_type_of b d = (Inr ty, d)" "d' = d"
proof -
  from assms obtain b where b: "dec_current d = (Inr b, d)" "dec_type_of b d = (Inr ty, d')"
    by (auto simp: dec_datatype_def run_simps dec_current_def split: option.splits)
  moreover have "d' = d"
    using b(2) by (auto simp: dec_type_of_def run_simps dec_peek_def split: if_splits sum.splits)
  ultimately show ?thesis using that by simp
qed

lemma type_bytes:
  assumes "dec_type_of b d = (Inr ty, d')"
  shows "ty = TyArrayIndef \<Longrightarrow> b = 0x9f" "ty = TyMapIndef \<Longrightarrow> b = 0xbf" "ty = TyBytesIndef \<Longrightarrow> b = 0x5f"
    "ty = TyStringIndef \<Longrightarrow> b = 0x7f" "ty = TyNull \<Longrightarrow> b = 0xf6"
  using assms by (auto simp: dec_type_of_def run_simps split: if_splits sum.splits prod.splits)

lemma byte_split: "type_of b OR info_of b = b"
proof -
  have "type_of b OR info_of b = b AND (0xe0 OR 0x1f)" unfolding type_of_def info_of_def by (rule bit.conj_disj_distrib [symmetric])
  also have "0xe0 OR 0x1f = (- 1 :: u8)" by simp
  finally show ?thesis by simp
qed

lemma current_read: "dec_current d = (Inr b, d') \<Longrightarrow> dec_read d = (Inr b, d\<lparr>dec_pos := dec_pos d + 1\<rparr>)"
  by (auto simp: dec_current_def dec_read_def split: option.splits)

text \<open>The heads of containers and chunks: \<open>TyArray\<close> and \<open>TyMap\<close> have a length, the others are one byte.\<close>

lemma indefinite_heads:
  "dec_current d = (Inr 0x9f, d) \<Longrightarrow> dec_array d = (Inr None, d\<lparr>dec_pos := dec_pos d + 1\<rparr>)"
  "dec_current d = (Inr 0xbf, d) \<Longrightarrow> dec_map d = (Inr None, d\<lparr>dec_pos := dec_pos d + 1\<rparr>)"
  "dec_current d = (Inr 0x5f, d) \<Longrightarrow> dec_bytes_iter d = (Inr Indef, d\<lparr>dec_pos := dec_pos d + 1\<rparr>)"
  "dec_current d = (Inr 0x7f, d) \<Longrightarrow> dec_str_iter d = (Inr (Indef, dec_pos d), d\<lparr>dec_pos := dec_pos d + 1\<rparr>)"
  by (drule current_read, simp add: dec_array_def dec_map_def dec_bytes_iter_def dec_str_iter_def with_pos_def bind_m_def
      type_of_def info_of_def ret_m_def ARRAY_def MAP_def BYTES_def TEXT_def)+

lemma definite_heads:
  assumes "dec_current d = (Inr b, d)" "dec_type_of b d = (Inr ty, d)"
  shows "ty = TyArray \<Longrightarrow> fst (dec_array d) \<noteq> Inr None" "ty = TyMap \<Longrightarrow> fst (dec_map d) \<noteq> Inr None"
proof -
  have h: "b = t OR 0x1f" if "type_of b = t" "info_of b = 31" for t
    using byte_split [of b] that by simp
  show "fst (dec_array d) \<noteq> Inr None" if "ty = TyArray"
  proof
    assume "fst (dec_array d) = Inr None"
    then have "type_of b = ARRAY" "info_of b = 31"
      using current_read [OF assms(1)]
      by (auto simp: dec_array_def with_pos_def bind_m_def map_m_def ret_m_def mismatch_def fail_m_def split: if_splits prod.splits sum.splits)
    then have "b = 0x9f" using h [of ARRAY] by (simp add: ARRAY_def)
    then show False using assms(2) that by (simp add: dec_type_of_def ret_m_def)
  qed
  show "fst (dec_map d) \<noteq> Inr None" if "ty = TyMap"
  proof
    assume "fst (dec_map d) = Inr None"
    then have "type_of b = MAP" "info_of b = 31"
      using current_read [OF assms(1)]
      by (auto simp: dec_map_def with_pos_def bind_m_def map_m_def ret_m_def mismatch_def fail_m_def split: if_splits prod.splits sum.splits)
    then have "b = 0xbf" using h [of MAP] by (simp add: MAP_def)
    then show False using assms(2) that by (simp add: dec_type_of_def ret_m_def)
  qed
qed

lemma skip_null:
  assumes "dec_current d = (Inr 0xf6, d)" shows "dec_skip d = skip_byte d"
proof -
  have "skip_arg d = (Inr 22, d\<lparr>dec_pos := dec_pos d + 1\<rparr>)"
    using current_read [OF assms] by (simp add: skip_arg_def with_pos_def bind_m_def info_of_def dec_unsigned_def ret_m_def)
  then have "skip_match s d = (Inr (False, s), d\<lparr>dec_pos := dec_pos d + 1\<rparr>)" for s
    using assms by (simp add: skip_match_def bind_m_def seq_m_def ret_m_def skip_body_def SIGNED_def BYTES_def TEXT_def ARRAY_def MAP_def
        TAGGED_def SIMPLE_def)
  then show ?thesis
    by (simp add: dec_skip_def skip_loop.simps [of _ d] skip_live_def skip_round_def counting_def sat_sub_def skip_loop.simps
        skip_byte_def dec_set_position_def dec_position_def)
qed

section \<open>Tokens and visitors\<close>

text \<open>
  What a visitor gets for a token: a method for a value, or the rest of a container or string. Tags, simple values, undefined, a break
  and integers below the range of 64 bits have no method, and without \<open>half\<close> or \<open>alloc\<close> neither have half floats
  and strings in chunks.
\<close>

fun visit_token :: "serde_features \<Rightarrow> 'v visitor \<Rightarrow> token \<Rightarrow> 'v dec option" where
  "visit_token ft v (Tk_Bool x) = Some (res_m (visit_bool v x))"
| "visit_token ft v (Tk_U8 x) = Some (res_m (visit_u8 v x))"
| "visit_token ft v (Tk_U16 x) = Some (res_m (visit_u16 v x))"
| "visit_token ft v (Tk_U32 x) = Some (res_m (visit_u32 v x))"
| "visit_token ft v (Tk_U64 x) = Some (res_m (visit_u64 v x))"
| "visit_token ft v (Tk_I8 x) = Some (res_m (visit_i8 v x))"
| "visit_token ft v (Tk_I16 x) = Some (res_m (visit_i16 v x))"
| "visit_token ft v (Tk_I32 x) = Some (res_m (visit_i32 v x))"
| "visit_token ft v (Tk_I64 x) = Some (res_m (visit_i64 v x))"
| "visit_token ft v (Tk_F16 x) = (if ft_half ft then Some (res_m (visit_f32 v x)) else None)"
| "visit_token ft v (Tk_F32 x) = Some (res_m (visit_f32 v x))"
| "visit_token ft v (Tk_F64 x) = Some (res_m (visit_f64 v x))"
| "visit_token ft v (Tk_Bytes x) = Some (res_m (visit_borrowed_bytes v x))"
| "visit_token ft v (Tk_String x) = Some (res_m (visit_borrowed_str v x))"
| "visit_token ft v (Tk_Array n) = Some (visit_seq v (Some n))"
| "visit_token ft v (Tk_Map n) = Some (visit_map v (Some n))"
| "visit_token ft v Tk_BeginArray = Some (visit_seq v None)"
| "visit_token ft v Tk_BeginMap = Some (visit_map v None)"
| "visit_token ft v Tk_Null = Some (res_m (visit_none v))"
| "visit_token ft v Tk_BeginBytes =
     (if ft_alloc ft then Some (bind_m (chunk_loop Byte_chunks Indef) (\<lambda>bs. res_m (visit_byte_buf v (concat bs)))) else None)"
| "visit_token ft v Tk_BeginString =
     (if ft_alloc ft
      then Some (with_pos (\<lambda>p. bind_m (chunk_loop (Text_chunks (p - 1)) Indef) (\<lambda>bs. res_m (visit_string v (concat bs)))))
      else None)"
| "visit_token ft v t = None"

text \<open>Refused: the error names the type the decoder finds in front, and nothing is read.\<close>

definition refused :: "decoder \<Rightarrow> ((decode_error + 'v) \<times> decoder) \<Rightarrow> bool" where
  "refused d r \<longleftrightarrow> (case dec_datatype d of
      (Inr ty, _) \<Rightarrow> r = (Inl (err_at (dec_pos d) (with_message ''unexpected type'' (type_mismatch ty))), d)
    | (Inl _, _) \<Rightarrow> False)"

lemmas deserialize_methods =
  deserialize_bool_def deserialize_u8_def deserialize_u16_def deserialize_u32_def deserialize_u64_def deserialize_i8_def
  deserialize_i16_def deserialize_i32_def deserialize_i64_def deserialize_f32_def deserialize_f64_def
  deserialize_seq_def deserialize_map_def

text \<open>C33: A visitor of self-describing input gets the next token, as the tokens of minicbor themselves are decoded: its
  value by the method of its type, the rest of a container with the length that was announced, the chunks of a string
  of indefinite length together. What has no method is refused with the type it has, and nothing is read; an error of
  the token is an error for the visitor.
\<close>

theorem any_visits_tokens:
  "case decode_token h d of
     (Inl e, d1) \<Rightarrow> (\<exists>e' d2. deserialize_any ft h v d = (Inl e', d2))
   | (Inr t, d1) \<Rightarrow> (case visit_token ft v t of
       Some m \<Rightarrow> deserialize_any ft h v d = m d1
     | None \<Rightarrow> refused d (deserialize_any ft h v d))"
proof (cases "dec_datatype d")
  case (Pair r d')
  show ?thesis
  proof (cases r)
    case (Inl e)
    then show ?thesis using Pair by (simp add: decode_token_def deserialize_any_def bind_m_def)
  next
    case (Inr ty)
    with Pair obtain b where b: "dec_current d = (Inr b, d)" "dec_type_of b d = (Inr ty, d)" "d' = d"
      using datatype_run [of d ty d'] by blast
    note types = type_bytes [OF b(2)]
    note run = Pair Inr b(3)
    show ?thesis
      using definite_heads [OF b(1,2)] types b(1) indefinite_heads [of d] skip_null [of d]
      by (cases ty) (auto simp: decode_token_def token_of_type_def deserialize_any_def run bind_m_def map_m_def seq_m_def
          ret_m_def res_m_def with_pos_def fail_m_def refused_def unexpected_type_def deserialize_methods skip_byte_def
          dec_set_position_def dec_position_def bytes_chunks_def str_chunks_def split: prod.split sum.split option.split)
  qed
qed

end
