(* ===== verification/Serde_Round.thy ===== *)
theory Serde_Round
  imports Serde_Any
begin

text \<open>
  What the serializer writes, the deserializer gives back to a visitor. The contract \<open>comes_back\<close> of a value with
  its operations is kept by every compound the traits know: sequences and maps of announced and unknown
  length, tuples, structures, options and the four kinds of variants.
\<close>

section \<open>Values that come back\<close>

definition comes_back :: "(bytes, infallible) ser \<Rightarrow> 'a dec \<Rightarrow> 'a \<Rightarrow> bool" where
  "comes_back ser de x \<longleftrightarrow> (\<exists>bs. vec_sink.emits ser bs \<and> (length bs < usize_bound \<longrightarrow> typed bs \<and> reads de bs x))"

lemma comes_backI:
  "vec_sink.emits ser bs \<Longrightarrow> (length bs < usize_bound \<Longrightarrow> typed bs) \<Longrightarrow> (length bs < usize_bound \<Longrightarrow> reads de bs x) \<Longrightarrow>
     comes_back ser de x"
  unfolding comes_back_def by blast

lemma comes_backE:
  assumes "comes_back ser de x"
  obtains bs where "vec_sink.emits ser bs" "length bs < usize_bound \<longrightarrow> typed bs" "length bs < usize_bound \<longrightarrow> reads de bs x"
  using assms unfolding comes_back_def by blast

lemma reads_visit: "reads m bs x \<Longrightarrow> f x = Inr y \<Longrightarrow> reads (bind_m m (\<lambda>x. res_m (f x))) bs y"
  using yields_then [of m bs x "\<lambda>x. res_m (f x)" "Inr y"] yields_res [of "Inr y"] by simp

lemma carries_comes_back:
  "carries typed_value enc len m x y \<Longrightarrow> f y = Inr z \<Longrightarrow> comes_back (enc x) (bind_m m (\<lambda>y. res_m (f y))) z"
  by (elim carriesE, intro comes_backI) (auto intro: reads_visit typed_value_typed)

lemma integers_come_back:
  "visit_u8 v a = Inr y \<Longrightarrow> comes_back (serialize_u8 vec_write_all a) (deserialize_u8 v) y"
  "visit_u16 v b = Inr y \<Longrightarrow> comes_back (serialize_u16 vec_write_all b) (deserialize_u16 v) y"
  "visit_u32 v c = Inr y \<Longrightarrow> comes_back (serialize_u32 vec_write_all c) (deserialize_u32 v) y"
  "visit_u64 v d = Inr y \<Longrightarrow> comes_back (serialize_u64 vec_write_all d) (deserialize_u64 v) y"
  "visit_i8 v a' = Inr y \<Longrightarrow> comes_back (serialize_i8 vec_write_all a') (deserialize_i8 v) y"
  "visit_i16 v b' = Inr y \<Longrightarrow> comes_back (serialize_i16 vec_write_all b') (deserialize_i16 v) y"
  "visit_i32 v c' = Inr y \<Longrightarrow> comes_back (serialize_i32 vec_write_all c') (deserialize_i32 v) y"
  "visit_i64 v d' = Inr y \<Longrightarrow> comes_back (serialize_i64 vec_write_all d') (deserialize_i64 v) y"
  unfolding serialize_u8_def deserialize_u8_def serialize_u16_def deserialize_u16_def serialize_u32_def deserialize_u32_def
    serialize_u64_def deserialize_u64_def serialize_i8_def deserialize_i8_def serialize_i16_def deserialize_i16_def
    serialize_i32_def deserialize_i32_def serialize_i64_def deserialize_i64_def
  by (rule carries_comes_back, rule carries_integers, assumption)+

lemma strings_come_back:
  "valid_utf8 s \<Longrightarrow> visit_borrowed_str v s = Inr y \<Longrightarrow> comes_back (serialize_str vec_write_all s) (deserialize_str v) y"
  "valid_utf8 s \<Longrightarrow> visit_str v s = Inr y \<Longrightarrow> comes_back (serialize_str vec_write_all s) (deserialize_string v) y"
  unfolding serialize_str_def deserialize_str_def deserialize_string_def
  by (rule carries_comes_back, erule carries_strings(1), assumption)+

text \<open>What comes back from an operation on the deserializer comes back from a vector of bytes.\<close>

lemma slice_round_trip:
  assumes "comes_back m de x"
  obtains bs where "serde_to_vec m = Inr bs" "length bs < usize_bound \<longrightarrow> from_slice de bs = Inr x"
  using assms
proof (rule comes_backE)
  fix bs assume bs: "vec_sink.emits m bs" "length bs < usize_bound \<longrightarrow> reads de bs x"
  have "serde_to_vec m = Inr bs"
    using vec_run [OF bs(1), of "[]"] by (simp add: serde_to_vec_def serializer_new_def)
  moreover have "length bs < usize_bound \<longrightarrow> from_slice de bs = Inr x"
    using bs(2) yields_at [of de bs "\<lambda>_. Inr x" "[]" "[]"] by (auto simp: from_slice_def dec_new_def)
  ultimately show thesis by (rule that)
qed

text \<open>The first byte of an item is not a break, for the deserializer's own look at it as well.\<close>

lemma serde_current_read: "serde_current = dec_current" "serde_read = dec_read"
  by (auto simp: fun_eq_iff serde_current_def dec_current_def serde_read_def dec_read_def dec_input_def dec_position_def
      dec_set_position_def split: option.splits)

section \<open>Access to elements and entries\<close>

text \<open>How much is left of a compound, and what ends it.\<close>

definition left :: "u64 option \<Rightarrow> nat \<Rightarrow> bool" where
  "left len n \<longleftrightarrow> n < 2 ^ 64 \<and> (len = None \<or> len = Some (of_nat n))"

definition tail_bytes :: "u64 option \<Rightarrow> bytes" where
  "tail_bytes len = (if len = None then [BREAK] else [])"

definition one_less :: "u64 option \<Rightarrow> u64 option" where
  "one_less len = map_option (\<lambda>n. n - 1) len"

lemma left_one_less [simp]: "left len (Suc n) \<Longrightarrow> left (one_less len) n" "tail_bytes (one_less len) = tail_bytes len"
  by (auto simp: left_def one_less_def tail_bytes_def)

lemma left_nonzero: "left (Some m) (Suc n) \<Longrightarrow> m \<noteq> 0"
  by (auto simp: left_def dest: arg_cong [where f = unat] simp: unat_of_nat_u64 simp del: of_nat_Suc)

lemma reads_typed:
  assumes "typed bs" "reads m bs x"
  shows "reads (bind_m serde_current (\<lambda>b. if BREAK = b then k else m)) bs x"
proof (rule yieldsI_at)
  fix pre post assume len: "length (pre @ bs @ post) < usize_bound"
  then have "starts_item bs" using assms(1) by (intro typed_starts_item) simp_all
  then obtain b cs where b: "bs = b # cs" "b \<noteq> BREAK" by (cases bs) (auto simp: starts_item_def)
  have "dec_current (at_bytes pre (bs @ post)) = (Inr b, at_bytes pre (bs @ post))" by (simp add: b)
  then show "bind_m serde_current (\<lambda>b. if BREAK = b then k else m) (at_bytes pre (bs @ post)) = (Inr x, at_bytes (pre @ bs) post)"
    using b(2) yields_at [OF assms(2) len] by (simp add: serde_current_read bind_m_def)
qed

lemma reads_break: "reads k [] x \<Longrightarrow> reads (bind_m serde_current (\<lambda>b. if BREAK = b then seq_m serde_read k else m)) [BREAK] x"
proof (rule yieldsI_at)
  fix pre post assume k: "reads k [] x" and len: "length (pre @ [BREAK] @ post) < usize_bound"
  have "reads (seq_m dec_read k) ([BREAK] @ []) x" by (rule yields_seq [OF reads_read k])
  from yields_at [OF this, of pre post] len
  show "bind_m serde_current (\<lambda>b. if BREAK = b then seq_m serde_read k else m) (at_bytes pre ([BREAK] @ post)) =
      (Inr x, at_bytes (pre @ [BREAK]) post)"
    by (simp add: serde_current_read bind_m_def [of dec_current])
qed

lemma next_element_reads:
  assumes "left len (Suc n)" "typed bs" "reads seed bs x"
  shows "reads (next_element seed len) bs (Some x, one_less len)"
proof (cases len)
  case None
  then show ?thesis
    using reads_typed [OF assms(2) reads_map [OF assms(3), of "\<lambda>x. (Some x, None)"]] by (simp add: next_element_def one_less_def)
next
  case (Some m)
  then show ?thesis using left_nonzero assms(1) reads_map [OF assms(3), of "\<lambda>x. (Some x, Some (m - 1))"]
    by (auto simp: next_element_def one_less_def)
qed

lemma next_element_ends: "left len 0 \<Longrightarrow> reads (next_element seed len) (tail_bytes len) (None, len)"
  using reads_break [OF reads_ret] reads_ret by (auto simp: left_def next_element_def tail_bytes_def)

lemma next_key_reads:
  assumes "left len (Suc n)" "typed bs" "reads seed bs x"
  shows "reads (next_key seed len) bs (Some x)"
proof (cases len)
  case None
  then show ?thesis using reads_typed [OF assms(2) reads_map [OF assms(3), of Some]] by (simp add: next_key_def)
next
  case (Some m)
  then show ?thesis using left_nonzero assms(1) reads_map [OF assms(3), of Some] by (auto simp: next_key_def)
qed

lemma next_key_ends: "left len 0 \<Longrightarrow> reads (next_key seed len) (tail_bytes len) None"
  using reads_break [OF reads_ret] reads_ret by (auto simp: left_def next_key_def tail_bytes_def)

lemma next_value_reads: "reads seed bs x \<Longrightarrow> reads (next_value seed len) bs (x, one_less len)"
  using reads_map by (auto simp: next_value_def one_less_def split: option.splits)

section \<open>Visitors that take everything\<close>

text \<open>
  The loop of a visitor over all elements, over all entries with a decoder that depends on the key, and over one
  element for each of some decoders. The first two may not end when a decoder reads nothing.
\<close>

partial_function (option) take_all :: "'a dec \<Rightarrow> u64 option \<Rightarrow> decoder \<Rightarrow> ((decode_error + 'a list) \<times> decoder) option" where
  "take_all seed len d =
     (case next_element seed len d of
        (Inl e, d1) \<Rightarrow> Some (Inl e, d1)
      | (Inr (None, len'), d1) \<Rightarrow> Some (Inr [], d1)
      | (Inr (Some x, len'), d1) \<Rightarrow> Option.bind (take_all seed len' d1) (\<lambda>(r, d2). Some (map_sum id ((#) x) r, d2)))"

partial_function (option) take_entries ::
  "'k dec \<Rightarrow> ('k \<Rightarrow> 'a dec) \<Rightarrow> u64 option \<Rightarrow> decoder \<Rightarrow> ((decode_error + ('k \<times> 'a) list) \<times> decoder) option" where
  "take_entries kseed vseed len d =
     (case next_key kseed len d of
        (Inl e, d1) \<Rightarrow> Some (Inl e, d1)
      | (Inr None, d1) \<Rightarrow> Some (Inr [], d1)
      | (Inr (Some k), d1) \<Rightarrow> (case next_value (vseed k) len d1 of
            (Inl e, d2) \<Rightarrow> Some (Inl e, d2)
          | (Inr (x, len'), d2) \<Rightarrow>
              Option.bind (take_entries kseed vseed len' d2) (\<lambda>(r, d3). Some (map_sum id ((#) (k, x)) r, d3))))"

fun take_each :: "'a dec list \<Rightarrow> u64 option \<Rightarrow> 'a list dec" where
  "take_each [] len = ret_m []"
| "take_each (m # ms) len = bind_m (next_element m len) (\<lambda>(x, len'). case x of
      None \<Rightarrow> fail_m (err_message ''invalid length'') | Some y \<Rightarrow> map_m ((#) y) (take_each ms len'))"

text \<open>\<open>finds\<close> is \<open>reads\<close> for a loop that may not end.\<close>

definition finds :: "(decoder \<Rightarrow> ((decode_error + 'a) \<times> decoder) option) \<Rightarrow> bytes \<Rightarrow> 'a \<Rightarrow> bool" where
  "finds f bs x \<longleftrightarrow> (\<forall>pre post. length (pre @ bs @ post) < usize_bound \<longrightarrow>
     f (at_bytes pre (bs @ post)) = Some (Inr x, at_bytes (pre @ bs) post))"

lemma finds_reads: "finds f bs x \<Longrightarrow> reads (\<lambda>d. the (f d)) bs x"
  by (rule yieldsI_at) (simp add: finds_def)

lemma take_all_finds:
  "list_all2 (\<lambda>bs x. typed bs \<and> reads seed bs x) bss xs \<Longrightarrow> left len (length xs) \<Longrightarrow>
     finds (take_all seed len) (concat bss @ tail_bytes len) xs"
proof (induction bss xs arbitrary: len rule: list_all2_induct)
  case Nil
  show ?case unfolding finds_def
    using yields_at [OF next_element_ends [of len seed]] Nil by (subst take_all.simps) auto
next
  case (Cons bs bss x xs)
  have e: "reads (next_element seed len) bs (Some x, one_less len)"
    using Cons.hyps(1) Cons.prems by (intro next_element_reads) auto
  have r: "finds (take_all seed (one_less len)) (concat bss @ tail_bytes (one_less len)) xs"
    using Cons.prems by (intro Cons.IH) simp
  show ?case unfolding finds_def
  proof (intro allI impI)
    fix pre post assume len: "length (pre @ (concat (bs # bss) @ tail_bytes len) @ post) < usize_bound"
    have t: "tail_bytes (one_less len) = tail_bytes len" using Cons.prems by simp
    have "next_element seed len (at_bytes pre (bs @ concat bss @ tail_bytes len @ post)) =
        (Inr (Some x, one_less len), at_bytes (pre @ bs) (concat bss @ tail_bytes len @ post))"
      using yields_at [OF e, of pre "concat bss @ tail_bytes len @ post"] len by simp
    moreover have "take_all seed (one_less len) (at_bytes (pre @ bs) (concat bss @ tail_bytes len @ post)) =
        Some (Inr xs, at_bytes (pre @ bs @ concat bss @ tail_bytes len) post)"
      using r [unfolded finds_def t, rule_format, of "pre @ bs" post] len by simp
    ultimately show "take_all seed len (at_bytes pre ((concat (bs # bss) @ tail_bytes len) @ post)) =
        Some (Inr (x # xs), at_bytes (pre @ concat (bs # bss) @ tail_bytes len) post)"
      by (subst take_all.simps) simp
  qed
qed

lemma take_entries_finds:
  "list_all2 (\<lambda>(kb, vb) (k, x). typed kb \<and> reads kseed kb k \<and> reads (vseed k) vb x) bss kvs \<Longrightarrow> left len (length kvs) \<Longrightarrow>
     finds (take_entries kseed vseed len) (concat (map (\<lambda>(kb, vb). kb @ vb) bss) @ tail_bytes len) kvs"
proof (induction bss kvs arbitrary: len rule: list_all2_induct)
  case Nil
  show ?case unfolding finds_def
    using yields_at [OF next_key_ends [of len kseed]] Nil by (subst take_entries.simps) auto
next
  case (Cons b bss p kvs)
  obtain kb vb where b: "b = (kb, vb)" by (cases b)
  obtain k x where p: "p = (k, x)" by (cases p)
  let ?rest = "concat (map (\<lambda>(kb, vb). kb @ vb) bss) @ tail_bytes len"
  have h: "typed kb" "reads kseed kb k" "reads (vseed k) vb x" using Cons.hyps(1) b p by auto
  have kr: "reads (next_key kseed len) kb (Some k)" using Cons.prems h by (intro next_key_reads) auto
  have vr: "reads (next_value (vseed k) len) vb (x, one_less len)" by (rule next_value_reads [OF h(3)])
  have t: "tail_bytes (one_less len) = tail_bytes len" using Cons.prems by simp
  have r: "finds (take_entries kseed vseed (one_less len)) ?rest kvs"
    using Cons.IH [of "one_less len"] Cons.prems t by simp
  show ?case unfolding finds_def
  proof (intro allI impI)
    fix pre post assume len: "length (pre @ (concat (map (\<lambda>(kb, vb). kb @ vb) (b # bss)) @ tail_bytes len) @ post) < usize_bound"
    have "next_key kseed len (at_bytes pre (kb @ vb @ ?rest @ post)) = (Inr (Some k), at_bytes (pre @ kb) (vb @ ?rest @ post))"
      using yields_at [OF kr, of pre "vb @ ?rest @ post"] len by (simp add: b)
    moreover have "next_value (vseed k) len (at_bytes (pre @ kb) (vb @ ?rest @ post)) =
        (Inr (x, one_less len), at_bytes (pre @ kb @ vb) (?rest @ post))"
      using yields_at [OF vr, of "pre @ kb" "?rest @ post"] len by (simp add: b)
    moreover have "take_entries kseed vseed (one_less len) (at_bytes (pre @ kb @ vb) (?rest @ post)) =
        Some (Inr kvs, at_bytes (pre @ kb @ vb @ ?rest) post)"
      using r [unfolded finds_def, rule_format, of "pre @ kb @ vb" post] len by (simp add: b)
    ultimately show "take_entries kseed vseed len (at_bytes pre ((concat (map (\<lambda>(kb, vb). kb @ vb) (b # bss)) @ tail_bytes len) @ post)) =
        Some (Inr (p # kvs), at_bytes (pre @ concat (map (\<lambda>(kb, vb). kb @ vb) (b # bss)) @ tail_bytes len) post)"
      by (subst take_entries.simps) (simp add: b p)
  qed
qed

lemma take_each_reads:
  "list_all2 (\<lambda>bs (m, x). typed bs \<and> reads m bs x) bss mxs \<Longrightarrow> left len (length mxs) \<Longrightarrow>
     reads (take_each (map fst mxs) len) (concat bss) (map snd mxs)"
proof (induction bss mxs arbitrary: len rule: list_all2_induct)
  case Nil
  show ?case by (simp add: reads_ret)
next
  case (Cons bs bss p mxs)
  obtain m x where p: "p = (m, x)" by (cases p)
  have e: "reads (next_element m len) bs (Some x, one_less len)"
    using Cons.hyps(1) Cons.prems p by (intro next_element_reads) auto
  have "reads (take_each (map fst mxs) (one_less len)) (concat bss) (map snd mxs)" using Cons.prems by (intro Cons.IH) simp
  from yields_bind [OF e, of "\<lambda>(x, len'). case x of None \<Rightarrow> fail_m (err_message ''invalid length'')
      | Some y \<Rightarrow> map_m ((#) y) (take_each (map fst mxs) len')" "concat bss" "Inr (x # map snd mxs)"] reads_map [OF this, of "(#) x"]
  show ?case by (simp add: p)
qed

section \<open>What a value writes\<close>

text \<open>
  The calls of a compound value, in the order the traits prescribe: the head, every element, key and value, or field, and the end.
\<close>

fun ser_each :: "('w, 'e) ser list \<Rightarrow> ('w, 'e) ser" where
  "ser_each [] = ret_m ()"
| "ser_each (m # ms) = seq_m (serialize_element m) (ser_each ms)"

fun ser_entries :: "(('w, 'e) ser \<times> ('w, 'e) ser) list \<Rightarrow> ('w, 'e) ser" where
  "ser_entries [] = ret_m ()"
| "ser_entries ((k, m) # es) = seq_m (seq_m (serialize_key k) (serialize_value m)) (ser_entries es)"

fun ser_fields :: "('w, 'e) write_all \<Rightarrow> (bytes \<times> ('w, 'e) ser) list \<Rightarrow> ('w, 'e) ser" where
  "ser_fields wr [] = ret_m ()"
| "ser_fields wr ((k, m) # fs) = seq_m (serialize_field wr k m) (ser_fields wr fs)"

definition write_seq :: "('w, 'e) write_all \<Rightarrow> usize option \<Rightarrow> ('w, 'e) ser list \<Rightarrow> ('w, 'e) ser" where
  "write_seq wr len ms = bind_m (serialize_seq wr len) (\<lambda>indefinite. seq_m (ser_each ms) (seq_end wr indefinite))"

definition write_tuple :: "('w, 'e) write_all \<Rightarrow> ('w, 'e) ser list \<Rightarrow> ('w, 'e) ser" where
  "write_tuple wr ms = bind_m (serialize_tuple wr (length ms)) (\<lambda>_. seq_m (ser_each ms) tuple_end)"

definition write_map :: "('w, 'e) write_all \<Rightarrow> usize option \<Rightarrow> (('w, 'e) ser \<times> ('w, 'e) ser) list \<Rightarrow> ('w, 'e) ser" where
  "write_map wr len es = bind_m (serialize_map wr len) (\<lambda>indefinite. seq_m (ser_entries es) (map_end wr indefinite))"

definition write_struct :: "('w, 'e) write_all \<Rightarrow> bytes \<Rightarrow> (bytes \<times> ('w, 'e) ser) list \<Rightarrow> ('w, 'e) ser" where
  "write_struct wr name fs = bind_m (serialize_struct wr name (length fs)) (\<lambda>_. seq_m (ser_fields wr fs) struct_end)"

lemma bind_seq_ret: "bind_m (seq_m m (ret_m b)) k = seq_m m (k b)"
  by (auto simp: fun_eq_iff seq_m_def bind_m_def ret_m_def split: prod.splits sum.splits)

lemma seq_ret_right: "seq_m m (ret_m ()) = m"
  by (auto simp: fun_eq_iff seq_m_def bind_m_def ret_m_def split: prod.splits sum.splits)

lemma ser_fields_entries: "ser_fields wr fs = ser_entries (map (\<lambda>(k, m). (serialize_str wr k, m)) fs)"
  by (induction fs) (auto simp: serialize_field_def serialize_key_def serialize_value_def)

lemma emits_parts:
  assumes "list_all2 (\<lambda>m (de, x). comes_back m de x) ms ys"
  obtains bss where "vec_sink.emits (ser_each ms) (concat bss)"
    "length (concat bss) < usize_bound \<Longrightarrow> list_all2 (\<lambda>bs (de, x). typed bs \<and> reads de bs x) bss ys"
proof -
  from assms have "\<exists>bss. vec_sink.emits (ser_each ms) (concat bss) \<and>
      (length (concat bss) < usize_bound \<longrightarrow> list_all2 (\<lambda>bs (de, x). typed bs \<and> reads de bs x) bss ys)"
  proof (induction ms ys rule: list_all2_induct)
    case Nil
    show ?case by (intro exI [of _ "[]"]) (simp add: vec_sink.emits_ret)
  next
    case (Cons m ms y ys)
    obtain de x where y: "y = (de, x)" by (cases y)
    with Cons.hyps(1) obtain bs where bs: "vec_sink.emits m bs" "length bs < usize_bound \<longrightarrow> typed bs \<and> reads de bs x"
      by (auto simp: comes_back_def)
    from Cons.IH obtain bss where bss: "vec_sink.emits (ser_each ms) (concat bss)"
      "length (concat bss) < usize_bound \<longrightarrow> list_all2 (\<lambda>bs (de, x). typed bs \<and> reads de bs x) bss ys" by blast
    show ?case
      by (intro exI [of _ "bs # bss"] conjI impI)
        (use vec_sink.emits_seq [OF bs(1) bss(1)] bs(2) bss(2) y in \<open>auto simp: serialize_element_def\<close>)
  qed
  with that show ?thesis by blast
qed

lemma emits_entries:
  assumes "list_all2 (\<lambda>(km, vm) (k, x). comes_back km kseed k \<and> comes_back vm (vseed k) x) es kvs"
  obtains bss where "vec_sink.emits (ser_entries es) (concat (map (\<lambda>(kb, vb). kb @ vb) bss))"
    "length (concat (map (\<lambda>(kb, vb). kb @ vb) bss)) < usize_bound \<Longrightarrow>
      list_all2 (\<lambda>(kb, vb) (k, x). typed kb \<and> reads kseed kb k \<and> reads (vseed k) vb x) bss kvs"
proof -
  from assms have "\<exists>bss. vec_sink.emits (ser_entries es) (concat (map (\<lambda>(kb, vb). kb @ vb) bss)) \<and>
      (length (concat (map (\<lambda>(kb, vb). kb @ vb) bss)) < usize_bound \<longrightarrow>
        list_all2 (\<lambda>(kb, vb) (k, x). typed kb \<and> reads kseed kb k \<and> reads (vseed k) vb x) bss kvs)"
  proof (induction es kvs rule: list_all2_induct)
    case Nil
    show ?case by (intro exI [of _ "[]"]) (simp add: vec_sink.emits_ret)
  next
    case (Cons e es p kvs)
    obtain km vm where e: "e = (km, vm)" by (cases e)
    obtain k x where p: "p = (k, x)" by (cases p)
    from Cons.hyps(1) e p obtain kb vb where b: "vec_sink.emits km kb" "vec_sink.emits vm vb"
      "length kb < usize_bound \<longrightarrow> typed kb \<and> reads kseed kb k" "length vb < usize_bound \<longrightarrow> reads (vseed k) vb x"
      by (auto simp: comes_back_def)
    from Cons.IH obtain bss where bss: "vec_sink.emits (ser_entries es) (concat (map (\<lambda>(kb, vb). kb @ vb) bss))"
      "length (concat (map (\<lambda>(kb, vb). kb @ vb) bss)) < usize_bound \<longrightarrow>
        list_all2 (\<lambda>(kb, vb) (k, x). typed kb \<and> reads kseed kb k \<and> reads (vseed k) vb x) bss kvs" by blast
    show ?case
      by (intro exI [of _ "(kb, vb) # bss"] conjI impI)
        (use vec_sink.emits_seq [OF vec_sink.emits_seq [OF b(1,2)] bss(1)] b(3,4) bss(2) e p in
          \<open>auto simp: serialize_key_def serialize_value_def\<close>)
  qed
  with that show ?thesis by blast
qed

text \<open>The heads, and what the deserializer takes from them.\<close>

definition container_head :: "u8 \<Rightarrow> u8 \<Rightarrow> u64 option \<Rightarrow> bytes" where
  "container_head t indef len = (case len of Some n \<Rightarrow> head_bytes t (unat n) | None \<Rightarrow> [indef])"

lemma emits_heads:
  "vec_sink.emits (case len of Some n \<Rightarrow> enc_array vec_write_all (of_nat n) | None \<Rightarrow> enc_begin_array vec_write_all)
     (container_head ARRAY 0x9f (map_option of_nat len))"
  "vec_sink.emits (case len of Some n \<Rightarrow> enc_map vec_write_all (of_nat n) | None \<Rightarrow> enc_begin_map vec_write_all)
     (container_head MAP 0xbf (map_option of_nat len))"
  using vec_sink.emits_type_len vec_sink.emits_put
  by (auto simp: container_head_def enc_array_def enc_map_def enc_begin_array_def enc_begin_map_def split: option.splits)

lemma reads_heads:
  "reads dec_array (container_head ARRAY 0x9f len) len" "reads dec_map (container_head MAP 0xbf len) len"
proof -
  have h: "is_head t (unat n) (head_bytes t (unat n))" for t and n :: u64
    using unat_lt [of n] by (intro is_head_head_bytes) simp
  show "reads dec_array (container_head ARRAY 0x9f len) len"
    using reads_indef(1) reads_array [OF h] by (auto simp: container_head_def split: option.splits)
  show "reads dec_map (container_head MAP 0xbf len) len"
    using reads_indef(2) reads_map_head [OF h] by (auto simp: container_head_def split: option.splits)
qed

lemma typed_heads: "typed (container_head ARRAY 0x9f len @ bs)" "typed (container_head MAP 0xbf len @ bs)"
  using unat_lt [where 'a = 64] typed_plain [of "0x9f" bs] typed_plain [of "0xbf" bs]
  by (auto simp: container_head_def typed_append typed_value_typed split: option.splits)

lemma emits_end: "vec_sink.emits (if len = None then enc_end vec_write_all else ret_m ()) (tail_bytes (map_option f len))"
  using vec_sink.emits_put [of "[BREAK]"] vec_sink.emits_ret
  by (auto simp: enc_end_def tail_bytes_def BREAK_def)

lemma left_of_length: "n < 2 ^ 64 \<Longrightarrow> len = None \<or> len = Some n \<Longrightarrow> left (map_option of_nat len) n"
  by (auto simp: left_def)

section \<open>Sequences, maps, tuples and structures\<close>

lemma seq_comes_back:
  assumes "visit_seq v = (\<lambda>len d. the (take_all seed len d))"
    "list_all2 (\<lambda>m x. comes_back m seed x) ms xs" "length ms < 2 ^ 64" "len = None \<or> len = Some (length ms)"
  shows "comes_back (write_seq vec_write_all len ms) (deserialize_seq v) xs"
proof -
  let ?l = "map_option of_nat len :: u64 option"
  have "list_all2 (\<lambda>m (de, x). comes_back m de x) ms (map (Pair seed) xs)"
    unfolding list_all2_map2 using assms(2) by simp
  then obtain bss where b: "vec_sink.emits (ser_each ms) (concat bss)"
    "length (concat bss) < usize_bound \<Longrightarrow> list_all2 (\<lambda>bs (de, x). typed bs \<and> reads de bs x) bss (map (Pair seed) xs)"
    by (rule emits_parts) blast
  have left: "left ?l (length xs)" using assms(3,4) list_all2_lengthD [OF assms(2)] by (intro left_of_length) auto
  show ?thesis
  proof (rule comes_backI)
    show "vec_sink.emits (write_seq vec_write_all len ms) (container_head ARRAY 0x9f ?l @ concat bss @ tail_bytes ?l)"
      unfolding write_seq_def serialize_seq_def bind_seq_ret seq_end_def
      by (intro vec_sink.emits_seq emits_heads(1) b(1) emits_end)
    assume "length (container_head ARRAY 0x9f ?l @ concat bss @ tail_bytes ?l) < usize_bound"
    then have "list_all2 (\<lambda>bs x. typed bs \<and> reads seed bs x) bss xs" using b(2) by (simp add: list_all2_map2)
    from finds_reads [OF take_all_finds [OF this left]]
    show "reads (deserialize_seq v) (container_head ARRAY 0x9f ?l @ concat bss @ tail_bytes ?l) xs"
      unfolding deserialize_seq_def assms(1) by (rule yields_bind [OF reads_heads(1)])
  qed (rule typed_heads)
qed

lemma tuple_comes_back:
  assumes "visit_seq t = take_each (map fst cs)" "list_all2 (\<lambda>m (de, x). comes_back m de x) ts cs" "length ts < 2 ^ 64"
  shows "comes_back (write_tuple vec_write_all ts) (deserialize_tuple ft (length ts) t) (map snd cs)"
proof -
  let ?n = "Some (of_nat (length ts)) :: u64 option"
  obtain bss where b: "vec_sink.emits (ser_each ts) (concat bss)"
    "length (concat bss) < usize_bound \<Longrightarrow> list_all2 (\<lambda>bs (de, x). typed bs \<and> reads de bs x) bss cs"
    using emits_parts [OF assms(2)] by blast
  have left: "left ?n (length cs)" using assms(3) list_all2_lengthD [OF assms(2)] by (simp add: left_def)
  show ?thesis
  proof (rule comes_backI)
    show "vec_sink.emits (write_tuple vec_write_all ts) (container_head ARRAY 0x9f ?n @ concat bss)"
      using vec_sink.emits_seq [OF emits_heads(1) [of "Some (length ts)"] b(1)]
      by (simp add: write_tuple_def serialize_tuple_def bind_seq_ret tuple_end_def seq_ret_right)
    assume "length (container_head ARRAY 0x9f ?n @ concat bss) < usize_bound"
    then have "reads (visit_seq t ?n) (concat bss) (map snd cs)"
      unfolding assms(1) using b(2) by (intro take_each_reads left) simp
    then show "reads (deserialize_tuple ft (length ts) t) (container_head ARRAY 0x9f ?n @ concat bss) (map snd cs)"
      unfolding deserialize_tuple_def by (intro yields_with_pos yields_bind [OF reads_heads(1)]) simp
  qed (rule typed_heads)
qed

lemma map_comes_back:
  assumes "visit_map w = (\<lambda>len d. the (take_entries kseed vseed len d))"
    "list_all2 (\<lambda>(km, vm) (k, x). comes_back km kseed k \<and> comes_back vm (vseed k) x) es kvs" "length es < 2 ^ 64"
    "len = None \<or> len = Some (length es)"
  shows "comes_back (write_map vec_write_all len es) (deserialize_map w) kvs"
proof -
  let ?l = "map_option of_nat len :: u64 option"
  from assms(3,4) list_all2_lengthD [OF assms(2)] have left: "left ?l (length kvs)" by (intro left_of_length) auto
  obtain bss where b: "vec_sink.emits (ser_entries es) (concat (map (\<lambda>(kb, vb). kb @ vb) bss))"
    "length (concat (map (\<lambda>(kb, vb). kb @ vb) bss)) < usize_bound \<Longrightarrow>
      list_all2 (\<lambda>(kb, vb) (k, x). typed kb \<and> reads kseed kb k \<and> reads (vseed k) vb x) bss kvs"
    using emits_entries [OF assms(2)] by blast
  show ?thesis
  proof (rule comes_backI)
    show "vec_sink.emits (write_map vec_write_all len es)
        (container_head MAP 0xbf ?l @ concat (map (\<lambda>(kb, vb). kb @ vb) bss) @ tail_bytes ?l)"
      unfolding write_map_def serialize_map_def bind_seq_ret map_end_def
      by (intro vec_sink.emits_seq emits_heads(2) b(1) emits_end)
    assume "length (container_head MAP 0xbf ?l @ concat (map (\<lambda>(kb, vb). kb @ vb) bss) @ tail_bytes ?l) < usize_bound"
    then have "length (concat (map (\<lambda>(kb, vb). kb @ vb) bss)) < usize_bound" by simp
    from finds_reads [OF take_entries_finds [OF b(2) [OF this] left]]
    show "reads (deserialize_map w) (container_head MAP 0xbf ?l @ concat (map (\<lambda>(kb, vb). kb @ vb) bss) @ tail_bytes ?l) kvs"
      unfolding deserialize_map_def assms(1) by (rule yields_bind [OF reads_heads(2)])
  qed (rule typed_heads)
qed

lemma str_comes_back: "valid_utf8 s \<Longrightarrow> comes_back (serialize_str vec_write_all s) dec_str s"
  unfolding serialize_str_def
  by (drule carries_strings(1), elim carriesE, intro comes_backI) (auto intro: typed_value_typed)

lemma struct_comes_back:
  assumes "visit_map u = (\<lambda>len d. the (take_entries dec_str fseed len d))"
    "list_all2 (\<lambda>(key, m) (k, x). k = key \<and> valid_utf8 key \<and> comes_back m (fseed key) x) fs rs" "length fs < 2 ^ 64"
  shows "comes_back (write_struct vec_write_all name fs) (deserialize_struct name names u) rs"
proof -
  let ?es = "map (\<lambda>(k, m). (serialize_str vec_write_all k, m)) fs"
  have "write_struct vec_write_all name fs = write_map vec_write_all (Some (length ?es)) ?es"
    by (simp add: write_struct_def serialize_struct_def write_map_def serialize_map_def bind_seq_ret ser_fields_entries
        struct_end_def map_end_def)
  moreover have "list_all2 (\<lambda>(km, vm) (k, x). comes_back km dec_str k \<and> comes_back vm (fseed k) x) ?es rs"
    unfolding list_all2_map1 by (rule list_all2_mono [OF assms(2)]) (use str_comes_back in \<open>auto split: prod.splits\<close>)
  ultimately show ?thesis using map_comes_back [OF assms(1), of ?es rs] assms(3) by (simp add: deserialize_struct_def)
qed

text \<open>A visitor that refuses everything, and those that take what they are made for.\<close>

definition refuse :: "'a \<Rightarrow> decode_error + 'v" where
  "refuse x = Inl (err_message ''invalid type'')"

definition refusing :: "'v visitor" where
  "refusing =
     \<lparr>visit_bool = refuse, visit_i8 = refuse, visit_i16 = refuse, visit_i32 = refuse, visit_i64 = refuse, visit_u8 = refuse,
      visit_u16 = refuse, visit_u32 = refuse, visit_u64 = refuse, visit_f32 = refuse, visit_f64 = refuse,
      visit_char = refuse, visit_str = refuse, visit_borrowed_str = refuse, visit_string = refuse, visit_bytes = refuse,
      visit_borrowed_bytes = refuse, visit_byte_buf = refuse, visit_none = refuse (), visit_unit = refuse (),
      visit_some = res_m (refuse ()), visit_newtype_struct = res_m (refuse ()), visit_seq = (\<lambda>_. res_m (refuse ())),
      visit_map = (\<lambda>_. res_m (refuse ())), visit_enum = res_m (refuse ())\<rparr>"

definition u64_visitor :: "u64 visitor" where
  "u64_visitor = refusing\<lparr>visit_u64 := Inr\<rparr>"

definition str_visitor :: "bytes visitor" where
  "str_visitor = refusing\<lparr>visit_str := Inr, visit_borrowed_str := Inr, visit_string := Inr\<rparr>"

definition seq_visitor :: "'a dec \<Rightarrow> 'a list visitor" where
  "seq_visitor seed = refusing\<lparr>visit_seq := \<lambda>len d. the (take_all seed len d)\<rparr>"

definition tuple_visitor :: "'a dec list \<Rightarrow> 'a list visitor" where
  "tuple_visitor ms = refusing\<lparr>visit_seq := take_each ms\<rparr>"

definition map_visitor :: "'k dec \<Rightarrow> ('k \<Rightarrow> 'a dec) \<Rightarrow> ('k \<times> 'a) list visitor" where
  "map_visitor kseed vseed = refusing\<lparr>visit_map := \<lambda>len d. the (take_entries kseed vseed len d)\<rparr>"

lemma visitor_methods [simp]:
  "visit_u64 u64_visitor = Inr" "visit_borrowed_str str_visitor = Inr"
  "visit_seq (seq_visitor seed) = (\<lambda>len d. the (take_all seed len d))" "visit_seq (tuple_visitor ms) = take_each ms"
  "visit_map (map_visitor kseed vseed) = (\<lambda>len d. the (take_entries kseed vseed len d))"
  by (simp_all add: u64_visitor_def str_visitor_def seq_visitor_def tuple_visitor_def map_visitor_def)

text \<open>C31: Sequences and maps come back from any visitor that takes everything, with their length announced or not,
  tuples from one that takes each component, and structures from one that takes the entries of a map with the
  field names as keys. Elements, keys and values are anything that comes back.
\<close>

theorem compounds_come_back:
  assumes v: "visit_seq v = (\<lambda>len d. the (take_all seed len d))"
      "list_all2 (\<lambda>m x. comes_back m seed x) ms xs" "length ms < 2 ^ 64" "len = None \<or> len = Some (length ms)"
    and t: "visit_seq t = take_each (map fst cs)" "list_all2 (\<lambda>m (de, x). comes_back m de x) ts cs" "length ts < 2 ^ 64"
    and w: "visit_map w = (\<lambda>len d. the (take_entries kseed vseed len d))"
      "list_all2 (\<lambda>(km, vm) (k, x). comes_back km kseed k \<and> comes_back vm (vseed k) x) es kvs" "length es < 2 ^ 64"
      "mlen = None \<or> mlen = Some (length es)"
    and u: "visit_map u = (\<lambda>len d. the (take_entries dec_str fseed len d))"
      "list_all2 (\<lambda>(key, m) (k, x). k = key \<and> valid_utf8 key \<and> comes_back m (fseed key) x) fs rs" "length fs < 2 ^ 64"
  shows "comes_back (write_seq vec_write_all len ms) (deserialize_seq v) xs \<and>
    comes_back (write_tuple vec_write_all ts) (deserialize_tuple ft (length ts) t) (map snd cs) \<and>
    comes_back (write_map vec_write_all mlen es) (deserialize_map w) kvs \<and>
    comes_back (write_struct vec_write_all name fs) (deserialize_struct name names u) rs"
  by (intro conjI seq_comes_back [OF v] tuple_comes_back [OF t] map_comes_back [OF w] struct_comes_back [OF u])

section \<open>Types with both implementations\<close>

text \<open>What a type promises that implements \<open>Serialize\<close> and \<open>Deserialize\<close>, and what follows for its values and vectors of them.\<close>

locale serde_impls =
  fixes ser :: "'a \<Rightarrow> (bytes, infallible) ser" and de :: "'a dec" and ok :: "'a \<Rightarrow> bool"
  assumes value_comes_back: "ok x \<Longrightarrow> comes_back (ser x) de x"
begin

lemma value_through_slice:
  assumes "ok x"
  obtains bs where "serde_to_vec (ser x) = Inr bs" "length bs < usize_bound \<longrightarrow> from_slice de bs = Inr x"
  using slice_round_trip [OF value_comes_back [OF assms]] .

lemma vec_comes_back:
  assumes "\<forall>x \<in> set xs. ok x" "length xs < 2 ^ 64" "len = None \<or> len = Some (length xs)"
  shows "comes_back (write_seq vec_write_all len (map ser xs)) (deserialize_seq (seq_visitor de)) xs"
proof (rule seq_comes_back)
  show "list_all2 (\<lambda>m x. comes_back m de x) (map ser xs) xs"
    using assms(1) value_comes_back by (simp add: list_all2_map1 list_all2_same)
qed (use assms in auto)

end

interpretation u64_serde: serde_impls "serialize_u64 vec_write_all" "deserialize_u64 u64_visitor" "\<lambda>_. True"
  by unfold_locales (rule integers_come_back(4), simp)

interpretation str_serde: serde_impls "serialize_str vec_write_all" "deserialize_str str_visitor" valid_utf8
  by unfold_locales (rule strings_come_back(1), simp_all)

interpretation vec_str_serde: serde_impls "\<lambda>xs. write_seq vec_write_all (Some (length xs)) (map (serialize_str vec_write_all) xs)"
  "deserialize_seq (seq_visitor (deserialize_str str_visitor))" "\<lambda>xs. (\<forall>x \<in> set xs. valid_utf8 x) \<and> length xs < 2 ^ 64"
  by unfold_locales (rule str_serde.vec_comes_back, simp_all)

theorem compounds_come_back_witness:
  "comes_back (write_seq vec_write_all None [serialize_u64 vec_write_all 7, serialize_u64 vec_write_all 300])
     (deserialize_seq (seq_visitor (deserialize_u64 u64_visitor))) [7, 300] \<and>
   comes_back (write_struct vec_write_all (str_bytes ''P'') [(str_bytes ''x'', serialize_u64 vec_write_all 7)])
     (deserialize_struct (str_bytes ''P'') [str_bytes ''x''] (map_visitor dec_str (\<lambda>_. deserialize_u64 u64_visitor)))
     [(str_bytes ''x'', 7)]"
proof -
  note u = u64_serde.value_comes_back
  have x: "valid_utf8 (str_bytes ''x'')" by code_simp
  show ?thesis
    using compounds_come_back [of "seq_visitor (deserialize_u64 u64_visitor)" "deserialize_u64 u64_visitor"
        "[serialize_u64 vec_write_all 7, serialize_u64 vec_write_all 300]" "[7, 300]" None
        "tuple_visitor []" "[] :: (unit dec \<times> unit) list" "[]"
        "map_visitor (deserialize_str str_visitor) (\<lambda>_. deserialize_u64 u64_visitor)" "deserialize_str str_visitor"
        "\<lambda>_. deserialize_u64 u64_visitor" "[]" "[]" None
        "map_visitor dec_str (\<lambda>_. deserialize_u64 u64_visitor)" "\<lambda>_. deserialize_u64 u64_visitor"
        "[(str_bytes ''x'', serialize_u64 vec_write_all 7)]" "[(str_bytes ''x'', 7)]"]
      u x by simp
qed

section \<open>Options and variants\<close>

definition write_tuple_variant :: "('w, 'e) write_all \<Rightarrow> bytes \<Rightarrow> u32 \<Rightarrow> bytes \<Rightarrow> ('w, 'e) ser list \<Rightarrow> ('w, 'e) ser" where
  "write_tuple_variant wr name i variant ms =
     bind_m (serialize_tuple_variant wr name i variant (length ms)) (\<lambda>_. seq_m (ser_each ms) tuple_end)"

definition write_struct_variant ::
  "('w, 'e) write_all \<Rightarrow> bytes \<Rightarrow> u32 \<Rightarrow> bytes \<Rightarrow> (bytes \<times> ('w, 'e) ser) list \<Rightarrow> ('w, 'e) ser" where
  "write_struct_variant wr name i variant fs =
     bind_m (serialize_struct_variant wr name i variant (length fs)) (\<lambda>_. seq_m (ser_fields wr fs) struct_end)"

lemma bind_seq: "bind_m (seq_m m n) k = seq_m m (bind_m n k)"
  by (auto simp: fun_eq_iff seq_m_def bind_m_def split: prod.splits sum.splits)

lemma variant_as_newtype:
  "write_tuple_variant wr name i variant ms = serialize_newtype_variant wr name i variant (write_tuple wr ms)"
  "write_struct_variant wr name i variant fs = serialize_newtype_variant wr name i variant (write_struct wr name fs)"
  by (simp_all add: write_tuple_variant_def serialize_tuple_variant_def serialize_newtype_variant_def write_tuple_def
      write_struct_variant_def serialize_struct_variant_def write_struct_def bind_seq)

lemma comes_back_map: "comes_back m de x \<Longrightarrow> comes_back m (map_m g de) (g x)"
  by (elim comes_backE, intro comes_backI) (auto intro: reads_map)

lemma peeks_text: "is_head TEXT n bs \<Longrightarrow> peeks (bs @ s) TyString"
  by (erule peeks_major) (rule major_types(2))

lemma peeks_map1: "peeks ([0xa1] @ bs) TyMap"
  by (simp add: peeks_first dec_type_of_def run_simps)

lemma reads_enum_map:
  assumes "reads (visit_enum v) bs x"
  shows "reads (deserialize_enum name names v) ([0xa1] @ bs) x"
proof -
  have "reads dec_map [0xa1] (Some 1)"
    using reads_heads(2) [of "Some 1"] by (simp add: container_head_def head_bytes_def MAP_def)
  then have "reads (bind_m dec_map (\<lambda>m. if m \<noteq> Some 1 then fail_m (err_at p (err_message ''invalid enum map length'')) else ret_m ()))
      [0xa1] ()" for p
    by (rule yields_then) (simp add: reads_ret)
  from yields_seq [OF this assms] show ?thesis
    unfolding deserialize_enum_def by (intro yields_with_pos yields_typed [OF peeks_map1]) (simp only: if_P)
qed

lemma name_read:
  assumes "valid_utf8 s" "length s < 2 ^ 64" "visit_borrowed_str w s = Inr k"
  shows "reads (variant_seed (deserialize_identifier w)) (head_bytes TEXT (length s) @ s) k"
  unfolding variant_seed_def deserialize_identifier_def deserialize_str_def
  using reads_str [OF is_head_head_bytes [OF assms(2)] assms(1)] assms(3) by (intro reads_visit)

lemma unit_variant_back:
  assumes s: "valid_utf8 s" "length s < 2 ^ 64" "visit_borrowed_str w s = Inr k"
    and v: "visit_enum v = bind_m (variant_seed (deserialize_identifier w)) f" "f k = map_m (\<lambda>_. x) unit_variant"
  shows "comes_back (serialize_unit_variant vec_write_all name i s) (deserialize_enum name names v) x"
proof (rule comes_backI)
  let ?bs = "head_bytes TEXT (length s) @ s"
  show "vec_sink.emits (serialize_unit_variant vec_write_all name i s) ?bs"
    using vec_sink.emits_str [of s] s(2) by (simp add: serialize_unit_variant_def serialize_str_def unat_of_nat_u64)
  note h = is_head_head_bytes [OF s(2), of TEXT]
  show "typed ?bs" using s(2) by (intro typed_append typed_value_typed) simp
  have "reads (visit_enum v) ?bs x"
    unfolding v(1) by (rule yields_then [OF name_read [OF s]]) (simp add: v(2) unit_variant_def reads_map [OF reads_ret, where f = "\<lambda>_. x", of "()"])
  then have "reads (seq_m (ret_m ()) (visit_enum v)) ?bs x" using yields_seq [OF reads_ret] by fastforce
  then show "reads (deserialize_enum name names v) ?bs x"
    unfolding deserialize_enum_def by (intro yields_with_pos yields_typed [OF peeks_text [OF h]]) simp
qed

lemma newtype_variant_back:
  assumes s: "valid_utf8 s" "length s < 2 ^ 64" "visit_borrowed_str w s = Inr k"
    and v: "visit_enum v = bind_m (variant_seed (deserialize_identifier w)) f" "f k = newtype_variant_seed de"
    and m: "comes_back m de x"
  shows "comes_back (serialize_newtype_variant vec_write_all name i s m) (deserialize_enum name names v) x"
  using m
proof (rule comes_backE)
  fix bs assume bs: "vec_sink.emits m bs" "length bs < usize_bound \<longrightarrow> reads de bs x"
  let ?n = "head_bytes TEXT (length s) @ s"
  have map: "vec_sink.emits (enc_map vec_write_all 1) [0xa1]"
    using vec_sink.emits_type_len [of MAP 1] by (simp add: enc_map_def head_bytes_def MAP_def)
  have str: "vec_sink.emits (enc_str vec_write_all s) ?n" using vec_sink.emits_str [of s] s(2) by (simp add: unat_of_nat_u64)
  show ?thesis
  proof (rule comes_backI)
    show "vec_sink.emits (serialize_newtype_variant vec_write_all name i s m) ([0xa1] @ ?n @ bs)"
      unfolding serialize_newtype_variant_def by (intro vec_sink.emits_seq map str bs(1))
    show "typed ([0xa1] @ ?n @ bs)" by (simp add: typed_plain typed_value_typed)
    assume "length ([0xa1] @ ?n @ bs) < usize_bound"
    then have "reads de bs x" using bs(2) by simp
    then have e: "reads (visit_enum v) (?n @ bs) x"
      unfolding v(1) by (intro yields_bind [OF name_read [OF s]]) (simp add: v(2) newtype_variant_seed_def)
    show "reads (deserialize_enum name names v) ([0xa1] @ ?n @ bs) x" by (rule reads_enum_map [OF e])
  qed
qed

text \<open>An option is told from its contents by the type of the item, so the contents must not be null.\<close>

lemma none_comes_back:
  "visit_none w = Inr x \<Longrightarrow> comes_back (serialize_none vec_write_all) (deserialize_option w) x"
proof (rule comes_backI [of _ "[0xf6]"])
  show "vec_sink.emits (serialize_none vec_write_all) [0xf6]"
    using vec_sink.emits_put [of "[0xf6]"] by (simp add: serialize_none_def enc_null_def SIMPLE_def)
  assume n: "visit_none w = Inr x"
  have "reads dec_skip [0xf6] ()" by (rule reads_skip [OF encodes_null])
  from yields_seq [OF this, of "res_m (visit_none w)" "[]" "Inr x"] have "reads (seq_m dec_skip (res_m (visit_none w))) [0xf6] x"
    using n yields_res [of "visit_none w"] by simp
  then show "reads (deserialize_option w) [0xf6] x"
    unfolding deserialize_option_def by (intro yields_typed [OF peeks_null]) simp
qed (simp add: typed_null)

lemma some_comes_back:
  assumes "vec_sink.emits m bs" "length bs < usize_bound \<Longrightarrow> typed_value bs \<and> reads de bs x" "visit_some w = map_m f de"
  shows "comes_back (serialize_some m) (deserialize_option w) (f x)"
proof (rule comes_backI [of _ bs])
  assume "length bs < usize_bound"
  then obtain t where t: "peeks bs t" "t \<noteq> TyNull" "reads de bs x" using assms(2) by (auto simp: typed_value_def)
  then show "reads (deserialize_option w) bs (f x)"
    unfolding deserialize_option_def using assms(3) reads_map by (intro yields_typed [OF t(1)]) simp
qed (use assms in \<open>auto simp: serialize_some_def typed_value_typed\<close>)

text \<open>C32: Each of the four kinds of variants of an enumeration comes back through a visitor that reads the name of the
  variant and then what it holds: nothing, one value, a tuple or a structure.
\<close>

theorem variants_come_back:
  assumes s: "valid_utf8 s" "length s < 2 ^ 64" "visit_borrowed_str w s = Inr k"
    and v: "visit_enum v = bind_m (variant_seed (deserialize_identifier w)) f"
  shows "(f k = map_m (\<lambda>_. x) unit_variant \<longrightarrow>
      comes_back (serialize_unit_variant vec_write_all name i s) (deserialize_enum name names v) x) \<and>
    (f k = newtype_variant_seed de \<and> comes_back m de x \<longrightarrow>
      comes_back (serialize_newtype_variant vec_write_all name i s m) (deserialize_enum name names v) x) \<and>
    (f k = map_m g (tuple_variant ft (length ts) t) \<and> visit_seq t = take_each (map fst cs) \<and>
        list_all2 (\<lambda>m (de, x). comes_back m de x) ts cs \<and> length ts < 2 ^ 64 \<longrightarrow>
      comes_back (write_tuple_variant vec_write_all name i s ts) (deserialize_enum name names v) (g (map snd cs))) \<and>
    (f k = map_m h (struct_variant field_names u) \<and> visit_map u = (\<lambda>len d. the (take_entries dec_str fseed len d)) \<and>
        list_all2 (\<lambda>(key, m) (k, x). k = key \<and> valid_utf8 key \<and> comes_back m (fseed key) x) fs rs \<and> length fs < 2 ^ 64 \<longrightarrow>
      comes_back (write_struct_variant vec_write_all name i s fs) (deserialize_enum name names v) (h rs))"
proof (intro conjI impI)
  show "f k = map_m (\<lambda>_. x) unit_variant \<Longrightarrow>
      comes_back (serialize_unit_variant vec_write_all name i s) (deserialize_enum name names v) x"
    by (rule unit_variant_back [OF s v])
next
  assume "f k = newtype_variant_seed de \<and> comes_back m de x"
  then show "comes_back (serialize_newtype_variant vec_write_all name i s m) (deserialize_enum name names v) x"
    by (intro newtype_variant_back [OF s v]) auto
next
  assume t: "f k = map_m g (tuple_variant ft (length ts) t) \<and> visit_seq t = take_each (map fst cs) \<and>
      list_all2 (\<lambda>m (de, x). comes_back m de x) ts cs \<and> length ts < 2 ^ 64"
  then have "comes_back (write_tuple vec_write_all ts) (deserialize_tuple ft (length ts) t) (map snd cs)"
    by (intro tuple_comes_back) auto
  from comes_back_map [OF this, of g]
  show "comes_back (write_tuple_variant vec_write_all name i s ts) (deserialize_enum name names v) (g (map snd cs))"
    unfolding variant_as_newtype using t
    by (intro newtype_variant_back [OF s v]) (simp_all add: newtype_variant_seed_def tuple_variant_def)
next
  assume u: "f k = map_m h (struct_variant field_names u) \<and> visit_map u = (\<lambda>len d. the (take_entries dec_str fseed len d)) \<and>
      list_all2 (\<lambda>(key, m) (k, x). k = key \<and> valid_utf8 key \<and> comes_back m (fseed key) x) fs rs \<and> length fs < 2 ^ 64"
  then have "comes_back (write_struct vec_write_all name fs) (deserialize_struct name field_names u) rs"
    by (intro struct_comes_back) auto
  from comes_back_map [OF this, of h]
  show "comes_back (write_struct_variant vec_write_all name i s fs) (deserialize_enum name names v) (h rs)"
    unfolding variant_as_newtype using u
    by (intro newtype_variant_back [OF s v]) (simp_all add: newtype_variant_seed_def struct_variant_def deserialize_struct_def)
qed

theorem variants_come_back_witness:
  "comes_back (serialize_newtype_variant vec_write_all (str_bytes ''E'') 1 (str_bytes ''N'') (serialize_u64 vec_write_all 7))
     (deserialize_enum (str_bytes ''E'') [str_bytes ''U'', str_bytes ''N'']
        (refusing\<lparr>visit_enum := bind_m (variant_seed (deserialize_identifier str_visitor)) (\<lambda>k.
           if k = str_bytes ''U'' then map_m (\<lambda>_. None) unit_variant
           else newtype_variant_seed (map_m Some (deserialize_u64 u64_visitor)))\<rparr>)) (Some 7)"
proof -
  have s: "valid_utf8 (str_bytes ''N'')" by code_simp
  have k: "str_bytes ''N'' \<noteq> str_bytes ''U''" by (simp add: str_bytes_def)
  show ?thesis
    by (rule variants_come_back [where w = str_visitor and k = "str_bytes ''N''" and de = "map_m Some (deserialize_u64 u64_visitor)",
          THEN conjunct2, THEN conjunct1, THEN mp, OF s])
      (use k in \<open>auto intro!: comes_back_map integers_come_back(4)\<close>)
qed

section \<open>What does not come back\<close>

text \<open>A unit written as null is refused, and an optional one comes back as nothing.\<close>

lemma unit_as_null:
  "visit_none w = Inr x \<Longrightarrow> comes_back (serialize_some (serialize_unit True vec_write_all)) (deserialize_option w) x"
  "\<exists>e. from_slice (deserialize_unit v) [0xf6] = Inl e"
proof -
  show "visit_none w = Inr x \<Longrightarrow> comes_back (serialize_some (serialize_unit True vec_write_all)) (deserialize_option w) x"
    using none_comes_back by (simp add: serialize_some_def serialize_unit_def serialize_none_def)
  show "\<exists>e. from_slice (deserialize_unit v) [0xf6] = Inl e"
    by (simp add: from_slice_def deserialize_unit_def decode_unit_def decode_empty_def dec_array_def dec_new_def dec_read_def
        index_get_def mismatch_def dec_type_of_def run_simps bind_m_def with_pos_def type_of_def ARRAY_def)
qed

text \<open>A unit variant inside of a map is read, but the value of the entry is left in the input.\<close>

lemma unit_variant_value_left:
  assumes v: "visit_enum v = bind_m (variant_seed (deserialize_identifier w)) f" "f k = map_m (\<lambda>_. x) unit_variant"
    and s: "valid_utf8 s" "length s < 2 ^ 64" "visit_borrowed_str w s = Inr k"
  shows "reads (deserialize_enum name names v) ([0xa1] @ head_bytes TEXT (length s) @ s) x"
  by (rule reads_enum_map, unfold v(1), rule yields_then [OF name_read [OF s]])
    (simp add: v(2) unit_variant_def reads_map [OF reads_ret, where f = "\<lambda>_. x", of "()"])

end
