(* ===== verification/Spec2Isabelle.thy ===== *)
theory Spec2Isabelle
  imports Fslat_Race Daemon Cbor_Tokenizer Cbor_Std Derive_Len Derive_Keys Derive_Enum Derive_Bounds Serde_Round
begin

text \<open>
  Verification of \<open>ebpf_ldms\<close>: a daemon that relays messages of eBPF programs to LDMS, the eBPF
  producer that measures the latency of file system calls, and the CBOR library \<open>minicbor\<close> that the
  producer writes its messages with.

  \<^bold>\<open>The program.\<close> Probes attached to the entry and exit of eight kernel functions (\<open>vfslatency-ebpf\<close>)
  call the handlers of \<open>vfslatency-common\<close>. The entry handler resolves the path of the file and
  stores it with the start time of the call; the exit handler finds the configured path prefixes the
  path starts with, adds the latency to their statistics, and once per interval puts a CBOR message
  into a shared ring buffer. The daemon takes the entries of the ring buffer, turns them from CBOR to
  JSON, replaces the monotonic time by wall-clock time, limits the rate of each producer and
  publishes the text through the C library of LDMS.

  \<^bold>\<open>Foundations.\<close> \<open>Ldms_Prelude\<close>: machine integers as words, saturating and narrowing operations,
  fallible state-passing functions (an error keeps the state it left), big-endian bytes, slices.
  \<open>Rust_Core\<close>: UTF-8 validation, characters, number formatting, widening of floats, as the Rust core
  library defines them.

  \<^bold>\<open>minicbor\<close> (\<open>producers/fslatency/minicbor/minicbor/src\<close>).
  \<open>Cbor_Data\<close> (\<open>data.rs\<close>): types, tags, the IANA registry, \<open>Int\<close>; conversions are exact and the registry is
  a bijection.
  \<open>Cbor_Error\<close> (\<open>decode/error.rs\<close>, \<open>encode/error.rs\<close>): the errors, their builders and texts.
  \<open>Cbor_Write\<close> (\<open>encode/write.rs\<close>): the sinks; the locale \<open>byte_sink\<close> is what a sink promises and is
  interpreted on the slice, the vector and the cursors.
  \<open>Cbor_Encoder\<close> (\<open>encode/encoder.rs\<close>, the major types of \<open>lib.rs\<close>): every operation over any sink; it
  emits exactly the head, in shortest form, and the payload it stands for.
  \<open>Cbor_Decoder\<close> (\<open>decode/decoder.rs\<close>): every operation as a function of the input and the position;
  \<open>safe\<close> operations never leave the input, and \<open>yields\<close> says what an operation makes of some bytes
  wherever they stand.
  \<open>Cbor_Roundtrip\<close>: the decoder reads back what the encoder writes; the integer operations accept every
  head form and fail exactly outside of their range.
  \<open>Cbor_Item\<close>: well-formed CBOR as a relation \<open>encodes\<close>, independent of the code.
  \<open>Cbor_Iter\<close>: the iterators; the locale \<open>element_iter\<close> is what an iterator over elements promises and is
  interpreted on the array and the map iterator.
  \<open>Cbor_Skip\<close>: skipping in both versions; the loop ends because every round consumes input, and it
  passes exactly one well-formed item. With it, all reading operations are shown to stay inside the input.
  \<open>Cbor_Types\<close> (\<open>encode.rs\<close>, \<open>decode.rs\<close>, \<open>bytes.rs\<close>, the functions of \<open>lib.rs\<close>): the \<open>Encode\<close>, \<open>Decode\<close> and
  \<open>CborLen\<close> implementations for library types.
  \<open>Cbor_Codec\<close>: their contract \<open>carries\<close> - the announced length is the encoded one and the value comes
  back - as the locales \<open>codec\<close> and \<open>value_codec\<close>, interpreted on the basic types, options and vectors; every
  type constructor keeps it.
  \<open>Cbor_Impls\<close>: the contract for arrays, times, addresses, collections and structures; decoding ends on
  every input.
  \<open>Cbor_Token\<close> (\<open>data/token.rs\<close>) and \<open>Cbor_Tokenizer\<close> (\<open>decode/tokenizer.rs\<close>, \<open>decode/info.rs\<close>): tokens, the
  tokenizer and the stack machine that prints it, which implements the diagnostic notation of nested
  items; sizes announced by heads.
  \<open>Cbor_Io\<close> (\<open>minicbor-io/src\<close>): the blocking and asynchronous readers and writers of length-delimited values
  over a stream, which is the list of its answers; what they read depends on the bytes only, not on how
  they arrive, and a dropped call is resumed without loss.
  \<open>Cbor_Std\<close> (\<open>encode/write.rs\<close>): the adapter for sinks of the standard library keeps the contract \<open>byte_sink\<close>.

  \<^bold>\<open>The derive macros\<close> (\<open>minicbor-derive/src\<close>). A macro is modelled in two halves: what it makes of the item it
  is applied to, with the errors it reports, and what the code it generates does when it runs. The
  parsers of \<open>syn\<close> and the implementations of the field types are the parameter records \<open>syn\<close> and \<open>impls\<close>.
  \<open>Derive_Attrs\<close> (\<open>attrs.rs\<close>, \<open>attrs/\<close>): the attributes, and that accepted ones are consistent.
  \<open>Derive_Fields\<close> (\<open>fields.rs\<close>, \<open>variants.rs\<close>, \<open>is_option\<close> of \<open>lib.rs\<close>): fields sorted by index, variants.
  \<open>Derive_Code\<close> (\<open>encode.rs\<close>, \<open>decode.rs\<close>, \<open>cbor_len.rs\<close>): the generated code for structures and enumerations.
  \<open>Derive_Write\<close> and \<open>Derive_Read\<close>: what it writes and reads, element by element, under the contract \<open>field_impls\<close> of the
  field types, which \<open>Derive_Impls\<close> interprets on implementations of \<open>minicbor\<close>.
  \<open>Derive_Versions\<close>: versions of a structure understand each other; the round trip is the special case of one version.
  \<open>Derive_Enum\<close>: accepted variants, the round trip of enumerations, and what becomes of unknown variants.
  \<open>Derive_Len\<close>: the announced lengths, with the contract \<open>field_lengths\<close>. \<open>Derive_Keys\<close>: the order of the keys.
  \<open>Derive_Bounds\<close> (\<open>blacklist.rs\<close>, \<open>lifetimes.rs\<close>, \<open>lib.rs\<close>): the bounds of type parameters and the lifetimes of the input; for
  structures they suffice for the parameters that occur in the types (\<open>part_of\<close>), for enumerations they depend on the order of the variants.

  \<^bold>\<open>The adapter to serde\<close> (\<open>minicbor-serde/src\<close>). Values are the operations they run on the serializer, visitors are records
  of their methods and seeds operations on the deserializer.
  \<open>Serde_Code\<close> (\<open>ser.rs\<close>, \<open>de.rs\<close>, \<open>error.rs\<close>): every operation of the serializer, the deserializer and the access types.
  \<open>Serde_Any\<close>: what a visitor of self-describing input gets is the token the tokenizer would give.
  \<open>Serde_Round\<close>: the contract \<open>comes_back\<close>, as the locale \<open>serde_impls\<close>, interpreted on integers, text and vectors, is kept by
  sequences, tuples, maps, structures, options and variants.

  \<^bold>\<open>The producer\<close> (\<open>producers/fslatency\<close>).
  \<open>Fslat_Maps\<close> (\<open>maps.rs\<close>, \<open>constants.rs\<close>): the BPF maps as one state record. The kernel helpers, the memory
  they read and the eviction of the LRU map are the parameter record \<open>kernel\<close>; \<open>helpers_ok\<close> and \<open>maps_ok\<close>
  state what their documentation promises. \<open>bpf_loop\<close> runs its body for a bounded number of rounds.
  \<open>Fslat_Stats\<close>, \<open>Fslat_Path\<close>, \<open>Fslat_Message\<close>, \<open>Fslat_Probe\<close> (\<open>vfslatency-common/src/lib.rs\<close>, the probes of
  \<open>vfslatency-ebpf\<close>, the loader \<open>vfslatency/src/main.rs\<close>): the handlers, branch by branch; an unchecked
  unwrap of an error is the result \<open>Undefined\<close>.
  \<open>Fslat_Trace\<close>: runs of any tasks, one handler after the other, as a step relation, and an invariant of all
  reachable states.
  \<open>Fslat_Race\<close>: the exit handler in the steps between which another CPU can run: the scan, the sections under the
  lock of an entry, the message, reading and writing the counter. The runs of \<open>Fslat_Trace\<close> are among its runs; of the
  others it shows what is left of the numbering of the messages, and that numbers can be given twice.

  \<^bold>\<open>The daemon\<close> (\<open>daemon/ldms_stream\<close>, \<open>daemon/ebpf_ldms\<close>).
  \<open>Ldms_Stream\<close>: the transport over the C library of LDMS, a parameter that answers arbitrarily.
  \<open>Daemon_Time\<close>: time stamps, with the rounding of \<open>f64\<close> arithmetic on rational numbers.
  \<open>Daemon\<close>: command line, ring buffer loop, rate limits, start-up. Whether the program is built with overflow checks,
  whether the handler of Ctrl-C can be set and whether the cancelled task of the loop is dropped before the process
  ends are parameters. \<open>ciborium\<close>, \<open>serde_json\<close> and the limiter of
  \<open>burster\<close> are the parameter record \<open>packages\<close>; \<open>serde_ok\<close> states the documented laws of indexing,
  inserting and removing that the daemon relies on.

  \<^bold>\<open>Bounds.\<close> \<open>usize\<close> is 64 bits wide; inputs are shorter than \<open>2 ^ 64\<close> bytes, as every Rust slice is. All
  loops are total functions, except the loop over an arbitrary element decoder, which may run for
  ever and is a partial function into \<open>option\<close>.

  \<^bold>\<open>Not modelled.\<close> Logging, signals, resource limits and the asynchronous executor of the daemon and the
  loader (pure I/O); \<open>vmlinux.rs\<close> (generated bindings; the offset of one field is used); \<open>raw.rs\<close> beyond
  the calls it declares; the conversions and comparisons of \<open>bytes.rs\<close> that only unwrap; the
  tokens and spans the derive macros produce; \<open>collect_str\<close>, which only fails, and the forwarding of texts and sources of errors
  in \<open>minicbor-serde\<close>; tests, benchmarks, build scripts and deployment files.
\<close>

end
